(* ===== verification/Prelude.thy ===== *)
theory Prelude
  imports
    Main
    "HOL-Library.Word"
    "HOL-Library.Char_ord"
    "HOL-Library.List_Lexorder"
    "HOL-Library.Product_Lexorder"
    "HOL-Library.Multiset"
begin

unbundle bit_operations_syntax

text \<open>
  Shared vocabulary of the development: the machine-integer types of the Rust sources, strings
  and byte vectors, results (\<open>Result<T, E>\<close> is the sum \<open>'e + 'a\<close> with \<open>Inl\<close> for the error),
  the ordered map that stands for \<open>BTreeMap\<close>, big-endian byte splitting, decimal printing, and
  the generic lemmas and theorem collections the component theories use.
\<close>

section \<open>Machine integers, strings, results\<close>

type_synonym u8 = "8 word"
type_synonym u16 = "16 word"
type_synonym u32 = "32 word"
type_synonym u64 = "64 word"
type_synonym u128 = "128 word"

text \<open>A \<open>String\<close> is its UTF-8 bytes, one \<^typ>\<open>char\<close> each; a \<open>Vec<u8>\<close> is a list of bytes.\<close>

type_synonym bytes = "u8 list"

definition as_bytes :: "string \<Rightarrow> bytes" where
  "as_bytes s = map of_char s"

definition is_ok :: "'e + 'a \<Rightarrow> bool" where
  "is_ok r = (case r of Inl _ \<Rightarrow> False | Inr _ \<Rightarrow> True)"

text \<open>\<open>Result::map_err\<close>.\<close>

definition map_err :: "('e \<Rightarrow> 'f) \<Rightarrow> 'e + 'a \<Rightarrow> 'f + 'a" where
  "map_err f r = (case r of Inl e \<Rightarrow> Inl (f e) | Inr x \<Rightarrow> Inr x)"

text \<open>\<open>Result::map\<close>.\<close>

definition map_ok :: "('a \<Rightarrow> 'b) \<Rightarrow> 'e + 'a \<Rightarrow> 'e + 'b" where
  "map_ok f r = (case r of Inl e \<Rightarrow> Inl e | Inr x \<Rightarrow> Inr (f x))"

section \<open>Theorem collections\<close>

named_theorems bt_simps \<open>lookups in ordered maps after an update\<close>
named_theorems run_defs \<open>definitions unfolded to run the model on a concrete input\<close>

section \<open>Ordered maps\<close>

text \<open>
  \<open>BTreeMap<K, V>\<close> where the code iterates over it: the list of its entries in ascending key
  order. Maps that are only looked up and updated are plain HOL maps in the components.
\<close>

type_synonym ('k, 'v) btree = "('k \<times> 'v) list"

abbreviation (input) bt_get :: "('k, 'v) btree \<Rightarrow> 'k \<Rightarrow> 'v option" where
  "bt_get m k \<equiv> map_of m k"

fun bt_insert :: "'k::linorder \<Rightarrow> 'v \<Rightarrow> ('k, 'v) btree \<Rightarrow> ('k, 'v) btree" where
  "bt_insert k v [] = [(k, v)]"
| "bt_insert k v ((k', v') # m) =
     (if k < k' then (k, v) # (k', v') # m
      else if k = k' then (k, v) # m
      else (k', v') # bt_insert k v m)"

definition bt_remove :: "'k \<Rightarrow> ('k, 'v) btree \<Rightarrow> ('k, 'v) btree" where
  "bt_remove k m = filter (\<lambda>(k', _). k' \<noteq> k) m"

definition bt_wf :: "('k::linorder, 'v) btree \<Rightarrow> bool" where
  "bt_wf m = sorted_wrt (<) (map fst m)"

text \<open>
  The contract of an ordered map, as its clients use it: what a lookup returns after an update,
  and that every update keeps the representation invariant.
\<close>

locale ordered_map =
  fixes empty :: "'m"
    and get :: "'m \<Rightarrow> 'k::linorder \<Rightarrow> 'v option"
    and insert :: "'k \<Rightarrow> 'v \<Rightarrow> 'm \<Rightarrow> 'm"
    and remove :: "'k \<Rightarrow> 'm \<Rightarrow> 'm"
    and entries :: "'m \<Rightarrow> ('k \<times> 'v) list"
    and wf :: "'m \<Rightarrow> bool"
  assumes get_empty: "get empty k = None"
    and get_insert: "get (insert k v m) k' = (if k' = k then Some v else get m k')"
    and get_remove: "get (remove k m) k' = (if k' = k then None else get m k')"
    and wf_empty: "wf empty"
    and wf_insert: "wf m \<Longrightarrow> wf (insert k v m)"
    and wf_remove: "wf m \<Longrightarrow> wf (remove k m)"
    and entries_get: "wf m \<Longrightarrow> (k, v) \<in> set (entries m) \<longleftrightarrow> get m k = Some v"
    and entries_distinct: "wf m \<Longrightarrow> distinct (map fst (entries m))"
begin

text \<open>A later insert under the same key replaces the earlier one.\<close>

lemma get_insert_twice: "get (insert k v (insert k w m)) k' = get (insert k v m) k'"
  by (simp add: get_insert)

lemma get_insert_same: "get (insert k v m) k = Some v"
  by (simp add: get_insert)

lemma get_insert_other: "k' \<noteq> k \<Longrightarrow> get (insert k v m) k' = get m k'"
  by (simp add: get_insert)

text \<open>Iteration meets every key at most once, so a sum over the entries is a sum over the map.\<close>

lemma entries_unique:
  "wf m \<Longrightarrow> (k, v) \<in> set (entries m) \<Longrightarrow> (k, w) \<in> set (entries m) \<Longrightarrow> v = w"
  by (simp add: entries_get)

text \<open>An update changes what iteration yields at the updated key and nowhere else.\<close>

lemma entries_insert_iff:
  "wf m \<Longrightarrow> (k', w) \<in> set (entries (insert k v m)) \<longleftrightarrow>
     (if k' = k then w = v else (k', w) \<in> set (entries m))"
  by (auto simp: entries_get wf_insert get_insert)

lemma entries_remove_iff:
  "wf m \<Longrightarrow> (k', w) \<in> set (entries (remove k m)) \<longleftrightarrow> k' \<noteq> k \<and> (k', w) \<in> set (entries m)"
  by (auto simp: entries_get wf_remove get_remove)

end

lemma map_of_bt_insert [simp, bt_simps]: "map_of (bt_insert k v m) = (map_of m)(k \<mapsto> v)"
  by (induction k v m rule: bt_insert.induct) (auto simp: fun_eq_iff)

lemma map_of_bt_remove [simp, bt_simps]: "map_of (bt_remove k m) = (map_of m)(k := None)"
  by (induction m) (auto simp: bt_remove_def fun_eq_iff)

lemma set_keys_bt_insert: "fst ` set (bt_insert k v m) = insert k (fst ` set m)"
  by (induction k v m rule: bt_insert.induct) auto

lemma bt_wf_Nil [simp]: "bt_wf []"
  by (simp add: bt_wf_def)

lemma bt_wf_Cons: "bt_wf ((k, v) # m) \<longleftrightarrow> (\<forall>k' \<in> fst ` set m. k < k') \<and> bt_wf m"
  by (auto simp: bt_wf_def)

lemma bt_wf_insert [simp]: "bt_wf m \<Longrightarrow> bt_wf (bt_insert k v m)"
proof (induction k v m rule: bt_insert.induct)
  case (1 k v)
  then show ?case by (simp add: bt_wf_def)
next
  case (2 k v k' v' m)
  then show ?case
    by (force simp: bt_wf_Cons set_keys_bt_insert simp del: map_of_bt_insert)
qed

lemma bt_wf_filter [simp]: "bt_wf m \<Longrightarrow> bt_wf (filter P m)"
  by (induction m) (auto simp: bt_wf_def)

lemma bt_wf_remove [simp]: "bt_wf m \<Longrightarrow> bt_wf (bt_remove k m)"
  by (simp add: bt_remove_def)

lemma bt_wf_distinct: "bt_wf m \<Longrightarrow> distinct (map fst m)"
  by (simp add: bt_wf_def strict_sorted_iff)

lemma bt_get_mem: "bt_wf m \<Longrightarrow> (k, v) \<in> set m \<longleftrightarrow> bt_get m k = Some v"
  by (simp add: bt_wf_distinct)

interpretation bt: ordered_map "[]" bt_get bt_insert bt_remove "\<lambda>m. m" bt_wf
  by unfold_locales (simp_all add: bt_wf_distinct)

text \<open>Two well-formed ordered maps with the same lookups are the same list of entries.\<close>

lemma bt_wf_eqI:
  fixes m n :: "('k::linorder, 'v) btree"
  assumes "bt_wf m" and "bt_wf n" and "map_of m = map_of n"
  shows "m = n"
proof -
  have s: "set m = set n"
    using assms by (auto simp: bt_get_mem simp del: map_of_eq_Some_iff)
  have keys: "map fst m = map fst n"
    using assms(1,2) s by (intro strict_sorted_equal) (auto simp: bt_wf_def)
  have "m = map (\<lambda>k. (k, the (map_of m k))) (map fst m)"
    using assms(1) by (auto simp: bt_wf_distinct intro!: map_idI [symmetric])
  also have "\<dots> = map (\<lambda>k. (k, the (map_of n k))) (map fst n)"
    by (simp only: assms(3) keys)
  also have "\<dots> = n"
    using assms(2) by (auto simp: bt_wf_distinct intro!: map_idI)
  finally show ?thesis .
qed

section \<open>Digits, big-endian bytes, decimal printing\<close>

text \<open>The \<open>k\<close> digits of \<open>n\<close> to base \<open>b\<close>, most significant first, and their value.\<close>

fun digs :: "nat \<Rightarrow> nat \<Rightarrow> nat \<Rightarrow> nat list" where
  "digs b 0 n = []"
| "digs b (Suc k) n = digs b k (n div b) @ [n mod b]"

definition horner :: "nat \<Rightarrow> nat list \<Rightarrow> nat" where
  "horner b ds = foldl (\<lambda>a d. a * b + d) 0 ds"

lemma length_digs [simp]: "length (digs b k n) = k"
  by (induction k arbitrary: n) auto

lemma digs_less: "0 < b \<Longrightarrow> d \<in> set (digs b k n) \<Longrightarrow> d < b"
  by (induction k arbitrary: n) auto

lemma horner_snoc [simp]: "horner b (ds @ [d]) = horner b ds * b + d"
  by (simp add: horner_def)

lemma horner_digs: "horner b (digs b k n) = n mod b ^ k"
proof (induction k arbitrary: n)
  case 0
  then show ?case by (simp add: horner_def)
next
  case (Suc k)
  have "n mod (b * b ^ k) = b * (n div b mod b ^ k) + n mod b"
    by (rule mod_mult2_eq)
  with Suc show ?case by (simp add: mult.commute)
qed

text \<open>\<open>to_be_bytes\<close>: the \<open>k\<close> low bytes of a word, most significant first.\<close>

definition be_bytes :: "nat \<Rightarrow> 'a::len word \<Rightarrow> bytes" where
  "be_bytes k w = map (\<lambda>i. ucast (drop_bit (8 * i) w)) (rev [0..<k])"

lemma length_be_bytes [simp]: "length (be_bytes k w) = k"
  by (simp add: be_bytes_def)

lemma unat_low_byte: "unat (ucast (w :: 'a::len word) :: u8) = unat w mod 256"
  by (simp add: unsigned_ucast_eq take_bit_eq_mod)

lemma unat_drop_bit: "unat (drop_bit n (w :: 'a::len word)) = unat w div 2 ^ n"
proof -
  have "unat (drop_bit n w) = drop_bit n (unat w)"
    by (rule unat_drop_bit_eq)
  then show ?thesis
    by (simp only: drop_bit_eq_div)
qed

lemma be_bytes_digs: "map unat (be_bytes k w) = digs 256 k (unat w)"
proof -
  have pow: "(2::nat) ^ (8 * i) = 256 ^ i" for i
    by (simp add: power_mult)
  have "digs 256 k n = map (\<lambda>i. n div 256 ^ i mod 256) (rev [0..<k])" for k n
  proof (induction k arbitrary: n)
    case 0
    then show ?case by simp
  next
    case (Suc k)
    have "rev [0..<Suc k] = map Suc (rev [0..<k]) @ [0]"
      by (simp add: rev_map [symmetric] map_Suc_upt upt_conv_Cons del: upt_Suc)
    then show ?case
      by (simp add: Suc div_mult2_eq mult.commute del: upt_Suc)
  qed
  then show ?thesis
    by (simp only: be_bytes_def map_map comp_def unat_low_byte unat_drop_bit pow)
qed

lemma be_bytes_inj:
  assumes "be_bytes k v = be_bytes k (w :: 'a::len word)" and "2 ^ LENGTH('a) \<le> (256::nat) ^ k"
  shows "v = w"
proof -
  have "digs 256 k (unat v) = digs 256 k (unat w)"
    using assms(1) by (metis be_bytes_digs)
  then have "unat v mod 256 ^ k = unat w mod 256 ^ k"
    by (metis horner_digs)
  moreover have "unat v < 256 ^ k" "unat w < 256 ^ k"
    using assms(2) unsigned_less [of v, where 'a = nat] unsigned_less [of w, where 'a = nat]
    by linarith+
  ultimately have "unat v = unat w" by simp
  then show ?thesis by (rule word_unat_eq_iff [THEN iffD2])
qed

lemma unat_Suc_less:
  fixes v w :: "'a::len word"
  assumes "v < w"
  shows "unat (v + 1) = Suc (unat v)"
proof -
  have "unat v + 1 < 2 ^ LENGTH('a)"
    using assms unsigned_less [of w, where 'a = nat] unfolding word_less_nat_alt by linarith
  then show ?thesis
    by (simp add: unat_word_ariths)
qed

lemma word_less_le_Suc: "v < w \<Longrightarrow> (v + 1 :: 'a::len word) \<le> w"
  by (simp add: word_le_nat_alt word_less_nat_alt unat_Suc_less)

text \<open>\<open>Display\<close> for unsigned integers: decimal, no leading zeros.\<close>

definition dec_digit :: "nat \<Rightarrow> char" where
  "dec_digit d = char_of (48 + d)"

fun show_nat :: "nat \<Rightarrow> string" where
  "show_nat n = (if n < 10 then [dec_digit n] else show_nat (n div 10) @ [dec_digit (n mod 10)])"

declare show_nat.simps [simp del]

section \<open>Lists\<close>

text \<open>\<open>windows(2).all\<close> of a transitive relation is the pairwise relation.\<close>

lemma sorted_wrt_adjacent:
  assumes "transp r"
  shows "sorted_wrt r xs \<longleftrightarrow> (\<forall>i. Suc i < length xs \<longrightarrow> r (xs ! i) (xs ! Suc i))"
  using sorted_wrt_iff_nth_Suc_transp [OF assms] by blast

end
