(* ===== verification/Proto_Ids.thy ===== *)
theory Proto_Ids
  imports Prelude
begin

text \<open>
  \<open>credsync-protocol\<close>: the protocol errors (\<open>error.rs\<close>), the declared limits (\<open>limits.rs\<close>), the
  validated identifiers (\<open>ids.rs\<close>) and the bounded numbers (\<open>nums.rs\<close>). A newtype with a private
  field is a datatype with one constructor; its checking constructor \<open>X::new\<close> is \<open>x_new\<close>, a
  \<open>Result\<close>. \<open>usize\<close> lengths are \<^typ>\<open>nat\<close>; the numeric fields keep their width.
\<close>

section \<open>Errors\<close>

datatype protocol_error =
    TooLong string nat nat
  | BadCharset string string
  | Empty string
  | TooShort string nat nat
  | OutOfRange string u64 u64 u64
  | MalformedUuid
  | NotUuidV7 u8
  | TooManyItems string nat nat
  | NotAnObject string
  | FloatNotAllowed string
  | Inconsistent string
  | Malformed string

text \<open>\<open>impl Display for ProtocolError\<close>: the text that ends up in migration and quarantine reports.\<close>

fun protocol_error_display :: "protocol_error \<Rightarrow> string" where
  "protocol_error_display (TooLong field lim actual) =
     field @ '': '' @ show_nat actual @ '' bytes exceeds the '' @ show_nat lim @ ''-byte limit''"
| "protocol_error_display (BadCharset field expected) = field @ '': expected '' @ expected"
| "protocol_error_display (Empty field) = field @ '': must not be empty''"
| "protocol_error_display (TooShort field expected actual) =
     field @ '': '' @ show_nat actual @ '' characters, expected exactly '' @ show_nat expected"
| "protocol_error_display (OutOfRange field lo hi actual) =
     field @ '': '' @ show_nat (unat actual) @ '' is outside '' @ show_nat (unat lo) @ ''..='' @
     show_nat (unat hi)"
| "protocol_error_display MalformedUuid = ''command id: not a hyphenated lowercase UUID''"
| "protocol_error_display (NotUuidV7 found) =
     ''command id: expected UUID version 7, found version '' @ show_nat (unat found)"
| "protocol_error_display (TooManyItems field lim actual) =
     field @ '': '' @ show_nat actual @ '' items exceeds the limit of '' @ show_nat lim"
| "protocol_error_display (NotAnObject field) = field @ '': must be a JSON object''"
| "protocol_error_display (FloatNotAllowed field) =
     field @ '': floating-point numbers break canonical encoding and therefore scope digests; use '' @
     ''a scaled integer or a decimal string''"
| "protocol_error_display (Inconsistent detail) = ''inconsistent: '' @ detail"
| "protocol_error_display (Malformed detail) = ''malformed: '' @ detail"

section \<open>Limits\<close>

definition PROTOCOL_VERSION_MIN :: u16 where "PROTOCOL_VERSION_MIN = 1"
definition SCHEMA_VERSION_MIN :: u16 where "SCHEMA_VERSION_MIN = 1"
definition SCOPE_MAX_BYTES :: nat where "SCOPE_MAX_BYTES = 128"
definition ENTITY_MAX_BYTES :: nat where "ENTITY_MAX_BYTES = 64"
definition ENTITY_ID_MAX_BYTES :: nat where "ENTITY_ID_MAX_BYTES = 64"
definition COMMAND_NAME_MAX_BYTES :: nat where "COMMAND_NAME_MAX_BYTES = 64"
definition REASON_MAX_BYTES :: nat where "REASON_MAX_BYTES = 256"
definition HEX_CHARS :: nat where "HEX_CHARS = 32"
definition SNAPSHOT_MAX_BYTES :: nat where "SNAPSHOT_MAX_BYTES = 256 * 1024"
definition PAYLOAD_MAX_BYTES :: nat where "PAYLOAD_MAX_BYTES = 64 * 1024"
definition LIMIT_BYTES_MIN :: u32 where "LIMIT_BYTES_MIN = 1"
definition LIMIT_BYTES_MAX :: u32 where "LIMIT_BYTES_MAX = 1024 * 1024"
definition DEFAULT_BATCH_BUDGET_BYTES :: u32 where "DEFAULT_BATCH_BUDGET_BYTES = 100000"
definition COMMANDS_MAX_COUNT :: nat where "COMMANDS_MAX_COUNT = 256"
definition COMMANDS_MAX_TOTAL_BYTES :: nat where "COMMANDS_MAX_TOTAL_BYTES = 1024 * 1024"
definition SCOPES_MAX_COUNT :: nat where "SCOPES_MAX_COUNT = 64"
definition SEQ_MAX :: u64 where "SEQ_MAX = 0x7FFFFFFFFFFFFFFF"
definition SEQ_MIN :: u64 where "SEQ_MIN = 1"
definition CURSOR_START :: u64 where "CURSOR_START = 0"

lemmas limit_defs =
  PROTOCOL_VERSION_MIN_def SCHEMA_VERSION_MIN_def SCOPE_MAX_BYTES_def ENTITY_MAX_BYTES_def
  ENTITY_ID_MAX_BYTES_def COMMAND_NAME_MAX_BYTES_def REASON_MAX_BYTES_def HEX_CHARS_def
  SNAPSHOT_MAX_BYTES_def PAYLOAD_MAX_BYTES_def LIMIT_BYTES_MIN_def LIMIT_BYTES_MAX_def
  DEFAULT_BATCH_BUDGET_BYTES_def COMMANDS_MAX_COUNT_def COMMANDS_MAX_TOTAL_BYTES_def
  SCOPES_MAX_COUNT_def SEQ_MAX_def SEQ_MIN_def CURSOR_START_def

declare limit_defs [run_defs]

section \<open>Bounded strings\<close>

text \<open>\<open>checked\<close>: byte length first, then the character set, in the order the code tests them.\<close>

definition checked :: "string \<Rightarrow> string \<Rightarrow> nat \<Rightarrow> (char \<Rightarrow> bool) \<Rightarrow> string \<Rightarrow> protocol_error + unit" where
  "checked field expected mx ok s =
     (if s = [] then Inl (Empty field)
      else if length s > mx then Inl (TooLong field mx (length s))
      else if \<not> list_all ok s then Inl (BadCharset field expected)
      else Inr ())"

definition is_ascii_lowercase :: "char \<Rightarrow> bool" where
  "is_ascii_lowercase c = (CHR ''a'' \<le> c \<and> c \<le> CHR ''z'')"

definition is_ascii_uppercase :: "char \<Rightarrow> bool" where
  "is_ascii_uppercase c = (CHR ''A'' \<le> c \<and> c \<le> CHR ''Z'')"

definition is_ascii_digit :: "char \<Rightarrow> bool" where
  "is_ascii_digit c = (CHR ''0'' \<le> c \<and> c \<le> CHR ''9'')"

definition is_scope_byte :: "char \<Rightarrow> bool" where
  "is_scope_byte b =
     (is_ascii_lowercase b \<or> is_ascii_uppercase b \<or> is_ascii_digit b \<or>
      b \<in> {CHR '':'', CHR ''_'', CHR ''-''})"

definition is_lower_snake :: "char \<Rightarrow> bool" where
  "is_lower_snake b = (is_ascii_lowercase b \<or> is_ascii_digit b \<or> b = CHR ''_'')"

text \<open>\<open>is_ascii_graphic\<close>: from \<open>!\<close> to \<open>~\<close>.\<close>

definition is_entity_id_byte :: "char \<Rightarrow> bool" where
  "is_entity_id_byte b = (CHR ''!'' \<le> b \<and> b \<le> CHR ''~'')"

definition hex_nibble :: "char \<Rightarrow> u8 option" where
  "hex_nibble b =
     (if CHR ''0'' \<le> b \<and> b \<le> CHR ''9'' then Some (of_char b - 48)
      else if CHR ''a'' \<le> b \<and> b \<le> CHR ''f'' then Some (of_char b - 97 + 10)
      else None)"

definition is_lower_hex :: "char \<Rightarrow> bool" where
  "is_lower_hex b = (hex_nibble b \<noteq> None)"

lemmas charset_defs =
  is_ascii_lowercase_def is_ascii_uppercase_def is_ascii_digit_def is_scope_byte_def
  is_lower_snake_def is_entity_id_byte_def hex_nibble_def is_lower_hex_def

declare charset_defs [run_defs] checked_def [run_defs]

text \<open>A single-quoted character in an error text.\<close>

definition quoted :: "string \<Rightarrow> string" where
  "quoted s = [CHR 0x27] @ s @ [CHR 0x27]"

datatype scope_id = ScopeId (scope_str: string)
datatype entity_name = EntityName (entity_str: string)
datatype entity_id = EntityId (entity_id_str: string)
datatype command_name = CommandName (command_name_str: string)

definition scope_id_new :: "string \<Rightarrow> protocol_error + scope_id" where
  "scope_id_new s =
     map_ok (\<lambda>_. ScopeId s)
       (checked ''scope'' (''ASCII alphanumeric, '' @ quoted '':'' @ '', '' @ quoted ''_'' @ '' or '' @ quoted ''-'') SCOPE_MAX_BYTES is_scope_byte s)"

definition entity_name_new :: "string \<Rightarrow> protocol_error + entity_name" where
  "entity_name_new s =
     map_ok (\<lambda>_. EntityName s)
       (checked ''entity'' (''lowercase ASCII, digits or '' @ quoted ''_'') ENTITY_MAX_BYTES is_lower_snake s)"

definition entity_id_new :: "string \<Rightarrow> protocol_error + entity_id" where
  "entity_id_new s =
     map_ok (\<lambda>_. EntityId s)
       (checked ''entity_id'' ''printable ASCII without spaces'' ENTITY_ID_MAX_BYTES
          is_entity_id_byte s)"

definition command_name_new :: "string \<Rightarrow> protocol_error + command_name" where
  "command_name_new s =
     map_ok (\<lambda>_. CommandName s)
       (checked ''name'' (''lowercase ASCII, digits or '' @ quoted ''_'') COMMAND_NAME_MAX_BYTES
          is_lower_snake s)"

lemmas id_new_defs = scope_id_new_def entity_name_new_def entity_id_new_def command_name_new_def

declare id_new_defs [run_defs] map_ok_def [run_defs]

text \<open>The derived \<open>Ord\<close> of a string newtype is the byte order of the string.\<close>

instantiation scope_id :: linorder
begin
definition less_eq_scope_id :: "scope_id \<Rightarrow> scope_id \<Rightarrow> bool" where
  "less_eq_scope_id a b = (scope_str a \<le> scope_str b)"
definition less_scope_id :: "scope_id \<Rightarrow> scope_id \<Rightarrow> bool" where
  "less_scope_id a b = (scope_str a < scope_str b)"
instance
  by standard (auto simp: less_eq_scope_id_def less_scope_id_def intro: scope_id.expand)
end

instantiation entity_name :: linorder
begin
definition less_eq_entity_name :: "entity_name \<Rightarrow> entity_name \<Rightarrow> bool" where
  "less_eq_entity_name a b = (entity_str a \<le> entity_str b)"
definition less_entity_name :: "entity_name \<Rightarrow> entity_name \<Rightarrow> bool" where
  "less_entity_name a b = (entity_str a < entity_str b)"
instance
  by standard (auto simp: less_eq_entity_name_def less_entity_name_def intro: entity_name.expand)
end

instantiation entity_id :: linorder
begin
definition less_eq_entity_id :: "entity_id \<Rightarrow> entity_id \<Rightarrow> bool" where
  "less_eq_entity_id a b = (entity_id_str a \<le> entity_id_str b)"
definition less_entity_id :: "entity_id \<Rightarrow> entity_id \<Rightarrow> bool" where
  "less_entity_id a b = (entity_id_str a < entity_id_str b)"
instance
  by standard (auto simp: less_eq_entity_id_def less_entity_id_def intro: entity_id.expand)
end

instantiation command_name :: linorder
begin
definition less_eq_command_name :: "command_name \<Rightarrow> command_name \<Rightarrow> bool" where
  "less_eq_command_name a b = (command_name_str a \<le> command_name_str b)"
definition less_command_name :: "command_name \<Rightarrow> command_name \<Rightarrow> bool" where
  "less_command_name a b = (command_name_str a < command_name_str b)"
instance
  by standard
    (auto simp: less_eq_command_name_def less_command_name_def intro: command_name.expand)
end

lemmas id_order_defs [run_defs] =
  less_eq_scope_id_def less_scope_id_def less_eq_entity_name_def less_entity_name_def
  less_eq_entity_id_def less_entity_id_def less_eq_command_name_def less_command_name_def

text \<open>
  \<open>Reason\<close>: \<open>char::is_control\<close> is the category Cc, U+0000..U+001F and U+007F..U+009F. In UTF-8 the
  first group and U+007F are single bytes, and U+0080..U+009F are the pairs \<open>C2 80\<close>..\<open>C2 9F\<close>.
\<close>

fun has_control :: "string \<Rightarrow> bool" where
  "has_control [] = False"
| "has_control (c # cs) =
     (c < CHR '' '' \<or> c = CHR 0x7F \<or>
      (c = CHR 0xC2 \<and> (case cs of [] \<Rightarrow> False | d # _ \<Rightarrow> CHR 0x80 \<le> d \<and> d \<le> CHR 0x9F)) \<or>
      has_control cs)"

datatype reason = Reason (reason_str: string)

definition reason_new :: "string \<Rightarrow> protocol_error + reason" where
  "reason_new s =
     (if s = [] then Inl (Empty ''reason'')
      else if length s > REASON_MAX_BYTES then Inl (TooLong ''reason'' REASON_MAX_BYTES (length s))
      else if has_control s then Inl (BadCharset ''reason'' ''text without control characters'')
      else Inr (Reason s))"

datatype hex_string = HexString (hex_str: string)

definition hex_string_new_named :: "string \<Rightarrow> string \<Rightarrow> protocol_error + hex_string" where
  "hex_string_new_named field s =
     (case checked field ''lowercase hex'' HEX_CHARS is_lower_hex s of
        Inl e \<Rightarrow> Inl e
      | Inr _ \<Rightarrow>
          if length s \<noteq> HEX_CHARS then Inl (TooShort field HEX_CHARS (length s))
          else Inr (HexString s))"

definition hex_string_new :: "string \<Rightarrow> protocol_error + hex_string" where
  "hex_string_new s = hex_string_new_named ''digest'' s"

declare reason_new_def [run_defs] hex_string_new_named_def [run_defs] hex_string_new_def [run_defs]

section \<open>Command ids\<close>

text \<open>\<open>CommandId([u8; 16])\<close>. The array is a list of bytes; \<open>from_bytes\<close> is given sixteen.\<close>

datatype command_id = CommandId (command_bytes: bytes)

instantiation command_id :: linorder
begin
definition less_eq_command_id :: "command_id \<Rightarrow> command_id \<Rightarrow> bool" where
  "less_eq_command_id a b = (command_bytes a \<le> command_bytes b)"
definition less_command_id :: "command_id \<Rightarrow> command_id \<Rightarrow> bool" where
  "less_command_id a b = (command_bytes a < command_bytes b)"
instance
  by standard (auto simp: less_eq_command_id_def less_command_id_def intro: command_id.expand)
end

definition HYPHENS_AT :: "nat list" where "HYPHENS_AT = [8, 13, 18, 23]"
definition UUID_LEN :: nat where "UUID_LEN = 36"

definition command_id_from_bytes :: "bytes \<Rightarrow> protocol_error + command_id" where
  "command_id_from_bytes b =
     (let version = drop_bit 4 (b ! 6)
      in if version \<noteq> 7 then Inl (NotUuidV7 version) else Inr (CommandId b))"

text \<open>
  The loop of \<open>CommandId::parse\<close>: \<open>i\<close> walks the text, \<open>out\<close> holds the bytes written so far, so
  \<open>out_i\<close> is its length.
\<close>

function uuid_loop :: "string \<Rightarrow> nat \<Rightarrow> bytes \<Rightarrow> protocol_error + bytes" where
  "uuid_loop s i out =
     (if i < UUID_LEN then
        (if i \<in> set HYPHENS_AT then
           (if s ! i \<noteq> CHR ''-'' then Inl MalformedUuid else uuid_loop s (i + 1) out)
         else
           (case hex_nibble (s ! i) of
              None \<Rightarrow> Inl MalformedUuid
            | Some hi \<Rightarrow>
                (case (if i + 1 < length s then hex_nibble (s ! (i + 1)) else None) of
                   None \<Rightarrow> Inl MalformedUuid
                 | Some lo \<Rightarrow>
                     if length out \<ge> 16 then Inl MalformedUuid
                     else uuid_loop s (i + 2) (out @ [push_bit 4 hi OR lo]))))
      else if length out \<noteq> 16 then Inl MalformedUuid
      else Inr out)"
  by pat_completeness auto
termination
  by (relation "measure (\<lambda>(s, i, out). UUID_LEN - i)") auto

declare uuid_loop.simps [simp del]

definition command_id_parse :: "string \<Rightarrow> protocol_error + command_id" where
  "command_id_parse s =
     (if length s \<noteq> UUID_LEN then Inl MalformedUuid
      else case uuid_loop s 0 [] of Inl e \<Rightarrow> Inl e | Inr out \<Rightarrow> command_id_from_bytes out)"

text \<open>\<open>{byte:02x}\<close> and \<open>impl Display for CommandId\<close>.\<close>

definition hex_digit :: "nat \<Rightarrow> char" where
  "hex_digit v = (if v < 10 then char_of (48 + v) else char_of (97 + (v - 10)))"

definition hex2 :: "u8 \<Rightarrow> string" where
  "hex2 b = [hex_digit (unat b div 16), hex_digit (unat b mod 16)]"

definition command_id_to_string :: "command_id \<Rightarrow> string" where
  "command_id_to_string c =
     concat (map (\<lambda>(i, byte). (if i \<in> {4, 6, 8, 10} then ''-'' else []) @ hex2 byte)
       (enumerate (0 :: nat) (command_bytes c)))"

section \<open>Bounded numbers\<close>

text \<open>The body of the \<open>bounded_num!\<close> macro, for an inner type of any width.\<close>

definition bounded_num ::
  "string \<Rightarrow> 'a::len word \<Rightarrow> 'a word \<Rightarrow> ('a word \<Rightarrow> 'n) \<Rightarrow> 'a word \<Rightarrow> protocol_error + 'n" where
  "bounded_num field lo hi mk v =
     (if v < lo \<or> v > hi then Inl (OutOfRange field (ucast lo) (ucast hi) (ucast v))
      else Inr (mk v))"

datatype protocol_version = ProtocolVersion (protocol_get: u16)
datatype schema_version = SchemaVersion (schema_get: u16)
datatype seq = Seq (seq_get: u64)
datatype row_version = RowVersion (row_version_get: u64)
datatype limit_bytes = LimitBytes (limit_bytes_get: u32)
datatype cursor = Cursor (cursor_get: u64)

definition protocol_version_new :: "u16 \<Rightarrow> protocol_error + protocol_version" where
  "protocol_version_new =
     bounded_num ''protocol'' PROTOCOL_VERSION_MIN 0xFFFF ProtocolVersion"

definition schema_version_new :: "u16 \<Rightarrow> protocol_error + schema_version" where
  "schema_version_new =
     bounded_num ''schema_version'' SCHEMA_VERSION_MIN 0xFFFF SchemaVersion"

definition seq_new :: "u64 \<Rightarrow> protocol_error + seq" where
  "seq_new = bounded_num ''seq'' SEQ_MIN SEQ_MAX Seq"

definition row_version_new :: "u64 \<Rightarrow> protocol_error + row_version" where
  "row_version_new = bounded_num ''row_version'' SEQ_MIN SEQ_MAX RowVersion"

definition limit_bytes_new :: "u32 \<Rightarrow> protocol_error + limit_bytes" where
  "limit_bytes_new = bounded_num ''limit_bytes'' LIMIT_BYTES_MIN LIMIT_BYTES_MAX LimitBytes"

definition Cursor_START :: cursor where
  "Cursor_START = Cursor CURSOR_START"

definition cursor_new :: "u64 \<Rightarrow> protocol_error + cursor" where
  "cursor_new v =
     (if v > SEQ_MAX then Inl (OutOfRange ''cursor'' CURSOR_START SEQ_MAX v) else Inr (Cursor v))"

lemmas num_new_defs [run_defs] =
  bounded_num_def protocol_version_new_def schema_version_new_def seq_new_def
  row_version_new_def limit_bytes_new_def cursor_new_def Cursor_START_def

section \<open>Facts\<close>

text \<open>What a successful constructor says of its argument.\<close>

lemma checked_ok:
  "checked field expected mx ok s = Inr u \<longleftrightarrow> s \<noteq> [] \<and> length s \<le> mx \<and> list_all ok s"
  by (auto simp: checked_def)

lemma map_ok_Inr: "map_ok f r = Inr y \<longleftrightarrow> (\<exists>x. r = Inr x \<and> y = f x)"
  by (cases r) (auto simp: map_ok_def)

lemma entity_name_new_ok:
  "entity_name_new s = Inr n \<longleftrightarrow>
     n = EntityName s \<and> s \<noteq> [] \<and> length s \<le> ENTITY_MAX_BYTES \<and> list_all is_lower_snake s"
  by (auto simp: entity_name_new_def map_ok_Inr checked_ok)

lemma entity_id_new_ok:
  "entity_id_new s = Inr n \<longleftrightarrow>
     n = EntityId s \<and> s \<noteq> [] \<and> length s \<le> ENTITY_ID_MAX_BYTES \<and> list_all is_entity_id_byte s"
  by (auto simp: entity_id_new_def map_ok_Inr checked_ok)

lemma hex_string_new_ok:
  "hex_string_new s = Inr h \<longleftrightarrow> h = HexString s \<and> length s = HEX_CHARS \<and> list_all is_lower_hex s"
  by (auto simp: hex_string_new_def hex_string_new_named_def checked_ok HEX_CHARS_def
      split: sum.splits) (auto simp: checked_def HEX_CHARS_def split: if_splits)

lemma bounded_num_ok:
  "bounded_num field lo hi mk v = Inr n \<longleftrightarrow> n = mk v \<and> lo \<le> v \<and> v \<le> hi"
  by (auto simp: bounded_num_def)

end
