(* ===== verification/Proto_Canonical.thy ===== *)
theory Proto_Canonical
  imports Proto_Ids
begin

text \<open>
  Canonical encoding (\<open>credsync-protocol/src/canonical.rs\<close>). A value is turned into
  \<open>serde_json::Value\<close>, whose objects are \<open>BTreeMap\<close>s, and the value is encoded. \<open>Value\<close> is the
  datatype \<open>json\<close>; the encoder of \<open>serde_json\<close> and the two hash functions are not under \<open>src/\<close> and
  are the fields of the parameter record \<open>externs\<close>.
\<close>

section \<open>Values\<close>

text \<open>A \<open>Number\<close> is a non-negative integer, a negative one (its two's complement bits), or a float
  (its IEEE bits).\<close>

datatype json =
    JNull
  | JBool bool
  | JPosInt u64
  | JNegInt u64
  | JFloat u64
  | JString string
  | JArray "json list"
  | JObject "(string \<times> json) list"

definition json_is_object :: "json \<Rightarrow> bool" where
  "json_is_object v = (case v of JObject _ \<Rightarrow> True | _ \<Rightarrow> False)"

text \<open>\<open>Map\<close> is a \<open>BTreeMap\<close>: the entries sort by key whatever order the fields are written in.\<close>

definition json_object :: "(string \<times> json) list \<Rightarrow> json" where
  "json_object fields = JObject (foldl (\<lambda>m (k, v). bt_insert k v m) [] fields)"

text \<open>\<open>skip_serializing_if = "Option::is_none"\<close>.\<close>

definition opt_field :: "string \<Rightarrow> json option \<Rightarrow> (string \<times> json) list" where
  "opt_field name v = (case v of None \<Rightarrow> [] | Some j \<Rightarrow> [(name, j)])"

text \<open>An \<open>i64\<close> becomes a non-negative or a negative number.\<close>

definition json_i64 :: "u64 \<Rightarrow> json" where
  "json_i64 v = (if 0 \<le> sint v then JPosInt v else JNegInt v)"

section \<open>Code outside the repository\<close>

record externs =
  json_to_vec :: "json \<Rightarrow> string + bytes"
  xxh3_128 :: "bytes \<Rightarrow> u128"
  blake3 :: "bytes \<Rightarrow> bytes"

section \<open>The encoder\<close>

text \<open>
  \<open>to_vec\<close>: \<open>tv\<close> is the value's \<open>Serialize\<close> into \<open>Value\<close>. \<open>From<serde_json::Error>\<close> makes an encoder
  error a \<open>Malformed\<close>.
\<close>

definition canonical_to_vec :: "externs \<Rightarrow> ('a \<Rightarrow> json) \<Rightarrow> 'a \<Rightarrow> protocol_error + bytes" where
  "canonical_to_vec X tv v = map_err Malformed (json_to_vec X (tv v))"

definition canonicalize :: "externs \<Rightarrow> json \<Rightarrow> protocol_error + bytes" where
  "canonicalize X v = map_err Malformed (json_to_vec X v)"

text \<open>\<open>encoded_len\<close> streams the same bytes into a counting sink.\<close>

definition encoded_len :: "externs \<Rightarrow> ('a \<Rightarrow> json) \<Rightarrow> 'a \<Rightarrow> protocol_error + nat" where
  "encoded_len X tv v = map_ok length (canonical_to_vec X tv v)"

lemmas canonical_defs [run_defs] =
  canonical_to_vec_def canonicalize_def encoded_len_def map_err_def json_is_object_def
  json_object_def opt_field_def json_i64_def

section \<open>Facts\<close>

text \<open>The canonical form does not depend on the order the fields are declared in.\<close>

lemma bt_wf_fold_insert: "bt_wf m \<Longrightarrow> bt_wf (foldl (\<lambda>m (k, v). bt_insert k v m) m fs)"
  by (induction fs arbitrary: m) auto

lemma map_of_fold_insert:
  "map_of (foldl (\<lambda>m (k, v). bt_insert k v m) m fs) = map_of m ++ map_of (rev fs)"
  by (induction fs arbitrary: m) (auto simp: fun_eq_iff map_add_def split: option.splits)

lemma json_object_permute:
  assumes "distinct (map fst fs)" and "mset fs = mset gs"
  shows "json_object fs = json_object gs"
proof -
  have "distinct (map fst gs)"
    using assms by (metis mset_map mset_eq_imp_distinct_iff)
  moreover have "set fs = set gs"
    using assms(2) by (rule mset_eq_setD)
  ultimately have "map_of (rev fs) = map_of (rev gs)"
    using assms(1) \<open>distinct (map fst gs)\<close>
    by (subst map_of_inject_set) (simp_all add: rev_map [symmetric])
  then show ?thesis
    by (auto simp: json_object_def map_of_fold_insert bt_wf_fold_insert intro!: bt_wf_eqI)
qed

end
