(* ===== verification/Proto_Integrity.thy ===== *)
theory Proto_Integrity
  imports Proto_Canonical
begin

text \<open>
  Checksums and the scope digest (\<open>credsync-protocol/src/integrity.rs\<close>): the hexadecimal form of a
  128-bit value, the length-prefixed row preimage, and the incremental digest, a wrapping sum of row
  hashes. The lemmas give the digest's algebra (order, inverse), the injectivity of the preimage and
  of the hexadecimal form, and that the fallback branch of \<open>hex_u128\<close> is never taken.
\<close>

section \<open>Hexadecimal form\<close>

definition nibble :: "u8 \<Rightarrow> char" where
  "nibble v = (if v \<le> 9 then char_of (unat (48 + v)) else char_of (unat (97 + v - 10)))"

definition hex_text :: "u128 \<Rightarrow> string" where
  "hex_text v =
     concat (map (\<lambda>byte. [nibble (drop_bit 4 byte), nibble (byte AND 0x0f)]) (be_bytes 16 v))"

text \<open>\<open>hex_u128\<close> with its two fallbacks; \<^const>\<open>None\<close> is the \<open>unreachable!\<close>.\<close>

definition hex_u128_checked :: "u128 \<Rightarrow> hex_string option" where
  "hex_u128_checked v =
     (case hex_string_new (hex_text v) of
        Inr h \<Rightarrow> Some h
      | Inl _ \<Rightarrow> (case hex_string_new ''00'' of Inr h \<Rightarrow> Some h | Inl _ \<Rightarrow> None))"

definition hex_u128 :: "u128 \<Rightarrow> hex_string" where
  "hex_u128 v = the (hex_u128_checked v)"

text \<open>\<open>u128::from_be_bytes\<close>.\<close>

definition u128_from_be_bytes :: "bytes \<Rightarrow> u128" where
  "u128_from_be_bytes bs = foldl (\<lambda>a b. push_bit 8 a OR ucast b) 0 bs"

text \<open>
  \<open>u128::from_str_radix(_, 16)\<close> of the standard library: an optional sign \<open>+\<close>, digits of either
  case, \<^const>\<open>None\<close> for the empty string, another character or an overflow.
\<close>

definition radix16_digit :: "char \<Rightarrow> nat option" where
  "radix16_digit c =
     (if CHR ''0'' \<le> c \<and> c \<le> CHR ''9'' then Some (of_char c - 48)
      else if CHR ''a'' \<le> c \<and> c \<le> CHR ''f'' then Some (of_char c - 87)
      else if CHR ''A'' \<le> c \<and> c \<le> CHR ''F'' then Some (of_char c - 55)
      else None)"

fun radix16_from :: "nat \<Rightarrow> string \<Rightarrow> nat option" where
  "radix16_from acc [] = Some acc"
| "radix16_from acc (c # cs) =
     (case radix16_digit c of
        None \<Rightarrow> None
      | Some d \<Rightarrow>
          (if acc * 16 + d < 2 ^ 128 then radix16_from (acc * 16 + d) cs else None))"

definition u128_from_str_radix16 :: "string \<Rightarrow> u128 option" where
  "u128_from_str_radix16 s =
     (let t = (case s of c # cs \<Rightarrow> if c = CHR ''+'' then cs else s | [] \<Rightarrow> [])
      in if t = [] then None else map_option of_nat (radix16_from 0 t))"

section \<open>Checksums\<close>

definition checksum_bytes :: "externs \<Rightarrow> bytes \<Rightarrow> hex_string" where
  "checksum_bytes X bs = hex_u128 (xxh3_128 X bs)"

definition checksum :: "externs \<Rightarrow> ('a \<Rightarrow> json) \<Rightarrow> 'a \<Rightarrow> protocol_error + hex_string" where
  "checksum X tv v = map_ok (checksum_bytes X) (canonical_to_vec X tv v)"

definition payload_checksum_bytes :: "externs \<Rightarrow> bytes \<Rightarrow> hex_string" where
  "payload_checksum_bytes X bs = hex_u128 (u128_from_be_bytes (take 16 (blake3 X bs)))"

definition payload_checksum :: "externs \<Rightarrow> ('a \<Rightarrow> json) \<Rightarrow> 'a \<Rightarrow> protocol_error + hex_string" where
  "payload_checksum X tv v = map_ok (payload_checksum_bytes X) (canonical_to_vec X tv v)"

section \<open>The scope digest\<close>

definition row_preimage :: "entity_name \<Rightarrow> entity_id \<Rightarrow> row_version \<Rightarrow> bytes" where
  "row_preimage entity eid version =
     (let e = as_bytes (entity_str entity); i = as_bytes (entity_id_str eid)
      in be_bytes 8 (of_nat (length e) :: u64) @ e @ be_bytes 8 (of_nat (length i) :: u64) @ i @
         be_bytes 8 (row_version_get version))"

definition row_hash :: "externs \<Rightarrow> entity_name \<Rightarrow> entity_id \<Rightarrow> row_version \<Rightarrow> u128" where
  "row_hash X entity eid version = xxh3_128 X (row_preimage entity eid version)"

datatype scope_digest = ScopeDigest (digest_raw: u128)

definition ScopeDigest_EMPTY :: scope_digest where
  "ScopeDigest_EMPTY = ScopeDigest 0"

definition digest_add ::
  "externs \<Rightarrow> entity_name \<Rightarrow> entity_id \<Rightarrow> row_version \<Rightarrow> scope_digest \<Rightarrow> scope_digest" where
  "digest_add X entity eid v d = ScopeDigest (digest_raw d + row_hash X entity eid v)"

definition digest_remove ::
  "externs \<Rightarrow> entity_name \<Rightarrow> entity_id \<Rightarrow> row_version \<Rightarrow> scope_digest \<Rightarrow> scope_digest" where
  "digest_remove X entity eid v d = ScopeDigest (digest_raw d - row_hash X entity eid v)"

definition digest_update ::
  "externs \<Rightarrow> entity_name \<Rightarrow> entity_id \<Rightarrow> row_version \<Rightarrow> row_version \<Rightarrow> scope_digest \<Rightarrow>
   scope_digest" where
  "digest_update X entity eid from_v to_v d =
     digest_add X entity eid to_v (digest_remove X entity eid from_v d)"

type_synonym live_row = "entity_name \<times> entity_id \<times> row_version"

definition digest_from_rows :: "externs \<Rightarrow> live_row list \<Rightarrow> scope_digest" where
  "digest_from_rows X rows = foldl (\<lambda>d (e, i, v). digest_add X e i v d) ScopeDigest_EMPTY rows"

definition digest_to_hex :: "scope_digest \<Rightarrow> hex_string" where
  "digest_to_hex d = hex_u128 (digest_raw d)"

definition digest_from_raw :: "u128 \<Rightarrow> scope_digest" where
  "digest_from_raw v = ScopeDigest v"

named_theorems digest_defs \<open>the digest operations as arithmetic on the accumulator\<close>

declare digest_add_def [digest_defs] digest_remove_def [digest_defs] digest_update_def [digest_defs]
  ScopeDigest_EMPTY_def [digest_defs] digest_from_raw_def [digest_defs]

lemmas integrity_defs [run_defs] =
  nibble_def hex_text_def hex_u128_checked_def hex_u128_def checksum_bytes_def checksum_def
  row_preimage_def row_hash_def digest_to_hex_def digest_from_rows_def
  digest_add_def digest_remove_def digest_update_def ScopeDigest_EMPTY_def digest_from_raw_def

section \<open>Facts about the hexadecimal form\<close>

lemma hex_digits_of_bytes:
  "concat (map (\<lambda>b. [b div 16, b mod 16]) (digs 256 k n)) = digs 16 (2 * k) n"
proof (induction k arbitrary: n)
  case 0
  then show ?case by simp
next
  case (Suc k)
  have "n mod 256 div 16 = n div 16 mod 16" "n mod 256 mod 16 = n mod 16" "n div 256 = n div 16 div 16"
    using mod_mult2_eq [of n 16 16] by (simp_all add: mod_mod_cancel div_mult2_eq [symmetric])
  then show ?case
    by (simp add: Suc)
qed

lemma nibble_hex_digit: "unat v < 16 \<Longrightarrow> nibble v = hex_digit (unat v)"
proof -
  assume v: "unat v < 16"
  have "unat (48 + v) = 48 + unat v"
    using v by (simp add: unat_word_ariths)
  moreover have "unat (97 + v - 10) = 97 + (unat v - 10)" if "\<not> v \<le> 9"
  proof -
    have "97 + v - 10 = v + 87" by simp
    then show ?thesis
      using v that by (simp add: unat_word_ariths word_le_nat_alt)
  qed
  ultimately show ?thesis
    by (auto simp: nibble_def hex_digit_def word_le_nat_alt)
qed

lemma hex_text_digits: "hex_text v = map hex_digit (digs 16 32 (unat v))"
proof -
  have hi: "unat (drop_bit 4 b) = unat b div 16" for b :: u8
    using unat_drop_bit [of 4 b] by simp
  have lo: "unat (b AND 0x0f) = unat b mod 16" for b :: u8
  proof -
    have "b AND 0x0f = take_bit 4 b"
      by (simp add: take_bit_eq_mask mask_eq_exp_minus_1)
    then show ?thesis
      by (simp add: take_bit_eq_mod unat_mod)
  qed
  then have "[nibble (drop_bit 4 b), nibble (b AND 0x0f)] = map hex_digit [unat b div 16, unat b mod 16]"
    for b :: u8
    using unsigned_less [of b, where 'a = nat] by (simp add: nibble_hex_digit hi lo)
  then have "hex_text v = concat (map (\<lambda>b. map hex_digit [b div 16, b mod 16]) (map unat (be_bytes 16 v)))"
    by (simp add: hex_text_def comp_def del: list.map)
  also have "\<dots> = map hex_digit (concat (map (\<lambda>b. [b div 16, b mod 16]) (map unat (be_bytes 16 v))))"
    by (simp add: map_concat comp_def)
  finally show ?thesis
    by (simp add: be_bytes_digs hex_digits_of_bytes)
qed

lemma hex_digit_table:
  "list_all (\<lambda>d. is_lower_hex (hex_digit d) \<and> radix16_digit (hex_digit d) = Some d \<and>
      hex_digit d \<noteq> CHR ''+'') [0..<16]"
  by code_simp

lemma hex_digit_props:
  assumes "d < 16"
  shows "is_lower_hex (hex_digit d)" "radix16_digit (hex_digit d) = Some d"
    "hex_digit d \<noteq> CHR ''+''"
  using hex_digit_table assms by (simp_all add: list_all_iff del: upt.simps)

lemma hex_u128_eq: "hex_u128_checked v = Some (HexString (hex_text v))"
proof -
  have "hex_string_new (hex_text v) = Inr (HexString (hex_text v))"
    using digs_less [of 16]
    by (simp add: hex_string_new_ok hex_text_digits HEX_CHARS_def list_all_iff hex_digit_props(1))
  then show ?thesis
    by (simp add: hex_u128_checked_def)
qed

lemma hex_u128_text: "hex_u128 v = HexString (hex_text v)"
  by (simp add: hex_u128_def hex_u128_eq)

lemma radix16_from_digits:
  "horner 16 (as @ ds) < 2 ^ 128 \<Longrightarrow> \<forall>d \<in> set ds. d < 16 \<Longrightarrow>
   radix16_from (horner 16 as) (map hex_digit ds) = Some (horner 16 (as @ ds))"
proof (induction ds arbitrary: as)
  case Nil
  then show ?case by simp
next
  case (Cons d ds)
  have mono: "horner 16 as \<le> horner 16 (as @ ds)" for as ds
    by (induction ds rule: rev_induct) (auto simp flip: append_assoc)
  have "horner 16 (as @ [d]) < 2 ^ 128"
    using Cons.prems(1) mono [of "as @ [d]" ds] by simp
  with Cons.IH [of "as @ [d]"] Cons.prems show ?case
    by (simp add: hex_digit_props)
qed

lemma from_hex_text: "u128_from_str_radix16 (hex_text v) = Some v"
proof -
  have 0: "horner 16 [] = 0" by (simp add: horner_def)
  have val: "horner 16 (digs 16 32 (unat v)) = unat v"
    using unsigned_less [of v, where 'a = nat] by (simp add: horner_digs)
  have dig: "\<forall>d \<in> set (digs 16 32 (unat v)). d < 16"
    using digs_less by simp
  have "radix16_from 0 (hex_text v) = Some (unat v)"
    using radix16_from_digits [of "[]" "digs 16 32 (unat v)", OF _ dig, unfolded append_Nil 0 val]
      unsigned_less [of v, where 'a = nat] by (simp add: hex_text_digits)
  moreover obtain d ds where ds: "digs 16 32 (unat v) = d # ds"
    using length_digs [of 16 32 "unat v"] by (cases "digs 16 32 (unat v)") auto
  ultimately show ?thesis
    using dig hex_digit_props(3) [of d] by (simp add: u128_from_str_radix16_def hex_text_digits)
qed

lemma digest_to_hex_inj: "digest_to_hex d = digest_to_hex d' \<longleftrightarrow> d = d'"
proof -
  have "hex_text v = hex_text w \<Longrightarrow> v = w" for v w
    using from_hex_text by (metis option.inject)
  then show ?thesis
    unfolding digest_to_hex_def hex_u128_text by (cases d; cases d') auto
qed

section \<open>The digest's algebra\<close>

text \<open>The digest of a list of rows is the wrapping sum of the row hashes.\<close>

definition live_hash :: "externs \<Rightarrow> live_row \<Rightarrow> u128" where
  "live_hash X r = (case r of (e, i, v) \<Rightarrow> row_hash X e i v)"

lemma live_hash_simp [simp]: "live_hash X (e, i, v) = row_hash X e i v"
  by (simp add: live_hash_def)

lemma foldl_digest_add:
  "digest_raw (foldl (\<lambda>d (e, i, v). digest_add X e i v d) d rows) =
   digest_raw d + sum_list (map (live_hash X) rows)"
  by (induction rows arbitrary: d) (auto simp: digest_add_def algebra_simps)

lemma digest_from_rows_sum:
  "digest_from_rows X rows = ScopeDigest (sum_list (map (live_hash X) rows))"
  by (intro scope_digest.expand) (simp add: digest_from_rows_def foldl_digest_add ScopeDigest_EMPTY_def)

lemma digest_from_rows_mset:
  "mset rows = mset rows' \<Longrightarrow> digest_from_rows X rows = digest_from_rows X rows'"
  by (metis digest_from_rows_sum mset_map sum_mset_sum_list)

lemma digest_remove_add [simp]:
  "digest_remove X e i v (digest_add X e i v d) = d"
  "digest_add X e i v (digest_remove X e i v d) = d"
  by (simp_all add: digest_defs)

section \<open>The preimage determines the row\<close>

lemma as_bytes_inj: "as_bytes s = as_bytes t \<Longrightarrow> s = t"
proof (unfold as_bytes_def, rule map_injective, assumption)
  have "unat (word_of_nat (of_char c) :: u8) = of_char c" for c
    by (simp add: unat_of_nat)
  then have "unat (of_char c :: u8) = of_char c" for c
    by (simp only: of_nat_of_char)
  then have "char_of (unat (of_char c :: u8)) = c" for c
    by simp
  then show "inj (of_char :: char \<Rightarrow> u8)"
    by (metis injI)
qed

lemma length_as_bytes [simp]: "length (as_bytes s) = length s"
  by (simp add: as_bytes_def)

lemma be8_inj:
  fixes v w :: u64
  shows "be_bytes 8 v = be_bytes 8 w \<longleftrightarrow> v = w"
  using be_bytes_inj [of 8 v w] by auto

lemma be8_length_inj:
  "be_bytes 8 (of_nat m :: u64) = be_bytes 8 (of_nat n :: u64) \<Longrightarrow> m < 2 ^ 64 \<Longrightarrow> n < 2 ^ 64 \<Longrightarrow> m = n"
  unfolding be8_inj by (drule arg_cong [of _ _ unat]) (simp add: unat_of_nat)

lemma row_preimage_inj:
  assumes eq: "row_preimage e i v = row_preimage e' i' v'"
    and len: "length (entity_str e) < 2 ^ 64" "length (entity_str e') < 2 ^ 64"
      "length (entity_id_str i) < 2 ^ 64" "length (entity_id_str i') < 2 ^ 64"
  shows "e = e' \<and> i = i' \<and> v = v'"
proof -
  let ?n = "\<lambda>s. be_bytes 8 (of_nat (length s) :: u64)"
  have "?n (entity_str e) = ?n (entity_str e')"
    and r1: "as_bytes (entity_str e) @ ?n (entity_id_str i) @ as_bytes (entity_id_str i) @
      be_bytes 8 (row_version_get v) = as_bytes (entity_str e') @ ?n (entity_id_str i') @
      as_bytes (entity_id_str i') @ be_bytes 8 (row_version_get v')"
    using eq by (simp_all add: row_preimage_def Let_def)
  then have "length (entity_str e) = length (entity_str e')"
    using len by (intro be8_length_inj)
  with r1 have "as_bytes (entity_str e) = as_bytes (entity_str e')"
    and "?n (entity_id_str i) = ?n (entity_id_str i')"
    and r2: "as_bytes (entity_id_str i) @ be_bytes 8 (row_version_get v) =
      as_bytes (entity_id_str i') @ be_bytes 8 (row_version_get v')"
    by simp_all
  moreover from this have "length (entity_id_str i) = length (entity_id_str i')"
    using len by (intro be8_length_inj)
  ultimately show ?thesis
    by (auto simp: be8_inj intro!: entity_name.expand entity_id.expand row_version.expand
        dest: as_bytes_inj)
qed

end
