(* ===== verification/Proto_Wire.thy ===== *)
theory Proto_Wire
  imports Proto_Integrity
begin

text \<open>
  The wire types (\<open>credsync-protocol/src/wire.rs\<close>) with their checking methods, their
  \<open>Serialize\<close> into a JSON value, and the decoding mirrors (\<open>validated.rs\<close>) with the \<open>TryFrom\<close>
  that binds every cross-field rule to decoding. Field names carry a prefix per record.
\<close>

section \<open>Host documents\<close>

text \<open>\<open>Document<MAX, FIELD>\<close> at its two instances.\<close>

datatype snapshot = Snapshot (snapshot_value: json)
datatype payload = Payload (payload_value: json)

fun reject_floats :: "string \<Rightarrow> json \<Rightarrow> protocol_error + unit"
  and reject_floats_items :: "string \<Rightarrow> json list \<Rightarrow> protocol_error + unit"
  and reject_floats_values :: "string \<Rightarrow> (string \<times> json) list \<Rightarrow> protocol_error + unit" where
  "reject_floats field (JFloat _) = Inl (FloatNotAllowed field)"
| "reject_floats field (JArray items) = reject_floats_items field items"
| "reject_floats field (JObject m) = reject_floats_values field m"
| "reject_floats field _ = Inr ()"
| "reject_floats_items field [] = Inr ()"
| "reject_floats_items field (v # vs) =
     (case reject_floats field v of Inl e \<Rightarrow> Inl e | Inr _ \<Rightarrow> reject_floats_items field vs)"
| "reject_floats_values field [] = Inr ()"
| "reject_floats_values field ((k, v) # m) =
     (case reject_floats field v of Inl e \<Rightarrow> Inl e | Inr _ \<Rightarrow> reject_floats_values field m)"

definition document_new ::
  "externs \<Rightarrow> nat \<Rightarrow> string \<Rightarrow> (json \<Rightarrow> 'd) \<Rightarrow> json \<Rightarrow> protocol_error + 'd" where
  "document_new X mx field mk v =
     (if \<not> json_is_object v then Inl (NotAnObject field)
      else case reject_floats field v of
        Inl e \<Rightarrow> Inl e
      | Inr _ \<Rightarrow>
          (case canonicalize X v of
             Inl e \<Rightarrow> Inl e
           | Inr bs \<Rightarrow>
               if length bs > mx then Inl (TooLong field mx (length bs)) else Inr (mk v)))"

definition snapshot_new :: "externs \<Rightarrow> json \<Rightarrow> protocol_error + snapshot" where
  "snapshot_new X v = document_new X SNAPSHOT_MAX_BYTES ''snapshot'' Snapshot v"

definition payload_new :: "externs \<Rightarrow> json \<Rightarrow> protocol_error + payload" where
  "payload_new X v = document_new X PAYLOAD_MAX_BYTES ''payload'' Payload v"

lemmas document_defs [run_defs] = document_new_def snapshot_new_def payload_new_def

section \<open>The change log on the wire\<close>

datatype op = Upsert | Delete

datatype conflict_class = ServerAuthoritative | OwnerDraft | AppendOnly

definition accepts_commands :: "conflict_class \<Rightarrow> bool" where
  "accepts_commands c = (\<not> (case c of ServerAuthoritative \<Rightarrow> True | _ \<Rightarrow> False))"

record entity_registration =
  reg_entity :: entity_name
  reg_scope :: scope_id
  reg_class :: conflict_class
  reg_schema_version :: schema_version

record change =
  chg_seq :: seq
  chg_entity :: entity_name
  chg_entity_id :: entity_id
  chg_op :: op
  chg_snapshot :: "snapshot option"
  chg_row_version :: row_version
  chg_schema_version :: schema_version

definition change_validate :: "change \<Rightarrow> protocol_error + unit" where
  "change_validate c =
     (case (chg_op c, chg_snapshot c \<noteq> None) of
        (Upsert, False) \<Rightarrow> Inl (Inconsistent ''op=upsert requires a snapshot'')
      | (Delete, True) \<Rightarrow> Inl (Inconsistent ''op=delete must not carry a snapshot'')
      | _ \<Rightarrow> Inr ())"

record batch =
  bat_scope :: scope_id
  bat_changes :: "change list"
  bat_next_cursor :: cursor
  bat_has_more :: bool
  bat_checksum :: hex_string
  bat_digest :: hex_string

text \<open>\<open>windows(2).all(...)\<close>.\<close>

fun windows2_all :: "('a \<Rightarrow> 'a \<Rightarrow> bool) \<Rightarrow> 'a list \<Rightarrow> bool" where
  "windows2_all p (a # b # xs) = (p a b \<and> windows2_all p (b # xs))"
| "windows2_all p _ = True"

definition batch_validate_ordering :: "batch \<Rightarrow> protocol_error + unit" where
  "batch_validate_ordering b =
     (if windows2_all (\<lambda>x y. seq_get (chg_seq x) < seq_get (chg_seq y)) (bat_changes b)
      then Inr ()
      else Inl (Inconsistent ''changes must be strictly seq-ordered within a scope''))"

section \<open>Pull and bootstrap\<close>

record scope_cursor =
  sc_scope :: scope_id
  sc_cursor :: cursor

record pull_request =
  plq_protocol :: protocol_version
  plq_scopes :: "scope_cursor list"
  plq_limit_bytes :: "limit_bytes option"

definition pull_request_validate :: "pull_request \<Rightarrow> protocol_error + unit" where
  "pull_request_validate r =
     (if length (plq_scopes r) > SCOPES_MAX_COUNT
      then Inl (TooManyItems ''scopes'' SCOPES_MAX_COUNT (length (plq_scopes r)))
      else Inr ())"

record pull_response =
  plr_protocol :: protocol_version
  plr_batches :: "batch list"

record bootstrap_request =
  bsq_protocol :: protocol_version
  bsq_scope :: scope_id
  bsq_after :: cursor

record bootstrap_response =
  bsr_protocol :: protocol_version
  bsr_scope :: scope_id
  bsr_changes :: "change list"
  bsr_next_cursor :: cursor
  bsr_has_more :: bool
  bsr_checksum :: hex_string
  bsr_digest :: hex_string

section \<open>Commands\<close>

text \<open>\<open>client_ts\<close> is an \<open>i64\<close>, kept as its 64 bits and read with \<open>sint\<close>.\<close>

record command =
  cmd_id :: command_id
  cmd_name :: command_name
  cmd_scope :: scope_id
  cmd_payload :: payload
  cmd_client_ts :: u64
  cmd_checksum :: hex_string

definition command_to_value :: "command \<Rightarrow> json" where
  "command_to_value c =
     json_object
       [(''id'', JString (command_id_to_string (cmd_id c))),
        (''name'', JString (command_name_str (cmd_name c))),
        (''scope'', JString (scope_str (cmd_scope c))),
        (''payload'', payload_value (cmd_payload c)),
        (''client_ts'', json_i64 (cmd_client_ts c)),
        (''checksum'', JString (hex_str (cmd_checksum c)))]"

record push_request =
  psq_protocol :: protocol_version
  psq_commands :: "command list"

definition commands_to_value :: "command list \<Rightarrow> json" where
  "commands_to_value cs = JArray (map command_to_value cs)"

definition push_request_validate :: "externs \<Rightarrow> push_request \<Rightarrow> protocol_error + unit" where
  "push_request_validate X r =
     (if length (psq_commands r) > COMMANDS_MAX_COUNT
      then Inl (TooManyItems ''commands'' COMMANDS_MAX_COUNT (length (psq_commands r)))
      else case encoded_len X commands_to_value (psq_commands r) of
        Inl e \<Rightarrow> Inl e
      | Inr n \<Rightarrow>
          if n > COMMANDS_MAX_TOTAL_BYTES
          then Inl (TooLong ''commands'' COMMANDS_MAX_TOTAL_BYTES n)
          else Inr ())"

datatype status = Applied | Rejected | Superseded

record command_result =
  res_id :: command_id
  res_status :: status
  res_reason :: "reason option"
  res_server_seq :: "seq option"

definition command_result_validate :: "command_result \<Rightarrow> protocol_error + unit" where
  "command_result_validate r =
     (if res_status r = Rejected \<and> res_reason r = None
      then Inl (Inconsistent ''status=rejected requires a reason'')
      else Inr ())"

record push_response =
  psr_protocol :: protocol_version
  psr_results :: "command_result list"

record forced_upgrade =
  fup_min_protocol :: protocol_version
  fup_current_protocol :: protocol_version
  fup_reason :: reason

section \<open>Serialization of the change log\<close>

definition op_to_value :: "op \<Rightarrow> json" where
  "op_to_value o' = JString (case o' of Upsert \<Rightarrow> ''upsert'' | Delete \<Rightarrow> ''delete'')"

definition change_to_value :: "change \<Rightarrow> json" where
  "change_to_value c =
     json_object
       ([(''seq'', JPosInt (seq_get (chg_seq c))),
         (''entity'', JString (entity_str (chg_entity c))),
         (''entity_id'', JString (entity_id_str (chg_entity_id c))),
         (''op'', op_to_value (chg_op c))] @
        opt_field ''snapshot'' (map_option snapshot_value (chg_snapshot c)) @
        [(''row_version'', JPosInt (row_version_get (chg_row_version c))),
         (''schema_version'', JPosInt (ucast (schema_get (chg_schema_version c))))])"

definition changes_to_value :: "change list \<Rightarrow> json" where
  "changes_to_value cs = JArray (map change_to_value cs)"

section \<open>Decoding mirrors\<close>

text \<open>
  \<open>Bounded::visit_seq\<close>: elements are decoded one at a time and never past \<open>MAX\<close>; one more element
  is only probed for. \<open>decode\<close> is the element's \<open>Deserialize\<close> and \<open>custom\<close> the decoder's own error.
\<close>

fun bounded_loop ::
  "nat \<Rightarrow> ('t \<Rightarrow> 'e + 'a) \<Rightarrow> 'e \<Rightarrow> 't list \<Rightarrow> 'a list \<Rightarrow> 'e + 'a list" where
  "bounded_loop mx decode custom [] out = Inr out"
| "bounded_loop mx decode custom (t # ts) out =
     (if length out < mx then
        (case decode t of
           Inl e \<Rightarrow> Inl e
         | Inr item \<Rightarrow> bounded_loop mx decode custom ts (out @ [item]))
      else Inl custom)"

definition bounded_visit_seq ::
  "nat \<Rightarrow> ('t \<Rightarrow> 'e + 'a) \<Rightarrow> 'e \<Rightarrow> 't list \<Rightarrow> 'e + 'a list" where
  "bounded_visit_seq mx decode custom ts = bounded_loop mx decode custom ts []"

text \<open>A mirror has the fields of its record, so \<open>TryFrom\<close> rebuilds the record and validates it.\<close>

definition change_try_from :: "change \<Rightarrow> protocol_error + change" where
  "change_try_from r = (case change_validate r of Inl e \<Rightarrow> Inl e | Inr _ \<Rightarrow> Inr r)"

definition batch_try_from :: "batch \<Rightarrow> protocol_error + batch" where
  "batch_try_from r = (case batch_validate_ordering r of Inl e \<Rightarrow> Inl e | Inr _ \<Rightarrow> Inr r)"

definition command_result_try_from :: "command_result \<Rightarrow> protocol_error + command_result" where
  "command_result_try_from r =
     (case command_result_validate r of Inl e \<Rightarrow> Inl e | Inr _ \<Rightarrow> Inr r)"

definition push_request_try_from :: "externs \<Rightarrow> push_request \<Rightarrow> protocol_error + push_request" where
  "push_request_try_from X r =
     (case push_request_validate X r of Inl e \<Rightarrow> Inl e | Inr _ \<Rightarrow> Inr r)"

definition pull_request_try_from :: "pull_request \<Rightarrow> protocol_error + pull_request" where
  "pull_request_try_from r =
     (case pull_request_validate r of Inl e \<Rightarrow> Inl e | Inr _ \<Rightarrow> Inr r)"

lemmas wire_defs [run_defs] =
  accepts_commands_def change_validate_def batch_validate_ordering_def pull_request_validate_def
  command_to_value_def commands_to_value_def push_request_validate_def
  command_result_validate_def op_to_value_def change_to_value_def changes_to_value_def
  bounded_visit_seq_def change_try_from_def batch_try_from_def command_result_try_from_def
  push_request_try_from_def pull_request_try_from_def

section \<open>Facts\<close>

lemma windows2_all_iff: "transp p \<Longrightarrow> windows2_all p xs \<longleftrightarrow> sorted_wrt p xs"
proof (induction p xs rule: windows2_all.induct)
  case (1 p a b xs)
  then show ?case by (auto dest: transpD)
qed simp_all

definition seq_lt :: "change \<Rightarrow> change \<Rightarrow> bool" where
  "seq_lt x y = (seq_get (chg_seq x) < seq_get (chg_seq y))"

lemma transp_seq_lt: "transp seq_lt"
  by (auto simp: transp_def seq_lt_def)

lemma batch_ordering_iff:
  "batch_validate_ordering b = Inr () \<longleftrightarrow> sorted_wrt seq_lt (bat_changes b)"
  using windows2_all_iff [OF transp_seq_lt, of "bat_changes b"]
  by (simp add: batch_validate_ordering_def seq_lt_def [abs_def])

lemma change_validate_iff:
  "change_validate c = Inr () \<longleftrightarrow> (chg_op c = Upsert \<longleftrightarrow> chg_snapshot c \<noteq> None)"
  by (cases "chg_op c"; cases "chg_snapshot c") (auto simp: change_validate_def)

lemma bounded_loop_ok:
  "bounded_loop mx decode custom ts out = Inr xs \<Longrightarrow> length out \<le> mx \<Longrightarrow>
   length xs \<le> mx \<and> length xs = length out + length ts \<and>
   (\<forall>i < length ts. decode (ts ! i) = Inr (xs ! (length out + i))) \<and> take (length out) xs = out"
proof (induction ts arbitrary: out)
  case Nil
  then show ?case by simp
next
  case (Cons t ts)
  then obtain item where item: "decode t = Inr item" "length out < mx"
    and rest: "bounded_loop mx decode custom ts (out @ [item]) = Inr xs"
    by (auto split: if_splits sum.splits)
  have IH: "length xs \<le> mx \<and> length xs = length out + 1 + length ts \<and>
      (\<forall>i < length ts. decode (ts ! i) = Inr (xs ! (length out + 1 + i))) \<and>
      take (length out + 1) xs = out @ [item]"
    using Cons.IH [OF rest] item by simp
  then have "xs ! length out = item" and "take (length out) xs = out"
    by (metis length_append_singleton lessI nth_append_length nth_take semiring_norm(174) Suc_eq_plus1)
      (metis IH append_eq_conv_conj append_take_drop_id append_assoc)
  with IH item show ?case
    by (auto simp: nth_Cons split: nat.splits)
qed

lemma bounded_loop_over:
  "length out + length ts > mx \<Longrightarrow> length out \<le> mx \<Longrightarrow> (\<exists>e. bounded_loop mx decode custom ts out = Inl e)"
  by (induction ts arbitrary: out) (auto split: sum.splits)

end
