(* ===== verification/Core_Types.thy ===== *)
theory Core_Types
  imports Proto_Wire
begin

text \<open>
  The value types of \<open>credsync-core\<close>: time (\<open>types.rs\<close>), errors (\<open>error.rs\<close>), scope state and
  health (\<open>scope.rs\<close>), the outbox (\<open>outbox.rs\<close>), the storage operations (\<open>storage.rs\<close>), the traits
  the engine is parameterized by (\<open>traits.rs\<close>), effects (\<open>effect.rs\<close>), events and wire envelopes
  (\<open>event.rs\<close>, \<open>wire.rs\<close>), and last-write-wins (\<open>conflict.rs\<close>).
\<close>

section \<open>Time\<close>

text \<open>\<open>Timestamp(i64)\<close>, its 64 bits read with \<open>sint\<close>.\<close>

datatype timestamp = Timestamp (as_millis: u64)

definition i64_clamp :: "int \<Rightarrow> u64" where
  "i64_clamp n = word_of_int (max (- (2 ^ 63)) (min (2 ^ 63 - 1) n))"

definition timestamp_from_millis :: "u64 \<Rightarrow> timestamp" where
  "timestamp_from_millis ms = Timestamp ms"

definition saturating_add_millis :: "timestamp \<Rightarrow> u64 \<Rightarrow> timestamp" where
  "saturating_add_millis t ms = Timestamp (i64_clamp (sint (as_millis t) + sint ms))"

definition millis_until :: "timestamp \<Rightarrow> timestamp \<Rightarrow> u64" where
  "millis_until t later = i64_clamp (sint (as_millis later) - sint (as_millis t))"

datatype request_id = RequestId (request_get: u64)

section \<open>Errors\<close>

datatype storage_error = Transient string | Corrupt string

fun storage_error_display :: "storage_error \<Rightarrow> string" where
  "storage_error_display (Transient detail) = ''storage transient: '' @ detail"
| "storage_error_display (Corrupt detail) = ''storage corrupt: '' @ detail"

datatype transport_error =
    Unreachable string
  | HttpStatus u16 "bytes option"
  | TransportMalformed string

fun transport_error_display :: "transport_error \<Rightarrow> string" where
  "transport_error_display (Unreachable detail) = ''transport unreachable: '' @ detail"
| "transport_error_display (HttpStatus code _) = ''transport status: '' @ show_nat (unat code)"
| "transport_error_display (TransportMalformed detail) = ''transport malformed: '' @ detail"

section \<open>Scopes\<close>

record scope_state =
  ss_cursor :: cursor
  ss_digest :: scope_digest

definition ScopeState_NEW :: scope_state where
  "ScopeState_NEW = \<lparr>ss_cursor = Cursor_START, ss_digest = ScopeDigest_EMPTY\<rparr>"

definition scope_state_restored :: "cursor \<Rightarrow> scope_digest \<Rightarrow> scope_state" where
  "scope_state_restored c d = \<lparr>ss_cursor = c, ss_digest = d\<rparr>"

datatype scope_health =
    Healthy
  | Tainted u32
  | Healed u32
  | Unhealable u32

fun is_healthy :: "scope_health \<Rightarrow> bool" where
  "is_healthy Healthy = True"
| "is_healthy (Healed _) = True"
| "is_healthy _ = False"

fun needs_rebootstrap :: "scope_health \<Rightarrow> bool" where
  "needs_rebootstrap (Tainted _) = True"
| "needs_rebootstrap _ = False"

fun health_attempts :: "scope_health \<Rightarrow> u32" where
  "health_attempts Healthy = 0"
| "health_attempts (Tainted n) = n"
| "health_attempts (Healed n) = n"
| "health_attempts (Unhealable n) = n"

section \<open>The outbox\<close>

datatype resolution =
    ResApplied "seq option"
  | ResSuperseded
  | DeadLettered reason

fun needs_attention :: "resolution \<Rightarrow> bool" where
  "needs_attention (DeadLettered _) = True"
| "needs_attention _ = False"

fun resolution_reason :: "resolution \<Rightarrow> reason option" where
  "resolution_reason (DeadLettered r) = Some r"
| "resolution_reason _ = None"

record outbox_entry =
  oe_command :: command
  oe_schema_version :: schema_version

definition outbox_entry_new :: "command \<Rightarrow> schema_version \<Rightarrow> outbox_entry" where
  "outbox_entry_new c v = \<lparr>oe_command = c, oe_schema_version = v\<rparr>"

definition oe_id :: "outbox_entry \<Rightarrow> command_id" where
  "oe_id e = cmd_id (oe_command e)"

record resolved =
  rsd_resolutions :: "(command_id \<times> resolution) list"
  rsd_unknown :: nat

definition dead_lettered :: "resolved \<Rightarrow> (command_id \<times> reason) list" where
  "dead_lettered r =
     List.map_filter (\<lambda>(i, res). map_option (Pair i) (resolution_reason res)) (rsd_resolutions r)"

section \<open>Storage operations\<close>

datatype storage_op =
    UpsertRow entity_name entity_id snapshot row_version schema_version
  | DeleteRow entity_name entity_id
  | SetCursor scope_id cursor
  | SetScopeDigest scope_id hex_string
  | ResolveCommand command_id resolution
  | SaveRecoveredDraft entity_name command_id payload
  | RecordDivergence scope_id u32 bool
  | ClearScope scope_id "entity_name list"
  | QuarantineRow entity_name entity_id snapshot schema_version string
  | EnqueueCommand command schema_version

datatype tx_outcome = TxOutcome (tx_applied: nat)

record stored_scope =
  sts_cursor :: cursor
  sts_digest :: hex_string

section \<open>The traits\<close>

text \<open>
  \<open>trait Storage\<close> over a store of type \<^typ>\<open>'s\<close>: one function per method. \<open>transact\<close> takes
  \<open>&mut self\<close> and returns the store it leaves behind, on the error path too.
\<close>

record 's storage_impl =
  transact :: "'s \<Rightarrow> storage_op list \<Rightarrow> (storage_error + tx_outcome) \<times> 's"
  stored_row_version :: "'s \<Rightarrow> entity_name \<Rightarrow> entity_id \<Rightarrow> storage_error + row_version option"
  stored_scope_state :: "'s \<Rightarrow> scope_id \<Rightarrow> storage_error + stored_scope option"
  stored_outbox :: "'s \<Rightarrow> storage_error + outbox_entry list"

text \<open>\<open>trait Compressor\<close> is its one pure function.\<close>

type_synonym compressor = "bytes \<Rightarrow> nat"

section \<open>Effects, events, envelopes\<close>

datatype telemetry =
    RowQuarantined entity_name entity_id schema_version string
  | ScopeUnhealable scope_id u32
  | UpgradeRequired protocol_version protocol_version reason nat
  | CommandHeld command_id schema_version string
  | ScopeDiverged scope_id hex_string hex_string

datatype effect = ScheduleRetry timestamp | Emit telemetry

datatype wire_request =
    ReqBootstrap bootstrap_request
  | ReqPull pull_request
  | ReqPush push_request

datatype wire_response =
    RespBootstrap bootstrap_response
  | RespPull pull_response
  | RespPush push_response
  | RespUpgradeRequired forced_upgrade

datatype event =
    Tick timestamp
  | SyncRequested
  | ConnectivityChanged bool
  | TransportResponse request_id "transport_error + wire_response"

section \<open>Last write wins\<close>

datatype lww = LwwIncoming | LwwStored | LwwTie

definition lww_winner :: "row_version \<Rightarrow> row_version \<Rightarrow> lww" where
  "lww_winner incoming stored =
     (if row_version_get incoming > row_version_get stored then LwwIncoming
      else if row_version_get incoming < row_version_get stored then LwwStored
      else LwwTie)"

definition incoming_wins :: "lww \<Rightarrow> bool" where
  "incoming_wins r = (case r of LwwIncoming \<Rightarrow> True | _ \<Rightarrow> False)"

lemmas core_type_defs [run_defs] =
  i64_clamp_def timestamp_from_millis_def saturating_add_millis_def millis_until_def
  ScopeState_NEW_def scope_state_restored_def outbox_entry_new_def oe_id_def dead_lettered_def
  lww_winner_def incoming_wins_def

section \<open>Facts\<close>

lemma sint_i64_clamp: "sint (i64_clamp n) = max (- (2 ^ 63)) (min (2 ^ 63 - 1) n)"
  unfolding i64_clamp_def
  by (subst int_word_sint) (auto simp: min_def max_def)

lemma sint_i64_range: "- (2 ^ 63) \<le> sint (w :: u64)" "sint (w :: u64) < 2 ^ 63"
  using sint_ge [of w] sint_lt [of w] by simp_all

end
