(* ===== verification/Core_Registry.thy ===== *)
theory Core_Registry
  imports Core_Types
begin

text \<open>
  The entity registry (\<open>credsync-core/src/registry.rs\<close>): which entities exist, the class each was
  registered under, which entity a command writes, and the check every command passes before it may
  be queued. Both tables are \<open>BTreeMap\<close>s; \<open>begin_rebootstrap\<close> iterates the first in name order.
\<close>

datatype registry_error =
    UnknownCommand command_name
  | UnknownEntity entity_name
  | PullOnly entity_name

text \<open>\<^const>\<open>PullOnly\<close> is \<open>RegistryError::ServerAuthoritative\<close>.\<close>

fun registry_error_display :: "registry_error \<Rightarrow> string" where
  "registry_error_display (UnknownCommand name) =
     ''command '' @ quoted (command_name_str name) @ '' is not registered, so its target is unknown''"
| "registry_error_display (UnknownEntity entity) =
     ''entity '' @ quoted (entity_str entity) @ '' is not registered''"
| "registry_error_display (PullOnly entity) =
     ''entity '' @ quoted (entity_str entity) @
     '' is server-authoritative and accepts no commands''"

record registry =
  rg_entities :: "(entity_name, entity_registration) btree"
  rg_commands :: "(command_name, entity_name) btree"

definition registry_new :: registry where
  "registry_new = \<lparr>rg_entities = [], rg_commands = []\<rparr>"

definition register_entity :: "entity_registration \<Rightarrow> registry \<Rightarrow> registry" where
  "register_entity r g = g\<lparr>rg_entities := bt_insert (reg_entity r) r (rg_entities g)\<rparr>"

definition register_command :: "command_name \<Rightarrow> entity_name \<Rightarrow> registry \<Rightarrow> registry" where
  "register_command name entity g = g\<lparr>rg_commands := bt_insert name entity (rg_commands g)\<rparr>"

definition registry_entity :: "registry \<Rightarrow> entity_name \<Rightarrow> entity_registration option" where
  "registry_entity g e = bt_get (rg_entities g) e"

definition schema_version_of :: "registry \<Rightarrow> entity_name \<Rightarrow> schema_version option" where
  "schema_version_of g e = map_option reg_schema_version (bt_get (rg_entities g) e)"

definition class_of :: "registry \<Rightarrow> entity_name \<Rightarrow> conflict_class option" where
  "class_of g e = map_option reg_class (bt_get (rg_entities g) e)"

definition target_of :: "registry \<Rightarrow> command_name \<Rightarrow> entity_name option" where
  "target_of g name = bt_get (rg_commands g) name"

definition registry_entities :: "registry \<Rightarrow> entity_registration list" where
  "registry_entities g = map snd (rg_entities g)"

definition check_command :: "registry \<Rightarrow> command \<Rightarrow> registry_error + entity_name" where
  "check_command g c =
     (case bt_get (rg_commands g) (cmd_name c) of
        None \<Rightarrow> Inl (UnknownCommand (cmd_name c))
      | Some entity \<Rightarrow>
          (case bt_get (rg_entities g) entity of
             None \<Rightarrow> Inl (UnknownEntity entity)
           | Some r \<Rightarrow>
               if \<not> accepts_commands (reg_class r) then Inl (PullOnly entity) else Inr entity))"

lemmas registry_defs [run_defs] =
  registry_new_def register_entity_def register_command_def registry_entity_def
  schema_version_of_def class_of_def target_of_def registry_entities_def check_command_def

section \<open>Facts\<close>

text \<open>What the host can build: any sequence of registrations.\<close>

datatype registration = RegEntity entity_registration | RegCommand command_name entity_name

fun apply_registration :: "registration \<Rightarrow> registry \<Rightarrow> registry" where
  "apply_registration (RegEntity r) g = register_entity r g"
| "apply_registration (RegCommand n e) g = register_command n e g"

definition registry_of :: "registration list \<Rightarrow> registry" where
  "registry_of rs = fold apply_registration rs registry_new"

definition registry_wf :: "registry \<Rightarrow> bool" where
  "registry_wf g \<longleftrightarrow> bt_wf (rg_entities g) \<and> bt_wf (rg_commands g) \<and>
     (\<forall>(e, r) \<in> set (rg_entities g). reg_entity r = e)"

lemma set_bt_insert_subset: "set (bt_insert k v m) \<subseteq> insert (k, v) (set m)"
  by (induction k v m rule: bt_insert.induct) auto

lemma registry_wf_step: "registry_wf g \<Longrightarrow> registry_wf (apply_registration r g)"
  using set_bt_insert_subset
  by (cases r) (fastforce simp: registry_wf_def register_entity_def register_command_def)+

lemma registry_wf_fold: "registry_wf g \<Longrightarrow> registry_wf (fold apply_registration rs g)"
  by (induction rs arbitrary: g) (auto simp: registry_wf_step)

lemma registry_wf_of: "registry_wf (registry_of rs)"
  unfolding registry_of_def by (rule registry_wf_fold) (simp add: registry_wf_def registry_new_def)

lemma registry_entities_distinct:
  "registry_wf g \<Longrightarrow> distinct (map reg_entity (registry_entities g))"
proof -
  assume wf: "registry_wf g"
  then have "map reg_entity (registry_entities g) = map fst (rg_entities g)"
    by (auto simp: registry_wf_def registry_entities_def)
  with wf show ?thesis
    by (simp add: registry_wf_def bt_wf_distinct)
qed

lemma check_command_ok:
  "check_command g c = Inr e \<longleftrightarrow>
     target_of g (cmd_name c) = Some e \<and>
     (\<exists>cl. class_of g e = Some cl \<and> cl \<noteq> ServerAuthoritative)"
  by (auto simp: check_command_def target_of_def class_of_def accepts_commands_def
      split: option.splits conflict_class.splits)

end
