(* ===== verification/Core_Migrate.thy ===== *)
theory Core_Migrate
  imports Core_Types
begin

text \<open>
  Schema migrations (\<open>credsync-core/src/migrate.rs\<close>): the host registers single steps
  \<open>v \<rightarrow> v + 1\<close>, pure functions on JSON, and \<open>migrate_value\<close> chains them. The lemmas show that chaining
  composes, that \<open>plan\<close> predicts exactly the missing step, and what each error means.
\<close>

type_synonym migration_fn = "json \<Rightarrow> string + json"

datatype migration_error =
    NoPath entity_name u16 u16
  | MigrationFailed entity_name u16 u16 string
  | MigrationInvalid entity_name string
  | Backward u16 u16

fun migration_error_display :: "migration_error \<Rightarrow> string" where
  "migration_error_display (NoPath entity stuck_at target) =
     ''no registered migration for '' @ entity_str entity @ '' from schema '' @
     show_nat (unat stuck_at) @ '', needed to reach '' @ show_nat (unat target)"
| "migration_error_display (MigrationFailed entity from_v to_v reason) =
     ''migrating '' @ entity_str entity @ '' from '' @ show_nat (unat from_v) @ '' to '' @
     show_nat (unat to_v) @ '' failed: '' @ reason"
| "migration_error_display (MigrationInvalid entity detail) =
     ''the migrated '' @ entity_str entity @ '' document is invalid: '' @ detail"
| "migration_error_display (Backward from_v to_v) =
     ''refused to migrate backward, from '' @ show_nat (unat from_v) @ '' to '' @
     show_nat (unat to_v)"

record migrations =
  mig_steps :: "(entity_name \<times> u16, migration_fn) btree"

definition migrations_new :: migrations where
  "migrations_new = \<lparr>mig_steps = []\<rparr>"

definition migrations_register ::
  "entity_name \<Rightarrow> schema_version \<Rightarrow> migration_fn \<Rightarrow> migrations \<Rightarrow> migrations" where
  "migrations_register entity from_v f m =
     m\<lparr>mig_steps := bt_insert (entity, schema_get from_v) f (mig_steps m)\<rparr>"

definition migrations_has_any :: "migrations \<Rightarrow> entity_name \<Rightarrow> bool" where
  "migrations_has_any m entity = list_ex (\<lambda>((registered, _), _). registered = entity) (mig_steps m)"

definition mig_step :: "migrations \<Rightarrow> entity_name \<Rightarrow> u16 \<Rightarrow> migration_fn option" where
  "mig_step m entity v = bt_get (mig_steps m) (entity, v)"

text \<open>The loops \<open>for version in from..to\<close> on \<open>u16\<close>.\<close>

function plan_loop :: "migrations \<Rightarrow> entity_name \<Rightarrow> u16 \<Rightarrow> u16 \<Rightarrow> migration_error + unit" where
  "plan_loop m entity version to_n =
     (if version < to_n then
        (case mig_step m entity version of
           None \<Rightarrow> Inl (NoPath entity version to_n)
         | Some _ \<Rightarrow> plan_loop m entity (version + 1) to_n)
      else Inr ())"
  by pat_completeness auto
termination
  by (relation "measure (\<lambda>(m, e, v, t). unat t - unat v)")
    (auto simp: unat_Suc_less word_less_nat_alt intro!: diff_less_mono2)

declare plan_loop.simps [simp del]

definition migrations_plan ::
  "migrations \<Rightarrow> entity_name \<Rightarrow> schema_version \<Rightarrow> schema_version \<Rightarrow> migration_error + unit" where
  "migrations_plan m entity from_v to_v =
     (let from_n = schema_get from_v; to_n = schema_get to_v
      in if to_n < from_n then Inl (Backward from_n to_n) else plan_loop m entity from_n to_n)"

function migrate_loop ::
  "migrations \<Rightarrow> entity_name \<Rightarrow> u16 \<Rightarrow> u16 \<Rightarrow> json \<Rightarrow> migration_error + json" where
  "migrate_loop m entity version to_n current =
     (if version < to_n then
        (case mig_step m entity version of
           None \<Rightarrow> Inl (NoPath entity version to_n)
         | Some step \<Rightarrow>
             (case step current of
                Inl reason \<Rightarrow> Inl (MigrationFailed entity version (version + 1) reason)
              | Inr next_value \<Rightarrow> migrate_loop m entity (version + 1) to_n next_value))
      else Inr current)"
  by pat_completeness auto
termination
  by (relation "measure (\<lambda>(m, e, v, t, c). unat t - unat v)")
    (auto simp: unat_Suc_less word_less_nat_alt intro!: diff_less_mono2)

declare migrate_loop.simps [simp del]

definition migrate_value ::
  "migrations \<Rightarrow> entity_name \<Rightarrow> json \<Rightarrow> schema_version \<Rightarrow> schema_version \<Rightarrow>
   migration_error + json" where
  "migrate_value m entity v from_v to_v =
     (let from_n = schema_get from_v; to_n = schema_get to_v
      in if to_n < from_n then Inl (Backward from_n to_n)
         else if to_n = from_n then Inr v
         else migrate_loop m entity from_n to_n v)"

lemmas migrate_defs [run_defs] =
  migrations_new_def migrations_register_def migrations_has_any_def mig_step_def
  migrations_plan_def migrate_value_def

declare migrate_loop.simps [run_defs] plan_loop.simps [run_defs]

section \<open>Facts\<close>

text \<open>The error of a shorter chain, reported against a later target.\<close>

fun retarget :: "u16 \<Rightarrow> migration_error \<Rightarrow> migration_error" where
  "retarget t (NoPath e s _) = NoPath e s t"
| "retarget _ err = err"

lemma migrate_loop_refl [simp]: "migrate_loop m e v v x = Inr x"
  by (simp add: migrate_loop.simps)

lemma migrate_value_loop:
  "schema_get a \<le> schema_get b \<Longrightarrow>
   migrate_value m e x a b = migrate_loop m e (schema_get a) (schema_get b) x"
  by (auto simp: migrate_value_def Let_def)

lemma migrate_loop_split:
  "v \<le> b \<Longrightarrow> b \<le> c \<Longrightarrow>
   migrate_loop m e v c x =
     (case migrate_loop m e v b x of
        Inl err \<Rightarrow> Inl (retarget c err)
      | Inr y \<Rightarrow> migrate_loop m e b c y)"
proof (induction m e v b x rule: migrate_loop.induct)
  case (1 m e v b x)
  show ?case
  proof (cases "v < b")
    case False
    with 1(2) show ?thesis by simp
  next
    case True
    then have "v < c" "v + 1 \<le> b"
      using 1(3) by (auto simp: word_less_le_Suc)
    with True 1 show ?thesis
      by (subst (1 2) migrate_loop.simps) (auto split: option.splits sum.splits)
  qed
qed

lemma migrate_loop_plan:
  "(case plan_loop m e v t of
      Inr _ \<Rightarrow> (\<forall>e' s t'. migrate_loop m e v t x \<noteq> Inl (NoPath e' s t'))
    | Inl err \<Rightarrow>
        migrate_loop m e v t x = Inl err \<or>
        (\<exists>e' a b r. migrate_loop m e v t x = Inl (MigrationFailed e' a b r)))"
proof (induction m e v t x rule: migrate_loop.induct)
  case (1 m e v t x)
  show ?case
  proof (cases "v < t")
    case False
    then show ?thesis by (simp add: plan_loop.simps migrate_loop.simps)
  next
    case True
    show ?thesis
    proof (cases "mig_step m e v")
      case None
      with True show ?thesis
        by (simp add: plan_loop.simps [of m e v] migrate_loop.simps [of m e v])
    next
      case (Some f)
      then show ?thesis
        using True 1 [OF True Some]
        by (cases "f x") (simp_all add: plan_loop.simps [of m e v] migrate_loop.simps [of m e v]
            split: sum.splits)
    qed
  qed
qed

lemma plan_loop_iff:
  "plan_loop m e v t = Inr () \<longleftrightarrow> (\<forall>u. v \<le> u \<and> u < t \<longrightarrow> mig_step m e u \<noteq> None)"
proof (induction m e v t rule: plan_loop.induct)
  case (1 m e v t)
  show ?case
  proof (cases "v < t")
    case False
    then show ?thesis by (auto simp: plan_loop.simps)
  next
    case True
    then have "v \<le> u \<longleftrightarrow> u = v \<or> v + 1 \<le> u" for u
      by (auto simp: word_le_nat_alt unat_Suc_less word_unat_eq_iff)
    with True 1 show ?thesis
      by (subst plan_loop.simps) (auto split: option.splits)
  qed
qed

lemma migrate_loop_error:
  "migrate_loop m e v t x = Inl err \<Longrightarrow>
   (\<exists>s. v \<le> s \<and> s < t \<and>
      (err = NoPath e s t \<and> mig_step m e s = None \<or>
       (\<exists>r. err = MigrationFailed e s (s + 1) r)))"
proof (induction m e v t x rule: migrate_loop.induct)
  case (1 m e v t x)
  then have "v < t"
    by (auto simp: migrate_loop.simps split: if_splits)
  with 1(2) consider
      "mig_step m e v = None" "err = NoPath e v t"
    | r where "err = MigrationFailed e v (v + 1) r"
    | f y where "mig_step m e v = Some f" "f x = Inr y" "migrate_loop m e (v + 1) t y = Inl err"
    by (subst (asm) migrate_loop.simps) (auto split: option.splits sum.splits)
  then show ?case
  proof cases
    case (3 f y)
    then obtain s where "v + 1 \<le> s" "s < t"
      "err = NoPath e s t \<and> mig_step m e s = None \<or> (\<exists>r. err = MigrationFailed e s (s + 1) r)"
      using 1(1) [OF \<open>v < t\<close>] by blast
    then show ?thesis
      using \<open>v < t\<close> by (metis unat_Suc_less word_le_nat_alt Suc_leD)
  qed (use \<open>v < t\<close> in auto)
qed

end
