(* ===== verification/Core_Apply.thy ===== *)
theory Core_Apply
  imports Core_Registry Core_Migrate
begin

text \<open>
  Validating and staging one batch (\<open>credsync-core/src/apply.rs\<close>): the ordering rules, the storage
  operations a change becomes, and the digest arithmetic. \<open>Staged\<close> is never iterated, so it is a map;
  the mutable borrows \<open>digest\<close>, \<open>ops\<close> and \<open>staged\<close> are one record passed through.
\<close>

section \<open>Errors\<close>

datatype apply_error =
    OutOfOrder u64 u64
  | AlreadyApplied u64 u64
  | CursorWouldRegress u64 u64
  | ApplyInconsistent string
  | AppendOnlyOverwrite entity_name entity_id u64 u64
  | ApplyStorage storage_error

fun apply_error_display :: "apply_error \<Rightarrow> string" where
  "apply_error_display (OutOfOrder previous found) =
     ''changes must strictly increase by seq: '' @ show_nat (unat found) @ '' followed '' @
     show_nat (unat previous)"
| "apply_error_display (AlreadyApplied cursor found) =
     ''seq '' @ show_nat (unat found) @ '' is at or below the cursor '' @ show_nat (unat cursor) @
     ''; already applied''"
| "apply_error_display (CursorWouldRegress next_cursor last_seq) =
     ''next_cursor '' @ show_nat (unat next_cursor) @
     '' does not cover the last change applied, seq '' @ show_nat (unat last_seq)"
| "apply_error_display (AppendOnlyOverwrite entity eid stored incoming) =
     entity_str entity @ ''/'' @ entity_id_str eid @ '' is append-only: version '' @
     show_nat (unat incoming) @ '' would overwrite '' @ show_nat (unat stored)"
| "apply_error_display (ApplyInconsistent detail) = ''inconsistent change: '' @ detail"
| "apply_error_display (ApplyStorage e) =
     ''storage refused the batch: '' @ storage_error_display e"

record applied =
  apd_changes :: nat
  apd_diverged :: bool

section \<open>Ordering\<close>

text \<open>The loop of \<open>validate_ordering\<close>; it hands back the last \<open>seq\<close> it saw.\<close>

fun ordering_loop :: "u64 \<Rightarrow> u64 option \<Rightarrow> change list \<Rightarrow> apply_error + u64 option" where
  "ordering_loop cur previous [] = Inr previous"
| "ordering_loop cur previous (c # cs) =
     (let sq = seq_get (chg_seq c)
      in if sq \<le> cur then Inl (AlreadyApplied cur sq)
         else if (case previous of None \<Rightarrow> False | Some prev \<Rightarrow> sq \<le> prev)
         then Inl (OutOfOrder (the previous) sq)
         else
           (case change_validate c of
              Inl _ \<Rightarrow>
                (case (chg_op c, chg_snapshot c \<noteq> None) of
                   (Upsert, False) \<Rightarrow> Inl (ApplyInconsistent ''op=upsert requires a snapshot'')
                 | _ \<Rightarrow> Inl (ApplyInconsistent ''op=delete must not carry a snapshot''))
            | Inr _ \<Rightarrow> ordering_loop cur (Some sq) cs))"

definition validate_ordering :: "batch \<Rightarrow> u64 \<Rightarrow> apply_error + unit" where
  "validate_ordering b cur =
     (case ordering_loop cur None (bat_changes b) of
        Inl e \<Rightarrow> Inl e
      | Inr (Some last_seq) \<Rightarrow>
          if cursor_get (bat_next_cursor b) < last_seq
          then Inl (CursorWouldRegress (cursor_get (bat_next_cursor b)) last_seq)
          else Inr ()
      | Inr None \<Rightarrow> Inr ())"

section \<open>Staging\<close>

type_synonym row_key = "entity_name \<times> entity_id"

definition change_key :: "change \<Rightarrow> row_key" where
  "change_key c = (chg_entity c, chg_entity_id c)"

record staging =
  stg_digest :: scope_digest
  stg_ops :: "storage_op list"
  stg_staged :: "row_key \<rightharpoonup> row_version option"

text \<open>What this batch has already decided wins over what storage still says.\<close>

definition staged_version ::
  "'s storage_impl \<Rightarrow> 's \<Rightarrow> staging \<Rightarrow> row_key \<Rightarrow> storage_error + row_version option" where
  "staged_version st s g k =
     (case stg_staged g k of
        Some pending \<Rightarrow> Inr pending
      | None \<Rightarrow> stored_row_version st s (fst k) (snd k))"

text \<open>\<open>match current { Some(old) => digest.update(..), None => digest.add(..) }\<close>.\<close>

definition digest_replace ::
  "externs \<Rightarrow> row_key \<Rightarrow> row_version option \<Rightarrow> row_version \<Rightarrow> scope_digest \<Rightarrow> scope_digest" where
  "digest_replace X k current v d =
     (case current of
        Some old \<Rightarrow> digest_update X (fst k) (snd k) old v d
      | None \<Rightarrow> digest_add X (fst k) (snd k) v d)"

definition stage_change ::
  "externs \<Rightarrow> 's storage_impl \<Rightarrow> 's \<Rightarrow> change \<Rightarrow> conflict_class option \<Rightarrow> staging \<Rightarrow>
   apply_error + staging" where
  "stage_change X st s c class g =
     (let k = change_key c
      in case staged_version st s g k of
        Inl e \<Rightarrow> Inl (ApplyStorage e)
      | Inr current \<Rightarrow>
          (case chg_op c of
             Upsert \<Rightarrow>
               (case chg_snapshot c of
                  None \<Rightarrow> Inl (ApplyInconsistent ''op=upsert requires a snapshot'')
                | Some snapshot \<Rightarrow>
                    if class = Some AppendOnly \<and> current \<noteq> None \<and>
                       the current \<noteq> chg_row_version c
                    then Inl (AppendOnlyOverwrite (chg_entity c) (chg_entity_id c)
                           (row_version_get (the current)) (row_version_get (chg_row_version c)))
                    else Inr (g\<lparr>
                      stg_digest := digest_replace X k current (chg_row_version c) (stg_digest g),
                      stg_ops := stg_ops g @
                        [UpsertRow (chg_entity c) (chg_entity_id c) snapshot
                           (chg_row_version c) (chg_schema_version c)],
                      stg_staged := (stg_staged g)(k \<mapsto> Some (chg_row_version c))\<rparr>))
           | Delete \<Rightarrow>
               Inr (g\<lparr>
                 stg_digest :=
                   (case current of
                      Some old \<Rightarrow>
                        digest_remove X (chg_entity c) (chg_entity_id c) old (stg_digest g)
                    | None \<Rightarrow> stg_digest g),
                 stg_ops := stg_ops g @ [DeleteRow (chg_entity c) (chg_entity_id c)],
                 stg_staged := (stg_staged g)(k \<mapsto> None)\<rparr>)))"

definition stage_quarantine ::
  "externs \<Rightarrow> 's storage_impl \<Rightarrow> 's \<Rightarrow> change \<Rightarrow> string \<Rightarrow> staging \<Rightarrow> apply_error + staging" where
  "stage_quarantine X st s c reason g =
     (let k = change_key c
      in case staged_version st s g k of
        Inl e \<Rightarrow> Inl (ApplyStorage e)
      | Inr current \<Rightarrow>
          (case chg_snapshot c of
             None \<Rightarrow> Inl (ApplyInconsistent ''a tombstone cannot be quarantined'')
           | Some snapshot \<Rightarrow>
               Inr (g\<lparr>
                 stg_digest := digest_replace X k current (chg_row_version c) (stg_digest g),
                 stg_ops := stg_ops g @
                   [QuarantineRow (chg_entity c) (chg_entity_id c) snapshot
                      (chg_schema_version c) reason],
                 stg_staged := (stg_staged g)(k \<mapsto> Some (chg_row_version c))\<rparr>)))"

definition divergence :: "batch \<Rightarrow> scope_digest \<Rightarrow> telemetry" where
  "divergence b client = ScopeDiverged (bat_scope b) (digest_to_hex client) (bat_digest b)"

lemmas apply_defs [run_defs] =
  validate_ordering_def change_key_def staged_version_def digest_replace_def stage_change_def
  stage_quarantine_def divergence_def

section \<open>Facts about the ordering rules\<close>

definition change_wf :: "change \<Rightarrow> bool" where
  "change_wf c \<longleftrightarrow> (chg_op c = Upsert \<longleftrightarrow> chg_snapshot c \<noteq> None)"

text \<open>The reference: strictly increasing above a floor.\<close>

definition above :: "u64 \<Rightarrow> u64 option \<Rightarrow> change \<Rightarrow> bool" where
  "above cur previous c \<longleftrightarrow>
     cur < seq_get (chg_seq c) \<and> (\<forall>p. previous = Some p \<longrightarrow> p < seq_get (chg_seq c))"

lemma ordering_loop_ok:
  "ordering_loop cur previous cs = Inr l \<longleftrightarrow>
     list_all change_wf cs \<and> list_all (above cur previous) cs \<and> sorted_wrt seq_lt cs \<and>
     l = (if cs = [] then previous else Some (seq_get (chg_seq (last cs))))"
proof (induction cur previous cs rule: ordering_loop.induct)
  case (1 cur previous)
  then show ?case by auto
next
  case (2 cur previous c cs)
  let ?sq = "seq_get (chg_seq c)"
  have val: "(case change_validate c of Inl _ \<Rightarrow> False | Inr _ \<Rightarrow> True) \<longleftrightarrow> change_wf c"
    by (cases "chg_op c"; cases "chg_snapshot c") (auto simp: change_validate_def change_wf_def)
  have step: "ordering_loop cur previous (c # cs) = Inr l \<longleftrightarrow>
      above cur previous c \<and> change_wf c \<and> ordering_loop cur (Some ?sq) cs = Inr l"
    using val
    by (auto simp: Let_def above_def not_le split: sum.splits option.splits prod.splits op.splits
        bool.splits)
  have abv: "above cur previous c \<Longrightarrow>
      list_all (above cur (Some ?sq)) cs \<longleftrightarrow> list_all (above cur previous) cs \<and> (\<forall>d \<in> set cs. seq_lt c d)"
    by (auto simp: above_def seq_lt_def list_all_iff)
  show ?case
  proof (cases "above cur previous c \<and> change_wf c")
    case True
    then have "ordering_loop cur (Some ?sq) cs = Inr l \<longleftrightarrow>
        list_all change_wf cs \<and> list_all (above cur (Some ?sq)) cs \<and> sorted_wrt seq_lt cs \<and>
        l = (if cs = [] then Some ?sq else Some (seq_get (chg_seq (last cs))))"
    proof -
      have "\<not> ?sq \<le> cur" "\<not> (case previous of None \<Rightarrow> False | Some prev \<Rightarrow> ?sq \<le> prev)"
        using True by (auto simp: above_def not_le split: option.splits)
      moreover have "change_validate c = Inr ()"
        using True val by (auto split: sum.splits)
      ultimately show ?thesis
        using 2 [OF refl] by simp
    qed
    with True abv show ?thesis
      unfolding step by auto
  next
    case False
    then show ?thesis
      unfolding step by auto
  qed
qed

lemma validate_ordering_ok:
  "validate_ordering b cur = Inr () \<longleftrightarrow>
     list_all change_wf (bat_changes b) \<and> sorted_wrt seq_lt (bat_changes b) \<and>
     (\<forall>c \<in> set (bat_changes b).
        cur < seq_get (chg_seq c) \<and> seq_get (chg_seq c) \<le> cursor_get (bat_next_cursor b))"
proof (cases "bat_changes b")
  case Nil
  then show ?thesis by (simp add: validate_ordering_def)
next
  case (Cons c cs)
  let ?cs = "bat_changes b" and ?nc = "cursor_get (bat_next_cursor b)"
  have "validate_ordering b cur = Inr () \<longleftrightarrow>
      ordering_loop cur None ?cs = Inr (Some (seq_get (chg_seq (last ?cs)))) \<and>
      seq_get (chg_seq (last ?cs)) \<le> ?nc"
  proof (cases "ordering_loop cur None ?cs")
    case (Inl e)
    then show ?thesis by (simp add: validate_ordering_def)
  next
    case (Inr l)
    then have "l = Some (seq_get (chg_seq (last ?cs)))"
      using Cons unfolding ordering_loop_ok by (metis list.distinct(1))
    then show ?thesis
      using Inr by (auto simp: validate_ordering_def not_less)
  qed
  moreover have "sorted_wrt seq_lt ?cs \<Longrightarrow>
      seq_get (chg_seq (last ?cs)) \<le> ?nc \<longleftrightarrow> (\<forall>c \<in> set ?cs. seq_get (chg_seq c) \<le> ?nc)"
  proof
    assume s: "sorted_wrt seq_lt ?cs" and l: "seq_get (chg_seq (last ?cs)) \<le> ?nc"
    show "\<forall>c \<in> set ?cs. seq_get (chg_seq c) \<le> ?nc"
    proof
      fix d assume "d \<in> set ?cs"
      moreover have "?cs = butlast ?cs @ [last ?cs]"
        using Cons by simp
      ultimately have "d = last ?cs \<or> seq_lt d (last ?cs)"
        using s by (metis (no_types, lifting) Un_iff append_is_Nil_conv in_set_conv_decomp
            list.set_intros(1) set_ConsD set_append sorted_wrt_append empty_iff list.set(1))
      with l show "seq_get (chg_seq d) \<le> ?nc"
        by (auto simp: seq_lt_def)
    qed
  qed (use Cons in auto)
  ultimately show ?thesis
    unfolding ordering_loop_ok using Cons by (auto simp: above_def list_all_iff)
qed

end
