(* ===== verification/Core_Engine.thy ===== *)
theory Core_Engine
  imports Core_Apply
begin

text \<open>
  The engine's state and its read side (\<open>credsync-core/src/engine.rs\<close>): applying a batch or a
  bootstrap page, reloading after a failed transaction, divergence health, rebuilding, and the
  forced upgrade. The write side is in \<open>Core_Outbox\<close>. An operation of the engine takes the storage
  implementation \<open>st\<close> and the external functions \<open>X\<close> it uses, and returns its \<open>Result\<close> with the
  engine it leaves behind. The clock, the entropy source and the transport are fields no operation
  of the engine reads, and are left out.
\<close>

section \<open>State\<close>

record 's engine =
  eng_storage :: 's
  eng_effects :: "effect list"
  eng_scopes :: "scope_id \<rightharpoonup> scope_state"
  eng_outbox :: "outbox_entry list"
  eng_registry :: registry
  eng_migrations :: migrations
  eng_suspect :: "scope_id set"
  eng_outbox_suspect :: bool
  eng_health :: "(scope_id, scope_health) btree"
  eng_upgrade_required :: "forced_upgrade option"

definition engine_new :: "'s \<Rightarrow> 's engine" where
  "engine_new s =
     \<lparr>eng_storage = s, eng_effects = [], eng_scopes = Map.empty, eng_outbox = [],
      eng_registry = registry_new, eng_migrations = migrations_new, eng_suspect = {},
      eng_outbox_suspect = False, eng_health = [], eng_upgrade_required = None\<rparr>"

definition emit :: "effect \<Rightarrow> 's engine \<Rightarrow> 's engine" where
  "emit f e = e\<lparr>eng_effects := eng_effects e @ [f]\<rparr>"

definition next_effect :: "'s engine \<Rightarrow> effect option \<times> 's engine" where
  "next_effect e =
     (case eng_effects e of
        [] \<Rightarrow> (None, e)
      | f # fs \<Rightarrow> (Some f, e\<lparr>eng_effects := fs\<rparr>))"

definition pending_effects :: "'s engine \<Rightarrow> nat" where
  "pending_effects e = length (eng_effects e)"

definition restore_scope :: "scope_id \<Rightarrow> scope_state \<Rightarrow> 's engine \<Rightarrow> 's engine" where
  "restore_scope sc state e = e\<lparr>eng_scopes := (eng_scopes e)(sc \<mapsto> state)\<rparr>"

definition engine_scope_state :: "'s engine \<Rightarrow> scope_id \<Rightarrow> scope_state option" where
  "engine_scope_state e sc = eng_scopes e sc"

definition needs_reload :: "'s engine \<Rightarrow> scope_id \<Rightarrow> bool" where
  "needs_reload e sc = (sc \<in> eng_suspect e)"

section \<open>Reloading after a failed transaction\<close>

text \<open>\<open>u128::from_str_radix(..).map_or(EMPTY, from_raw)\<close>: an unreadable digest is empty, not guessed.\<close>

definition restored_digest :: "hex_string \<Rightarrow> scope_digest" where
  "restored_digest h =
     (case u128_from_str_radix16 (hex_str h) of
        None \<Rightarrow> ScopeDigest_EMPTY
      | Some v \<Rightarrow> digest_from_raw v)"

definition restored_scope :: "stored_scope \<Rightarrow> scope_state" where
  "restored_scope stored =
     scope_state_restored (sts_cursor stored) (restored_digest (sts_digest stored))"

definition refresh_if_suspect ::
  "'s storage_impl \<Rightarrow> scope_id \<Rightarrow> 's engine \<Rightarrow> (apply_error + unit) \<times> 's engine" where
  "refresh_if_suspect st sc e =
     (if sc \<notin> eng_suspect e then (Inr (), e)
      else case stored_scope_state st (eng_storage e) sc of
        Inl err \<Rightarrow> (Inl (ApplyStorage err), e)
      | Inr found \<Rightarrow>
          (Inr (), e\<lparr>eng_scopes := (eng_scopes e)(sc := map_option restored_scope found),
                     eng_suspect := eng_suspect e - {sc}\<rparr>))"

datatype outbox_error =
    OutboxRegistry registry_error
  | OutboxStorage storage_error
  | Encoding

fun outbox_error_display :: "outbox_error \<Rightarrow> string" where
  "outbox_error_display (OutboxRegistry e) =
     ''outbox refused the command: '' @ registry_error_display e"
| "outbox_error_display (OutboxStorage e) =
     ''outbox storage failure: '' @ storage_error_display e"
| "outbox_error_display Encoding = ''a queued command could not be encoded''"

definition refresh_outbox_if_suspect ::
  "'s storage_impl \<Rightarrow> 's engine \<Rightarrow> (outbox_error + unit) \<times> 's engine" where
  "refresh_outbox_if_suspect st e =
     (if \<not> eng_outbox_suspect e then (Inr (), e)
      else case stored_outbox st (eng_storage e) of
        Inl err \<Rightarrow> (Inl (OutboxStorage err), e)
      | Inr entries \<Rightarrow> (Inr (), e\<lparr>eng_outbox := entries, eng_outbox_suspect := False\<rparr>))"

definition reload_scope ::
  "'s storage_impl \<Rightarrow> scope_id \<Rightarrow> 's engine \<Rightarrow> (apply_error + unit) \<times> 's engine" where
  "reload_scope st sc e =
     (case refresh_if_suspect st sc e of
        (Inl err, e1) \<Rightarrow> (Inl err, e1)
      | (Inr _, e1) \<Rightarrow>
          (case refresh_outbox_if_suspect st e1 of
             (r, e2) \<Rightarrow>
               (map_err (\<lambda>_. ApplyStorage (Corrupt ''the outbox could not be reloaded'')) r, e2)))"

section \<open>Divergence health\<close>

definition engine_scope_health :: "'s engine \<Rightarrow> scope_id \<Rightarrow> scope_health" where
  "engine_scope_health e sc = (case bt_get (eng_health e) sc of Some h \<Rightarrow> h | None \<Rightarrow> Healthy)"

definition scopes_needing_rebootstrap :: "'s engine \<Rightarrow> scope_id list" where
  "scopes_needing_rebootstrap e = map fst (filter (\<lambda>(_, h). needs_rebootstrap h) (eng_health e))"

definition MAX_HEAL_ATTEMPTS :: u32 where "MAX_HEAL_ATTEMPTS = 3"

definition set_health :: "scope_id \<Rightarrow> scope_health \<Rightarrow> 's engine \<Rightarrow> 's engine" where
  "set_health sc h e = e\<lparr>eng_health := bt_insert sc h (eng_health e)\<rparr>"

definition taint :: "scope_id \<Rightarrow> u32 \<Rightarrow> 's engine \<Rightarrow> 's engine" where
  "taint sc attempts e =
     (if MAX_HEAL_ATTEMPTS \<le> attempts
      then set_health sc (Unhealable attempts) (emit (Emit (ScopeUnhealable sc attempts)) e)
      else set_health sc (Tainted attempts) e)"

text \<open>\<open>u32::saturating_add(1)\<close>.\<close>

definition sat_succ :: "u32 \<Rightarrow> u32" where
  "sat_succ n = (if n = 0xFFFFFFFF then n else n + 1)"

section \<open>Applying a batch\<close>

definition migrated_change ::
  "externs \<Rightarrow> registry \<Rightarrow> migrations \<Rightarrow> change \<Rightarrow> migration_error + change option" where
  "migrated_change X g m c =
     (case schema_version_of g (chg_entity c) of
        None \<Rightarrow> Inr None
      | Some target \<Rightarrow>
          if chg_schema_version c = target then Inr None
          else
            (case chg_snapshot c of
               None \<Rightarrow> Inr None
             | Some snap \<Rightarrow>
                 (case migrate_value m (chg_entity c) (snapshot_value snap)
                    (chg_schema_version c) target of
                    Inl err \<Rightarrow> Inl err
                  | Inr v \<Rightarrow>
                      (case snapshot_new X v of
                         Inl err \<Rightarrow>
                           Inl (MigrationInvalid (chg_entity c) (protocol_error_display err))
                       | Inr snap' \<Rightarrow>
                           Inr (Some (c\<lparr>chg_snapshot := Some snap',
                                        chg_schema_version := target\<rparr>))))))"

type_synonym quarantined = "(entity_name \<times> entity_id \<times> schema_version \<times> string) list"

text \<open>The loop over \<open>batch.changes\<close>: stage each change, or set it aside.\<close>

definition stage_one ::
  "externs \<Rightarrow> 's storage_impl \<Rightarrow> 's engine \<Rightarrow> change \<Rightarrow> staging \<times> quarantined \<Rightarrow>
   apply_error + staging \<times> quarantined" where
  "stage_one X st e c = (\<lambda>(g, q).
     (let class = class_of (eng_registry e) (chg_entity c)
      in case migrated_change X (eng_registry e) (eng_migrations e) c of
        Inr None \<Rightarrow> map_ok (\<lambda>g'. (g', q)) (stage_change X st (eng_storage e) c class g)
      | Inr (Some m) \<Rightarrow> map_ok (\<lambda>g'. (g', q)) (stage_change X st (eng_storage e) m class g)
      | Inl err \<Rightarrow>
          (let reason = migration_error_display err
           in map_ok
                (\<lambda>g'. (g', q @ [(chg_entity c, chg_entity_id c, chg_schema_version c, reason)]))
                (stage_quarantine X st (eng_storage e) c reason g))))"

fun stage_all ::
  "externs \<Rightarrow> 's storage_impl \<Rightarrow> 's engine \<Rightarrow> change list \<Rightarrow> staging \<times> quarantined \<Rightarrow>
   apply_error + staging \<times> quarantined" where
  "stage_all X st e [] gq = Inr gq"
| "stage_all X st e (c # cs) gq =
     (case stage_one X st e c gq of
        Inl err \<Rightarrow> Inl err
      | Inr gq' \<Rightarrow> stage_all X st e cs gq')"

text \<open>The three verdicts \<open>apply_changes\<close> reaches before it commits.\<close>

definition batch_diverged :: "bool \<Rightarrow> batch \<Rightarrow> scope_digest \<Rightarrow> bool" where
  "batch_diverged compare_digest b digest =
     (compare_digest \<and> digest_to_hex digest \<noteq> bat_digest b)"

definition divergence_counts :: "bool \<Rightarrow> bool \<Rightarrow> scope_health \<Rightarrow> bool" where
  "divergence_counts diverged rebuilding health =
     (diverged \<and> (is_healthy health \<or> (rebuilding \<and> needs_rebootstrap health)))"

definition batch_heals :: "bool \<Rightarrow> bool \<Rightarrow> scope_health \<Rightarrow> bool" where
  "batch_heals compare_digest diverged health =
     (compare_digest \<and> \<not> diverged \<and> needs_rebootstrap health)"

definition commit_batch ::
  "'s storage_impl \<Rightarrow> batch \<Rightarrow> bool \<Rightarrow> bool \<Rightarrow> staging \<Rightarrow> quarantined \<Rightarrow> 's engine \<Rightarrow>
   (apply_error + applied) \<times> 's engine" where
  "commit_batch st b compare_digest rebuilding g q e =
     (let sc = bat_scope b;
          digest = stg_digest g;
          health = engine_scope_health e sc;
          diverged = batch_diverged compare_digest b digest;
          counts = divergence_counts diverged rebuilding health;
          attempts = sat_succ (health_attempts health);
          heals = batch_heals compare_digest diverged health;
          ops = stg_ops g @
            [SetCursor sc (bat_next_cursor b), SetScopeDigest sc (digest_to_hex digest)] @
            (if counts then [RecordDivergence sc attempts False] else []) @
            (if heals then [RecordDivergence sc (health_attempts health) True] else [])
      in case transact st (eng_storage e) ops of
        (Inl err, s') \<Rightarrow>
          (Inl (ApplyStorage err),
           e\<lparr>eng_storage := s', eng_suspect := insert sc (eng_suspect e),
             eng_outbox_suspect := True\<rparr>)
      | (Inr _, s') \<Rightarrow>
          (let e1 = e\<lparr>eng_storage := s',
                      eng_scopes := (eng_scopes e)(sc \<mapsto>
                        scope_state_restored (bat_next_cursor b) digest)\<rparr>;
               e2 = fold (\<lambda>(n, i, v, r). emit (Emit (RowQuarantined n i v r))) q e1
           in (Inr \<lparr>apd_changes = length (bat_changes b), apd_diverged = diverged\<rparr>,
               if counts then taint sc attempts (emit (Emit (divergence b digest)) e2)
               else if heals then set_health sc (Healed (health_attempts health)) e2
               else e2)))"

definition staging_start :: "scope_state \<Rightarrow> staging \<times> quarantined" where
  "staging_start state =
     (\<lparr>stg_digest = ss_digest state, stg_ops = [], stg_staged = Map.empty\<rparr>, [])"

definition apply_changes ::
  "externs \<Rightarrow> 's storage_impl \<Rightarrow> batch \<Rightarrow> bool \<Rightarrow> bool \<Rightarrow> 's engine \<Rightarrow>
   (apply_error + applied) \<times> 's engine" where
  "apply_changes X st b compare_digest rebuilding e0 =
     (case refresh_if_suspect st (bat_scope b) e0 of
        (Inl err, e) \<Rightarrow> (Inl err, e)
      | (Inr _, e) \<Rightarrow>
          (let state = (case eng_scopes e (bat_scope b) of Some s \<Rightarrow> s | None \<Rightarrow> ScopeState_NEW)
           in case validate_ordering b (cursor_get (ss_cursor state)) of
             Inl err \<Rightarrow> (Inl err, e)
           | Inr _ \<Rightarrow>
               (case stage_all X st e (bat_changes b) (staging_start state) of
                  Inl err \<Rightarrow> (Inl err, e)
                | Inr (g, q) \<Rightarrow> commit_batch st b compare_digest rebuilding g q e)))"

definition apply_batch ::
  "externs \<Rightarrow> 's storage_impl \<Rightarrow> batch \<Rightarrow> 's engine \<Rightarrow> (apply_error + applied) \<times> 's engine" where
  "apply_batch X st b e = apply_changes X st b (\<not> bat_has_more b) False e"

definition bootstrap_batch :: "bootstrap_response \<Rightarrow> batch" where
  "bootstrap_batch r =
     \<lparr>bat_scope = bsr_scope r, bat_changes = bsr_changes r, bat_next_cursor = bsr_next_cursor r,
      bat_has_more = bsr_has_more r, bat_checksum = bsr_checksum r, bat_digest = bsr_digest r\<rparr>"

definition apply_bootstrap ::
  "externs \<Rightarrow> 's storage_impl \<Rightarrow> bootstrap_response \<Rightarrow> 's engine \<Rightarrow>
   (apply_error + applied) \<times> 's engine" where
  "apply_bootstrap X st r e =
     apply_changes X st (bootstrap_batch r) (\<not> bsr_has_more r) True e"

section \<open>Rebuilding and health operations\<close>

definition rebootstrap_ops :: "registry \<Rightarrow> scope_id \<Rightarrow> storage_op list" where
  "rebootstrap_ops g sc =
     [ClearScope sc (map reg_entity (filter (\<lambda>r. reg_scope r = sc) (registry_entities g))),
      SetCursor sc Cursor_START,
      SetScopeDigest sc (digest_to_hex ScopeDigest_EMPTY)]"

definition begin_rebootstrap ::
  "'s storage_impl \<Rightarrow> scope_id \<Rightarrow> 's engine \<Rightarrow> (apply_error + unit) \<times> 's engine" where
  "begin_rebootstrap st sc e =
     (case transact st (eng_storage e) (rebootstrap_ops (eng_registry e) sc) of
        (Inl err, s') \<Rightarrow>
          (Inl (ApplyStorage err),
           e\<lparr>eng_storage := s', eng_suspect := insert sc (eng_suspect e),
             eng_outbox_suspect := True\<rparr>)
      | (Inr _, s') \<Rightarrow>
          (Inr (), e\<lparr>eng_storage := s', eng_scopes := (eng_scopes e)(sc \<mapsto> ScopeState_NEW)\<rparr>))"

definition clear_scope_health ::
  "'s storage_impl \<Rightarrow> scope_id \<Rightarrow> 's engine \<Rightarrow> (apply_error + unit) \<times> 's engine" where
  "clear_scope_health st sc e =
     (case transact st (eng_storage e) [RecordDivergence sc 0 False] of
        (Inl err, s') \<Rightarrow> (Inl (ApplyStorage err), e\<lparr>eng_storage := s'\<rparr>)
      | (Inr _, s') \<Rightarrow>
          (Inr (), e\<lparr>eng_storage := s', eng_health := bt_remove sc (eng_health e)\<rparr>))"

definition restore_scope_health :: "scope_id \<Rightarrow> u32 \<Rightarrow> bool \<Rightarrow> 's engine \<Rightarrow> 's engine" where
  "restore_scope_health sc attempts healed e =
     (if attempts = 0 then e\<lparr>eng_health := bt_remove sc (eng_health e)\<rparr>
      else if healed then set_health sc (Healed attempts) e
      else if MAX_HEAL_ATTEMPTS \<le> attempts then set_health sc (Unhealable attempts) e
      else set_health sc (Tainted attempts) e)"

section \<open>Forced upgrade\<close>

definition on_upgrade_required :: "forced_upgrade \<Rightarrow> 's engine \<Rightarrow> 's engine" where
  "on_upgrade_required envelope e =
     emit (Emit (UpgradeRequired (fup_min_protocol envelope) (fup_current_protocol envelope)
              (fup_reason envelope) (length (eng_outbox e))))
       (e\<lparr>eng_upgrade_required := Some envelope\<rparr>)"

definition engine_upgrade_required :: "'s engine \<Rightarrow> forced_upgrade option" where
  "engine_upgrade_required e = eng_upgrade_required e"

definition upgrade_completed :: "'s engine \<Rightarrow> 's engine" where
  "upgrade_completed e = e\<lparr>eng_upgrade_required := None\<rparr>"

lemmas engine_defs [run_defs] =
  engine_new_def emit_def next_effect_def restore_scope_def engine_scope_state_def
  needs_reload_def restored_digest_def restored_scope_def refresh_if_suspect_def
  refresh_outbox_if_suspect_def reload_scope_def engine_scope_health_def
  scopes_needing_rebootstrap_def MAX_HEAL_ATTEMPTS_def set_health_def taint_def sat_succ_def
  migrated_change_def stage_one_def batch_diverged_def divergence_counts_def batch_heals_def
  commit_batch_def staging_start_def apply_changes_def apply_batch_def bootstrap_batch_def
  apply_bootstrap_def rebootstrap_ops_def begin_rebootstrap_def clear_scope_health_def
  restore_scope_health_def on_upgrade_required_def upgrade_completed_def

end
