(* ===== verification/Core_Outbox.thy ===== *)
theory Core_Outbox
  imports Core_Engine
begin

text \<open>
  The engine's write side (\<open>credsync-core/src/engine.rs\<close>, with the types of \<open>outbox.rs\<close>): queueing
  a command, filling a push request up to three budgets, and resolving the commands the server
  answered.
\<close>

section \<open>Queueing\<close>

definition enqueue ::
  "'s storage_impl \<Rightarrow> outbox_entry \<Rightarrow> 's engine \<Rightarrow> (outbox_error + unit) \<times> 's engine" where
  "enqueue st entry e =
     (case check_command (eng_registry e) (oe_command entry) of
        Inl err \<Rightarrow> (Inl (OutboxRegistry err), e)
      | Inr _ \<Rightarrow>
          (case transact st (eng_storage e)
             [EnqueueCommand (oe_command entry) (oe_schema_version entry)] of
             (Inl err, s') \<Rightarrow>
               (Inl (OutboxStorage err), e\<lparr>eng_storage := s', eng_outbox_suspect := True\<rparr>)
           | (Inr _, s') \<Rightarrow>
               (Inr (), e\<lparr>eng_storage := s', eng_outbox := eng_outbox e @ [entry]\<rparr>)))"

definition restore_outbox :: "outbox_entry list \<Rightarrow> 's engine \<Rightarrow> 's engine" where
  "restore_outbox entries e = e\<lparr>eng_outbox := eng_outbox e @ entries\<rparr>"

definition outbox_len :: "'s engine \<Rightarrow> nat" where
  "outbox_len e = length (eng_outbox e)"

definition outbox_contains :: "'s engine \<Rightarrow> command_id \<Rightarrow> bool" where
  "outbox_contains e i = list_ex (\<lambda>x. oe_id x = i) (eng_outbox e)"

section \<open>Filling a push\<close>

definition migrated_command ::
  "externs \<Rightarrow> registry \<Rightarrow> migrations \<Rightarrow> outbox_entry \<Rightarrow> migration_error + command option" where
  "migrated_command X g m entry =
     (case target_of g (cmd_name (oe_command entry)) of
        None \<Rightarrow> Inr None
      | Some entity \<Rightarrow>
          (case schema_version_of g entity of
             None \<Rightarrow> Inr None
           | Some target \<Rightarrow>
               if oe_schema_version entry = target then Inr None
               else
                 (case migrate_value m entity (payload_value (cmd_payload (oe_command entry)))
                    (oe_schema_version entry) target of
                    Inl err \<Rightarrow> Inl err
                  | Inr v \<Rightarrow>
                      (case payload_new X v of
                         Inl err \<Rightarrow> Inl (MigrationInvalid entity (protocol_error_display err))
                       | Inr p \<Rightarrow> Inr (Some ((oe_command entry)\<lparr>cmd_payload := p\<rparr>))))))"

definition byte_open :: u8 where "byte_open = 0x5B"
definition byte_close :: u8 where "byte_close = 0x5D"
definition byte_comma :: u8 where "byte_comma = 0x2C"

type_synonym held = "(command_id \<times> schema_version \<times> string) list"

text \<open>
  The loop over the outbox, with the buffer spliced in place: \<open>buf.pop()\<close>, a comma unless nothing is
  chosen yet, the new bytes, the closing bracket.
\<close>

definition splice :: "bytes \<Rightarrow> command list \<Rightarrow> bytes \<Rightarrow> bytes" where
  "splice buf chosen one =
     butlast buf @ (if chosen \<noteq> [] then [byte_comma] else []) @ one @ [byte_close]"

fun push_loop ::
  "externs \<Rightarrow> compressor \<Rightarrow> registry \<Rightarrow> migrations \<Rightarrow> nat \<Rightarrow> outbox_entry list \<Rightarrow>
   command list \<Rightarrow> bytes \<Rightarrow> held \<Rightarrow> outbox_error + command list \<times> held" where
  "push_loop X z g m budget [] chosen buf hld = Inr (chosen, hld)"
| "push_loop X z g m budget (entry # rest) chosen buf hld =
     (if COMMANDS_MAX_COUNT \<le> length chosen then Inr (chosen, hld)
      else case migrated_command X g m entry of
        Inl err \<Rightarrow>
          push_loop X z g m budget rest chosen buf
            (hld @ [(oe_id entry, oe_schema_version entry, migration_error_display err)])
      | Inr migrated \<Rightarrow>
          (let command = (case migrated of None \<Rightarrow> oe_command entry | Some c \<Rightarrow> c)
           in case canonical_to_vec X command_to_value command of
             Inl _ \<Rightarrow> Inl Encoding
           | Inr one \<Rightarrow>
               (let buf' = splice buf chosen one;
                    too_many_bytes = length buf' > COMMANDS_MAX_TOTAL_BYTES;
                    over_budget = z buf' > budget
                in if (too_many_bytes \<or> over_budget) \<and> chosen \<noteq> [] then Inr (chosen, hld)
                   else push_loop X z g m budget rest (chosen @ [command]) buf' hld)))"

definition build_push ::
  "externs \<Rightarrow> compressor \<Rightarrow> 's storage_impl \<Rightarrow> protocol_version \<Rightarrow> nat \<Rightarrow> 's engine \<Rightarrow>
   (outbox_error + push_request option) \<times> 's engine" where
  "build_push X z st protocol budget e0 =
     (case refresh_outbox_if_suspect st e0 of
        (Inl err, e) \<Rightarrow> (Inl err, e)
      | (Inr _, e) \<Rightarrow>
          if eng_upgrade_required e \<noteq> None then (Inr None, e)
          else if eng_outbox e = [] then (Inr None, e)
          else
            (case push_loop X z (eng_registry e) (eng_migrations e) budget (eng_outbox e) []
               [byte_open, byte_close] [] of
               Inl err \<Rightarrow> (Inl err, e)
             | Inr (chosen, hld) \<Rightarrow>
                 (Inr (Some \<lparr>psq_protocol = protocol, psq_commands = chosen\<rparr>),
                  fold (\<lambda>(i, v, r). emit (Emit (CommandHeld i v r))) hld e)))"

section \<open>Resolving what the server answered\<close>

text \<open>\<open>Reason::new(literal).unwrap_or_else(|_| unreachable!())\<close>.\<close>

definition unstated_rejection :: reason where
  "unstated_rejection =
     (case reason_new ''Rejected by the server without a stated reason.'' of
        Inr r \<Rightarrow> r
      | Inl _ \<Rightarrow> undefined)"

definition resolution_of :: "command_result \<Rightarrow> resolution" where
  "resolution_of r =
     (case res_status r of
        Applied \<Rightarrow> ResApplied (res_server_seq r)
      | Superseded \<Rightarrow> ResSuperseded
      | Rejected \<Rightarrow>
          DeadLettered (case res_reason r of Some x \<Rightarrow> x | None \<Rightarrow> unstated_rejection))"

text \<open>The draft a superseded edit of an owner-draft entity leaves behind.\<close>

definition draft_ops :: "registry \<Rightarrow> outbox_entry \<Rightarrow> command_result \<Rightarrow> storage_op list" where
  "draft_ops g entry r =
     (if res_status r = Superseded then
        (case target_of g (cmd_name (oe_command entry)) of
           None \<Rightarrow> []
         | Some entity \<Rightarrow>
             if class_of g entity = Some OwnerDraft
             then [SaveRecoveredDraft entity (res_id r) (cmd_payload (oe_command entry))]
             else [])
      else [])"

record resolving =
  rs_ops :: "storage_op list"
  rs_resolutions :: "(command_id \<times> resolution) list"
  rs_unknown :: nat
  rs_answered :: "command_id set"

definition resolve_one ::
  "registry \<Rightarrow> outbox_entry list \<Rightarrow> command_result \<Rightarrow> resolving \<Rightarrow> resolving" where
  "resolve_one g outbox r a =
     (case find (\<lambda>x. oe_id x = res_id r) outbox of
        None \<Rightarrow> a\<lparr>rs_unknown := rs_unknown a + 1\<rparr>
      | Some entry \<Rightarrow>
          if res_id r \<in> rs_answered a then a\<lparr>rs_unknown := rs_unknown a + 1\<rparr>
          else a\<lparr>
            rs_answered := insert (res_id r) (rs_answered a),
            rs_ops := rs_ops a @ draft_ops g entry r @
              [ResolveCommand (res_id r) (resolution_of r)],
            rs_resolutions := rs_resolutions a @ [(res_id r, resolution_of r)]\<rparr>)"

definition resolving_start :: resolving where
  "resolving_start = \<lparr>rs_ops = [], rs_resolutions = [], rs_unknown = 0, rs_answered = {}\<rparr>"

definition resolve_all ::
  "registry \<Rightarrow> outbox_entry list \<Rightarrow> command_result list \<Rightarrow> resolving" where
  "resolve_all g outbox rs = fold (resolve_one g outbox) rs resolving_start"

definition apply_results ::
  "'s storage_impl \<Rightarrow> push_response \<Rightarrow> 's engine \<Rightarrow> (outbox_error + resolved) \<times> 's engine" where
  "apply_results st response e0 =
     (case refresh_outbox_if_suspect st e0 of
        (Inl err, e) \<Rightarrow> (Inl err, e)
      | (Inr _, e) \<Rightarrow>
          (let a = resolve_all (eng_registry e) (eng_outbox e) (psr_results response);
               done = \<lparr>rsd_resolutions = rs_resolutions a, rsd_unknown = rs_unknown a\<rparr>
           in if rs_ops a = [] then (Inr done, e)
              else case transact st (eng_storage e) (rs_ops a) of
                (Inl err, s') \<Rightarrow>
                  (Inl (OutboxStorage err), e\<lparr>eng_storage := s', eng_outbox_suspect := True\<rparr>)
              | (Inr _, s') \<Rightarrow>
                  (Inr done,
                   e\<lparr>eng_storage := s',
                     eng_outbox :=
                       fold (\<lambda>(i, _). filter (\<lambda>x. oe_id x \<noteq> i)) (rs_resolutions a)
                         (eng_outbox e)\<rparr>)))"

lemmas outbox_defs [run_defs] =
  enqueue_def restore_outbox_def outbox_len_def outbox_contains_def migrated_command_def
  byte_open_def byte_close_def byte_comma_def splice_def build_push_def unstated_rejection_def
  resolution_of_def draft_ops_def resolve_one_def resolving_start_def resolve_all_def
  apply_results_def

end
