(* ===== verification/Core_Contract.thy ===== *)
theory Core_Contract
  imports Core_Outbox
begin

text \<open>
  What the engine may rely on from its \<open>Storage\<close> (\<open>credsync-core/src/traits.rs\<close>, \<open>storage.rs\<close>). A
  store is seen through \<open>store_view\<close>; \<open>view_op\<close> is what each operation promises to do to it. The locale
  \<open>storage_contract\<close> states the promise \<^emph>\<open>whole or not at all\<close>, and deliberately allows the adapter
  the documented misbehaviour: a transaction that commits and then reports failure, and reads that
  fail. Inside the locale the engine is proved never to disagree with its store about anything it has
  not flagged as suspect.
\<close>

section \<open>The abstract store\<close>

type_synonym row_value = "snapshot \<times> row_version \<times> schema_version"

record store_view =
  sv_rows :: "row_key \<rightharpoonup> row_value"
  sv_cursors :: "scope_id \<rightharpoonup> cursor"
  sv_digests :: "scope_id \<rightharpoonup> hex_string"
  sv_outbox :: "outbox_entry list"
  sv_enqueued :: "command_id set"
  sv_resolved :: "(command_id \<times> resolution) list"
  sv_recovered :: "(command_id \<times> entity_name \<times> payload) list"
  sv_quarantine :: "(entity_id \<times> snapshot \<times> schema_version \<times> string) list"
  sv_divergences :: "scope_id \<rightharpoonup> u32 \<times> bool"

fun view_op :: "storage_op \<Rightarrow> store_view \<Rightarrow> store_view" where
  "view_op (UpsertRow n i snap v sch) w = w\<lparr>sv_rows := (sv_rows w)((n, i) \<mapsto> (snap, v, sch))\<rparr>"
| "view_op (DeleteRow n i) w = w\<lparr>sv_rows := (sv_rows w)((n, i) := None)\<rparr>"
| "view_op (SetCursor sc c) w = w\<lparr>sv_cursors := (sv_cursors w)(sc \<mapsto> c)\<rparr>"
| "view_op (SetScopeDigest sc h) w = w\<lparr>sv_digests := (sv_digests w)(sc \<mapsto> h)\<rparr>"
| "view_op (EnqueueCommand c v) w =
     w\<lparr>sv_outbox := sv_outbox w @ [outbox_entry_new c v],
       sv_enqueued := insert (cmd_id c) (sv_enqueued w)\<rparr>"
| "view_op (ResolveCommand i r) w =
     w\<lparr>sv_outbox := filter (\<lambda>x. oe_id x \<noteq> i) (sv_outbox w),
       sv_resolved := sv_resolved w @ [(i, r)]\<rparr>"
| "view_op (SaveRecoveredDraft n i p) w = w\<lparr>sv_recovered := sv_recovered w @ [(i, n, p)]\<rparr>"
| "view_op (RecordDivergence sc k healed) w =
     w\<lparr>sv_divergences := (sv_divergences w)(sc \<mapsto> (k, healed))\<rparr>"
| "view_op (ClearScope sc ns) w =
     w\<lparr>sv_rows := (\<lambda>(n, i). if n \<in> set ns then None else sv_rows w (n, i)),
       sv_cursors := (sv_cursors w)(sc := None),
       sv_digests := (sv_digests w)(sc := None)\<rparr>"
| "view_op (QuarantineRow n i snap sch reason) w =
     w\<lparr>sv_quarantine := sv_quarantine w @ [(i, snap, sch, reason)]\<rparr>"

definition view_ops :: "storage_op list \<Rightarrow> store_view \<Rightarrow> store_view" where
  "view_ops ops w = fold view_op ops w"

lemma view_ops_Nil [simp]: "view_ops [] w = w"
  by (simp add: view_ops_def)

lemma view_ops_Cons [simp]: "view_ops (x # ops) w = view_ops ops (view_op x w)"
  by (simp add: view_ops_def)

lemma view_ops_append [simp]: "view_ops (xs @ ys) w = view_ops ys (view_ops xs w)"
  by (simp add: view_ops_def)

text \<open>The version a live row holds, and a scope's stored position.\<close>

definition view_version :: "store_view \<Rightarrow> row_key \<Rightarrow> row_version option" where
  "view_version w k = map_option (\<lambda>(_, v, _). v) (sv_rows w k)"

definition position :: "store_view \<Rightarrow> scope_id \<Rightarrow> stored_scope option" where
  "position w sc =
     map_option (\<lambda>c. \<lparr>sts_cursor = c,
         sts_digest = (case sv_digests w sc of Some h \<Rightarrow> h
                       | None \<Rightarrow> digest_to_hex ScopeDigest_EMPTY)\<rparr>)
       (sv_cursors w sc)"

section \<open>Which operations touch what\<close>

fun touches_row :: "storage_op \<Rightarrow> bool" where
  "touches_row (UpsertRow _ _ _ _ _) = True"
| "touches_row (DeleteRow _ _) = True"
| "touches_row (QuarantineRow _ _ _ _ _) = True"
| "touches_row _ = False"

text \<open>Operations of the read side: rows, and the records of one scope.\<close>

fun scope_op :: "scope_id \<Rightarrow> storage_op \<Rightarrow> bool" where
  "scope_op sc (SetCursor x _) = (x = sc)"
| "scope_op sc (SetScopeDigest x _) = (x = sc)"
| "scope_op sc (RecordDivergence x _ _) = (x = sc)"
| "scope_op sc (ClearScope x _) = (x = sc)"
| "scope_op sc x = touches_row x"

text \<open>Operations of the write side.\<close>

fun queue_op :: "storage_op \<Rightarrow> bool" where
  "queue_op (EnqueueCommand _ _) = True"
| "queue_op (ResolveCommand _ _) = True"
| "queue_op (SaveRecoveredDraft _ _ _) = True"
| "queue_op _ = False"

lemma scope_op_row: "touches_row x \<Longrightarrow> scope_op sc x"
  by (cases x) auto

lemma row_op_view:
  "touches_row x \<Longrightarrow> sv_cursors (view_op x w) = sv_cursors w \<and> sv_digests (view_op x w) = sv_digests w \<and>
     sv_divergences (view_op x w) = sv_divergences w"
  by (cases x) auto

lemma scope_op_view:
  "scope_op sc x \<Longrightarrow> sv_outbox (view_op x w) = sv_outbox w \<and> sv_enqueued (view_op x w) = sv_enqueued w \<and>
     sv_resolved (view_op x w) = sv_resolved w \<and> sv_recovered (view_op x w) = sv_recovered w \<and>
     (\<forall>sc'. sc' \<noteq> sc \<longrightarrow> position (view_op x w) sc' = position w sc')"
  by (cases x) (auto simp: position_def)

lemma queue_op_view:
  "queue_op x \<Longrightarrow> sv_rows (view_op x w) = sv_rows w \<and> sv_cursors (view_op x w) = sv_cursors w \<and>
     sv_digests (view_op x w) = sv_digests w"
  by (cases x) auto

lemma row_ops_view:
  "list_all touches_row ops \<Longrightarrow> sv_cursors (view_ops ops w) = sv_cursors w \<and>
     sv_digests (view_ops ops w) = sv_digests w \<and> sv_divergences (view_ops ops w) = sv_divergences w"
  by (induction ops arbitrary: w) (auto simp: row_op_view)

lemma scope_ops_view:
  "list_all (scope_op sc) ops \<Longrightarrow> sv_outbox (view_ops ops w) = sv_outbox w \<and>
     sv_enqueued (view_ops ops w) = sv_enqueued w \<and> sv_resolved (view_ops ops w) = sv_resolved w \<and>
     sv_recovered (view_ops ops w) = sv_recovered w \<and>
     (\<forall>sc'. sc' \<noteq> sc \<longrightarrow> position (view_ops ops w) sc' = position w sc')"
  by (induction ops arbitrary: w) (auto simp: scope_op_view)

lemma queue_ops_view:
  "list_all queue_op ops \<Longrightarrow> sv_rows (view_ops ops w) = sv_rows w \<and>
     position (view_ops ops w) = position w"
  by (induction ops arbitrary: w) (auto simp: queue_op_view position_def)

section \<open>Coherence\<close>

text \<open>
  What the engine holds in memory is what the store holds, for every scope that is not suspect and
  for the outbox unless it is.
\<close>

definition coherent :: "('s \<Rightarrow> store_view) \<Rightarrow> 's engine \<Rightarrow> bool" where
  "coherent view e \<longleftrightarrow>
     (\<forall>sc. sc \<notin> eng_suspect e \<longrightarrow>
        eng_scopes e sc = map_option restored_scope (position (view (eng_storage e)) sc)) \<and>
     (\<not> eng_outbox_suspect e \<longrightarrow> eng_outbox e = sv_outbox (view (eng_storage e)))"

lemma restored_digest_hex [simp]: "restored_digest (digest_to_hex d) = d"
  by (cases d) (simp add: restored_digest_def digest_to_hex_def hex_u128_text from_hex_text
      digest_from_raw_def)

lemma fold_emit_quarantined:
  "fold (\<lambda>(n, i, v, r). emit (Emit (RowQuarantined n i v r))) q e =
   e\<lparr>eng_effects := eng_effects e @ map (\<lambda>(n, i, v, r). Emit (RowQuarantined n i v r)) q\<rparr>"
  by (induction q arbitrary: e) (auto simp: emit_def)

lemma fold_emit_held:
  "fold (\<lambda>(i, v, r). emit (Emit (CommandHeld i v r))) hld e =
   e\<lparr>eng_effects := eng_effects e @ map (\<lambda>(i, v, r). Emit (CommandHeld i v r)) hld\<rparr>"
  by (induction hld arbitrary: e) (auto simp: emit_def)

lemma taint_fields [simp]:
  "eng_storage (taint sc k e) = eng_storage e" "eng_scopes (taint sc k e) = eng_scopes e"
  "eng_outbox (taint sc k e) = eng_outbox e" "eng_suspect (taint sc k e) = eng_suspect e"
  "eng_outbox_suspect (taint sc k e) = eng_outbox_suspect e"
  "eng_registry (taint sc k e) = eng_registry e" "eng_migrations (taint sc k e) = eng_migrations e"
  "eng_upgrade_required (taint sc k e) = eng_upgrade_required e"
  by (simp_all add: taint_def set_health_def emit_def)

lemma set_health_fields [simp]:
  "eng_storage (set_health sc h e) = eng_storage e" "eng_scopes (set_health sc h e) = eng_scopes e"
  "eng_outbox (set_health sc h e) = eng_outbox e" "eng_suspect (set_health sc h e) = eng_suspect e"
  "eng_outbox_suspect (set_health sc h e) = eng_outbox_suspect e"
  "eng_registry (set_health sc h e) = eng_registry e"
  "eng_migrations (set_health sc h e) = eng_migrations e"
  "eng_upgrade_required (set_health sc h e) = eng_upgrade_required e"
  by (simp_all add: set_health_def)

lemma emit_fields [simp]:
  "eng_storage (emit f e) = eng_storage e" "eng_scopes (emit f e) = eng_scopes e"
  "eng_outbox (emit f e) = eng_outbox e" "eng_suspect (emit f e) = eng_suspect e"
  "eng_outbox_suspect (emit f e) = eng_outbox_suspect e" "eng_registry (emit f e) = eng_registry e"
  "eng_migrations (emit f e) = eng_migrations e" "eng_health (emit f e) = eng_health e"
  "eng_upgrade_required (emit f e) = eng_upgrade_required e"
  by (simp_all add: emit_def)

lemmas effect_fields = fold_emit_quarantined fold_emit_held

section \<open>Shape of the operations the engine submits\<close>

lemma stage_change_ops:
  "stage_change X st s c cl g = Inr g' \<Longrightarrow> \<exists>x. touches_row x \<and> stg_ops g' = stg_ops g @ [x]"
  by (auto simp: stage_change_def Let_def split: sum.splits op.splits option.splits if_splits)

lemma stage_quarantine_ops:
  "stage_quarantine X st s c reason g = Inr g' \<Longrightarrow> \<exists>x. touches_row x \<and> stg_ops g' = stg_ops g @ [x]"
  by (auto simp: stage_quarantine_def Let_def split: sum.splits option.splits)

lemma stage_one_ops:
  "stage_one X st e c (g, q) = Inr (g', q') \<Longrightarrow> \<exists>x. touches_row x \<and> stg_ops g' = stg_ops g @ [x]"
  using stage_change_ops stage_quarantine_ops
  by (fastforce simp: stage_one_def Let_def map_ok_Inr split: sum.splits option.splits)

lemma stage_all_ops:
  "stage_all X st e cs gq = Inr gq' \<Longrightarrow>
   \<exists>ops. list_all touches_row ops \<and> stg_ops (fst gq') = stg_ops (fst gq) @ ops \<and>
         length ops = length cs"
proof (induction cs arbitrary: gq)
  case Nil
  then show ?case by simp
next
  case (Cons c cs)
  then obtain gq1 where 1: "stage_one X st e c gq = Inr gq1" "stage_all X st e cs gq1 = Inr gq'"
    by (auto split: sum.splits)
  then obtain x where "touches_row x" "stg_ops (fst gq1) = stg_ops (fst gq) @ [x]"
    using stage_one_ops by (metis prod.collapse)
  with Cons.IH [OF 1(2)] show ?case
    by (metis append.assoc append_Cons append_Nil length_Cons list.pred_inject(2))
qed

lemma start_ops [simp]: "stg_ops (fst (staging_start state)) = []"
  by (simp add: staging_start_def)

lemma draft_ops_queue: "list_all queue_op (draft_ops g entry r)"
  by (auto simp: draft_ops_def split: option.splits)

lemma resolve_fold_queue:
  "list_all queue_op (rs_ops a) \<Longrightarrow> list_all queue_op (rs_ops (fold (resolve_one g ob) rs a))"
  by (induction rs arbitrary: a)
    (auto simp: resolve_one_def draft_ops_queue split: option.splits)

lemma resolve_all_queue: "list_all queue_op (rs_ops (resolve_all g ob rs))"
  by (simp add: resolve_all_def resolve_fold_queue resolving_start_def)

text \<open>What the resolutions do to the queue, in memory and in the store.\<close>

lemma resolve_fold_outbox:
  "sv_outbox (view_ops (rs_ops a) w) =
     fold (\<lambda>(i, _). filter (\<lambda>x. oe_id x \<noteq> i)) (rs_resolutions a) (sv_outbox w) \<Longrightarrow>
   sv_outbox (view_ops (rs_ops (fold (resolve_one g ob) rs a)) w) =
     fold (\<lambda>(i, _). filter (\<lambda>x. oe_id x \<noteq> i)) (rs_resolutions (fold (resolve_one g ob) rs a))
       (sv_outbox w)"
proof (induction rs arbitrary: a)
  case Nil
  then show ?case by simp
next
  case (Cons r rs)
  have "sv_outbox (view_ops (draft_ops g entry r) w) = sv_outbox w" for entry w
    by (auto simp: draft_ops_def split: option.splits)
  then have "sv_outbox (view_ops (rs_ops (resolve_one g ob r a)) w) =
      fold (\<lambda>(i, _). filter (\<lambda>x. oe_id x \<noteq> i)) (rs_resolutions (resolve_one g ob r a)) (sv_outbox w)"
    using Cons.prems by (auto simp: resolve_one_def split: option.splits)
  then show ?case
    using Cons.IH by simp
qed

lemma resolve_all_outbox:
  "sv_outbox (view_ops (rs_ops (resolve_all g ob rs)) w) =
     fold (\<lambda>(i, _). filter (\<lambda>x. oe_id x \<noteq> i)) (rs_resolutions (resolve_all g ob rs)) (sv_outbox w)"
  unfolding resolve_all_def by (rule resolve_fold_outbox) (simp add: resolving_start_def)

lemma coherent_effects [simp]: "coherent view (e\<lparr>eng_effects := fs\<rparr>) = coherent view e"
  by (simp add: coherent_def)

section \<open>The storage contract\<close>

locale storage_contract =
  fixes st :: "'s storage_impl"
    and view :: "'s \<Rightarrow> store_view"
  assumes version_law:
      "stored_row_version st s n i = Inr v \<Longrightarrow> v = view_version (view s) (n, i)"
    and position_law: "stored_scope_state st s sc = Inr p \<Longrightarrow> p = position (view s) sc"
    and outbox_law: "stored_outbox st s = Inr q \<Longrightarrow> q = sv_outbox (view s)"
    and commit_law: "transact st s ops = (Inr out, s') \<Longrightarrow> view s' = view_ops ops (view s)"
    and failure_law:
      "transact st s ops = (Inl err, s') \<Longrightarrow> view s' = view s \<or> view s' = view_ops ops (view s)"
begin

lemma transact_view:
  "transact st s ops = (r, s') \<Longrightarrow> view s' = view s \<or> view s' = view_ops ops (view s)"
  using commit_law failure_law by (cases r) auto

lemma refresh_coherent:
  assumes "coherent view e" and "refresh_if_suspect st sc e = (r, e')"
  shows "coherent view e'"
proof (cases "sc \<in> eng_suspect e")
  case True
  show ?thesis
  proof (cases "stored_scope_state st (eng_storage e) sc")
    case (Inl err)
    with assms True show ?thesis by (simp add: refresh_if_suspect_def)
  next
    case (Inr p)
    have "p = position (view (eng_storage e)) sc"
      using Inr by (rule position_law)
    moreover have "e' = e\<lparr>eng_scopes := (eng_scopes e)(sc := map_option restored_scope p),
        eng_suspect := eng_suspect e - {sc}\<rparr>"
      using assms(2) True Inr by (simp add: refresh_if_suspect_def)
    ultimately show ?thesis
      using assms(1) by (simp add: coherent_def)
  qed
qed (use assms in \<open>simp add: refresh_if_suspect_def\<close>)

lemma refresh_outbox_coherent:
  assumes "coherent view e" and "refresh_outbox_if_suspect st e = (r, e')"
  shows "coherent view e'"
proof (cases "eng_outbox_suspect e")
  case True
  show ?thesis
  proof (cases "stored_outbox st (eng_storage e)")
    case (Inl err)
    with assms True show ?thesis by (simp add: refresh_outbox_if_suspect_def)
  next
    case (Inr q)
    have "q = sv_outbox (view (eng_storage e))"
      using Inr by (rule outbox_law)
    moreover have "e' = e\<lparr>eng_outbox := q, eng_outbox_suspect := False\<rparr>"
      using assms(2) True Inr by (simp add: refresh_outbox_if_suspect_def)
    ultimately show ?thesis
      using assms(1) by (simp add: coherent_def)
  qed
qed (use assms in \<open>simp add: refresh_outbox_if_suspect_def\<close>)

lemma reload_coherent:
  assumes "coherent view e" and "reload_scope st sc e = (r, e')"
  shows "coherent view e'"
proof -
  obtain r1 e1 where 1: "refresh_if_suspect st sc e = (r1, e1)"
    by fastforce
  then have c1: "coherent view e1"
    using assms(1) refresh_coherent by blast
  obtain r2 e2 where 2: "refresh_outbox_if_suspect st e1 = (r2, e2)"
    by fastforce
  then have "coherent view e2"
    using c1 refresh_outbox_coherent by blast
  with c1 1 2 assms(2) show ?thesis
    by (auto simp: reload_scope_def split: sum.splits)
qed

text \<open>A failed transaction on one scope, with the scope and the outbox flagged.\<close>

lemma failed_scope_coherent:
  assumes "coherent view e" and "transact st (eng_storage e) ops = (r, s')"
    and "list_all (scope_op sc) ops"
  shows "coherent view (e\<lparr>eng_storage := s', eng_suspect := insert sc (eng_suspect e),
           eng_outbox_suspect := True\<rparr>)"
  using assms transact_view [OF assms(2)] scope_ops_view [OF assms(3), of "view (eng_storage e)"]
  by (auto simp: coherent_def)

lemma rebootstrap_coherent:
  assumes "coherent view e" and "begin_rebootstrap st sc e = (r, e')"
  shows "coherent view e'"
proof -
  let ?ops = "rebootstrap_ops (eng_registry e) sc"
  have scoped: "list_all (scope_op sc) ?ops"
    by (simp add: rebootstrap_ops_def)
  obtain r1 s' where t: "transact st (eng_storage e) ?ops = (r1, s')"
    by fastforce
  show ?thesis
  proof (cases r1)
    case (Inl err)
    with t assms failed_scope_coherent [OF assms(1) t scoped] show ?thesis
      by (auto simp: begin_rebootstrap_def)
  next
    case (Inr out)
    then have v: "view s' = view_ops ?ops (view (eng_storage e))"
      using t commit_law by blast
    moreover have "position (view s') sc =
        Some \<lparr>sts_cursor = Cursor_START, sts_digest = digest_to_hex ScopeDigest_EMPTY\<rparr>"
      unfolding v by (simp add: rebootstrap_ops_def position_def)
    ultimately show ?thesis
      using t Inr assms scope_ops_view [OF scoped, of "view (eng_storage e)"]
      by (auto simp: begin_rebootstrap_def coherent_def restored_scope_def ScopeState_NEW_def
          scope_state_restored_def)
  qed
qed

lemma clear_health_coherent:
  assumes "coherent view e" and "clear_scope_health st sc e = (r, e')"
  shows "coherent view e'"
proof -
  obtain r1 s' where t: "transact st (eng_storage e) [RecordDivergence sc 0 False] = (r1, s')"
    by fastforce
  have "position (view s') = position (view (eng_storage e)) \<and>
      sv_outbox (view s') = sv_outbox (view (eng_storage e))"
    using transact_view [OF t] by (auto simp: position_def)
  with t assms show ?thesis
    by (cases r1) (auto simp: clear_scope_health_def coherent_def)
qed

lemma commit_coherent:
  assumes "coherent view e" and "list_all touches_row (stg_ops g)"
    and "commit_batch st b cmp rb g q e = (r, e')"
  shows "coherent view e'"
proof -
  let ?sc = "bat_scope b" and ?d = "stg_digest g"
  let ?h = "engine_scope_health e ?sc"
  let ?dv = "batch_diverged cmp b ?d"
  let ?c = "divergence_counts ?dv rb ?h" and ?hl = "batch_heals cmp ?dv ?h"
  let ?tail = "(if ?c then [RecordDivergence ?sc (sat_succ (health_attempts ?h)) False] else []) @
    (if ?hl then [RecordDivergence ?sc (health_attempts ?h) True] else [])"
  let ?ops = "stg_ops g @ [SetCursor ?sc (bat_next_cursor b), SetScopeDigest ?sc (digest_to_hex ?d)] @ ?tail"
  have scoped: "list_all (scope_op ?sc) ?ops"
    using assms(2) by (auto simp: list_all_iff scope_op_row)
  obtain r1 s' where t: "transact st (eng_storage e) ?ops = (r1, s')"
    by fastforce
  show ?thesis
  proof (cases r1)
    case (Inl err)
    with t assms(3) failed_scope_coherent [OF assms(1) t scoped] show ?thesis
      unfolding commit_batch_def Let_def by simp
  next
    case (Inr out)
    then have v: "view s' = view_ops ?ops (view (eng_storage e))"
      using t commit_law by blast
    have "position (view s') ?sc =
        Some \<lparr>sts_cursor = bat_next_cursor b, sts_digest = digest_to_hex ?d\<rparr>"
      unfolding v by (simp add: position_def)
    moreover have "sv_outbox (view s') = sv_outbox (view (eng_storage e))"
      and "\<And>sc'. sc' \<noteq> ?sc \<Longrightarrow> position (view s') sc' = position (view (eng_storage e)) sc'"
      using scope_ops_view [OF scoped, of "view (eng_storage e)"] unfolding v by blast+
    moreover have "eng_storage e' = s'" "eng_suspect e' = eng_suspect e"
      "eng_outbox e' = eng_outbox e" "eng_outbox_suspect e' = eng_outbox_suspect e"
      "eng_scopes e' = (eng_scopes e)(?sc \<mapsto> scope_state_restored (bat_next_cursor b) ?d)"
      using assms(3) t Inr unfolding commit_batch_def Let_def
      by (auto simp: effect_fields split: if_splits)
    ultimately show ?thesis
      using assms(1) by (auto simp: coherent_def restored_scope_def)
  qed
qed

lemma apply_changes_coherent:
  assumes "coherent view e" and "apply_changes X st b cmp rb e = (r, e')"
  shows "coherent view e'"
proof -
  obtain r1 e1 where 1: "refresh_if_suspect st (bat_scope b) e = (r1, e1)"
    by fastforce
  have c1: "coherent view e1"
    using refresh_coherent [OF assms(1) 1] .
  show ?thesis
  proof (cases "\<exists>gq. \<exists>state. r1 = Inr () \<and> validate_ordering b (cursor_get (ss_cursor state)) = Inr () \<and>
      stage_all X st e1 (bat_changes b) (staging_start state) = Inr gq \<and>
      commit_batch st b cmp rb (fst gq) (snd gq) e1 = (r, e')")
    case True
    then obtain gq state where "stage_all X st e1 (bat_changes b) (staging_start state) = Inr gq"
      and "commit_batch st b cmp rb (fst gq) (snd gq) e1 = (r, e')"
      by blast
    with stage_all_ops c1 commit_coherent show ?thesis
      by fastforce
  next
    case False
    then have "e' = e1"
      using assms(2) unfolding apply_changes_def 1 Let_def
      by (auto split: sum.splits prod.splits option.splits)
    with c1 show ?thesis by simp
  qed
qed

lemma enqueue_coherent:
  assumes "coherent view e" and "enqueue st entry e = (r, e')"
  shows "coherent view e'"
proof (cases "check_command (eng_registry e) (oe_command entry)")
  case (Inl err)
  with assms show ?thesis by (simp add: enqueue_def)
next
  case (Inr n)
  let ?op = "EnqueueCommand (oe_command entry) (oe_schema_version entry)"
  obtain r1 s' where t: "transact st (eng_storage e) [?op] = (r1, s')"
    by fastforce
  have "outbox_entry_new (oe_command entry) (oe_schema_version entry) = entry"
    by (simp add: outbox_entry_new_def)
  then show ?thesis
    using assms t Inr transact_view [OF t] commit_law [of "eng_storage e" "[?op]"]
    by (cases r1) (auto simp: enqueue_def coherent_def position_def)
qed

lemma build_push_coherent:
  assumes "coherent view e" and "build_push X z st protocol budget e = (r, e')"
  shows "coherent view e'"
proof -
  obtain r1 e1 where 1: "refresh_outbox_if_suspect st e = (r1, e1)"
    by fastforce
  then have "coherent view e1"
    using assms(1) refresh_outbox_coherent by blast
  then show ?thesis
    using assms(2) unfolding build_push_def 1
    by (auto simp: effect_fields split: sum.splits prod.splits if_splits)
qed

lemma apply_results_coherent:
  assumes "coherent view e" and "apply_results st response e = (r, e')"
  shows "coherent view e'"
proof -
  obtain r1 e1 where 1: "refresh_outbox_if_suspect st e = (r1, e1)"
    by fastforce
  have c1: "coherent view e1"
    using assms(1) 1 refresh_outbox_coherent by blast
  let ?a = "resolve_all (eng_registry e1) (eng_outbox e1) (psr_results response)"
  show ?thesis
  proof (cases "(\<exists>u. r1 = Inl u) \<or> rs_ops ?a = []")
    case True
    with assms(2) 1 c1 show ?thesis
      by (auto simp: apply_results_def Let_def split: sum.splits)
  next
    case False
    obtain r2 s' where t: "transact st (eng_storage e1) (rs_ops ?a) = (r2, s')"
      by fastforce
    have v: "position (view_ops (rs_ops ?a) w) = position w" for w
      using queue_ops_view [OF resolve_all_queue] by blast
    show ?thesis
    proof (cases r2)
      case (Inl err)
      with t False assms(2) 1 c1 v transact_view [OF t] show ?thesis
        by (cases r1) (auto simp: apply_results_def Let_def coherent_def)
    next
      case (Inr out)
      then have "view s' = view_ops (rs_ops ?a) (view (eng_storage e1))"
        using t commit_law by blast
      with Inr t False assms(2) 1 c1 v show ?thesis
        by (cases r1) (auto simp: apply_results_def Let_def coherent_def resolve_all_outbox)
    qed
  qed
qed

end

end
