(* ===== verification/Core_Digest.thy ===== *)
theory Core_Digest
  imports Core_Contract
begin

text \<open>
  The digest arithmetic of \<open>apply.rs\<close> against the rows it describes. \<open>row_sum\<close> is the sum of the row
  hashes of a store; staging moves the running digest by exactly the difference its operations make
  to that sum, provided no row of the batch is quarantined. A second group gives the operations and
  the reports an accepted batch turns into, change by change.
\<close>

section \<open>Sums over a finite map\<close>

definition row_sum :: "('k \<Rightarrow> 'v \<Rightarrow> 'a::ab_group_add) \<Rightarrow> ('k \<rightharpoonup> 'v) \<Rightarrow> 'a" where
  "row_sum h f = (\<Sum>k \<in> dom f. h k (the (f k)))"

definition contribution :: "('k \<Rightarrow> 'v \<Rightarrow> 'a::ab_group_add) \<Rightarrow> 'k \<Rightarrow> 'v option \<Rightarrow> 'a" where
  "contribution h k x = (case x of None \<Rightarrow> 0 | Some v \<Rightarrow> h k v)"

lemma contribution_simps [simp]: "contribution h k None = 0" "contribution h k (Some v) = h k v"
  by (simp_all add: contribution_def)

lemma row_sum_remove:
  assumes "finite (dom f)"
  shows "row_sum h (f(k := None)) = row_sum h f - contribution h k (f k)"
proof (cases "f k")
  case None
  then show ?thesis by (simp add: fun_upd_idem)
next
  case (Some v)
  then have "k \<in> dom f" by auto
  with assms Some have "row_sum h f = h k v + (\<Sum>j \<in> dom f - {k}. h j (the (f j)))"
    unfolding row_sum_def by (subst sum.remove) auto
  moreover have "row_sum h (f(k := None)) = (\<Sum>j \<in> dom f - {k}. h j (the (f j)))"
    unfolding row_sum_def by (rule sum.cong) auto
  ultimately show ?thesis
    using Some by simp
qed

lemma row_sum_insert:
  assumes "finite (dom f)"
  shows "row_sum h (f(k \<mapsto> v)) = row_sum h f - contribution h k (f k) + h k v"
proof -
  have "row_sum h ((f(k := None))(k \<mapsto> v)) = h k v + row_sum h (f(k := None))"
    unfolding row_sum_def using assms
    by (subst (1) sum.remove [of _ k]) (auto intro!: sum.cong)
  then show ?thesis
    using row_sum_remove [OF assms, of h k] by simp
qed

lemma row_sum_map_of:
  "distinct (map fst m) \<Longrightarrow> row_sum h (map_of m) = sum_list (map (\<lambda>(k, v). h k v) m)"
proof (induction m)
  case Nil
  then show ?case by (simp add: row_sum_def)
next
  case (Cons x m)
  obtain k v where x: "x = (k, v)" by fastforce
  have "map_of m k = None"
    using Cons.prems x by (simp add: map_of_eq_None_iff)
  with Cons x show ?case
    by (simp add: row_sum_insert finite_dom_map_of del: fun_upd_apply)
qed

section \<open>The digest a store implies\<close>

text \<open>Restricted to the entities of a scope; rows of other entities contribute nothing.\<close>

definition scoped_hash :: "externs \<Rightarrow> entity_name set \<Rightarrow> row_key \<Rightarrow> row_version \<Rightarrow> u128" where
  "scoped_hash X N k v = (if fst k \<in> N then row_hash X (fst k) (snd k) v else 0)"

definition view_digest :: "externs \<Rightarrow> entity_name set \<Rightarrow> store_view \<Rightarrow> scope_digest" where
  "view_digest X N w = ScopeDigest (row_sum (scoped_hash X N) (view_version w))"

lemma dom_view_version: "dom (view_version w) = dom (sv_rows w)"
  by (auto simp: view_version_def dom_def)

lemma digest_replace_raw:
  "digest_raw (digest_replace X k current v d) =
     digest_raw d - contribution (\<lambda>k. row_hash X (fst k) (snd k)) k current + row_hash X (fst k) (snd k) v"
  by (cases current) (simp_all add: digest_replace_def digest_defs)

section \<open>What a batch becomes, change by change\<close>

definition plain_op :: "change \<Rightarrow> storage_op" where
  "plain_op c =
     (case chg_snapshot c of
        Some snap \<Rightarrow> UpsertRow (chg_entity c) (chg_entity_id c) snap (chg_row_version c)
                       (chg_schema_version c)
      | None \<Rightarrow> DeleteRow (chg_entity c) (chg_entity_id c))"

definition change_storage_op :: "externs \<Rightarrow> registry \<Rightarrow> migrations \<Rightarrow> change \<Rightarrow> storage_op" where
  "change_storage_op X g m c =
     (case migrated_change X g m c of
        Inr None \<Rightarrow> plain_op c
      | Inr (Some c') \<Rightarrow> plain_op c'
      | Inl err \<Rightarrow> QuarantineRow (chg_entity c) (chg_entity_id c) (the (chg_snapshot c))
                     (chg_schema_version c) (migration_error_display err))"

definition quarantine_report :: "externs \<Rightarrow> registry \<Rightarrow> migrations \<Rightarrow> change \<Rightarrow> quarantined" where
  "quarantine_report X g m c =
     (case migrated_change X g m c of
        Inr _ \<Rightarrow> []
      | Inl err \<Rightarrow> [(chg_entity c, chg_entity_id c, chg_schema_version c,
                      migration_error_display err)])"

text \<open>A migrated change keeps its key, its kind and its version.\<close>

lemma migrated_change_same:
  "migrated_change X g m c = Inr (Some c') \<Longrightarrow>
     change_key c' = change_key c \<and> chg_op c' = chg_op c \<and>
     chg_row_version c' = chg_row_version c \<and> chg_seq c' = chg_seq c \<and>
     (\<exists>snap snap'. chg_snapshot c = Some snap \<and> chg_snapshot c' = Some snap')"
  by (auto simp: migrated_change_def change_key_def split: option.splits sum.splits if_splits)

lemma migrated_change_wf:
  "migrated_change X g m c = Inr (Some c') \<Longrightarrow> change_wf c \<Longrightarrow> change_wf c'"
  using migrated_change_same [of X g m c c'] by (auto simp: change_wf_def)

lemma migrated_change_fails:
  "migrated_change X g m c = Inl err \<Longrightarrow> \<exists>snap. chg_snapshot c = Some snap"
  by (auto simp: migrated_change_def split: option.splits sum.splits if_splits)

lemma stage_change_op:
  assumes "stage_change X st s c cl g = Inr g'" and "change_wf c"
  shows "stg_ops g' = stg_ops g @ [plain_op c]"
  using assms
  by (auto simp: stage_change_def plain_op_def change_wf_def Let_def
      split: sum.splits op.splits option.splits if_splits)

lemma stage_quarantine_op:
  "stage_quarantine X st s c reason g = Inr g' \<Longrightarrow>
   stg_ops g' = stg_ops g @
     [QuarantineRow (chg_entity c) (chg_entity_id c) (the (chg_snapshot c)) (chg_schema_version c) reason]"
  by (auto simp: stage_quarantine_def Let_def split: sum.splits option.splits)

lemma stage_one_op:
  assumes "stage_one X st e c (g, q) = Inr (g', q')" and "change_wf c"
  shows "stg_ops g' = stg_ops g @ [change_storage_op X (eng_registry e) (eng_migrations e) c] \<and>
         q' = q @ quarantine_report X (eng_registry e) (eng_migrations e) c"
proof (cases "migrated_change X (eng_registry e) (eng_migrations e) c")
  case (Inl err)
  then show ?thesis
    using assms stage_quarantine_op
    by (fastforce simp: stage_one_def Let_def map_ok_Inr change_storage_op_def quarantine_report_def)
next
  case (Inr mc)
  show ?thesis
  proof (cases mc)
    case None
    with Inr assms show ?thesis
      using stage_change_op
      by (fastforce simp: stage_one_def Let_def map_ok_Inr change_storage_op_def quarantine_report_def)
  next
    case (Some c')
    with Inr assms migrated_change_wf have "change_wf c'"
      by blast
    with Inr Some assms show ?thesis
      using stage_change_op
      by (fastforce simp: stage_one_def Let_def map_ok_Inr change_storage_op_def quarantine_report_def)
  qed
qed

lemma stage_all_spec:
  assumes "stage_all X st e cs (g, q) = Inr (g', q')" and "list_all change_wf cs"
  shows "stg_ops g' = stg_ops g @ map (change_storage_op X (eng_registry e) (eng_migrations e)) cs \<and>
         q' = q @ concat (map (quarantine_report X (eng_registry e) (eng_migrations e)) cs)"
  using assms
proof (induction cs arbitrary: g q)
  case Nil
  then show ?case by simp
next
  case (Cons c cs)
  then obtain g1 q1 where "stage_one X st e c (g, q) = Inr (g1, q1)"
    "stage_all X st e cs (g1, q1) = Inr (g', q')"
    by (auto split: sum.splits)
  with Cons.prems Cons.IH [of g1 q1] stage_one_op [of X st e c g q g1 q1] show ?case
    by simp
qed

section \<open>The running digest follows the rows\<close>

text \<open>Staging reads its own writes: the staged version is the version the store would hold.\<close>

definition staged_agrees :: "store_view \<Rightarrow> staging \<Rightarrow> bool" where
  "staged_agrees w g \<longleftrightarrow>
     (\<forall>k. (case stg_staged g k of Some p \<Rightarrow> p | None \<Rightarrow> view_version w k) =
        view_version (view_ops (stg_ops g) w) k)"

definition digest_tracks ::
  "externs \<Rightarrow> entity_name set \<Rightarrow> store_view \<Rightarrow> scope_digest \<Rightarrow> staging \<Rightarrow> bool" where
  "digest_tracks X N w d0 g \<longleftrightarrow>
     digest_raw (stg_digest g) - digest_raw (view_digest X N (view_ops (stg_ops g) w)) =
     digest_raw d0 - digest_raw (view_digest X N w)"

lemma finite_view_op:
  "finite (dom (sv_rows w)) \<Longrightarrow> finite (dom (sv_rows (view_op x w)))"
  by (cases x) (auto elim!: rev_finite_subset split: if_splits)

lemma finite_view_ops:
  "finite (dom (sv_rows w)) \<Longrightarrow> finite (dom (sv_rows (view_ops ops w)))"
  by (induction ops arbitrary: w) (auto simp: finite_view_op)

lemma view_version_upsert:
  "view_version (view_op (UpsertRow n i snap v sch) w) = (view_version w)((n, i) \<mapsto> v)"
  by (auto simp: view_version_def fun_eq_iff)

lemma view_version_delete:
  "view_version (view_op (DeleteRow n i) w) = (view_version w)((n, i) := None)"
  by (auto simp: view_version_def fun_eq_iff)

lemma view_digest_upsert:
  assumes "finite (dom (sv_rows w))" and "n \<in> N"
  shows "digest_raw (view_digest X N (view_op (UpsertRow n i snap v sch) w)) =
    digest_raw (digest_replace X (n, i) (view_version w (n, i)) v (view_digest X N w))"
  using assms
  by (cases "view_version w (n, i)")
    (simp_all add: view_digest_def view_version_upsert row_sum_insert dom_view_version
      digest_replace_raw scoped_hash_def del: view_op.simps)

lemma view_digest_delete:
  assumes "finite (dom (sv_rows w))" and "n \<in> N"
  shows "digest_raw (view_digest X N (view_op (DeleteRow n i) w)) =
    digest_raw (view_digest X N w) -
      contribution (\<lambda>k. row_hash X (fst k) (snd k)) (n, i) (view_version w (n, i))"
  using assms
  by (cases "view_version w (n, i)")
    (simp_all add: view_digest_def view_version_delete row_sum_remove dom_view_version
      scoped_hash_def del: view_op.simps)

text \<open>The state the engine starts a batch from, read off the store.\<close>

definition stored_state :: "store_view \<Rightarrow> scope_id \<Rightarrow> scope_state" where
  "stored_state w sc =
     (case position w sc of None \<Rightarrow> ScopeState_NEW | Some p \<Rightarrow> restored_scope p)"

lemma refresh_facts:
  assumes "refresh_if_suspect st sc e = (Inr u, e1)"
  shows "sc \<notin> eng_suspect e1" "eng_storage e1 = eng_storage e" "eng_registry e1 = eng_registry e"
    "eng_migrations e1 = eng_migrations e" "eng_health e1 = eng_health e"
    "eng_outbox e1 = eng_outbox e" "eng_effects e1 = eng_effects e"
    "eng_outbox_suspect e1 = eng_outbox_suspect e" "eng_upgrade_required e1 = eng_upgrade_required e"
  using assms by (auto simp: refresh_if_suspect_def split: if_splits sum.splits)

definition health_ops :: "bool \<Rightarrow> bool \<Rightarrow> batch \<Rightarrow> scope_digest \<Rightarrow> scope_health \<Rightarrow> storage_op list" where
  "health_ops cmp rb b d h =
     (let dv = batch_diverged cmp b d
      in (if divergence_counts dv rb h
          then [RecordDivergence (bat_scope b) (sat_succ (health_attempts h)) False] else []) @
         (if batch_heals cmp dv h then [RecordDivergence (bat_scope b) (health_attempts h) True] else []))"

lemma health_ops_view [simp]:
  "sv_rows (view_ops (health_ops cmp rb b d h) w) = sv_rows w"
  "sv_quarantine (view_ops (health_ops cmp rb b d h) w) = sv_quarantine w"
  "sv_cursors (view_ops (health_ops cmp rb b d h) w) = sv_cursors w"
  "sv_digests (view_ops (health_ops cmp rb b d h) w) = sv_digests w"
  by (simp_all add: health_ops_def Let_def)

text \<open>
  The same as an invariant, for every outcome of the transaction: the stored digest of the scope is
  the digest of the stored rows of its entities.
\<close>

definition digest_true :: "externs \<Rightarrow> entity_name set \<Rightarrow> scope_id \<Rightarrow> store_view \<Rightarrow> bool" where
  "digest_true X N sc w \<longleftrightarrow>
     finite (dom (sv_rows w)) \<and> ss_digest (stored_state w sc) = view_digest X N w"

lemma digest_true_cong:
  "sv_rows w' = sv_rows w \<Longrightarrow> position w' sc = position w sc \<Longrightarrow>
   digest_true X N sc w' = digest_true X N sc w"
proof -
  assume "sv_rows w' = sv_rows w" and p: "position w' sc = position w sc"
  moreover from this have "view_version w' = view_version w"
    by (simp add: fun_eq_iff view_version_def)
  ultimately show ?thesis
    by (simp add: digest_true_def stored_state_def view_digest_def)
qed

context storage_contract
begin

lemma staged_version_view:
  assumes "staged_agrees (view s) g" and "staged_version st s g k = Inr current"
  shows "current = view_version (view_ops (stg_ops g) (view s)) k"
proof (cases "stg_staged g k")
  case None
  with assms have "current = view_version (view s) (fst k, snd k)"
    using version_law [of s "fst k" "snd k" current] by (auto simp: staged_version_def)
  moreover have "view_version (view s) k = view_version (view_ops (stg_ops g) (view s)) k"
    using None assms(1) unfolding staged_agrees_def by (metis option.case(1))
  ultimately show ?thesis
    by simp
next
  case (Some p)
  moreover have "p = view_version (view_ops (stg_ops g) (view s)) k"
    using Some assms(1) unfolding staged_agrees_def by (metis option.case(2))
  ultimately show ?thesis
    using assms(2) by (simp add: staged_version_def)
qed

lemma stage_change_tracks:
  assumes ok: "stage_change X st s c cl g = Inr g'" and wf: "change_wf c"
    and agrees: "staged_agrees (view s) g" and tracks: "digest_tracks X N (view s) d0 g"
    and fin: "finite (dom (sv_rows (view s)))" and mem: "chg_entity c \<in> N"
  shows "staged_agrees (view s) g' \<and> digest_tracks X N (view s) d0 g'"
proof -
  let ?k = "change_key c" and ?w = "view_ops (stg_ops g) (view s)"
  note op = stage_change_op [OF ok wf]
  note fin' = finite_view_ops [OF fin, of "stg_ops g"]
  obtain current where cur: "staged_version st s g ?k = Inr current"
    using ok by (auto simp: stage_change_def Let_def split: sum.splits)
  have current: "current = view_version ?w ?k"
    by (rule staged_version_view [OF agrees cur])
  show ?thesis
  proof (cases "chg_snapshot c")
    case None
    then have del: "chg_op c = Delete"
      using wf by (cases "chg_op c") (auto simp: change_wf_def)
    have st: "stg_staged g' = (stg_staged g)(?k \<mapsto> None)"
      and dg: "digest_raw (stg_digest g') = digest_raw (stg_digest g) -
        contribution (\<lambda>k. row_hash X (fst k) (snd k)) ?k current"
      using ok cur del by (auto simp: stage_change_def digest_defs change_key_def split: option.splits)
    have "view_ops (stg_ops g') (view s) = view_op (DeleteRow (chg_entity c) (chg_entity_id c)) ?w"
      by (simp add: op plain_op_def None)
    then have v: "view_ops (stg_ops g') (view s) = view_op (DeleteRow (fst ?k) (snd ?k)) ?w"
      by (simp add: change_key_def)
    have "staged_agrees (view s) g'"
      using agrees unfolding staged_agrees_def v view_version_delete st by simp
    moreover have "digest_tracks X N (view s) d0 g'"
      using tracks view_digest_delete [OF fin' mem, of X "snd ?k"]
      unfolding digest_tracks_def v dg current by (simp add: change_key_def del: view_op.simps)
    ultimately show ?thesis ..
  next
    case (Some snap)
    then have ups: "chg_op c = Upsert"
      using wf by (cases "chg_op c") (auto simp: change_wf_def)
    have st: "stg_staged g' = (stg_staged g)(?k \<mapsto> Some (chg_row_version c))"
      and dg: "stg_digest g' = digest_replace X ?k current (chg_row_version c) (stg_digest g)"
      using ok cur ups Some by (auto simp: stage_change_def Let_def split: if_splits)
    have "view_ops (stg_ops g') (view s) = view_op (UpsertRow (chg_entity c) (chg_entity_id c) snap
        (chg_row_version c) (chg_schema_version c)) ?w"
      by (simp add: op plain_op_def Some)
    then have v: "view_ops (stg_ops g') (view s) =
        view_op (UpsertRow (fst ?k) (snd ?k) snap (chg_row_version c) (chg_schema_version c)) ?w"
      by (simp add: change_key_def)
    have "staged_agrees (view s) g'"
      using agrees unfolding staged_agrees_def v view_version_upsert st by simp
    moreover have "digest_tracks X N (view s) d0 g'"
      using tracks view_digest_upsert [OF fin' mem, of X "snd ?k"]
      unfolding digest_tracks_def v dg current digest_replace_raw
      by (simp add: change_key_def digest_replace_raw del: view_op.simps)
    ultimately show ?thesis ..
  qed
qed

text \<open>No row of the batch is quarantined: every change applies as it is or migrated.\<close>

lemma stage_all_tracks:
  assumes "stage_all X st e cs (g, q) = Inr (g', q')"
    and "\<forall>c \<in> set cs. change_wf c \<and> chg_entity c \<in> N \<and>
           is_ok (migrated_change X (eng_registry e) (eng_migrations e) c)"
    and "staged_agrees (view (eng_storage e)) g"
    and "digest_tracks X N (view (eng_storage e)) d0 g"
    and "finite (dom (sv_rows (view (eng_storage e))))"
  shows "staged_agrees (view (eng_storage e)) g' \<and> digest_tracks X N (view (eng_storage e)) d0 g'"
  using assms
proof (induction cs arbitrary: g q)
  case Nil
  then show ?case by simp
next
  case (Cons c cs)
  then obtain g1 q1 where one: "stage_one X st e c (g, q) = Inr (g1, q1)"
    and rest: "stage_all X st e cs (g1, q1) = Inr (g', q')"
    by (auto split: sum.splits)
  obtain mc where mc: "migrated_change X (eng_registry e) (eng_migrations e) c = Inr mc"
    using Cons.prems(2) by (auto simp: is_ok_def split: sum.splits)
  let ?c = "case mc of None \<Rightarrow> c | Some c' \<Rightarrow> c'"
  have "change_wf ?c" "chg_entity ?c \<in> N"
    using Cons.prems(2) mc migrated_change_wf migrated_change_same
    by (auto simp: change_key_def split: option.splits)
  moreover have "stage_change X st (eng_storage e) ?c (class_of (eng_registry e) (chg_entity c)) g = Inr g1"
    using one mc by (auto simp: stage_one_def Let_def map_ok_Inr split: option.splits)
  ultimately have "staged_agrees (view (eng_storage e)) g1 \<and>
      digest_tracks X N (view (eng_storage e)) d0 g1"
    using stage_change_tracks Cons.prems by blast
  then show ?case
    using Cons.IH [OF rest] Cons.prems by simp
qed

text \<open>A success, taken apart: refreshed, validated, staged, committed.\<close>

lemma apply_changes_cases:
  assumes coh: "coherent view e" and ok: "apply_changes X st b cmp rb e = (Inr out, e')"
  obtains e1 g q where
    "refresh_if_suspect st (bat_scope b) e = (Inr (), e1)"
    "validate_ordering b (cursor_get (ss_cursor (stored_state (view (eng_storage e)) (bat_scope b)))) = Inr ()"
    "stage_all X st e1 (bat_changes b)
       (staging_start (stored_state (view (eng_storage e)) (bat_scope b))) = Inr (g, q)"
    "commit_batch st b cmp rb g q e1 = (Inr out, e')"
proof -
  obtain r1 e1 where 1: "refresh_if_suspect st (bat_scope b) e = (r1, e1)"
    by fastforce
  with ok have r1: "r1 = Inr ()"
    by (auto simp: apply_changes_def split: sum.splits)
  note ref = refresh_facts [OF 1 [unfolded r1]]
  have "coherent view e1"
    using refresh_coherent [OF coh 1] .
  then have "(case eng_scopes e1 (bat_scope b) of Some s \<Rightarrow> s | None \<Rightarrow> ScopeState_NEW) =
      stored_state (view (eng_storage e)) (bat_scope b)"
    using ref by (auto simp: coherent_def stored_state_def split: option.splits)
  with ok 1 r1 that show thesis
    by (auto simp: apply_changes_def Let_def split: sum.splits)
qed

text \<open>
  The refinement: after an accepted batch the store is the store before it, with the operation each
  change stands for, then the cursor, the digest, and what the health machine records.
\<close>

lemma apply_changes_refines:
  assumes coh: "coherent view e" and ok: "apply_changes X st b cmp rb e = (Inr out, e')"
  shows "\<exists>d. view (eng_storage e') =
      view_ops (map (change_storage_op X (eng_registry e) (eng_migrations e)) (bat_changes b) @
          [SetCursor (bat_scope b) (bat_next_cursor b), SetScopeDigest (bat_scope b) (digest_to_hex d)] @
          health_ops cmp rb b d (engine_scope_health e (bat_scope b)))
        (view (eng_storage e)) \<and>
      eng_scopes e' (bat_scope b) = Some (scope_state_restored (bat_next_cursor b) d) \<and>
      apd_diverged out = batch_diverged cmp b d \<and> apd_changes out = length (bat_changes b)"
proof -
  obtain e1 g q where ref: "refresh_if_suspect st (bat_scope b) e = (Inr (), e1)"
    and val: "validate_ordering b (cursor_get (ss_cursor (stored_state (view (eng_storage e)) (bat_scope b)))) = Inr ()"
    and stg: "stage_all X st e1 (bat_changes b)
       (staging_start (stored_state (view (eng_storage e)) (bat_scope b))) = Inr (g, q)"
    and com: "commit_batch st b cmp rb g q e1 = (Inr out, e')"
    using apply_changes_cases [OF coh ok] by metis
  note rf = refresh_facts [OF ref]
  have ops: "stg_ops g = map (change_storage_op X (eng_registry e) (eng_migrations e)) (bat_changes b)"
    using stg val stage_all_spec [of X st e1 "bat_changes b" _ _ g q]
    by (simp add: staging_start_def validate_ordering_ok rf)
  have h: "engine_scope_health e1 sc = engine_scope_health e sc" for sc
    by (simp add: engine_scope_health_def rf)
  let ?ops = "stg_ops g @ [SetCursor (bat_scope b) (bat_next_cursor b),
      SetScopeDigest (bat_scope b) (digest_to_hex (stg_digest g))] @
      health_ops cmp rb b (stg_digest g) (engine_scope_health e (bat_scope b))"
  obtain o' s' where t: "transact st (eng_storage e) ?ops = (Inr o', s')"
    and e': "eng_storage e' = s'"
      "eng_scopes e' (bat_scope b) = Some (scope_state_restored (bat_next_cursor b) (stg_digest g))"
    and out: "apd_diverged out = batch_diverged cmp b (stg_digest g)"
      "apd_changes out = length (bat_changes b)"
    using com unfolding commit_batch_def Let_def h rf health_ops_def
    by (auto simp: effect_fields split: sum.splits prod.splits if_splits)
  have "view s' = view_ops ?ops (view (eng_storage e))"
    using commit_law [OF t] .
  then show ?thesis
    using e' out unfolding ops by blast
qed

text \<open>When the digest described the scope's rows before, it describes them after.\<close>

lemma apply_changes_digest:
  assumes coh: "coherent view e" and ok: "apply_changes X st b cmp rb e = (Inr out, e')"
    and fin: "finite (dom (sv_rows (view (eng_storage e))))"
    and before: "ss_digest (stored_state (view (eng_storage e)) (bat_scope b)) =
      view_digest X N (view (eng_storage e))"
    and own: "\<forall>c \<in> set (bat_changes b). chg_entity c \<in> N"
    and mig: "\<forall>c \<in> set (bat_changes b).
      is_ok (migrated_change X (eng_registry e) (eng_migrations e) c)"
  shows "eng_scopes e' (bat_scope b) =
    Some (scope_state_restored (bat_next_cursor b) (view_digest X N (view (eng_storage e'))))"
proof -
  let ?w = "view (eng_storage e)" and ?state = "stored_state (view (eng_storage e)) (bat_scope b)"
  obtain e1 g q where ref: "refresh_if_suspect st (bat_scope b) e = (Inr (), e1)"
    and val: "validate_ordering b (cursor_get (ss_cursor ?state)) = Inr ()"
    and stg: "stage_all X st e1 (bat_changes b) (staging_start ?state) = Inr (g, q)"
    and com: "commit_batch st b cmp rb g q e1 = (Inr out, e')"
    using apply_changes_cases [OF coh ok] by metis
  note rf = refresh_facts [OF ref]
  have "digest_tracks X N ?w (ss_digest ?state) g"
    using stage_all_tracks [of X e1 "bat_changes b" _ _ g q N "ss_digest ?state"] stg val own mig fin
    by (auto simp: staging_start_def validate_ordering_ok rf staged_agrees_def digest_tracks_def
        list_all_iff)
  then have d: "stg_digest g = view_digest X N (view_ops (stg_ops g) ?w)"
    using before by (auto simp: digest_tracks_def intro: scope_digest.expand)
  obtain o' s' tl where t: "transact st (eng_storage e) (stg_ops g @
        [SetCursor (bat_scope b) (bat_next_cursor b),
         SetScopeDigest (bat_scope b) (digest_to_hex (stg_digest g))] @
        health_ops cmp rb b (stg_digest g) (engine_scope_health e1 (bat_scope b))) = (Inr o', s')"
    and e': "eng_storage e' = s'"
      "eng_scopes e' (bat_scope b) = Some (scope_state_restored (bat_next_cursor b) (stg_digest g))"
    using com unfolding commit_batch_def Let_def rf health_ops_def
    by (auto simp: effect_fields split: sum.splits prod.splits if_splits)
  have "sv_rows (view s') = sv_rows (view_ops (stg_ops g) ?w)"
    using commit_law [OF t] by simp
  then have "view_version (view s') = view_version (view_ops (stg_ops g) ?w)"
    by (simp add: fun_eq_iff view_version_def)
  then have "view_digest X N (view s') = stg_digest g"
    unfolding d by (simp add: view_digest_def)
  then show ?thesis
    using e' by simp
qed

lemma apply_changes_digest_true:
  assumes coh: "coherent view e" and run: "apply_changes X st b cmp rb e = (r, e')"
    and inv: "digest_true X N (bat_scope b) (view (eng_storage e))"
    and own: "\<forall>c \<in> set (bat_changes b). chg_entity c \<in> N"
    and mig: "\<forall>c \<in> set (bat_changes b).
      is_ok (migrated_change X (eng_registry e) (eng_migrations e) c)"
  shows "digest_true X N (bat_scope b) (view (eng_storage e'))"
proof -
  let ?w = "view (eng_storage e)" and ?sc = "bat_scope b"
  let ?state = "stored_state ?w ?sc"
  have fin: "finite (dom (sv_rows ?w))" and before: "ss_digest ?state = view_digest X N ?w"
    using inv by (simp_all add: digest_true_def)
  obtain r1 e1 where 1: "refresh_if_suspect st ?sc e = (r1, e1)"
    by fastforce
  have s1: "eng_storage e1 = eng_storage e"
    using 1 by (auto simp: refresh_if_suspect_def split: if_splits sum.splits)
  show ?thesis
  proof (cases r1)
    case (Inl err)
    then have "e' = e1"
      using run 1 by (simp add: apply_changes_def)
    with inv s1 show ?thesis by simp
  next
    case (Inr u)
    note rf = refresh_facts [OF 1 [unfolded Inr]]
    have "coherent view e1"
      using refresh_coherent [OF coh 1] .
    then have state: "(case eng_scopes e1 ?sc of Some s \<Rightarrow> s | None \<Rightarrow> ScopeState_NEW) = ?state"
      using rf by (auto simp: coherent_def stored_state_def split: option.splits)
    show ?thesis
    proof (cases "\<exists>g q. validate_ordering b (cursor_get (ss_cursor ?state)) = Inr () \<and>
        stage_all X st e1 (bat_changes b) (staging_start ?state) = Inr (g, q)")
      case False
      then have "e' = e1"
        using run 1 Inr unfolding apply_changes_def by (auto simp: Let_def state split: sum.splits)
      with inv s1 show ?thesis by simp
    next
      case True
      then obtain g q where val: "validate_ordering b (cursor_get (ss_cursor ?state)) = Inr ()"
        and stg: "stage_all X st e1 (bat_changes b) (staging_start ?state) = Inr (g, q)"
        by blast
      then have com: "commit_batch st b cmp rb g q e1 = (r, e')"
        using run 1 Inr unfolding apply_changes_def by (simp add: Let_def state)
      have "digest_tracks X N ?w (ss_digest ?state) g"
        using stage_all_tracks [of X e1 "bat_changes b" _ _ g q N "ss_digest ?state"] stg val own mig fin
        by (auto simp: staging_start_def validate_ordering_ok rf staged_agrees_def digest_tracks_def
            list_all_iff)
      then have d: "stg_digest g = view_digest X N (view_ops (stg_ops g) ?w)"
        using before by (auto simp: digest_tracks_def intro: scope_digest.expand)
      let ?ops = "stg_ops g @ [SetCursor ?sc (bat_next_cursor b),
          SetScopeDigest ?sc (digest_to_hex (stg_digest g))] @
          health_ops cmp rb b (stg_digest g) (engine_scope_health e1 ?sc)"
      let ?v = "view_ops ?ops ?w"
      have "position ?v ?sc =
          Some \<lparr>sts_cursor = bat_next_cursor b, sts_digest = digest_to_hex (stg_digest g)\<rparr>"
        by (simp add: position_def)
      moreover have "sv_rows ?v = sv_rows (view_ops (stg_ops g) ?w)"
        by simp
      then have "view_version ?v = view_version (view_ops (stg_ops g) ?w)"
        by (simp add: fun_eq_iff view_version_def)
      ultimately have "digest_true X N ?sc ?v"
        using finite_view_ops [OF fin, of ?ops]
        by (simp add: digest_true_def stored_state_def restored_scope_def scope_state_restored_def
            view_digest_def d)
      moreover obtain r2 s' where t: "transact st (eng_storage e) ?ops = (r2, s')"
        by fastforce
      moreover have "eng_storage e' = s'"
        using com t unfolding commit_batch_def Let_def health_ops_def rf
        by (auto simp: effect_fields split: sum.splits if_splits)
      ultimately show ?thesis
        using transact_view [OF t] inv by metis
    qed
  qed
qed

lemma rebootstrap_digest_true:
  assumes run: "begin_rebootstrap st sc e = (r, e')"
    and inv: "digest_true X N sc (view (eng_storage e))"
    and own: "N \<subseteq> set (map reg_entity (filter (\<lambda>r. reg_scope r = sc) (registry_entities (eng_registry e))))"
  shows "digest_true X N sc (view (eng_storage e'))"
proof -
  let ?ops = "rebootstrap_ops (eng_registry e) sc" and ?w = "view (eng_storage e)"
  let ?v = "view_ops ?ops ?w"
  obtain r2 s' where t: "transact st (eng_storage e) ?ops = (r2, s')"
    by fastforce
  then have e': "eng_storage e' = s'"
    using run by (auto simp: begin_rebootstrap_def split: sum.splits)
  have "scoped_hash X N k (the (view_version ?v k)) = 0" if "k \<in> dom (view_version ?v)" for k
  proof -
    obtain n i where k: "k = (n, i)" by fastforce
    with that have "n \<notin> set (map reg_entity (filter (\<lambda>r. reg_scope r = sc) (registry_entities (eng_registry e))))"
      by (auto simp: view_version_def rebootstrap_ops_def split: if_splits)
    with own show ?thesis
      by (auto simp: scoped_hash_def k)
  qed
  then have "row_sum (scoped_hash X N) (view_version ?v) = 0"
    unfolding row_sum_def by (rule sum.neutral [rule_format])
  moreover have "position ?v sc =
      Some \<lparr>sts_cursor = Cursor_START, sts_digest = digest_to_hex ScopeDigest_EMPTY\<rparr>"
    by (simp add: rebootstrap_ops_def position_def)
  ultimately have "digest_true X N sc ?v"
    using inv finite_view_ops [of ?w ?ops]
    by (simp add: digest_true_def stored_state_def restored_scope_def scope_state_restored_def
        view_digest_def ScopeDigest_EMPTY_def)
  then show ?thesis
    using transact_view [OF t] inv e' by metis
qed

end

end
