(* ===== verification/Core_Results.thy ===== *)
theory Core_Results
  imports Core_Contract
begin

text \<open>
  The queue's bookkeeping: what one response resolves (\<open>apply_results\<close>), and the two invariants of
  the stored queue the protocol rests on. \<open>accounted\<close>: no queued command vanishes. \<open>single_outcome\<close>:
  no command has two recorded outcomes, and none is both queued and resolved.
\<close>

section \<open>One response\<close>

definition ids :: "outbox_entry list \<Rightarrow> command_id set" where
  "ids q = oe_id ` set q"

lemma find_id_None: "find (\<lambda>x. oe_id x = i) q = None \<longleftrightarrow> i \<notin> ids q"
  by (auto simp: find_None_iff ids_def)

lemma find_id_Some: "find (\<lambda>x. oe_id x = i) q = Some x \<Longrightarrow> x \<in> set q \<and> oe_id x = i \<and> i \<in> ids q"
  by (auto simp: find_Some_iff ids_def)

lemma outbox_contains_ids: "outbox_contains e i \<longleftrightarrow> i \<in> ids (eng_outbox e)"
  by (auto simp: outbox_contains_def ids_def list_ex_iff)

text \<open>The state of the loop over the results.\<close>

definition resolving_ok :: "outbox_entry list \<Rightarrow> resolving \<Rightarrow> bool" where
  "resolving_ok q a \<longleftrightarrow>
     distinct (map fst (rs_resolutions a)) \<and> set (map fst (rs_resolutions a)) = rs_answered a \<and>
     rs_answered a \<subseteq> ids q"

lemma resolve_one_ok: "resolving_ok q a \<Longrightarrow> resolving_ok q (resolve_one g q r a)"
  using find_id_Some [of "res_id r" q]
  by (auto simp: resolving_ok_def resolve_one_def split: option.splits)

lemma resolve_fold_ok: "resolving_ok q a \<Longrightarrow> resolving_ok q (fold (resolve_one g q) rs a)"
  by (induction rs arbitrary: a) (auto simp: resolve_one_ok)

lemma resolve_all_ok: "resolving_ok q (resolve_all g q rs)"
  unfolding resolve_all_def
  by (rule resolve_fold_ok) (simp add: resolving_ok_def resolving_start_def)

text \<open>Every answered queued command is resolved, and every result is resolved or counted unknown.\<close>

lemma resolve_one_counts:
  "length (rs_resolutions (resolve_one g q r a)) + rs_unknown (resolve_one g q r a) =
   Suc (length (rs_resolutions a) + rs_unknown a)"
  by (simp add: resolve_one_def split: option.splits)

lemma resolve_fold_counts:
  "length (rs_resolutions (fold (resolve_one g q) rs a)) + rs_unknown (fold (resolve_one g q) rs a) =
   length rs + length (rs_resolutions a) + rs_unknown a"
  by (induction rs arbitrary: a) (simp_all add: resolve_one_counts)

lemma resolve_all_counts:
  "length (rs_resolutions (resolve_all g q rs)) + rs_unknown (resolve_all g q rs) = length rs"
  by (simp add: resolve_all_def resolve_fold_counts resolving_start_def)

lemma resolve_none:
  "rs_resolutions (fold (resolve_one g q) rs a) = [] \<Longrightarrow> rs_ops (fold (resolve_one g q) rs a) = rs_ops a"
proof (induction rs arbitrary: a)
  case (Cons r rs)
  have keep: "\<exists>xs. rs_resolutions (fold (resolve_one g q) rs b) = rs_resolutions b @ xs" for b
  proof (induction rs arbitrary: b)
    case (Cons r rs)
    from Cons [of "resolve_one g q r b"] show ?case
      by (auto simp: resolve_one_def split: option.splits if_splits)
  qed simp
  have "rs_resolutions (resolve_one g q r a) = []"
    using Cons.prems keep [of "resolve_one g q r a"] by auto
  then have "rs_ops (resolve_one g q r a) = rs_ops a"
    by (auto simp: resolve_one_def split: option.splits if_splits)
  with Cons show ?case by simp
qed simp

lemma resolve_fold_answered:
  "rs_answered (fold (resolve_one g q) rs a) =
     rs_answered a \<union> {i \<in> res_id ` set rs. i \<in> ids q}"
proof (induction rs arbitrary: a)
  case Nil
  then show ?case by simp
next
  case (Cons r rs)
  have "rs_answered (resolve_one g q r a) = rs_answered a \<union> {i. i = res_id r \<and> i \<in> ids q}"
    using find_id_None [of "res_id r" q] find_id_Some [of "res_id r" q]
    by (auto simp: resolve_one_def split: option.splits)
  with Cons show ?case by auto
qed

lemma resolve_all_answered:
  "fst ` set (rs_resolutions (resolve_all g q rs)) = {i \<in> res_id ` set rs. i \<in> ids q}"
  using resolve_all_ok [of q g rs] resolve_fold_answered [of g q rs resolving_start]
  by (simp add: resolving_ok_def resolve_all_def resolving_start_def)

text \<open>What the operations of a response do to the store's records.\<close>

lemma draft_ops_view:
  "sv_resolved (view_ops (draft_ops g x r) w) = sv_resolved w"
  "sv_enqueued (view_ops (draft_ops g x r) w) = sv_enqueued w"
  "sv_outbox (view_ops (draft_ops g x r) w) = sv_outbox w"
  "set (sv_recovered w) \<subseteq> set (sv_recovered (view_ops (draft_ops g x r) w))"
  by (auto simp: draft_ops_def split: option.splits)

lemma resolve_fold_resolved:
  "sv_resolved (view_ops (rs_ops a) w) = sv_resolved w @ rs_resolutions a \<Longrightarrow>
   sv_resolved (view_ops (rs_ops (fold (resolve_one g q) rs a)) w) =
     sv_resolved w @ rs_resolutions (fold (resolve_one g q) rs a)"
proof (induction rs arbitrary: a)
  case (Cons r rs)
  have "sv_resolved (view_ops (rs_ops (resolve_one g q r a)) w) =
      sv_resolved w @ rs_resolutions (resolve_one g q r a)"
    using Cons.prems by (simp add: resolve_one_def draft_ops_view split: option.splits)
  with Cons.IH show ?case by simp
qed simp

lemma resolve_all_resolved:
  "sv_resolved (view_ops (rs_ops (resolve_all g q rs)) w) =
     sv_resolved w @ rs_resolutions (resolve_all g q rs)"
  unfolding resolve_all_def by (rule resolve_fold_resolved) (simp add: resolving_start_def)

lemma fold_filter_ids:
  "fold (\<lambda>(i, _). filter (\<lambda>x. oe_id x \<noteq> i)) res q = filter (\<lambda>x. oe_id x \<notin> fst ` set res) q"
  by (induction res arbitrary: q) (auto simp: filter_filter intro: filter_cong)

lemma resolve_all_queue_left:
  "sv_outbox (view_ops (rs_ops (resolve_all g q rs)) w) =
     filter (\<lambda>x. oe_id x \<notin> fst ` set (rs_resolutions (resolve_all g q rs))) (sv_outbox w)"
  by (simp add: resolve_all_outbox fold_filter_ids)

section \<open>No command vanishes\<close>

definition accounted :: "store_view \<Rightarrow> bool" where
  "accounted w \<longleftrightarrow> sv_enqueued w \<subseteq> ids (sv_outbox w) \<union> fst ` set (sv_resolved w)"

text \<open>There is no operation that could drop a command: every one keeps the books.\<close>

lemma accounted_op: "accounted w \<Longrightarrow> accounted (view_op x w)"
  by (cases x) (auto simp: accounted_def ids_def oe_id_def outbox_entry_new_def)

lemma accounted_ops: "accounted w \<Longrightarrow> accounted (view_ops ops w)"
  by (induction ops arbitrary: w) (auto simp: accounted_op)

section \<open>One outcome per command\<close>

definition single_outcome :: "store_view \<Rightarrow> bool" where
  "single_outcome w \<longleftrightarrow>
     distinct (map fst (sv_resolved w)) \<and> ids (sv_outbox w) \<inter> fst ` set (sv_resolved w) = {}"

lemma single_outcome_scope_ops:
  "list_all (scope_op sc) ops \<Longrightarrow> single_outcome (view_ops ops w) = single_outcome w"
  using scope_ops_view [of sc ops w] by (simp add: single_outcome_def)

lemma single_outcome_results:
  assumes "single_outcome w"
  shows "single_outcome (view_ops (rs_ops (resolve_all g (sv_outbox w) rs)) w)"
proof -
  let ?a = "resolve_all g (sv_outbox w) rs"
  have "resolving_ok (sv_outbox w) ?a"
    by (rule resolve_all_ok)
  with assms show ?thesis
    by (auto simp: single_outcome_def resolving_ok_def resolve_all_resolved resolve_all_queue_left
        ids_def)
qed

lemma single_outcome_enqueue:
  "single_outcome w \<Longrightarrow> cmd_id c \<notin> fst ` set (sv_resolved w) \<Longrightarrow>
   single_outcome (view_op (EnqueueCommand c v) w)"
  by (auto simp: single_outcome_def ids_def oe_id_def outbox_entry_new_def)

section \<open>A losing edit is kept\<close>

definition drafts_kept :: "registry \<Rightarrow> outbox_entry list \<Rightarrow> resolving \<Rightarrow> bool" where
  "drafts_kept g q a \<longleftrightarrow>
     (\<forall>i. (i, ResSuperseded) \<in> set (rs_resolutions a) \<longrightarrow>
        (\<exists>x \<in> set q. oe_id x = i \<and>
           (\<forall>n. target_of g (cmd_name (oe_command x)) = Some n \<and> class_of g n = Some OwnerDraft \<longrightarrow>
              SaveRecoveredDraft n i (cmd_payload (oe_command x)) \<in> set (rs_ops a))))"

lemma resolution_superseded: "resolution_of r = ResSuperseded \<longleftrightarrow> res_status r = Superseded"
  by (cases "res_status r") (auto simp: resolution_of_def)

lemma drafts_kept_one: "drafts_kept g q a \<Longrightarrow> drafts_kept g q (resolve_one g q r a)"
proof (cases "find (\<lambda>x. oe_id x = res_id r) q")
  case (Some x)
  assume kept: "drafts_kept g q a"
  have x: "x \<in> set q" "oe_id x = res_id r"
    using find_id_Some [OF Some] by simp_all
  show ?thesis
    unfolding drafts_kept_def
  proof (intro allI impI)
    fix i assume i: "(i, ResSuperseded) \<in> set (rs_resolutions (resolve_one g q r a))"
    let ?Q = "\<lambda>a y. y \<in> set q \<and> oe_id y = i \<and>
      (\<forall>n. target_of g (cmd_name (oe_command y)) = Some n \<and> class_of g n = Some OwnerDraft \<longrightarrow>
        SaveRecoveredDraft n i (cmd_payload (oe_command y)) \<in> set (rs_ops a))"
    have mono: "set (rs_ops a) \<subseteq> set (rs_ops (resolve_one g q r a))"
      by (auto simp: resolve_one_def split: option.splits)
    show "\<exists>y \<in> set q. oe_id y = i \<and>
      (\<forall>n. target_of g (cmd_name (oe_command y)) = Some n \<and> class_of g n = Some OwnerDraft \<longrightarrow>
        SaveRecoveredDraft n i (cmd_payload (oe_command y)) \<in> set (rs_ops (resolve_one g q r a)))"
    proof (cases "(i, ResSuperseded) \<in> set (rs_resolutions a)")
      case True
      then show ?thesis
        using kept mono unfolding drafts_kept_def by (meson subsetD)
    next
      case False
      then have "i = res_id r" "res_status r = Superseded" "res_id r \<notin> rs_answered a"
        using i Some by (auto simp: resolve_one_def resolution_superseded [symmetric] split: if_splits)
      then have "?Q (resolve_one g q r a) x"
        using x Some by (auto simp: resolve_one_def draft_ops_def)
      then show ?thesis by blast
    qed
  qed
qed (auto simp: resolve_one_def drafts_kept_def)

lemma drafts_kept_all: "drafts_kept g q (resolve_all g q rs)"
proof -
  have keep: "drafts_kept g q a \<Longrightarrow> drafts_kept g q (fold (resolve_one g q) rs a)" for a
    by (induction rs arbitrary: a) (auto simp: drafts_kept_one)
  show ?thesis
    unfolding resolve_all_def by (rule keep) (simp add: drafts_kept_def resolving_start_def)
qed

lemma recovered_op: "set (sv_recovered w) \<subseteq> set (sv_recovered (view_op x w))"
  by (cases x) auto

lemma recovered_ops: "set (sv_recovered w) \<subseteq> set (sv_recovered (view_ops ops w))"
  using recovered_op by (induction ops arbitrary: w) (simp, fastforce)

lemma saved_in_view:
  "SaveRecoveredDraft n i p \<in> set ops \<Longrightarrow> (i, n, p) \<in> set (sv_recovered (view_ops ops w))"
proof (induction ops arbitrary: w)
  case (Cons x ops)
  show ?case
  proof (cases "x = SaveRecoveredDraft n i p")
    case True
    then show ?thesis
      using recovered_ops [of "view_op x w" ops] by auto
  qed (use Cons in auto)
qed simp

end
