(* ===== verification/Sim_Storage.thy ===== *)
theory Sim_Storage
  imports Core_Digest Core_Results
begin

text \<open>
  The repository's own storage adapter (\<open>credsync-sim/src/fakes.rs\<close>): one device's database, a
  transaction staged on a copy, and the injected verdicts, among them the commit whose
  acknowledgement is lost. It is shown to keep the storage contract, so everything proved of the
  engine under the contract holds of the engine on this store.
\<close>

section \<open>The database\<close>

record stored_row =
  sr_snapshot :: snapshot
  sr_row_version :: row_version
  sr_schema_version :: schema_version

datatype storage_verdict = Commit | FailBeforeCommit | CommitThenLoseAck

record db =
  db_rows :: "(row_key, stored_row) btree"
  db_cursors :: "scope_id \<rightharpoonup> cursor"
  db_digests :: "scope_id \<rightharpoonup> hex_string"
  db_outbox :: "(command \<times> schema_version) list"
  db_resolved :: "(command_id \<times> resolution) list"
  db_recovered :: "(command_id \<times> entity_name \<times> payload) list"
  db_verdict :: storage_verdict
  db_commits :: u64
  db_quarantine :: "(entity_id \<times> snapshot \<times> schema_version \<times> string) list"
  db_divergences :: "scope_id \<rightharpoonup> u32 \<times> bool"
  db_enqueued :: "command_id set"

definition db_default :: db where
  "db_default =
     \<lparr>db_rows = [], db_cursors = Map.empty, db_digests = Map.empty, db_outbox = [],
      db_resolved = [], db_recovered = [], db_verdict = Commit, db_commits = 0,
      db_quarantine = [], db_divergences = Map.empty, db_enqueued = {}\<rparr>"

text \<open>\<open>digest_over_rows\<close>: the digest the stored rows imply, computed from scratch.\<close>

definition digest_over_rows :: "externs \<Rightarrow> db \<Rightarrow> entity_name list \<Rightarrow> scope_digest" where
  "digest_over_rows X d entities =
     digest_from_rows X
       (map (\<lambda>((n, i), row). (n, i, sr_row_version row))
          (filter (\<lambda>((n, _), _). n \<in> set entities) (db_rows d)))"

fun staged_op :: "storage_op \<Rightarrow> db \<Rightarrow> db" where
  "staged_op (UpsertRow n i snap v sch) d =
     d\<lparr>db_rows := bt_insert (n, i)
         \<lparr>sr_snapshot = snap, sr_row_version = v, sr_schema_version = sch\<rparr> (db_rows d)\<rparr>"
| "staged_op (DeleteRow n i) d = d\<lparr>db_rows := bt_remove (n, i) (db_rows d)\<rparr>"
| "staged_op (SetCursor sc c) d = d\<lparr>db_cursors := (db_cursors d)(sc \<mapsto> c)\<rparr>"
| "staged_op (SetScopeDigest sc h) d = d\<lparr>db_digests := (db_digests d)(sc \<mapsto> h)\<rparr>"
| "staged_op (EnqueueCommand c v) d =
     d\<lparr>db_outbox := db_outbox d @ [(c, v)], db_enqueued := insert (cmd_id c) (db_enqueued d)\<rparr>"
| "staged_op (ResolveCommand i r) d =
     d\<lparr>db_outbox := filter (\<lambda>(c, _). cmd_id c \<noteq> i) (db_outbox d),
       db_resolved := db_resolved d @ [(i, r)]\<rparr>"
| "staged_op (RecordDivergence sc k healed) d =
     d\<lparr>db_divergences := (db_divergences d)(sc \<mapsto> (k, healed))\<rparr>"
| "staged_op (ClearScope sc ns) d =
     d\<lparr>db_rows := filter (\<lambda>((n, _), _). n \<notin> set ns) (db_rows d),
       db_cursors := (db_cursors d)(sc := None),
       db_digests := (db_digests d)(sc := None)\<rparr>"
| "staged_op (QuarantineRow n i snap sch reason) d =
     d\<lparr>db_quarantine := db_quarantine d @ [(i, snap, sch, reason)]\<rparr>"
| "staged_op (SaveRecoveredDraft n i p) d =
     d\<lparr>db_recovered := db_recovered d @ [(i, n, p)]\<rparr>"

definition db_staged :: "db \<Rightarrow> storage_op list \<Rightarrow> db" where
  "db_staged d ops = fold staged_op ops (d\<lparr>db_verdict := Commit\<rparr>)"

definition lost_before :: storage_error where
  "lost_before = Transient ''simulated failure before commit''"

definition lost_ack :: storage_error where
  "lost_ack = Transient ''simulated kill between commit and acknowledgement''"

definition sim_transact :: "db \<Rightarrow> storage_op list \<Rightarrow> (storage_error + tx_outcome) \<times> db" where
  "sim_transact d0 ops =
     (let verdict = db_verdict d0;
          d = d0\<lparr>db_verdict := Commit\<rparr>;
          staged = db_staged d ops
      in case verdict of
        FailBeforeCommit \<Rightarrow> (Inl lost_before, d)
      | Commit \<Rightarrow>
          (Inr (TxOutcome (length ops)), staged\<lparr>db_commits := db_commits staged + 1\<rparr>)
      | CommitThenLoseAck \<Rightarrow>
          (Inl lost_ack, staged\<lparr>db_commits := db_commits staged + 1\<rparr>))"

definition sim_row_version ::
  "db \<Rightarrow> entity_name \<Rightarrow> entity_id \<Rightarrow> storage_error + row_version option" where
  "sim_row_version d n i = Inr (map_option sr_row_version (bt_get (db_rows d) (n, i)))"

definition sim_scope_state :: "db \<Rightarrow> scope_id \<Rightarrow> storage_error + stored_scope option" where
  "sim_scope_state d sc =
     Inr (map_option (\<lambda>c. \<lparr>sts_cursor = c,
            sts_digest = (case db_digests d sc of Some h \<Rightarrow> h
                          | None \<Rightarrow> digest_to_hex ScopeDigest_EMPTY)\<rparr>)
          (db_cursors d sc))"

definition sim_outbox :: "db \<Rightarrow> storage_error + outbox_entry list" where
  "sim_outbox d = Inr (map (\<lambda>(c, v). outbox_entry_new c v) (db_outbox d))"

definition sim_storage :: "db storage_impl" where
  "sim_storage =
     \<lparr>transact = sim_transact, stored_row_version = sim_row_version,
      stored_scope_state = sim_scope_state, stored_outbox = sim_outbox\<rparr>"

lemmas sim_storage_defs [run_defs] =
  db_default_def digest_over_rows_def db_staged_def lost_before_def lost_ack_def sim_transact_def
  sim_row_version_def sim_scope_state_def sim_outbox_def sim_storage_def

section \<open>The contract holds\<close>

definition db_view :: "db \<Rightarrow> store_view" where
  "db_view d =
     \<lparr>sv_rows = map_option (\<lambda>r. (sr_snapshot r, sr_row_version r, sr_schema_version r)) \<circ>
                  map_of (db_rows d),
      sv_cursors = db_cursors d, sv_digests = db_digests d,
      sv_outbox = map (\<lambda>(c, v). outbox_entry_new c v) (db_outbox d),
      sv_enqueued = db_enqueued d, sv_resolved = db_resolved d, sv_recovered = db_recovered d,
      sv_quarantine = db_quarantine d, sv_divergences = db_divergences d\<rparr>"

lemma map_of_filter_entity:
  "map_of (filter (\<lambda>((n, _), _). n \<notin> N) m) (n, i) = (if n \<in> N then None else map_of m (n, i))"
  by (induction m) auto

lemma outbox_filter:
  "map (\<lambda>(c, v). outbox_entry_new c v) (filter (\<lambda>(c, _). cmd_id c \<noteq> i) q) =
   filter (\<lambda>x. oe_id x \<noteq> i) (map (\<lambda>(c, v). outbox_entry_new c v) q)"
  by (induction q) (auto simp: oe_id_def outbox_entry_new_def)

lemma db_view_staged_op: "db_view (staged_op x d) = view_op x (db_view d)"
  by (cases x) (auto simp: db_view_def fun_eq_iff map_of_filter_entity outbox_filter)

lemma db_view_verdict [simp]:
  "db_view (d\<lparr>db_verdict := v\<rparr>) = db_view d" "db_view (d\<lparr>db_commits := n\<rparr>) = db_view d"
  by (simp_all add: db_view_def)

lemma db_view_fold: "db_view (fold staged_op ops d) = view_ops ops (db_view d)"
  by (induction ops arbitrary: d) (simp_all add: db_view_staged_op)

lemma db_view_staged: "db_view (db_staged d ops) = view_ops ops (db_view d)"
  by (simp add: db_staged_def db_view_fold)

text \<open>A transaction, by verdict.\<close>

lemma sim_transact_view:
  "sim_transact d ops = (r, d') \<Longrightarrow>
     db_view d' = (if db_verdict d = FailBeforeCommit then db_view d else view_ops ops (db_view d)) \<and>
     is_ok r = (db_verdict d = Commit) \<and> db_verdict d' = Commit"
proof -
  have "db_verdict (fold staged_op ops d) = db_verdict d" for d
  proof (induction ops arbitrary: d)
    case (Cons x ops)
    have "db_verdict (staged_op x d) = db_verdict d" by (cases x) auto
    with Cons show ?case by simp
  qed simp
  then show "sim_transact d ops = (r, d') \<Longrightarrow> ?thesis"
    by (cases "db_verdict d")
      (auto simp: sim_transact_def Let_def db_view_fold is_ok_def db_staged_def)
qed

interpretation sim: storage_contract sim_storage db_view
proof
  fix s :: db and n i v
  assume "stored_row_version sim_storage s n i = Inr v"
  then show "v = view_version (db_view s) (n, i)"
    by (auto simp: sim_storage_def sim_row_version_def view_version_def db_view_def
        option.map_comp comp_def)
next
  fix s :: db and sc p
  assume "stored_scope_state sim_storage s sc = Inr p"
  then show "p = position (db_view s) sc"
    by (auto simp: sim_storage_def sim_scope_state_def position_def db_view_def)
next
  fix s :: db and q
  assume "stored_outbox sim_storage s = Inr q"
  then show "q = sv_outbox (db_view s)"
    by (auto simp: sim_storage_def sim_outbox_def db_view_def)
next
  fix s s' :: db and ops out
  assume "transact sim_storage s ops = (Inr out, s')"
  then show "db_view s' = view_ops ops (db_view s)"
    using sim_transact_view [of s ops "Inr out" s'] by (auto simp: sim_storage_def is_ok_def)
next
  fix s s' :: db and ops err
  assume "transact sim_storage s ops = (Inl err, s')"
  then show "db_view s' = db_view s \<or> db_view s' = view_ops ops (db_view s)"
    using sim_transact_view [of s ops "Inl err" s'] by (auto simp: sim_storage_def)
qed

end
