(* ===== verification/Device_System.thy ===== *)
theory Device_System
  imports Sim_Storage
begin

text \<open>
  One device of the simulated world (\<open>credsync-sim/src/world.rs\<close>) as a state machine: the engine on
  its database, driven by arbitrary batches, pages and responses, with a storage fault armed at any
  moment and a restart that throws the engine away and rebuilds it from the database. Whatever the
  network delivers and whatever the storage claims, the reachable states keep the invariants proved
  here.
\<close>

section \<open>Starting a device\<close>

definition submit_reflection :: command_name where
  "submit_reflection = CommandName ''submit_reflection''"

text \<open>\<open>register\<close>: the entity and command every device in a run uses.\<close>

definition sim_register :: "entity_name \<Rightarrow> scope_id \<Rightarrow> registry \<Rightarrow> registry" where
  "sim_register entity scope g =
     register_command submit_reflection entity
       (register_entity
          \<lparr>reg_entity = entity, reg_scope = scope, reg_class = OwnerDraft,
           reg_schema_version = SchemaVersion 1\<rparr> g)"

definition digest_from_hex :: "hex_string \<Rightarrow> scope_digest option" where
  "digest_from_hex h = map_option digest_from_raw (u128_from_str_radix16 (hex_str h))"

definition restart_device :: "entity_name \<Rightarrow> scope_id \<Rightarrow> db \<Rightarrow> db engine" where
  "restart_device entity scope d =
     (let e0 = engine_new d;
          e1 = e0\<lparr>eng_registry := sim_register entity scope (eng_registry e0)\<rparr>;
          e2 = (case db_cursors d scope of
                  None \<Rightarrow> e1
                | Some c \<Rightarrow>
                    (let digest =
                       (case Option.bind (db_digests d scope) digest_from_hex of
                          Some x \<Rightarrow> x
                        | None \<Rightarrow> ScopeDigest_EMPTY)
                     in restore_scope scope (scope_state_restored c digest) e1))
      in restore_outbox (map (\<lambda>(c, s). outbox_entry_new c s) (db_outbox d)) e2)"

lemmas device_defs [run_defs] =
  submit_reflection_def sim_register_def digest_from_hex_def restart_device_def

section \<open>Steps\<close>

text \<open>
  What can happen to a device whose run subscribes to \<open>scope\<close> and uses \<open>entity\<close>. An authored
  command is not one that has already been answered; the network may deliver any batch of the scope,
  any page and any response, however wrong, as long as each change satisfies \<open>ok\<close> (everything does
  for \<open>\<lambda>_. True\<close>).
\<close>

inductive device_step ::
  "externs \<Rightarrow> entity_name \<Rightarrow> scope_id \<Rightarrow> (change \<Rightarrow> bool) \<Rightarrow>
   db engine \<Rightarrow> db engine \<Rightarrow> bool"
  for X entity scope ok where
  armed:
    "device_step X entity scope ok e
       (e\<lparr>eng_storage := (eng_storage e)\<lparr>db_verdict := v\<rparr>\<rparr>)"
| pulled:
    "bat_scope b = scope \<Longrightarrow> list_all ok (bat_changes b) \<Longrightarrow> apply_batch X sim_storage b e = (r, e') \<Longrightarrow>
     device_step X entity scope ok e e'"
| bootstrapped:
    "bsr_scope p = scope \<Longrightarrow> list_all ok (bsr_changes p) \<Longrightarrow> apply_bootstrap X sim_storage p e = (r', e') \<Longrightarrow>
     device_step X entity scope ok e e'"
| rebuilt:
    "begin_rebootstrap sim_storage scope e = (r'', e') \<Longrightarrow> device_step X entity scope ok e e'"
| reloaded:
    "reload_scope sim_storage scope e = (r'', e') \<Longrightarrow> device_step X entity scope ok e e'"
| forgiven:
    "clear_scope_health sim_storage scope e = (r'', e') \<Longrightarrow> device_step X entity scope ok e e'"
| authored:
    "oe_id entry \<notin> fst ` set (db_resolved (eng_storage e)) \<Longrightarrow>
     enqueue sim_storage entry e = (q, e') \<Longrightarrow> device_step X entity scope ok e e'"
| pushed:
    "build_push X z sim_storage protocol budget e = (pr, e') \<Longrightarrow> device_step X entity scope ok e e'"
| answered:
    "apply_results sim_storage response e = (rr, e') \<Longrightarrow> device_step X entity scope ok e e'"
| drained:
    "next_effect e = (f, e') \<Longrightarrow> device_step X entity scope ok e e'"
| refused:
    "device_step X entity scope ok e (on_upgrade_required envelope e)"
| upgraded:
    "device_step X entity scope ok e (upgrade_completed e)"
| restarted:
    "device_step X entity scope ok e (restart_device entity scope (eng_storage e))"

inductive device_reachable ::
  "externs \<Rightarrow> entity_name \<Rightarrow> scope_id \<Rightarrow> (change \<Rightarrow> bool) \<Rightarrow>
   db engine \<Rightarrow> bool"
  for X entity scope ok where
  started: "device_reachable X entity scope ok (restart_device entity scope db_default)"
| stepped:
    "device_reachable X entity scope ok e \<Longrightarrow> device_step X entity scope ok e e' \<Longrightarrow>
     device_reachable X entity scope ok e'"

section \<open>What a step does to the store\<close>

text \<open>Every step runs at most one transaction, of one of four kinds.\<close>

inductive store_step :: "scope_id \<Rightarrow> registry \<Rightarrow> store_view \<Rightarrow> store_view \<Rightarrow> bool" for scope g where
  same: "store_step scope g w w"
| read_side: "list_all (scope_op scope) ops \<Longrightarrow> store_step scope g w (view_ops ops w)"
| queued:
    "cmd_id c \<notin> fst ` set (sv_resolved w) \<Longrightarrow> is_ok (check_command g c) \<Longrightarrow>
     store_step scope g w (view_op (EnqueueCommand c v) w)"
| resolved:
    "store_step scope g w (view_ops (rs_ops (resolve_all g (sv_outbox w) rs)) w)"

context storage_contract
begin

lemma transact_store_step:
  assumes "transact st s ops = (r, s')" and "list_all (scope_op scope) ops"
  shows "store_step scope g (view s) (view s')"
  using transact_view [OF assms(1)] assms(2) same read_side by metis

lemma commit_store_step:
  assumes "list_all touches_row (stg_ops gs)" and "commit_batch st b cmp rb gs q e = (r, e')"
  shows "store_step (bat_scope b) g (view (eng_storage e)) (view (eng_storage e'))"
proof -
  let ?ops = "stg_ops gs @ [SetCursor (bat_scope b) (bat_next_cursor b),
      SetScopeDigest (bat_scope b) (digest_to_hex (stg_digest gs))] @
      health_ops cmp rb b (stg_digest gs) (engine_scope_health e (bat_scope b))"
  have "list_all (scope_op (bat_scope b)) ?ops"
    using assms(1) by (auto simp: health_ops_def Let_def list_all_iff scope_op_row)
  moreover obtain r1 s' where t: "transact st (eng_storage e) ?ops = (r1, s')"
    by fastforce
  moreover have "eng_storage e' = s'"
    using assms(2) t unfolding commit_batch_def Let_def health_ops_def
    by (auto simp: effect_fields split: sum.splits if_splits)
  ultimately show ?thesis
    using transact_store_step by blast
qed

lemma apply_changes_store_step:
  assumes "apply_changes X st b cmp rb e = (r, e')"
  shows "store_step (bat_scope b) g (view (eng_storage e)) (view (eng_storage e'))"
proof -
  obtain r1 e1 where 1: "refresh_if_suspect st (bat_scope b) e = (r1, e1)"
    by fastforce
  then have s1: "eng_storage e1 = eng_storage e"
    by (auto simp: refresh_if_suspect_def split: if_splits sum.splits)
  show ?thesis
  proof (cases "\<exists>gq state. stage_all X st e1 (bat_changes b) (staging_start state) = Inr gq \<and>
      commit_batch st b cmp rb (fst gq) (snd gq) e1 = (r, e')")
    case True
    then obtain gq state where "stage_all X st e1 (bat_changes b) (staging_start state) = Inr gq"
      and com: "commit_batch st b cmp rb (fst gq) (snd gq) e1 = (r, e')"
      by blast
    then have "list_all touches_row (stg_ops (fst gq))"
      using stage_all_ops by fastforce
    then show ?thesis
      using commit_store_step [OF _ com, of g] s1 by simp
  next
    case False
    then have "e' = e1"
      using assms unfolding apply_changes_def 1 Let_def
      by (auto split: sum.splits prod.splits option.splits)
    then show ?thesis
      using s1 same by simp
  qed
qed

lemma rebootstrap_store_step:
  assumes "begin_rebootstrap st scope e = (r, e')"
  shows "store_step scope g (view (eng_storage e)) (view (eng_storage e'))"
proof -
  obtain r1 s' where t: "transact st (eng_storage e) (rebootstrap_ops (eng_registry e) scope) = (r1, s')"
    by fastforce
  then have "eng_storage e' = s'"
    using assms by (auto simp: begin_rebootstrap_def split: sum.splits)
  then show ?thesis
    using transact_store_step [OF t, of scope g] by (simp add: rebootstrap_ops_def)
qed

lemma clear_health_store_step:
  assumes "clear_scope_health st scope e = (r, e')"
  shows "store_step scope g (view (eng_storage e)) (view (eng_storage e'))"
proof -
  obtain r1 s' where t: "transact st (eng_storage e) [RecordDivergence scope 0 False] = (r1, s')"
    by fastforce
  then have "eng_storage e' = s'"
    using assms by (auto simp: clear_scope_health_def split: sum.splits)
  then show ?thesis
    using transact_store_step [OF t, of scope g] by simp
qed

lemma reload_storage: "reload_scope st sc e = (r, e') \<Longrightarrow> eng_storage e' = eng_storage e"
  by (auto simp: reload_scope_def refresh_if_suspect_def refresh_outbox_if_suspect_def
      split: if_splits sum.splits prod.splits)

lemma build_push_storage:
  "build_push X z st protocol budget e = (r, e') \<Longrightarrow> eng_storage e' = eng_storage e"
  by (auto simp: build_push_def refresh_outbox_if_suspect_def effect_fields
      split: if_splits sum.splits prod.splits)

lemma enqueue_store_step:
  assumes "enqueue st entry e = (r, e')"
    and "oe_id entry \<notin> fst ` set (sv_resolved (view (eng_storage e)))"
  shows "store_step scope (eng_registry e) (view (eng_storage e)) (view (eng_storage e'))"
proof (cases "check_command (eng_registry e) (oe_command entry)")
  case (Inl err)
  with assms same show ?thesis by (simp add: enqueue_def)
next
  case (Inr n)
  let ?op = "EnqueueCommand (oe_command entry) (oe_schema_version entry)"
  obtain r1 s' where t: "transact st (eng_storage e) [?op] = (r1, s')"
    by fastforce
  then have "eng_storage e' = s'"
    using assms Inr by (auto simp: enqueue_def split: sum.splits)
  moreover have "store_step scope (eng_registry e) (view (eng_storage e))
      (view_op ?op (view (eng_storage e)))"
    using assms(2) Inr by (intro queued) (simp_all add: oe_id_def is_ok_def)
  ultimately show ?thesis
    using transact_view [OF t] same by auto
qed

lemma apply_results_store_step:
  assumes "coherent view e" and "apply_results st response e = (r, e')"
  shows "store_step scope (eng_registry e) (view (eng_storage e)) (view (eng_storage e'))"
proof -
  obtain r1 e1 where 1: "refresh_outbox_if_suspect st e = (r1, e1)"
    by fastforce
  have c1: "coherent view e1" and s1: "eng_storage e1 = eng_storage e"
    "eng_registry e1 = eng_registry e" "r1 = Inr () \<Longrightarrow> \<not> eng_outbox_suspect e1"
    using assms(1) 1 refresh_outbox_coherent
    by (auto simp: refresh_outbox_if_suspect_def split: if_splits sum.splits)
  let ?a = "resolve_all (eng_registry e) (eng_outbox e1) (psr_results response)"
  show ?thesis
  proof (cases "r1 = Inr () \<and> rs_ops ?a \<noteq> []")
    case True
    then have q: "eng_outbox e1 = sv_outbox (view (eng_storage e))"
      using c1 s1 by (simp add: coherent_def)
    obtain r2 s' where t: "transact st (eng_storage e) (rs_ops ?a) = (r2, s')"
      by fastforce
    then have "eng_storage e' = s'"
      using assms(2) 1 True s1 by (auto simp: apply_results_def Let_def split: sum.splits)
    then show ?thesis
      using transact_view [OF t] same resolved unfolding q by metis
  next
    case False
    then have "e' = e1"
      using assms(2) 1 s1 by (cases r1) (auto simp: apply_results_def Let_def)
    then show ?thesis
      using s1 same by simp
  qed
qed

end

section \<open>Invariants of the store\<close>

text \<open>Every superseded command of an owner draft left its content behind.\<close>

definition drafts_recovered :: "entity_name \<Rightarrow> store_view \<Rightarrow> bool" where
  "drafts_recovered entity w \<longleftrightarrow>
     (\<forall>x \<in> set (sv_outbox w). cmd_name (oe_command x) = submit_reflection) \<and>
     (\<forall>i. (i, ResSuperseded) \<in> set (sv_resolved w) \<longrightarrow> (\<exists>p. (i, entity, p) \<in> set (sv_recovered w)))"

definition store_inv :: "entity_name \<Rightarrow> scope_id \<Rightarrow> store_view \<Rightarrow> bool" where
  "store_inv entity scope w \<longleftrightarrow>
     accounted w \<and> single_outcome w \<and> drafts_recovered entity w \<and>
     (\<forall>sc. sc \<noteq> scope \<longrightarrow> position w sc = None)"

definition sim_registry :: "entity_name \<Rightarrow> scope_id \<Rightarrow> registry" where
  "sim_registry entity scope = sim_register entity scope registry_new"

lemma sim_registry_lookup:
  "target_of (sim_registry entity scope) n = (if n = submit_reflection then Some entity else None)"
  "class_of (sim_registry entity scope) m = (if m = entity then Some OwnerDraft else None)"
  by (simp_all add: sim_registry_def sim_register_def registry_defs)

lemma drafts_recovered_results:
  assumes "drafts_recovered entity w"
  shows "drafts_recovered entity
    (view_ops (rs_ops (resolve_all (sim_registry entity scope) (sv_outbox w) rs)) w)"
proof -
  let ?a = "resolve_all (sim_registry entity scope) (sv_outbox w) rs"
  have "\<exists>p. (i, entity, p) \<in> set (sv_recovered (view_ops (rs_ops ?a) w))"
    if "(i, ResSuperseded) \<in> set (sv_resolved w @ rs_resolutions ?a)" for i
  proof (cases "(i, ResSuperseded) \<in> set (sv_resolved w)")
    case True
    then show ?thesis
      using assms recovered_ops [of w "rs_ops ?a"] unfolding drafts_recovered_def by (meson subsetD)
  next
    case False
    then have "(i, ResSuperseded) \<in> set (rs_resolutions ?a)"
      using that by simp
    then obtain x where x: "x \<in> set (sv_outbox w)" and saved:
      "\<And>n. target_of (sim_registry entity scope) (cmd_name (oe_command x)) = Some n \<Longrightarrow>
         class_of (sim_registry entity scope) n = Some OwnerDraft \<Longrightarrow>
         SaveRecoveredDraft n i (cmd_payload (oe_command x)) \<in> set (rs_ops ?a)"
      using drafts_kept_all [of "sim_registry entity scope" "sv_outbox w" rs]
      unfolding drafts_kept_def by blast
    have "cmd_name (oe_command x) = submit_reflection"
      using assms x by (simp add: drafts_recovered_def)
    then have "SaveRecoveredDraft entity i (cmd_payload (oe_command x)) \<in> set (rs_ops ?a)"
      using saved by (simp add: sim_registry_lookup)
    then show ?thesis
      using saved_in_view by blast
  qed
  then show ?thesis
    using assms by (auto simp: drafts_recovered_def resolve_all_resolved resolve_all_queue_left)
qed

lemma store_step_inv:
  assumes "store_step scope (sim_registry entity scope) w w'" and "store_inv entity scope w"
  shows "store_inv entity scope w'"
  using assms
proof (induction rule: store_step.induct)
  case (same w)
  then show ?case .
next
  case (read_side ops w)
  then show ?case
    using scope_ops_view [of scope ops w] accounted_ops [of w ops]
      single_outcome_scope_ops [of scope ops w] recovered_ops [of w ops]
    by (auto simp: store_inv_def drafts_recovered_def)
next
  case (queued c w v)
  have "cmd_name c = submit_reflection"
    using queued(2) by (auto simp: is_ok_def check_command_ok sim_registry_lookup split: sum.splits if_splits)
  moreover have "accounted (view_op (EnqueueCommand c v) w)"
    using queued by (intro accounted_op) (simp add: store_inv_def)
  moreover have "single_outcome (view_op (EnqueueCommand c v) w)"
    using queued by (intro single_outcome_enqueue) (simp_all add: store_inv_def)
  ultimately show ?case
    using queued by (auto simp: store_inv_def drafts_recovered_def outbox_entry_new_def position_def)
next
  case (resolved w rs)
  then show ?case
    using queue_ops_view [OF resolve_all_queue] accounted_ops single_outcome_results
      drafts_recovered_results
    unfolding store_inv_def by metis
qed

section \<open>The device invariant\<close>

definition device_inv :: "entity_name \<Rightarrow> scope_id \<Rightarrow> db engine \<Rightarrow> bool" where
  "device_inv entity scope e \<longleftrightarrow>
     coherent db_view e \<and> store_inv entity scope (db_view (eng_storage e)) \<and>
     eng_registry e = sim_registry entity scope"

lemma restart_fields:
  "eng_storage (restart_device entity scope d) = d"
  "eng_registry (restart_device entity scope d) = sim_registry entity scope"
  by (simp_all add: restart_device_def Let_def restore_outbox_def engine_new_def restore_scope_def
      sim_registry_def split: option.splits)

lemma restart_coherent:
  assumes "\<forall>sc. sc \<noteq> scope \<longrightarrow> position (db_view d) sc = None"
  shows "coherent db_view (restart_device entity scope d)"
proof -
  have unread: "restored_digest h = (case u128_from_str_radix16 (hex_str h) of
      None \<Rightarrow> ScopeDigest_EMPTY | Some v \<Rightarrow> digest_from_raw v)" for h
    by (rule restored_digest_def)
  have "eng_scopes (restart_device entity scope d) sc =
      map_option restored_scope (position (db_view d) sc)" for sc
  proof (cases "sc = scope")
    case True
    then show ?thesis
      by (auto simp: restart_device_def Let_def restore_outbox_def restore_scope_def engine_new_def
          position_def db_view_def restored_scope_def digest_from_hex_def scope_state_restored_def
          split: option.splits bind_splits) (simp_all add: unread)
  next
    case False
    with assms show ?thesis
      by (auto simp: restart_device_def Let_def restore_outbox_def restore_scope_def engine_new_def
          split: option.splits)
  qed
  moreover have "eng_outbox (restart_device entity scope d) = sv_outbox (db_view d)"
    by (auto simp: restart_device_def Let_def restore_outbox_def restore_scope_def engine_new_def
        db_view_def split: option.splits)
  ultimately show ?thesis
    by (simp add: coherent_def restart_fields)
qed

text \<open>No operation touches the registry.\<close>

lemma registry_unchanged:
  "apply_changes X st b cmp rb e = (ra, e') \<Longrightarrow> eng_registry e' = eng_registry e"
  "begin_rebootstrap st sc e = (ru, e') \<Longrightarrow> eng_registry e' = eng_registry e"
  "reload_scope st sc e = (ru, e') \<Longrightarrow> eng_registry e' = eng_registry e"
  "clear_scope_health st sc e = (ru, e') \<Longrightarrow> eng_registry e' = eng_registry e"
  "enqueue st entry e = (re, e') \<Longrightarrow> eng_registry e' = eng_registry e"
  "build_push X z st protocol budget e = (rp, e') \<Longrightarrow> eng_registry e' = eng_registry e"
  "apply_results st response e = (rr, e') \<Longrightarrow> eng_registry e' = eng_registry e"
  subgoal
    by (auto simp: apply_changes_def refresh_if_suspect_def commit_batch_def Let_def effect_fields
        split: if_splits sum.splits prod.splits)
  subgoal by (auto simp: begin_rebootstrap_def split: sum.splits prod.splits)
  subgoal
    by (auto simp: reload_scope_def refresh_if_suspect_def refresh_outbox_if_suspect_def
        split: if_splits sum.splits prod.splits)
  subgoal by (auto simp: clear_scope_health_def split: sum.splits prod.splits)
  subgoal by (auto simp: enqueue_def split: sum.splits prod.splits)
  subgoal
    by (auto simp: build_push_def refresh_outbox_if_suspect_def effect_fields
        split: if_splits sum.splits prod.splits)
  subgoal
    by (auto simp: apply_results_def refresh_outbox_if_suspect_def Let_def
        split: if_splits sum.splits prod.splits)
  done

lemma migrations_unchanged:
  "apply_changes X st b cmp rb e = (ra, e') \<Longrightarrow> eng_migrations e' = eng_migrations e"
  by (auto simp: apply_changes_def refresh_if_suspect_def commit_batch_def Let_def effect_fields
      split: if_splits sum.splits prod.splits)

lemma device_stepI:
  assumes "device_inv entity scope e" and "coherent db_view e'"
    and "store_step scope (sim_registry entity scope)
      (db_view (eng_storage e)) (db_view (eng_storage e'))"
    and "eng_registry e' = eng_registry e"
  shows "device_inv entity scope e'"
  using assms store_step_inv by (auto simp: device_inv_def)

lemma bootstrap_batch_scope [simp]: "bat_scope (bootstrap_batch p) = bsr_scope p"
  by (simp add: bootstrap_batch_def)

lemma device_step_inv:
  assumes "device_step X entity scope ok e e'" and inv: "device_inv entity scope e"
  shows "device_inv entity scope e'"
proof -
  have coh: "coherent db_view e" and reg: "eng_registry e = sim_registry entity scope"
    and st: "store_inv entity scope (db_view (eng_storage e))"
    using inv by (simp_all add: device_inv_def)
  note to_inv = device_stepI [OF inv]
  from assms(1) show ?thesis
  proof cases
    case (armed v)
    with inv show ?thesis by (simp add: device_inv_def coherent_def)
  next
    case (pulled b r)
    then have ap: "apply_changes X sim_storage b (\<not> bat_has_more b) False e = (r, e')"
      by (simp add: apply_batch_def)
    show ?thesis
      using to_inv [OF sim.apply_changes_coherent [OF coh ap]] sim.apply_changes_store_step [OF ap]
        registry_unchanged(1) [OF ap] pulled(1) by simp
  next
    case (bootstrapped p r)
    then have ap: "apply_changes X sim_storage (bootstrap_batch p) (\<not> bsr_has_more p) True e = (r, e')"
      by (simp add: apply_bootstrap_def)
    show ?thesis
      using to_inv [OF sim.apply_changes_coherent [OF coh ap]] sim.apply_changes_store_step [OF ap]
        registry_unchanged(1) [OF ap] bootstrapped(1) by simp
  next
    case (rebuilt r)
    then show ?thesis
      using to_inv sim.rebootstrap_coherent [OF coh] sim.rebootstrap_store_step registry_unchanged(2)
      by blast
  next
    case (reloaded r)
    then show ?thesis
      using to_inv sim.reload_coherent [OF coh] sim.reload_storage registry_unchanged(3) same by metis
  next
    case (forgiven r)
    then show ?thesis
      using to_inv sim.clear_health_coherent [OF coh] sim.clear_health_store_step registry_unchanged(4)
      by blast
  next
    case (authored entry q)
    have "oe_id entry \<notin> fst ` set (sv_resolved (db_view (eng_storage e)))"
      using authored(1) by (simp add: db_view_def)
    then show ?thesis
      using to_inv sim.enqueue_coherent [OF coh authored(2)]
        sim.enqueue_store_step [OF authored(2), of scope] registry_unchanged(5) [OF authored(2)] reg
      by simp
  next
    case (pushed protocol budget pr)
    then show ?thesis
      using to_inv sim.build_push_coherent [OF coh] sim.build_push_storage registry_unchanged(6) same
      by metis
  next
    case (answered response rr)
    then show ?thesis
      using to_inv sim.apply_results_coherent [OF coh answered]
        sim.apply_results_store_step [OF coh answered, of scope] registry_unchanged(7) reg by metis
  next
    case (drained f)
    with inv show ?thesis
      by (auto simp: next_effect_def device_inv_def split: list.splits)
  next
    case (refused envelope)
    with inv show ?thesis
      by (simp add: on_upgrade_required_def device_inv_def coherent_def)
  next
    case upgraded
    with inv show ?thesis
      by (simp add: upgrade_completed_def device_inv_def coherent_def)
  next
    case restarted
    with st restart_coherent [of scope "eng_storage e" entity] show ?thesis
      by (simp add: device_inv_def restart_fields store_inv_def)
  qed
qed

lemma device_started: "device_inv entity scope (restart_device entity scope db_default)"
proof -
  have "\<forall>sc. sc \<noteq> scope \<longrightarrow> position (db_view db_default) sc = None"
    by (simp add: position_def db_view_def db_default_def)
  moreover from this have "store_inv entity scope (db_view db_default)"
    by (simp add: store_inv_def accounted_def single_outcome_def drafts_recovered_def db_view_def
        db_default_def ids_def)
  ultimately show ?thesis
    using restart_coherent [of scope db_default entity] by (simp add: device_inv_def restart_fields)
qed

lemma device_reachable_inv:
  "device_reachable X entity scope ok e \<Longrightarrow> device_inv entity scope e"
  by (induction rule: device_reachable.induct) (auto simp: device_started intro: device_step_inv)

section \<open>The digest invariant\<close>

text \<open>A change of the device's own entity at the schema its registry expects: never quarantined.\<close>

definition own_change :: "entity_name \<Rightarrow> change \<Rightarrow> bool" where
  "own_change entity c \<longleftrightarrow> chg_entity c = entity \<and> chg_schema_version c = SchemaVersion 1"

lemma own_change_unmigrated:
  "own_change entity c \<Longrightarrow> eng_registry e = sim_registry entity scope \<Longrightarrow>
   migrated_change X (eng_registry e) m c = Inr None"
  by (simp add: own_change_def migrated_change_def sim_registry_def sim_register_def registry_defs)

definition digest_inv :: "externs \<Rightarrow> entity_name \<Rightarrow> scope_id \<Rightarrow> db engine \<Rightarrow> bool" where
  "digest_inv X entity scope e \<longleftrightarrow> digest_true X {entity} scope (db_view (eng_storage e))"

text \<open>The write side, and the health record, move neither rows nor positions.\<close>

context storage_contract
begin

lemma quiet_transact:
  assumes "transact st s ops = (r, s')"
    and "\<And>w. sv_rows (view_ops ops w) = sv_rows w \<and> position (view_ops ops w) = position w"
  shows "digest_true X N sc (view s') = digest_true X N sc (view s)"
  using transact_view [OF assms(1)] assms(2) by (intro digest_true_cong) auto

lemma enqueue_digest_true:
  assumes "enqueue st entry e = (r, e')"
  shows "digest_true X N sc (view (eng_storage e')) = digest_true X N sc (view (eng_storage e))"
proof -
  let ?op = "EnqueueCommand (oe_command entry) (oe_schema_version entry)"
  obtain r1 s' where t: "transact st (eng_storage e) [?op] = (r1, s')"
    by fastforce
  then have "eng_storage e' = eng_storage e \<or> eng_storage e' = s'"
    using assms by (auto simp: enqueue_def split: sum.splits)
  moreover have "sv_rows (view_ops [?op] w) = sv_rows w \<and> position (view_ops [?op] w) = position w" for w
    by (simp add: position_def fun_eq_iff)
  ultimately show ?thesis
    using quiet_transact [OF t] by metis
qed

lemma clear_health_digest_true:
  assumes "clear_scope_health st sc' e = (r, e')"
  shows "digest_true X N sc (view (eng_storage e')) = digest_true X N sc (view (eng_storage e))"
proof -
  obtain r1 s' where t: "transact st (eng_storage e) [RecordDivergence sc' 0 False] = (r1, s')"
    by fastforce
  then have "eng_storage e' = s'"
    using assms by (auto simp: clear_scope_health_def split: sum.splits)
  moreover have "sv_rows (view_ops [RecordDivergence sc' 0 False] w) = sv_rows w \<and>
      position (view_ops [RecordDivergence sc' 0 False] w) = position w" for w
    by (simp add: position_def fun_eq_iff)
  ultimately show ?thesis
    using quiet_transact [OF t] by metis
qed

lemma results_digest_true:
  assumes "apply_results st response e = (r, e')"
  shows "digest_true X N sc (view (eng_storage e')) = digest_true X N sc (view (eng_storage e))"
proof -
  obtain r1 e1 where 1: "refresh_outbox_if_suspect st e = (r1, e1)"
    by fastforce
  then have s1: "eng_storage e1 = eng_storage e"
    by (auto simp: refresh_outbox_if_suspect_def split: if_splits sum.splits)
  let ?ops = "rs_ops (resolve_all (eng_registry e1) (eng_outbox e1) (psr_results response))"
  obtain r2 s' where t: "transact st (eng_storage e) ?ops = (r2, s')"
    by fastforce
  have "eng_storage e' = eng_storage e \<or> eng_storage e' = s'"
    using assms 1 t s1 by (auto simp: apply_results_def Let_def split: sum.splits if_splits)
  then show ?thesis
    using quiet_transact [OF t] queue_ops_view [OF resolve_all_queue] by metis
qed

end

lemma device_step_digest:
  assumes step: "device_step X entity scope (own_change entity) e e'"
    and inv: "device_inv entity scope e" and dig: "digest_inv X entity scope e"
  shows "digest_inv X entity scope e'"
proof -
  have coh: "coherent db_view e" and reg: "eng_registry e = sim_registry entity scope"
    using inv by (simp_all add: device_inv_def)
  have own: "c \<in> set cs \<Longrightarrow> list_all (own_change entity) cs \<Longrightarrow>
      chg_entity c \<in> {entity} \<and> is_ok (migrated_change X (eng_registry e) (eng_migrations e) c)" for c cs
    using own_change_unmigrated [OF _ reg] by (auto simp: list_all_iff own_change_def is_ok_def)
  from step show ?thesis
  proof cases
    case (armed v)
    with dig show ?thesis by (simp add: digest_inv_def)
  next
    case (pulled b r)
    then have ap: "apply_changes X sim_storage b (\<not> bat_has_more b) False e = (r, e')"
      by (simp add: apply_batch_def)
    show ?thesis
      using sim.apply_changes_digest_true [OF coh ap, of "{entity}"] own [OF _ pulled(2)] dig pulled(1)
      by (simp add: digest_inv_def)
  next
    case (bootstrapped p r)
    then have ap: "apply_changes X sim_storage (bootstrap_batch p) (\<not> bsr_has_more p) True e = (r, e')"
      by (simp add: apply_bootstrap_def)
    show ?thesis
      using sim.apply_changes_digest_true [OF coh ap, of "{entity}"] own [OF _ bootstrapped(2)] dig
        bootstrapped(1)
      by (simp add: digest_inv_def bootstrap_batch_def)
  next
    case (rebuilt r)
    have "{entity} \<subseteq> set (map reg_entity (filter (\<lambda>r. reg_scope r = scope)
        (registry_entities (eng_registry e))))"
      by (simp add: reg sim_registry_def sim_register_def registry_defs)
    then show ?thesis
      using sim.rebootstrap_digest_true [OF rebuilt] dig by (simp add: digest_inv_def)
  next
    case (reloaded r)
    then show ?thesis
      using sim.reload_storage dig by (simp add: digest_inv_def)
  next
    case (forgiven r)
    then show ?thesis
      using sim.clear_health_digest_true dig by (simp add: digest_inv_def)
  next
    case (authored entry q)
    then show ?thesis
      using sim.enqueue_digest_true dig by (simp add: digest_inv_def)
  next
    case (pushed protocol budget pr)
    then show ?thesis
      using sim.build_push_storage dig by (simp add: digest_inv_def)
  next
    case (answered response rr)
    then show ?thesis
      using sim.results_digest_true dig by (simp add: digest_inv_def)
  next
    case (drained f)
    then show ?thesis
      using dig by (auto simp: next_effect_def digest_inv_def split: list.splits)
  next
    case (refused envelope)
    with dig show ?thesis by (simp add: on_upgrade_required_def digest_inv_def)
  next
    case upgraded
    with dig show ?thesis by (simp add: upgrade_completed_def digest_inv_def)
  next
    case restarted
    with dig show ?thesis by (simp add: digest_inv_def restart_fields)
  qed
qed

lemma device_reachable_digest:
  "device_reachable X entity scope (own_change entity) e \<Longrightarrow> digest_inv X entity scope e"
proof (induction rule: device_reachable.induct)
  case started
  show ?case
    by (simp add: digest_inv_def digest_true_def restart_fields db_view_def db_default_def
        stored_state_def position_def ScopeState_NEW_def view_digest_def view_version_def row_sum_def
        ScopeDigest_EMPTY_def dom_def)
next
  case (stepped e e')
  then show ?case
    using device_step_digest device_reachable_inv by blast
qed

section \<open>The representation of the rows\<close>

text \<open>An operation changes the store only by transactions.\<close>

lemma store_closed:
  assumes inv: "\<forall>s ops r s'. transact st s ops = (r, s') \<longrightarrow> P s \<longrightarrow> P s'"
    and P: "P (eng_storage e)"
  shows "apply_changes X st b cmp rb e = (ra, e') \<Longrightarrow> P (eng_storage e')"
    and "begin_rebootstrap st sc e = (ru, e') \<Longrightarrow> P (eng_storage e')"
    and "reload_scope st sc e = (ru, e') \<Longrightarrow> P (eng_storage e')"
    and "clear_scope_health st sc e = (ru, e') \<Longrightarrow> P (eng_storage e')"
    and "enqueue st entry e = (re, e') \<Longrightarrow> P (eng_storage e')"
    and "build_push X z st protocol budget e = (rp, e') \<Longrightarrow> P (eng_storage e')"
    and "apply_results st response e = (rr, e') \<Longrightarrow> P (eng_storage e')"
  subgoal
    using P inv
    by (auto simp: apply_changes_def refresh_if_suspect_def commit_batch_def Let_def effect_fields
        split: if_splits sum.splits prod.splits)
  subgoal using P inv by (auto simp: begin_rebootstrap_def split: sum.splits prod.splits)
  subgoal
    using P inv by (auto simp: reload_scope_def refresh_if_suspect_def refresh_outbox_if_suspect_def
        split: if_splits sum.splits prod.splits)
  subgoal using P inv by (auto simp: clear_scope_health_def split: sum.splits prod.splits)
  subgoal using P inv by (auto simp: enqueue_def split: sum.splits prod.splits)
  subgoal
    using P inv by (auto simp: build_push_def refresh_outbox_if_suspect_def effect_fields
        split: if_splits sum.splits prod.splits)
  subgoal
    using P inv by (auto simp: apply_results_def refresh_outbox_if_suspect_def Let_def
        split: if_splits sum.splits prod.splits)
  done

lemma staged_op_rows: "bt_wf (db_rows d) \<Longrightarrow> bt_wf (db_rows (staged_op x d))"
  by (cases x) auto

lemma sim_transact_rows:
  "transact sim_storage d ops = (r, d') \<Longrightarrow> bt_wf (db_rows d) \<Longrightarrow> bt_wf (db_rows d')"
proof -
  have "bt_wf (db_rows d) \<Longrightarrow> bt_wf (db_rows (fold staged_op ops d))" for d
    by (induction ops arbitrary: d) (auto simp: staged_op_rows)
  then show "transact sim_storage d ops = (r, d') \<Longrightarrow> bt_wf (db_rows d) \<Longrightarrow> bt_wf (db_rows d')"
    by (auto simp: sim_storage_def sim_transact_def Let_def db_staged_def
        split: storage_verdict.splits)
qed

lemma device_reachable_rows:
  "device_reachable X entity scope ok e \<Longrightarrow> bt_wf (db_rows (eng_storage e))"
proof (induction rule: device_reachable.induct)
  case started
  show ?case by (simp add: restart_fields db_default_def)
next
  case (stepped e e')
  let ?P = "\<lambda>d. bt_wf (db_rows d)"
  have closed: "\<forall>d ops r d'. transact sim_storage d ops = (r, d') \<longrightarrow> ?P d \<longrightarrow> ?P d'"
    using sim_transact_rows by blast
  note cl = store_closed [where P = ?P, OF closed stepped.IH]
  from stepped.hyps(2) show ?case
  proof cases
    case (pulled b r)
    then show ?thesis using cl(1) unfolding apply_batch_def by blast
  next
    case (bootstrapped p r)
    then show ?thesis using cl(1) unfolding apply_bootstrap_def by blast
  next
    case (rebuilt r)
    then show ?thesis using cl(2) by blast
  next
    case (reloaded r)
    then show ?thesis using cl(3) by blast
  next
    case (forgiven r)
    then show ?thesis using cl(4) by blast
  next
    case (authored entry q)
    then show ?thesis using cl(5) by blast
  next
    case (pushed protocol budget pr)
    then show ?thesis using cl(6) by blast
  next
    case (answered response rr)
    then show ?thesis using cl(7) by blast
  qed (use stepped.IH in \<open>auto simp: next_effect_def on_upgrade_required_def
        upgrade_completed_def restart_fields split: list.splits\<close>)
qed

lemma digest_over_rows_view:
  assumes "bt_wf (db_rows d)"
  shows "digest_over_rows X d ns = view_digest X (set ns) (db_view d)"
proof -
  let ?vs = "map (\<lambda>(k, row). (k, sr_row_version row)) (db_rows d)"
  have v: "view_version (db_view d) = map_of ?vs"
    by (simp add: fun_eq_iff view_version_def db_view_def map_of_map option.map_comp comp_def)
  have "distinct (map fst ?vs)"
    using bt_wf_distinct [OF assms] by (simp add: comp_def case_prod_beta)
  then have "row_sum (scoped_hash X (set ns)) (map_of ?vs) =
      sum_list (map (\<lambda>(k, v). scoped_hash X (set ns) k v) ?vs)"
    by (rule row_sum_map_of)
  also have "\<dots> = sum_list (map (live_hash X)
      (map (\<lambda>((n, i), row). (n, i, sr_row_version row))
        (filter (\<lambda>((n, _), _). n \<in> set ns) (db_rows d))))"
  proof -
    have "sum_list (map (\<lambda>(k, v). scoped_hash X (set ns) k v) (map (\<lambda>(k, row). (k, sr_row_version row)) m)) =
        sum_list (map (live_hash X) (map (\<lambda>((n, i), row). (n, i, sr_row_version row))
          (filter (\<lambda>((n, _), _). n \<in> set ns) m)))" for m :: "(row_key, stored_row) btree"
      by (induction m) (auto simp: scoped_hash_def)
    then show ?thesis .
  qed
  finally show ?thesis
    by (simp add: digest_over_rows_def digest_from_rows_sum view_digest_def v)
qed

end
