(* ===== verification/Samples.thy ===== *)
theory Samples
  imports Device_System
begin

text \<open>
  Concrete inputs for the witnesses: an instance of the external functions (a compact JSON printer
  and two small polynomial hashes), a device with one command, and a few changes and batches.
\<close>

section \<open>External functions\<close>

fun json_text :: "json \<Rightarrow> string"
  and json_items :: "json list \<Rightarrow> string"
  and json_fields :: "(string \<times> json) list \<Rightarrow> string" where
  "json_text JNull = ''null''"
| "json_text (JBool b) = (if b then ''true'' else ''false'')"
| "json_text (JPosInt n) = show_nat (unat n)"
| "json_text (JNegInt n) = ''-'' @ show_nat (unat (- n))"
| "json_text (JFloat n) = show_nat (unat n) @ ''.0''"
| "json_text (JString s) = [CHR 0x22] @ s @ [CHR 0x22]"
| "json_text (JArray vs) = ''['' @ json_items vs @ '']''"
| "json_text (JObject m) = ''{'' @ json_fields m @ ''}''"
| "json_items [] = []"
| "json_items (v # vs) = json_text v @ (if vs = [] then [] else '','' @ json_items vs)"
| "json_fields [] = []"
| "json_fields ((k, v) # m) =
     [CHR 0x22] @ k @ [CHR 0x22] @ '':'' @ json_text v @ (if m = [] then [] else '','' @ json_fields m)"

definition sample_externs :: externs where
  "sample_externs =
     \<lparr>json_to_vec = (\<lambda>v. Inr (as_bytes (json_text v))),
      xxh3_128 = foldl (\<lambda>a b. a + a + ucast b) 1,
      blake3 = (\<lambda>bs. replicate 24 (0 :: u8) @ be_bytes 8 (foldl (\<lambda>a b. a * 263 + ucast b + 7) (1 :: u64) bs))\<rparr>"

definition sample_compressor :: compressor where
  "sample_compressor bs = length bs div 2"

section \<open>Names, documents, commands\<close>

definition lesson :: entity_name where "lesson = EntityName ''lesson''"
definition grade :: entity_name where "grade = EntityName ''grade''"
definition pupil :: scope_id where "pupil = ScopeId ''user:1''"

definition hex_zero :: hex_string where
  "hex_zero = HexString ''00000000000000000000000000000000''"

definition sample_doc :: json where
  "sample_doc = JObject [(''body'', JString ''hi'')]"

definition sample_id :: "u8 \<Rightarrow> command_id" where
  "sample_id n = CommandId [1, 0x91, 0, 0, 0, 0, 0x70, 0, 0, 0, 0, 0, 0, 0, 0, n]"

definition sample_command :: "u8 \<Rightarrow> command" where
  "sample_command n =
     \<lparr>cmd_id = sample_id n, cmd_name = submit_reflection, cmd_scope = pupil,
      cmd_payload = Payload sample_doc, cmd_client_ts = 17, cmd_checksum = hex_zero\<rparr>"

definition sample_entry :: "u8 \<Rightarrow> outbox_entry" where
  "sample_entry n = \<lparr>oe_command = sample_command n, oe_schema_version = SchemaVersion 1\<rparr>"

definition sample_upsert :: "u64 \<Rightarrow> string \<Rightarrow> u64 \<Rightarrow> change" where
  "sample_upsert s i v =
     \<lparr>chg_seq = Seq s, chg_entity = lesson, chg_entity_id = EntityId i, chg_op = Upsert,
      chg_snapshot = Some (Snapshot sample_doc), chg_row_version = RowVersion v,
      chg_schema_version = SchemaVersion 1\<rparr>"

definition sample_delete :: "u64 \<Rightarrow> string \<Rightarrow> u64 \<Rightarrow> change" where
  "sample_delete s i v =
     \<lparr>chg_seq = Seq s, chg_entity = lesson, chg_entity_id = EntityId i, chg_op = Delete,
      chg_snapshot = None, chg_row_version = RowVersion v, chg_schema_version = SchemaVersion 1\<rparr>"

text \<open>One row created and replaced, another created and deleted.\<close>

definition sample_batch :: batch where
  "sample_batch =
     \<lparr>bat_scope = pupil,
      bat_changes = [sample_upsert 3 ''a'' 1, sample_upsert 5 ''b'' 2, sample_upsert 6 ''a'' 4,
                     sample_delete 9 ''b'' 5],
      bat_next_cursor = Cursor 9, bat_has_more = True, bat_checksum = hex_zero,
      bat_digest = hex_zero\<rparr>"

text \<open>One row only.\<close>

definition sample_page :: batch where
  "sample_page =
     sample_batch\<lparr>bat_changes := [sample_upsert 3 ''a'' 1], bat_next_cursor := Cursor 3\<rparr>"

definition sample_device :: "db engine" where
  "sample_device = restart_device lesson pupil db_default"

definition sample_result :: "u8 \<Rightarrow> status \<Rightarrow> command_result" where
  "sample_result n s =
     \<lparr>res_id = sample_id n, res_status = s, res_reason = None, res_server_seq = None\<rparr>"

lemmas sample_defs [run_defs] =
  sample_externs_def sample_compressor_def lesson_def grade_def pupil_def hex_zero_def
  sample_doc_def sample_id_def sample_command_def sample_entry_def sample_upsert_def
  sample_delete_def sample_batch_def sample_page_def sample_device_def sample_result_def

section \<open>Running the engine\<close>

text \<open>The empty digest on the wire; with it the engine runs by rewriting, without hashing.\<close>

lemma empty_digest_hex: "digest_to_hex (ScopeDigest 0) = hex_zero"
  by code_simp

lemmas engine_run =
  apply_batch_def apply_changes_def refresh_if_suspect_def staging_start_def commit_batch_def
  batch_diverged_def divergence_counts_def batch_heals_def sim_storage_def sim_transact_def
  db_staged_def taint_def set_health_def sat_succ_def MAX_HEAL_ATTEMPTS_def emit_def
  engine_scope_health_def scope_state_restored_def validate_ordering_def ScopeState_NEW_def
  ScopeDigest_EMPTY_def empty_digest_hex restart_device_def restore_outbox_def engine_new_def
  db_default_def divergence_def Cursor_START_def CURSOR_START_def

end
