(* ===== verification/Props_Device.thy ===== *)
theory Props_Device
  imports Samples
begin

text \<open>
  Properties of a device as a whole: what the reachable states of \<open>Device_System\<close> guarantee about
  the user's commands and about the engine's memory, with a faulty storage and a hostile network.
\<close>

section \<open>Facts the properties share\<close>

lemma outbox_ids_stored:
  "ids (sv_outbox (db_view d)) = (\<lambda>(c, _). cmd_id c) ` set (db_outbox d)"
  by (force simp: ids_def db_view_def oe_id_def outbox_entry_new_def image_iff)

lemma reachable_accounted:
  "device_reachable X entity scope ok e \<Longrightarrow> accounted (db_view (eng_storage e))"
  using device_reachable_inv by (auto simp: device_inv_def store_inv_def)

lemma reachable_single:
  "device_reachable X entity scope ok e \<Longrightarrow> single_outcome (db_view (eng_storage e))"
  using device_reachable_inv by (auto simp: device_inv_def store_inv_def)

lemma reachable_coherent:
  "device_reachable X entity scope ok e \<Longrightarrow> coherent db_view e"
  using device_reachable_inv by (auto simp: device_inv_def)

lemma reachable_drafts:
  "device_reachable X entity scope ok e \<Longrightarrow> drafts_recovered entity (db_view (eng_storage e))"
  using device_reachable_inv by (auto simp: device_inv_def store_inv_def)

text \<open>A device whose storage loses the acknowledgement of an enqueue.\<close>

definition sample_lied :: "db engine" where
  "sample_lied =
     snd (enqueue sim_storage (sample_entry 1)
       (sample_device\<lparr>eng_storage :=
          (eng_storage sample_device)\<lparr>db_verdict := CommitThenLoseAck\<rparr>\<rparr>))"

lemma sample_device_reachable:
  "device_reachable X lesson pupil ok sample_device"
  unfolding sample_device_def by (rule started)

lemma sample_lied_reachable: "device_reachable X lesson pupil ok sample_lied"
proof -
  let ?a = "sample_device\<lparr>eng_storage := (eng_storage sample_device)\<lparr>db_verdict := CommitThenLoseAck\<rparr>\<rparr>"
  have "device_reachable X lesson pupil ok ?a"
    by (rule stepped [OF sample_device_reachable]) (rule armed)
  moreover have "oe_id (sample_entry 1) \<notin> fst ` set (db_resolved (eng_storage ?a))"
    by (simp add: run_defs)
  ultimately show ?thesis
    unfolding sample_lied_def by (metis authored prod.collapse stepped)
qed

text \<open>The lied-to device reloads its queue and hears that its command was superseded.\<close>

definition sample_superseded :: "db engine" where
  "sample_superseded =
     snd (apply_results sim_storage
       \<lparr>psr_protocol = ProtocolVersion 1, psr_results = [sample_result 1 Superseded]\<rparr> sample_lied)"

lemma sample_superseded_reachable: "device_reachable X lesson pupil ok sample_superseded"
  unfolding sample_superseded_def
  by (rule stepped [OF sample_lied_reachable], rule answered, rule prod.collapse [symmetric])

text \<open>A device that applied one page under a storage that lost the acknowledgement.\<close>

definition sample_behind :: "db engine" where
  "sample_behind =
     snd (apply_batch sample_externs sim_storage sample_page
       (sample_device\<lparr>eng_storage :=
          (eng_storage sample_device)\<lparr>db_verdict := CommitThenLoseAck\<rparr>\<rparr>))"

lemma sample_behind_reachable:
  "device_reachable sample_externs lesson pupil (own_change lesson) sample_behind"
proof -
  let ?a = "sample_device\<lparr>eng_storage := (eng_storage sample_device)\<lparr>db_verdict := CommitThenLoseAck\<rparr>\<rparr>"
  have "device_reachable sample_externs lesson pupil (own_change lesson) ?a"
    by (rule stepped [OF sample_device_reachable]) (rule armed)
  moreover have "bat_scope sample_page = pupil" "list_all (own_change lesson) (bat_changes sample_page)"
    by (simp_all add: sample_defs own_change_def)
  ultimately show ?thesis
    unfolding sample_behind_def by (metis pulled prod.collapse stepped)
qed

section \<open>Properties\<close>

text \<open>C1. No command is lost. Whatever batches, responses, storage faults (including commits reported
  as failures) and restarts a device goes through, a command whose enqueue was ever committed is
  still queued in the database or has a recorded outcome there.\<close>

theorem device_never_loses_a_command:
  assumes "device_reachable X entity scope ok e"
    and "i \<in> db_enqueued (eng_storage e)"
  shows "(\<exists>(c, _) \<in> set (db_outbox (eng_storage e)). cmd_id c = i) \<or>
         (\<exists>(j, _) \<in> set (db_resolved (eng_storage e)). j = i)"
  using reachable_accounted [OF assms(1)] assms(2)
  unfolding accounted_def outbox_ids_stored
  by (fastforce simp: db_view_def)

theorem device_never_loses_a_command_witness:
  "(\<exists>(c, _) \<in> set (db_outbox (eng_storage sample_lied)). cmd_id c = sample_id 1) \<or>
   (\<exists>(j, _) \<in> set (db_resolved (eng_storage sample_lied)). j = sample_id 1)"
proof (rule device_never_loses_a_command [where X = sample_externs and ok = "\<lambda>_. True"])
  show "device_reachable sample_externs lesson pupil (\<lambda>_. True) sample_lied"
    by (rule sample_lied_reachable)
  show "sample_id 1 \<in> db_enqueued (eng_storage sample_lied)"
    unfolding sample_lied_def by code_simp
qed

text \<open>C2. One outcome per command. On the same runs no command ever has two recorded outcomes, and a
  command that has one is no longer queued in the database: repeated responses, repeated results
  inside one response and resolutions whose commit was reported as failed never produce a second
  record.\<close>

theorem device_records_one_outcome:
  assumes "device_reachable X entity scope ok e"
  shows "distinct (map fst (db_resolved (eng_storage e))) \<and>
    (\<forall>(c, _) \<in> set (db_outbox (eng_storage e)). cmd_id c \<notin> fst ` set (db_resolved (eng_storage e)))"
  using reachable_single [OF assms] unfolding single_outcome_def outbox_ids_stored
  by (auto simp: db_view_def)

theorem device_records_one_outcome_witness:
  "distinct (map fst (db_resolved (eng_storage sample_superseded)))"
  using device_records_one_outcome [OF sample_superseded_reachable
      [where X = sample_externs and ok = "\<lambda>_. True"]] by (rule conjunct1)

text \<open>C3. The engine's memory never silently disagrees with its database. In every reachable state,
  for every scope not flagged as needing a reload, the cursor and digest in memory are the ones the
  database would hand back, and unless the outbox is flagged the queue in memory is the stored queue:
  a commit that was reported as a failure is always covered by a flag.\<close>

theorem device_memory_matches_database:
  assumes "device_reachable X entity scope ok e"
  shows "(\<forall>sc p. \<not> needs_reload e sc \<longrightarrow>
            stored_scope_state sim_storage (eng_storage e) sc = Inr p \<longrightarrow>
            engine_scope_state e sc = map_option restored_scope p) \<and>
         (\<forall>q. \<not> eng_outbox_suspect e \<longrightarrow>
            stored_outbox sim_storage (eng_storage e) = Inr q \<longrightarrow> eng_outbox e = q)"
  using reachable_coherent [OF assms] sim.position_law sim.outbox_law
  unfolding coherent_def needs_reload_def engine_scope_state_def by metis

theorem device_memory_matches_database_witness:
  "engine_scope_state sample_lied pupil = None"
proof -
  have "\<not> needs_reload sample_lied pupil"
    unfolding sample_lied_def by code_simp
  moreover have "stored_scope_state sim_storage (eng_storage sample_lied) pupil = Inr None"
    unfolding sample_lied_def by code_simp
  ultimately show ?thesis
    using device_memory_matches_database [OF sample_lied_reachable
        [where X = sample_externs and ok = "\<lambda>_. True"]] by fastforce
qed

text \<open>C13. A losing edit is never lost. Every command a device has recorded as superseded left its
  content among the recovered drafts, on every run of the simulated world's registry, where the
  commands write an owner draft.\<close>

theorem device_recovers_superseded_drafts:
  assumes "device_reachable X entity scope ok e"
    and "(i, ResSuperseded) \<in> set (db_resolved (eng_storage e))"
  shows "\<exists>p. (i, entity, p) \<in> set (db_recovered (eng_storage e))"
  using reachable_drafts [OF assms(1)] assms(2)
  by (auto simp: drafts_recovered_def db_view_def)

theorem device_recovers_superseded_drafts_witness:
  "\<exists>p. (sample_id 1, lesson, p) \<in> set (db_recovered (eng_storage sample_superseded))"
proof (rule device_recovers_superseded_drafts [where X = sample_externs and ok = "\<lambda>_. True"])
  show "device_reachable sample_externs lesson pupil (\<lambda>_. True) sample_superseded"
    by (rule sample_superseded_reachable)
  show "(sample_id 1, ResSuperseded) \<in> set (db_resolved (eng_storage sample_superseded))"
    unfolding sample_superseded_def sample_lied_def by code_simp
qed

text \<open>C4. The digest never lies about the rows. On every run in which the network delivers changes of
  the device's own entity at the schema it expects, whatever their order, repetitions and versions,
  the digest the database stores for the scope is the digest recomputed from scratch over the rows it
  stores, through failed and lied-about commits, rebuilds and restarts.\<close>

theorem device_digest_is_over_rows:
  assumes "device_reachable X entity scope (own_change entity) e"
    and "stored_scope_state sim_storage (eng_storage e) scope = Inr (Some p)"
  shows "restored_digest (sts_digest p) = digest_over_rows X (eng_storage e) [entity]"
proof -
  let ?d = "eng_storage e"
  have "digest_true X {entity} scope (db_view ?d)"
    using device_reachable_digest [OF assms(1)] by (simp add: digest_inv_def)
  moreover have "digest_over_rows X ?d [entity] = view_digest X {entity} (db_view ?d)"
    using digest_over_rows_view [OF device_reachable_rows [OF assms(1)]] by simp
  moreover have p: "position (db_view ?d) scope = Some p"
    using sim.position_law [OF assms(2)] by simp
  ultimately show ?thesis
    by (simp add: digest_true_def stored_state_def restored_scope_def scope_state_restored_def)
qed

theorem device_digest_is_over_rows_witness:
  "restored_digest (sts_digest (the (projr (stored_scope_state sim_storage (eng_storage sample_behind) pupil)))) =
   digest_over_rows sample_externs (eng_storage sample_behind) [lesson]"
proof -
  have "is_ok (stored_scope_state sim_storage (eng_storage sample_behind) pupil) \<and>
      projr (stored_scope_state sim_storage (eng_storage sample_behind) pupil) \<noteq> None"
    unfolding sample_behind_def by code_simp
  then obtain p where p: "stored_scope_state sim_storage (eng_storage sample_behind) pupil = Inr (Some p)"
    by (auto simp: is_ok_def split: sum.splits)
  show ?thesis
    using device_digest_is_over_rows [OF sample_behind_reachable p] p
    by simp
qed

end
