(* ===== verification/Core_Push.thy ===== *)
theory Core_Push
  imports Core_Contract
begin

text \<open>
  What \<open>build_push\<close> sends. The spliced buffer is the compact JSON array of the chosen commands, the
  chosen commands are the sendable ones of a prefix of the queue in order, the three budgets bind,
  and the prefix is maximal: it stops only at the count limit or at an entry that does not fit.
\<close>

section \<open>The reference encoding\<close>

fun join_commas :: "bytes list \<Rightarrow> bytes" where
  "join_commas [] = []"
| "join_commas [b] = b"
| "join_commas (b # bs) = b @ [byte_comma] @ join_commas bs"

definition array_bytes :: "bytes list \<Rightarrow> bytes" where
  "array_bytes bss = [byte_open] @ join_commas bss @ [byte_close]"

lemma join_commas_snoc:
  "join_commas (bss @ [b]) = join_commas bss @ (if bss = [] then [] else [byte_comma]) @ b"
  by (induction bss rule: join_commas.induct) auto

lemma splice_array:
  "splice (array_bytes bss) chosen one = array_bytes (bss @ [one])" if "(chosen = []) = (bss = [])"
  using that by (simp add: splice_def array_bytes_def join_commas_snoc butlast_append)

text \<open>What one command encodes to, and a whole list, when every command encodes.\<close>

definition command_bytes_of :: "externs \<Rightarrow> command \<Rightarrow> bytes" where
  "command_bytes_of X c = (case canonical_to_vec X command_to_value c of Inr bs \<Rightarrow> bs | Inl _ \<Rightarrow> [])"

definition push_bytes :: "externs \<Rightarrow> command list \<Rightarrow> bytes" where
  "push_bytes X cs = array_bytes (map (command_bytes_of X) cs)"

definition encodable :: "externs \<Rightarrow> command \<Rightarrow> bool" where
  "encodable X c = is_ok (canonical_to_vec X command_to_value c)"

lemma push_bytes_Nil: "push_bytes X [] = [byte_open, byte_close]"
  by (simp add: push_bytes_def array_bytes_def)

text \<open>The command an entry is sent as; \<^const>\<open>None\<close> when it is held back.\<close>

definition sent_as :: "externs \<Rightarrow> registry \<Rightarrow> migrations \<Rightarrow> outbox_entry \<Rightarrow> command option" where
  "sent_as X g m entry =
     (case migrated_command X g m entry of
        Inl _ \<Rightarrow> None
      | Inr None \<Rightarrow> Some (oe_command entry)
      | Inr (Some c) \<Rightarrow> Some c)"

definition held_report :: "externs \<Rightarrow> registry \<Rightarrow> migrations \<Rightarrow> outbox_entry \<Rightarrow> held" where
  "held_report X g m entry =
     (case migrated_command X g m entry of
        Inl err \<Rightarrow> [(oe_id entry, oe_schema_version entry, migration_error_display err)]
      | Inr _ \<Rightarrow> [])"

definition fits :: "externs \<Rightarrow> compressor \<Rightarrow> nat \<Rightarrow> command list \<Rightarrow> bool" where
  "fits X z budget cs \<longleftrightarrow>
     length (push_bytes X cs) \<le> COMMANDS_MAX_TOTAL_BYTES \<and> z (push_bytes X cs) \<le> budget"

section \<open>The loop\<close>

lemma push_loop_step:
  "push_loop X z g m budget (entry # rest) chosen (push_bytes X chosen) hld =
     (if COMMANDS_MAX_COUNT \<le> length chosen then Inr (chosen, hld)
      else case sent_as X g m entry of
        None \<Rightarrow> push_loop X z g m budget rest chosen (push_bytes X chosen)
                  (hld @ held_report X g m entry)
      | Some c \<Rightarrow>
          (if \<not> encodable X c then Inl Encoding
           else if \<not> fits X z budget (chosen @ [c]) \<and> chosen \<noteq> [] then Inr (chosen, hld)
           else push_loop X z g m budget rest (chosen @ [c]) (push_bytes X (chosen @ [c]))
                  (hld @ held_report X g m entry)))"
proof (cases "COMMANDS_MAX_COUNT \<le> length chosen")
  case False
  have sp: "splice (push_bytes X chosen) chosen (command_bytes_of X c) = push_bytes X (chosen @ [c])" for c
    by (simp add: push_bytes_def splice_array)
  show ?thesis
  proof (cases "migrated_command X g m entry")
    case (Inl err)
    with False show ?thesis by (simp add: sent_as_def held_report_def)
  next
    case (Inr mc)
    define c where "c = (case mc of None \<Rightarrow> oe_command entry | Some c \<Rightarrow> c)"
    have s: "sent_as X g m entry = Some c" "held_report X g m entry = []"
      using Inr by (auto simp: sent_as_def held_report_def c_def split: option.splits)
    show ?thesis
    proof (cases "canonical_to_vec X command_to_value c")
      case (Inl err)
      with False Inr s show ?thesis
        by (simp add: c_def [symmetric] encodable_def is_ok_def)
    next
      case (Inr one)
      then have "command_bytes_of X c = one" "encodable X c"
        by (simp_all add: command_bytes_of_def encodable_def is_ok_def)
      with False \<open>migrated_command X g m entry = Inr mc\<close> s Inr sp [of c] show ?thesis
        by (auto simp: c_def [symmetric] fits_def Let_def not_le)
    qed
  qed
qed simp

lemma push_loop_spec:
  assumes "push_loop X z g m budget q chosen (push_bytes X chosen) hld = Inr (chosen', hld')"
    and "length chosen \<le> COMMANDS_MAX_COUNT"
    and "length chosen \<le> 1 \<or> fits X z budget chosen"
  shows "\<exists>n \<le> length q.
      chosen' = chosen @ List.map_filter (sent_as X g m) (take n q) \<and>
      hld' = hld @ concat (map (held_report X g m) (take n q)) \<and>
      length chosen' \<le> COMMANDS_MAX_COUNT \<and> (length chosen' \<le> 1 \<or> fits X z budget chosen') \<and>
      (list_all (encodable X) chosen \<longrightarrow> list_all (encodable X) chosen') \<and>
      (n < length q \<longrightarrow> length chosen' = COMMANDS_MAX_COUNT \<or>
         (\<exists>c. sent_as X g m (q ! n) = Some c \<and> chosen' \<noteq> [] \<and> \<not> fits X z budget (chosen' @ [c])))"
  using assms
proof (induction q arbitrary: chosen hld)
  case Nil
  then show ?case by simp
next
  case (Cons entry rest)
  let ?P = "\<lambda>q chosen hld n. n \<le> length q \<and>
      chosen' = chosen @ List.map_filter (sent_as X g m) (take n q) \<and>
      hld' = hld @ concat (map (held_report X g m) (take n q)) \<and>
      length chosen' \<le> COMMANDS_MAX_COUNT \<and> (length chosen' \<le> 1 \<or> fits X z budget chosen') \<and>
      (list_all (encodable X) chosen \<longrightarrow> list_all (encodable X) chosen') \<and>
      (n < length q \<longrightarrow> length chosen' = COMMANDS_MAX_COUNT \<or>
         (\<exists>c. sent_as X g m (q ! n) = Some c \<and> chosen' \<noteq> [] \<and> \<not> fits X z budget (chosen' @ [c])))"
  note step = Cons.prems(1) [unfolded push_loop_step]
  have stop: "?P (entry # rest) chosen hld 0" if "chosen' = chosen" "hld' = hld"
    "length chosen = COMMANDS_MAX_COUNT \<or>
      (\<exists>c. sent_as X g m entry = Some c \<and> chosen \<noteq> [] \<and> \<not> fits X z budget (chosen @ [c]))"
    using that Cons.prems(2,3) by (auto simp: map_filter_simps)
  show ?case
  proof (cases "COMMANDS_MAX_COUNT \<le> length chosen")
    case True
    with step Cons.prems(2) stop show ?thesis by (intro exI [of _ 0]) auto
  next
    case False
    show ?thesis
    proof (cases "sent_as X g m entry")
      case None
      with False step have "push_loop X z g m budget rest chosen (push_bytes X chosen)
          (hld @ held_report X g m entry) = Inr (chosen', hld')"
        by simp
      from Cons.IH [OF this Cons.prems(2,3)]
      obtain n where n: "?P rest chosen (hld @ held_report X g m entry) n"
        by blast
      have "?P (entry # rest) chosen hld (Suc n)"
        using n None by (auto simp: map_filter_simps)
      then show ?thesis by blast
    next
      case (Some c)
      show ?thesis
      proof (cases "encodable X c \<and> (fits X z budget (chosen @ [c]) \<or> chosen = [])")
        case True
        with False Some step have "push_loop X z g m budget rest (chosen @ [c])
            (push_bytes X (chosen @ [c])) (hld @ held_report X g m entry) = Inr (chosen', hld')"
          by auto
        from Cons.IH [OF this] False True
        obtain n where n: "?P rest (chosen @ [c]) (hld @ held_report X g m entry) n"
          by auto
        have "?P (entry # rest) chosen hld (Suc n)"
          using n Some True by (auto simp: map_filter_simps)
        then show ?thesis by blast
      next
        case False
        with \<open>\<not> COMMANDS_MAX_COUNT \<le> length chosen\<close> Some step
        have "encodable X c" "chosen' = chosen" "hld' = hld" "chosen \<noteq> []"
          "\<not> fits X z budget (chosen @ [c])"
          by (auto split: if_splits)
        with stop Some show ?thesis by (intro exI [of _ 0]) auto
      qed
    qed
  qed
qed

section \<open>The whole operation\<close>

lemma build_push_cases:
  assumes "build_push X z st protocol budget e = (Inr (Some req), e')"
  obtains e1 hld where "refresh_outbox_if_suspect st e = (Inr (), e1)"
    "eng_upgrade_required e1 = None" "eng_outbox e1 \<noteq> []"
    "push_loop X z (eng_registry e1) (eng_migrations e1) budget (eng_outbox e1) [] (push_bytes X []) [] =
       Inr (psq_commands req, hld)"
    "e' = e1\<lparr>eng_effects := eng_effects e1 @ map (\<lambda>(i, v, r). Emit (CommandHeld i v r)) hld\<rparr>"
    "psq_protocol req = protocol"
  using assms
  by (auto simp: build_push_def effect_fields push_bytes_Nil split: sum.splits prod.splits if_splits)

lemma build_push_spec:
  assumes "build_push X z st protocol budget e = (Inr (Some req), e')"
  shows "\<exists>n \<le> length (eng_outbox e').
      psq_commands req =
        List.map_filter (sent_as X (eng_registry e') (eng_migrations e')) (take n (eng_outbox e')) \<and>
      eng_effects e' = eng_effects e @ map (\<lambda>(i, v, r). Emit (CommandHeld i v r))
        (concat (map (held_report X (eng_registry e') (eng_migrations e')) (take n (eng_outbox e')))) \<and>
      length (psq_commands req) \<le> COMMANDS_MAX_COUNT \<and>
      (length (psq_commands req) \<le> 1 \<or> fits X z budget (psq_commands req)) \<and>
      list_all (encodable X) (psq_commands req) \<and>
      (n < length (eng_outbox e') \<longrightarrow> length (psq_commands req) = COMMANDS_MAX_COUNT \<or>
         (\<exists>c. sent_as X (eng_registry e') (eng_migrations e') (eng_outbox e' ! n) = Some c \<and>
            psq_commands req \<noteq> [] \<and> \<not> fits X z budget (psq_commands req @ [c])))"
proof -
  obtain e1 hld where r: "refresh_outbox_if_suspect st e = (Inr (), e1)"
    and p: "push_loop X z (eng_registry e1) (eng_migrations e1) budget (eng_outbox e1) [] (push_bytes X []) [] =
       Inr (psq_commands req, hld)"
    and e': "e' = e1\<lparr>eng_effects := eng_effects e1 @ map (\<lambda>(i, v, r). Emit (CommandHeld i v r)) hld\<rparr>"
    using build_push_cases [OF assms] by metis
  have "eng_effects e1 = eng_effects e"
    using r by (auto simp: refresh_outbox_if_suspect_def split: if_splits sum.splits)
  then show ?thesis
    using push_loop_spec [OF p] e' by (auto simp: COMMANDS_MAX_COUNT_def)
qed

end
