(* ===== verification/Core_Health.thy ===== *)
theory Core_Health
  imports Core_Digest
begin

text \<open>
  The divergence state of a scope across one accepted batch: the health the engine moves to, the
  telemetry it queues, and the record it leaves in the store.
\<close>

text \<open>Escalation at the third divergence.\<close>

definition escalated :: "u32 \<Rightarrow> scope_health" where
  "escalated k = (if MAX_HEAL_ATTEMPTS \<le> k then Unhealable k else Tainted k)"

definition next_health :: "bool \<Rightarrow> bool \<Rightarrow> bool \<Rightarrow> scope_health \<Rightarrow> scope_health" where
  "next_health cmp rb diverged h =
     (if diverged \<and> (is_healthy h \<or> rb \<and> needs_rebootstrap h)
      then escalated (sat_succ (health_attempts h))
      else if cmp \<and> \<not> diverged \<and> needs_rebootstrap h then Healed (health_attempts h)
      else h)"

lemma scope_health_taint:
  "engine_scope_health (taint sc k e) x = (if x = sc then escalated k else engine_scope_health e x)"
  by (simp add: engine_scope_health_def taint_def set_health_def emit_def escalated_def)

lemma scope_health_set:
  "engine_scope_health (set_health sc h e) x = (if x = sc then h else engine_scope_health e x)"
  by (simp add: engine_scope_health_def set_health_def)

lemma scope_health_cong: "eng_health e' = eng_health e \<Longrightarrow> engine_scope_health e' = engine_scope_health e"
  by (simp add: engine_scope_health_def fun_eq_iff)

lemma commit_health:
  assumes "commit_batch st b cmp rb g q e = (Inr out, e')"
  shows "engine_scope_health e' x =
    (if x = bat_scope b
     then next_health cmp rb (apd_diverged out) (engine_scope_health e (bat_scope b))
     else engine_scope_health e x)"
proof -
  let ?h = "engine_scope_health e (bat_scope b)" and ?dv = "batch_diverged cmp b (stg_digest g)"
  have *: "engine_scope_health (e\<lparr>eng_storage := s, eng_scopes := m\<rparr>) x = engine_scope_health e x"
    "engine_scope_health (e\<lparr>eng_storage := s, eng_scopes := m, eng_effects := fs\<rparr>) x =
       engine_scope_health e x"
    "engine_scope_health (emit f e2) x = engine_scope_health e2 x" for s m fs f e2 x
    by (simp_all add: engine_scope_health_def emit_def)
  show ?thesis
    using assms unfolding commit_batch_def Let_def
    by (auto simp: effect_fields scope_health_taint scope_health_set * next_health_def
        divergence_counts_def batch_heals_def split: sum.splits prod.splits if_splits)
qed

lemma commit_failed_health:
  "commit_batch st b cmp rb g q e = (Inl err, e') \<Longrightarrow> eng_health e' = eng_health e"
  unfolding commit_batch_def Let_def by (auto split: sum.splits prod.splits)

lemma commit_failed_storage:
  "commit_batch st b cmp rb g q e = (Inl err, e') \<Longrightarrow> \<exists>s. err = ApplyStorage s"
  unfolding commit_batch_def Let_def by (auto split: sum.splits prod.splits)

lemma refresh_health: "refresh_if_suspect st sc e = (r, e') \<Longrightarrow> eng_health e' = eng_health e"
  by (auto simp: refresh_if_suspect_def split: if_splits sum.splits)

lemma apply_changes_commit:
  assumes "apply_changes X st b cmp rb e = (r, e')"
  shows "(\<exists>e1 r1. refresh_if_suspect st (bat_scope b) e = (r1, e1) \<and>
      (e' = e1 \<and> (\<exists>err. r = Inl err) \<or> (\<exists>g q. commit_batch st b cmp rb g q e1 = (r, e'))))"
proof -
  obtain r1 e1 where 1: "refresh_if_suspect st (bat_scope b) e = (r1, e1)"
    by fastforce
  then show ?thesis
    using assms unfolding apply_changes_def by (auto simp: Let_def split: sum.splits)
qed

lemma apply_changes_health:
  assumes "apply_changes X st b cmp rb e = (Inr out, e')"
  shows "engine_scope_health e' x =
    (if x = bat_scope b
     then next_health cmp rb (apd_diverged out) (engine_scope_health e (bat_scope b))
     else engine_scope_health e x)"
  using apply_changes_commit [OF assms] refresh_health scope_health_cong commit_health by (metis Inl_Inr_False)

lemma apply_changes_failed_health:
  assumes "apply_changes X st b cmp rb e = (Inl err, e')"
  shows "engine_scope_health e' x = engine_scope_health e x"
  using apply_changes_commit [OF assms] refresh_health scope_health_cong commit_failed_health by metis

lemma restored_health:
  "engine_scope_health (restore_scope_health sc k healed e) sc =
     (if k = 0 then Healthy else if healed then Healed k else escalated k)"
  by (auto simp: restore_scope_health_def engine_scope_health_def set_health_def escalated_def)

lemma u32_top: "(0xFFFFFFFF :: u32) = - 1"
  by code_simp

lemma sat_succ_pos: "sat_succ k \<noteq> 0"
proof
  assume "sat_succ k = 0"
  then have "k \<noteq> - 1" "k + 1 = 0"
    by (auto simp: sat_succ_def u32_top split: if_splits)
  then show False
    by (simp add: eq_neg_iff_add_eq_0)
qed

lemma sat_succ_mono: "k \<le> sat_succ k"
proof (cases "k = 0xFFFFFFFF")
  case False
  then have "k < - 1"
    by (simp add: u32_top word_order.not_eq_extremum [symmetric])
  with False show ?thesis
    by (simp add: sat_succ_def word_le_nat_alt unat_Suc_less)
qed (simp add: sat_succ_def)

end
