(* ===== verification/Props_Core.thy ===== *)
theory Props_Core
  imports Samples Core_Push Core_Health
begin

text \<open>
  Properties of the engine's operations (\<open>credsync-core\<close>): applying a batch, divergence health,
  migrations, the registry, the outbox.
\<close>

section \<open>Sample states\<close>

definition sample_applied :: "db engine" where
  "sample_applied = snd (apply_batch sample_externs sim_storage sample_page sample_device)"

lemma sample_coherent: "coherent db_view sample_device"
  using device_started [of lesson pupil] by (simp add: device_inv_def sample_device_def)

lemma sample_applied_run:
  "apply_batch sample_externs sim_storage sample_page sample_device =
     (Inr \<lparr>apd_changes = 1, apd_diverged = False\<rparr>, sample_applied)"
proof -
  have "fst (apply_batch sample_externs sim_storage sample_page sample_device) =
      Inr \<lparr>apd_changes = 1, apd_diverged = False\<rparr>"
    by code_simp
  then show ?thesis
    by (simp add: sample_applied_def prod_eq_iff)
qed

section \<open>Applying a batch\<close>

text \<open>C11. An accepted batch is exactly its log. When the engine agrees with its store, an accepted pull
  leaves in the store what was there with one operation per change, in order (the row it upserts,
  migrated to the app's schema when needed, the row it deletes, or the untouched snapshot set aside
  with the reason it could not be migrated), then the cursor, the digest and what the health machine
  records; memory moves to the same cursor and digest.\<close>

theorem apply_batch_refines_log:
  assumes "coherent db_view e"
    and "apply_batch X sim_storage b e = (Inr out, e')"
  shows "\<exists>d. db_view (eng_storage e') =
      view_ops
        (map (change_storage_op X (eng_registry e) (eng_migrations e)) (bat_changes b) @
         [SetCursor (bat_scope b) (bat_next_cursor b),
          SetScopeDigest (bat_scope b) (digest_to_hex d)] @
         health_ops (\<not> bat_has_more b) False b d (engine_scope_health e (bat_scope b)))
        (db_view (eng_storage e)) \<and>
      engine_scope_state e' (bat_scope b) = Some (scope_state_restored (bat_next_cursor b) d) \<and>
      apd_diverged out = batch_diverged (\<not> bat_has_more b) b d \<and>
      apd_changes out = length (bat_changes b)"
  using sim.apply_changes_refines [OF assms(1) assms(2) [unfolded apply_batch_def]]
  by (simp add: engine_scope_state_def)

theorem apply_batch_refines_log_witness:
  "\<exists>d. sv_rows (db_view (eng_storage sample_applied)) =
      sv_rows (view_ops (map (change_storage_op sample_externs (eng_registry sample_device)
        (eng_migrations sample_device)) (bat_changes sample_page)) (db_view (eng_storage sample_device))) \<and>
     engine_scope_state sample_applied pupil = Some (scope_state_restored (Cursor 3) d)"
proof -
  have "bat_scope sample_page = pupil" "bat_next_cursor sample_page = Cursor 3"
    by (simp_all add: sample_page_def sample_batch_def)
  then show ?thesis
    using apply_batch_refines_log [OF sample_coherent sample_applied_run] by auto
qed

text \<open>C14. A refused batch moves nothing. When a pull is refused for any reason other than storage, the
  store, the effects, the outbox and the health of every scope are untouched; the only thing that may
  have happened is the reload of its scope from the store, when the scope was flagged, which clears the
  flag.\<close>

theorem refused_batch_moves_nothing:
  assumes "apply_batch X st b e = (Inl err, e')"
    and "\<forall>s. err \<noteq> ApplyStorage s"
  shows "eng_storage e' = eng_storage e \<and> eng_effects e' = eng_effects e \<and>
    eng_outbox e' = eng_outbox e \<and> eng_health e' = eng_health e \<and>
    e' = snd (refresh_if_suspect st (bat_scope b) e)"
proof -
  obtain e1 r1 where 1: "refresh_if_suspect st (bat_scope b) e = (r1, e1)"
    and c: "e' = e1 \<or> (\<exists>g q cmp rb. commit_batch st b cmp rb g q e1 = (Inl err, e'))"
    using apply_changes_commit [OF assms(1) [unfolded apply_batch_def]] by blast
  have "e' = e1"
    using c assms(2) commit_failed_storage by metis
  then show ?thesis
    using 1 by (auto simp: refresh_if_suspect_def split: if_splits sum.splits)
qed

definition sample_rewind :: batch where
  "sample_rewind = sample_page\<lparr>bat_changes := [sample_upsert 3 ''a'' 1, sample_upsert 3 ''b'' 1]\<rparr>"

theorem refused_batch_moves_nothing_witness:
  "eng_storage (snd (apply_batch sample_externs sim_storage sample_rewind sample_device)) =
     eng_storage sample_device"
proof -
  have "fst (apply_batch sample_externs sim_storage sample_rewind sample_device) = Inl (OutOfOrder 3 3)"
    by code_simp
  then have "apply_batch sample_externs sim_storage sample_rewind sample_device =
      (Inl (OutOfOrder 3 3), snd (apply_batch sample_externs sim_storage sample_rewind sample_device))"
    by (simp add: prod_eq_iff)
  from refused_batch_moves_nothing [OF this] show ?thesis by (blast intro: conjunct1)
qed

text \<open>The ordering rules, exactly. \<open>validate_ordering\<close> accepts a batch if and only if every change
  pairs its kind with its snapshot, the sequence numbers strictly increase, and each lies above the
  cursor and at or below \<open>next_cursor\<close>.\<close>

theorem validate_ordering_exact:
  "validate_ordering b cur = Inr () \<longleftrightarrow>
     list_all (\<lambda>c. change_validate c = Inr () \<and> cur < seq_get (chg_seq c) \<and>
                   seq_get (chg_seq c) \<le> cursor_get (bat_next_cursor b)) (bat_changes b) \<and>
     sorted_wrt (\<lambda>x y. seq_get (chg_seq x) < seq_get (chg_seq y)) (bat_changes b)"
  using validate_ordering_ok [of b cur]
  by (auto simp: list_all_iff change_validate_iff change_wf_def seq_lt_def [abs_def])

text \<open>An empty batch may move the cursor backwards. Nothing in the ordering rules looks at
  \<open>next_cursor\<close> when the batch carries no change, so an accepted empty pull sets the cursor to
  whatever it says, below the current one included, in memory and in the store.\<close>

theorem empty_batch_sets_any_cursor:
  assumes "bat_changes b = []"
    and "bat_scope b \<notin> eng_suspect e"
    and "db_verdict (eng_storage e) = Commit"
  shows "\<exists>out e'. apply_batch X sim_storage b e = (Inr out, e') \<and>
    map_option ss_cursor (engine_scope_state e' (bat_scope b)) = Some (bat_next_cursor b) \<and>
    db_cursors (eng_storage e') (bat_scope b) = Some (bat_next_cursor b)"
proof -
  let ?s = "case eng_scopes e (bat_scope b) of Some s \<Rightarrow> s | None \<Rightarrow> ScopeState_NEW"
  have "apply_batch X sim_storage b e =
      commit_batch sim_storage b (\<not> bat_has_more b) False (fst (staging_start ?s)) [] e"
    using assms(1,2)
    by (simp add: apply_batch_def apply_changes_def refresh_if_suspect_def validate_ordering_def
        staging_start_def)
  then show ?thesis
    using assms(3) unfolding commit_batch_def Let_def
    by (auto simp: sim_storage_def sim_transact_def db_staged_def staging_start_def
        engine_scope_state_def scope_state_restored_def)
qed

definition sample_backwards :: batch where
  "sample_backwards = sample_page\<lparr>bat_changes := [], bat_next_cursor := Cursor 1\<rparr>"

theorem empty_batch_sets_any_cursor_witness:
  "\<exists>out e'. apply_batch sample_externs sim_storage sample_backwards sample_applied = (Inr out, e') \<and>
    map_option ss_cursor (engine_scope_state e' pupil) = Some (Cursor 1) \<and>
    db_cursors (eng_storage e') pupil = Some (Cursor 1)"
proof -
  have "pupil \<notin> eng_suspect sample_applied \<and> db_verdict (eng_storage sample_applied) = Commit"
    unfolding sample_applied_def by code_simp
  moreover have "bat_scope sample_backwards = pupil" "bat_next_cursor sample_backwards = Cursor 1"
    "bat_changes sample_backwards = []"
    by (simp_all add: sample_backwards_def sample_page_def sample_batch_def)
  ultimately show ?thesis
    using empty_batch_sets_any_cursor [of sample_backwards sample_applied sample_externs] by metis
qed

section \<open>Divergence and health\<close>

text \<open>C30. The health machine, exactly. After an accepted page or pull the health of its scope is the one
  the protocol prescribes: a divergence counts once per trust episode (the scope was trusted, or this
  was the last page of a rebuild) and escalates at the third, agreement after a rebuild heals and
  keeps the count, and everything else leaves the health alone. No other scope is touched, and a
  failed apply changes no health at all.\<close>

theorem apply_moves_health:
  "(case apply_changes X st b cmp rb e of
      (Inr out, e') \<Rightarrow>
        engine_scope_health e' x =
          (if x = bat_scope b
           then next_health cmp rb (apd_diverged out) (engine_scope_health e (bat_scope b))
           else engine_scope_health e x)
    | (Inl _, e') \<Rightarrow> engine_scope_health e' x = engine_scope_health e x)"
  using apply_changes_health [of X st b cmp rb e] apply_changes_failed_health [of X st b cmp rb e]
  by (auto split: prod.splits sum.splits)

text \<open>Giving up is final and a broken scope is not counted twice. No pull or page moves a scope out
  of \<open>Unhealable\<close>, and an ordinary pull of a tainted scope that still disagrees leaves its health and
  its count as they were.\<close>

theorem unhealable_is_absorbing:
  assumes "apply_changes X st b cmp rb e = (r, e')"
    and "engine_scope_health e (bat_scope b) = Unhealable k \<or>
         (engine_scope_health e (bat_scope b) = Tainted k \<and> \<not> rb \<and>
          (\<forall>out. r = Inr out \<longrightarrow> apd_diverged out))"
  shows "engine_scope_health e' (bat_scope b) = engine_scope_health e (bat_scope b)"
proof (cases r)
  case (Inl err)
  then show ?thesis using apply_changes_failed_health assms(1) by blast
next
  case (Inr out)
  then have "engine_scope_health e' (bat_scope b) =
      next_health cmp rb (apd_diverged out) (engine_scope_health e (bat_scope b))"
    using apply_changes_health [of X st b cmp rb e out e' "bat_scope b"] assms(1) by simp
  then show ?thesis
    using assms(2) Inr by (auto simp: next_health_def)
qed

definition sample_tainted :: "db engine" where
  "sample_tainted = taint pupil 3 sample_device"

theorem unhealable_is_absorbing_witness:
  "engine_scope_health
     (snd (apply_changes sample_externs sim_storage sample_page True True sample_tainted)) pupil =
   Unhealable 3"
proof -
  have h: "engine_scope_health sample_tainted (bat_scope sample_page) = Unhealable 3"
    by (simp add: sample_tainted_def scope_health_taint escalated_def MAX_HEAL_ATTEMPTS_def
        sample_page_def sample_batch_def)
  have "engine_scope_health
      (snd (apply_changes sample_externs sim_storage sample_page True True sample_tainted))
      (bat_scope sample_page) = engine_scope_health sample_tainted (bat_scope sample_page)"
    by (rule unhealable_is_absorbing [OF prod.collapse [symmetric]]) (use h in blast)
  with h show ?thesis
    by (simp add: sample_page_def sample_batch_def)
qed

text \<open>The count survives a restart. When a divergence is counted on the simulated store and the
  commit is reported, the store's record restores, on a fresh engine, the very health the running
  engine moved to.\<close>

theorem counted_divergence_is_durable:
  assumes "apply_changes X sim_storage b cmp rb e = (Inr out, e')"
    and "coherent db_view e"
    and "apd_diverged out"
    and "is_healthy (engine_scope_health e (bat_scope b)) \<or>
         rb \<and> needs_rebootstrap (engine_scope_health e (bat_scope b))"
  shows "\<exists>k healed. db_divergences (eng_storage e') (bat_scope b) = Some (k, healed) \<and>
    engine_scope_health (restore_scope_health (bat_scope b) k healed fresh) (bat_scope b) =
    engine_scope_health e' (bat_scope b)"
proof -
  let ?h = "engine_scope_health e (bat_scope b)" and ?k = "sat_succ (health_attempts (engine_scope_health e (bat_scope b)))"
  obtain d where d: "db_view (eng_storage e') =
      view_ops (map (change_storage_op X (eng_registry e) (eng_migrations e)) (bat_changes b) @
          [SetCursor (bat_scope b) (bat_next_cursor b), SetScopeDigest (bat_scope b) (digest_to_hex d)] @
          health_ops cmp rb b d ?h) (db_view (eng_storage e))"
    and dv: "batch_diverged cmp b d"
    using sim.apply_changes_refines [OF assms(2,1)] assms(3) by auto
  have "db_divergences (eng_storage e') (bat_scope b) = sv_divergences (db_view (eng_storage e')) (bat_scope b)"
    by (simp add: db_view_def)
  also have "\<dots> = Some (?k, False)"
    unfolding d using assms(4) dv
    by (auto simp: health_ops_def Let_def divergence_counts_def batch_heals_def)
  finally have rec: "db_divergences (eng_storage e') (bat_scope b) = Some (?k, False)" .
  have "engine_scope_health e' (bat_scope b) = escalated ?k"
    using apply_changes_health [OF assms(1), of "bat_scope b"] assms(3,4) by (simp add: next_health_def)
  then have "engine_scope_health (restore_scope_health (bat_scope b) ?k False fresh) (bat_scope b) =
      engine_scope_health e' (bat_scope b)"
    by (simp add: restored_health sat_succ_pos)
  with rec show ?thesis by blast
qed

definition sample_last_page :: batch where
  "sample_last_page = sample_page\<lparr>bat_changes := [], bat_digest := HexString ''0000000000000000000000000000000f''\<rparr>"

theorem counted_divergence_is_durable_witness:
  "\<exists>k healed. db_divergences
      (eng_storage (snd (apply_changes sample_externs sim_storage sample_last_page True False sample_device))) pupil =
      Some (k, healed)"
proof -
  let ?run = "apply_changes sample_externs sim_storage sample_last_page True False sample_device"
  have "fst ?run = Inr \<lparr>apd_changes = 0, apd_diverged = True\<rparr>"
    by (simp add: engine_run Let_def sample_device_def sample_last_page_def sample_page_def sample_batch_def
        hex_zero_def)
  then have run: "?run = (Inr \<lparr>apd_changes = 0, apd_diverged = True\<rparr>, snd ?run)"
    by (simp add: prod_eq_iff)
  have "is_healthy (engine_scope_health sample_device (bat_scope sample_last_page))"
    by (simp add: engine_run sample_device_def)
  moreover have "bat_scope sample_last_page = pupil"
    by (simp add: sample_last_page_def sample_page_def sample_batch_def)
  ultimately show ?thesis
    using counted_divergence_is_durable [OF run sample_coherent, of sample_device] by auto
qed

section \<open>Quarantined rows and the digest\<close>

text \<open>One change, applied to a row the store does not hold.\<close>

lemma apply_one_fresh:
  assumes coh: "coherent db_view e" and ok: "apply_batch X sim_storage b e = (Inr out, e')"
    and one: "bat_changes b = [c]" and up: "chg_op c = Upsert"
    and fresh: "view_version (db_view (eng_storage e)) (change_key c) = None"
    and mig: "migrated_change X (eng_registry e) (eng_migrations e) c \<in> {Inr None, Inl err}"
  shows "\<exists>d. engine_scope_state e' (bat_scope b) = Some (scope_state_restored (bat_next_cursor b) d) \<and>
    digest_raw d = digest_raw (ss_digest (stored_state (db_view (eng_storage e)) (bat_scope b))) +
      row_hash X (chg_entity c) (chg_entity_id c) (chg_row_version c) \<and>
    apd_diverged out = batch_diverged (\<not> bat_has_more b) b d"
proof -
  let ?state = "stored_state (db_view (eng_storage e)) (bat_scope b)"
  obtain e1 g q where ref: "refresh_if_suspect sim_storage (bat_scope b) e = (Inr (), e1)"
    and stg: "stage_all X sim_storage e1 (bat_changes b) (staging_start ?state) = Inr (g, q)"
    and com: "commit_batch sim_storage b (\<not> bat_has_more b) False g q e1 = (Inr out, e')"
    using sim.apply_changes_cases [OF coh ok [unfolded apply_batch_def]] by metis
  note rf = refresh_facts [OF ref]
  have v: "staged_version sim_storage (eng_storage e) (fst (staging_start ?state)) (change_key c) = Inr None"
    using fresh
    by (simp add: staged_version_def staging_start_def sim_storage_def sim_row_version_def
        view_version_def db_view_def change_key_def option.map_comp comp_def)
  have "stg_digest g = digest_add X (chg_entity c) (chg_entity_id c) (chg_row_version c) (ss_digest ?state)"
    using stg v mig up unfolding one
    by (auto simp: stage_one_def Let_def stage_change_def stage_quarantine_def map_ok_Inr rf
        digest_replace_def change_key_def staging_start_def split: sum.splits option.splits if_splits)
  moreover have "eng_scopes e' (bat_scope b) =
      Some (scope_state_restored (bat_next_cursor b) (stg_digest g)) \<and>
      apd_diverged out = batch_diverged (\<not> bat_has_more b) b (stg_digest g)"
    using com unfolding commit_batch_def Let_def
    by (auto simp: effect_fields split: sum.splits prod.splits if_splits)
  ultimately show ?thesis
    by (auto simp: engine_scope_state_def digest_add_def)
qed

text \<open>C39. A quarantined row is counted twice. Setting a row aside adds its version to the digest, but the
  quarantine is invisible to the store's row versions; when the same row, which the store does not
  hold, later arrives readable, its old contribution is not subtracted, and the digest then holds both
  versions although the device holds one row. So when the second pull ends there and carries the digest
  of a server that holds that one row on top of what both held before, the apply reports a divergence,
  unless the row at its old version happens to hash to zero.\<close>

theorem quarantined_row_is_counted_twice:
  assumes "coherent db_view e"
    and "bat_changes b1 = [c1]" and "bat_changes b2 = [c2]" and "bat_scope b2 = bat_scope b1"
    and "chg_op c1 = Upsert" and "chg_op c2 = Upsert" and "change_key c2 = change_key c1"
    and "sim_row_version (eng_storage e) (chg_entity c1) (chg_entity_id c1) = Inr None"
    and "migrated_change X (eng_registry e) (eng_migrations e) c1 = Inl err"
    and "migrated_change X (eng_registry e) (eng_migrations e) c2 = Inr None"
    and "apply_batch X sim_storage b1 e = (Inr out1, e1)"
    and "apply_batch X sim_storage b2 e1 = (Inr out2, e2)"
  shows "\<exists>state. engine_scope_state e2 (bat_scope b1) = Some state \<and>
    digest_raw (ss_digest state) =
      digest_raw (ss_digest (stored_state (db_view (eng_storage e)) (bat_scope b1))) +
      row_hash X (chg_entity c1) (chg_entity_id c1) (chg_row_version c1) +
      row_hash X (chg_entity c1) (chg_entity_id c1) (chg_row_version c2) \<and>
    (\<not> bat_has_more b2 \<and>
      bat_digest b2 = digest_to_hex (digest_add X (chg_entity c1) (chg_entity_id c1) (chg_row_version c2)
        (ss_digest (stored_state (db_view (eng_storage e)) (bat_scope b1)))) \<longrightarrow>
      (apd_diverged out2 \<longleftrightarrow> row_hash X (chg_entity c1) (chg_entity_id c1) (chg_row_version c1) \<noteq> 0))"
proof -
  let ?w = "db_view (eng_storage e)" and ?w1 = "db_view (eng_storage e1)"
  have fresh: "view_version ?w (change_key c1) = None"
    using assms(8) by (simp add: sim_row_version_def view_version_def db_view_def change_key_def)
  have run1: "apply_changes X sim_storage b1 (\<not> bat_has_more b1) False e = (Inr out1, e1)"
    using assms(11) by (simp add: apply_batch_def)
  have coh1: "coherent db_view e1"
    using sim.apply_changes_coherent [OF assms(1) run1] .
  obtain d1 where d1: "engine_scope_state e1 (bat_scope b1) = Some (scope_state_restored (bat_next_cursor b1) d1)"
    "digest_raw d1 = digest_raw (ss_digest (stored_state ?w (bat_scope b1))) +
      row_hash X (chg_entity c1) (chg_entity_id c1) (chg_row_version c1)"
    using apply_one_fresh [OF assms(1) assms(11) assms(2,5) fresh, of err] assms(9) by auto
  obtain d where w1: "?w1 =
      view_ops (map (change_storage_op X (eng_registry e) (eng_migrations e)) (bat_changes b1) @
          [SetCursor (bat_scope b1) (bat_next_cursor b1), SetScopeDigest (bat_scope b1) (digest_to_hex d)] @
          health_ops (\<not> bat_has_more b1) False b1 d (engine_scope_health e (bat_scope b1))) ?w"
    and d: "eng_scopes e1 (bat_scope b1) = Some (scope_state_restored (bat_next_cursor b1) d)"
    using sim.apply_changes_refines [OF assms(1) run1] by blast
  have "d = d1"
    using d d1(1) by (simp add: engine_scope_state_def scope_state_restored_def)
  then have state1: "ss_digest (stored_state ?w1 (bat_scope b1)) = d1"
    unfolding w1 by (simp add: stored_state_def position_def restored_scope_def scope_state_restored_def)
  have "sv_rows ?w1 = sv_rows ?w"
    unfolding w1 using assms(2,9) by (simp add: change_storage_op_def)
  then have fresh1: "view_version ?w1 (change_key c2) = None"
    using fresh assms(7) by (simp add: view_version_def)
  have keep: "eng_registry e1 = eng_registry e" "eng_migrations e1 = eng_migrations e"
    using registry_unchanged(1) [OF run1] migrations_unchanged [OF run1] by simp_all
  obtain d2 where "engine_scope_state e2 (bat_scope b2) = Some (scope_state_restored (bat_next_cursor b2) d2)"
    "digest_raw d2 = digest_raw (ss_digest (stored_state ?w1 (bat_scope b2))) +
      row_hash X (chg_entity c2) (chg_entity_id c2) (chg_row_version c2)"
    "apd_diverged out2 = batch_diverged (\<not> bat_has_more b2) b2 d2"
    using apply_one_fresh [OF coh1 assms(12) assms(3,6) fresh1, of err] assms(10) keep by auto
  with d1 state1 assms(4,7) show ?thesis
    by (auto simp: scope_state_restored_def change_key_def batch_diverged_def digest_to_hex_inj
        digest_add_def scope_digest.expand)
qed

text \<open>A row of schema 2 reaches a device that knows schema 1, then the same row arrives at schema 1.\<close>

definition sample_future :: batch where
  "sample_future = sample_page\<lparr>bat_changes :=
     [(sample_upsert 3 ''a'' 1)\<lparr>chg_schema_version := SchemaVersion 2\<rparr>]\<rparr>"

definition sample_readable :: batch where
  "sample_readable = sample_page\<lparr>bat_changes := [sample_upsert 7 ''a'' 2], bat_next_cursor := Cursor 7,
     bat_has_more := False,
     bat_digest := digest_to_hex (digest_add sample_externs lesson (EntityId ''a'') (RowVersion 2) ScopeDigest_EMPTY)\<rparr>"

theorem quarantined_row_is_counted_twice_witness:
  "\<exists>out e state. apply_batch sample_externs sim_storage sample_readable
        (snd (apply_batch sample_externs sim_storage sample_future sample_device)) = (Inr out, e) \<and>
     engine_scope_state e pupil = Some state \<and>
     digest_raw (ss_digest state) =
       row_hash sample_externs lesson (EntityId ''a'') (RowVersion 1) +
       row_hash sample_externs lesson (EntityId ''a'') (RowVersion 2) \<and> apd_diverged out"
proof -
  let ?r1 = "apply_batch sample_externs sim_storage sample_future sample_device"
  let ?r2 = "apply_batch sample_externs sim_storage sample_readable (snd ?r1)"
  let ?c1 = "(sample_upsert 3 ''a'' 1)\<lparr>chg_schema_version := SchemaVersion 2\<rparr>" and ?c2 = "sample_upsert 7 ''a'' 2"
  have "is_ok (fst ?r1) \<and> is_ok (fst ?r2)"
    by code_simp
  then obtain o1 o2 where r: "?r1 = (Inr o1, snd ?r1)" "?r2 = (Inr o2, snd ?r2)"
    by (auto simp: is_ok_def prod_eq_iff split: sum.splits)
  have fresh: "sim_row_version (eng_storage sample_device) (chg_entity ?c1) (chg_entity_id ?c1) = Inr None"
    by code_simp
  have mig: "migrated_change sample_externs (eng_registry sample_device) (eng_migrations sample_device) ?c1 =
      Inl (Backward 2 1)"
    "migrated_change sample_externs (eng_registry sample_device) (eng_migrations sample_device) ?c2 = Inr None"
    by code_simp+
  have start: "ss_digest (stored_state (db_view (eng_storage sample_device)) pupil) = ScopeDigest_EMPTY"
    by code_simp
  have old: "row_hash sample_externs lesson (EntityId ''a'') (RowVersion 1) \<noteq> 0"
    by code_simp
  have b: "bat_changes sample_future = [?c1]" "bat_changes sample_readable = [?c2]"
    "bat_scope sample_future = pupil" "bat_scope sample_readable = pupil" "\<not> bat_has_more sample_readable"
    "bat_digest sample_readable =
       digest_to_hex (digest_add sample_externs lesson (EntityId ''a'') (RowVersion 2) ScopeDigest_EMPTY)"
    by (simp_all add: sample_future_def sample_readable_def sample_page_def sample_batch_def)
  have c: "chg_op ?c1 = Upsert" "chg_op ?c2 = Upsert" "change_key ?c2 = change_key ?c1"
    "chg_entity ?c1 = lesson" "chg_entity_id ?c1 = EntityId ''a''" "chg_row_version ?c1 = RowVersion 1"
    "chg_row_version ?c2 = RowVersion 2"
    by (simp_all add: sample_upsert_def change_key_def)
  have "bat_scope sample_readable = bat_scope sample_future"
    using b by simp
  from quarantined_row_is_counted_twice
    [OF sample_coherent b(1,2) this c(1-3) fresh mig r, unfolded b(3,6) c(4-7) start]
  obtain state where "engine_scope_state (snd ?r2) pupil = Some state" "digest_raw (ss_digest state) =
       row_hash sample_externs lesson (EntityId ''a'') (RowVersion 1) +
       row_hash sample_externs lesson (EntityId ''a'') (RowVersion 2)" "apd_diverged o2"
    using b(5) old by (auto simp: ScopeDigest_EMPTY_def)
  with r(2) show ?thesis
    by blast
qed

end
