(* ===== verification/Proto_Facts.thy ===== *)
theory Proto_Facts
  imports Proto_Wire
begin

text \<open>
  Specifications and lemmas for the wire layer: what a host document may contain, what a bounded
  decoder returns, and the relation between a command id and its printed form.
\<close>

section \<open>Documents\<close>

text \<open>\<open>json_within x v\<close>: \<open>x\<close> occurs in \<open>v\<close>, at any depth.\<close>

inductive json_within :: "json \<Rightarrow> json \<Rightarrow> bool" where
  within_self: "json_within v v"
| within_array: "json_within x v \<Longrightarrow> v \<in> set vs \<Longrightarrow> json_within x (JArray vs)"
| within_object: "json_within x v \<Longrightarrow> (k, v) \<in> set m \<Longrightarrow> json_within x (JObject m)"

inductive_simps json_within_simps [simp]:
  "json_within x JNull" "json_within x (JBool b)" "json_within x (JPosInt n)"
  "json_within x (JNegInt n)" "json_within x (JFloat n)" "json_within x (JString s)"

inductive_simps json_within_array: "json_within x (JArray vs)"
inductive_simps json_within_object: "json_within x (JObject m)"

definition float_within :: "json \<Rightarrow> bool" where
  "float_within v = (\<exists>b. json_within (JFloat b) v)"

lemma float_within_simps [simp]:
  "\<not> float_within JNull" "\<not> float_within (JBool b)" "\<not> float_within (JPosInt n)"
  "\<not> float_within (JNegInt n)" "float_within (JFloat n)" "\<not> float_within (JString s)"
  by (auto simp: float_within_def)

lemma float_within_compound [simp]:
  "float_within (JArray vs) \<longleftrightarrow> (\<exists>v \<in> set vs. float_within v)"
  "float_within (JObject m) \<longleftrightarrow> (\<exists>v \<in> snd ` set m. float_within v)"
  by (auto simp: float_within_def json_within_array json_within_object intro: rev_bexI) force+

lemma reject_floats_eq:
  "reject_floats field v = (if float_within v then Inl (FloatNotAllowed field) else Inr ())"
  "reject_floats_items field vs =
     (if \<exists>v \<in> set vs. float_within v then Inl (FloatNotAllowed field) else Inr ())"
  "reject_floats_values field m =
     (if \<exists>v \<in> snd ` set m. float_within v then Inl (FloatNotAllowed field) else Inr ())"
  by (induction field v and field vs and field m
      rule: reject_floats_reject_floats_items_reject_floats_values.induct) auto

lemma document_new_ok:
  "document_new X mx field mk v = Inr d \<longleftrightarrow>
     d = mk v \<and> json_is_object v \<and> \<not> float_within v \<and>
     (\<exists>bs. canonicalize X v = Inr bs \<and> length bs \<le> mx)"
  by (auto simp: document_new_def reject_floats_eq split: sum.splits)

section \<open>Bounded decoding\<close>

lemma bounded_loop_iff:
  "length out \<le> mx \<Longrightarrow> bounded_loop mx decode custom ts out = Inr xs \<longleftrightarrow>
     length out + length ts \<le> mx \<and>
     (\<exists>ys. xs = out @ ys \<and> list_all2 (\<lambda>t y. decode t = Inr y) ts ys)"
proof (induction ts arbitrary: out)
  case Nil
  then show ?case by auto
next
  case (Cons t ts)
  show ?case
  proof (cases "length out < mx")
    case True
    then show ?thesis
      using Cons.IH [of "out @ [_]"] by (auto simp: list_all2_Cons1 split: sum.splits)
  next
    case False
    then show ?thesis by simp
  qed
qed

lemma bounded_loop_take:
  "length out \<le> mx \<Longrightarrow>
   bounded_loop mx decode custom (take (Suc mx - length out) ts) out = bounded_loop mx decode custom ts out"
proof (induction ts arbitrary: out)
  case Nil
  then show ?case by simp
next
  case (Cons t ts)
  have "take (Suc mx - length out) (t # ts) = t # take (mx - length out) ts"
    using Cons.prems by (simp add: Suc_diff_le)
  then show ?case
    using Cons.IH [of "out @ [_]"] Cons.prems by (auto simp: Suc_diff_le split: sum.splits)
qed

section \<open>Command ids\<close>

text \<open>A hexadecimal digit read and printed.\<close>

lemma hex_nibble_Some: "hex_nibble c = Some v \<Longrightarrow> unat v < 16 \<and> hex_digit (unat v) = c"
proof -
  assume v: "hex_nibble c = Some v"
  define n where "n = (of_char c :: nat)"
  have c: "c = char_of n"
    by (simp add: n_def)
  have w: "(of_char c :: u8) = of_nat n"
    by (simp only: n_def of_nat_of_char)
  consider "48 \<le> n" "n \<le> 57" "v = of_nat n - 48"
    | "\<not> (48 \<le> n \<and> n \<le> 57)" "97 \<le> n" "n \<le> 102" "v = of_nat n - 97 + 10"
    using v by (auto simp: hex_nibble_def less_eq_char_def w n_def [symmetric] split: if_splits)
  then show ?thesis
  proof cases
    case 1
    have v: "v = of_nat (n - 48)"
      using 1 by (simp add: of_nat_diff)
    have "unat v = n - 48"
      using 1(1-3) unfolding v unat_of_nat by (simp del: of_nat_diff)
    with 1(1-3) show ?thesis
      by (simp add: hex_digit_def c)
  next
    case 2
    have v: "v = of_nat (n - 87)"
      using 2 by (simp add: of_nat_diff)
    have "unat v = n - 87"
      using 2(1-3) unfolding v unat_of_nat by (simp del: of_nat_diff)
    with 2(2,3) show ?thesis
      by (auto simp: hex_digit_def c)
  qed
qed

lemma hex_nibble_digits:
  "list_all (\<lambda>h. hex_nibble (hex_digit h) = Some (of_nat h)) [0..<16]"
  by code_simp

lemma hex_nibble_digit: "h < 16 \<Longrightarrow> hex_nibble (hex_digit h) = Some (of_nat h)"
  using hex_nibble_digits by (simp add: list_all_iff del: upt.simps)

lemma unat_nibbles:
  fixes hi lo :: u8
  assumes "unat hi < 16" "unat lo < 16"
  shows "unat (push_bit 4 hi OR lo) = 16 * unat hi + unat lo"
proof -
  have "lo = take_bit 4 lo"
    using assms(2) by (intro word_unat_eq_iff [THEN iffD2]) (simp add: unsigned_take_bit_eq take_bit_nat_eq_self)
  then have "push_bit 4 hi AND lo = push_bit 4 hi AND take_bit 4 lo"
    by simp
  also have "\<dots> = 0"
    by (rule bit_eqI) (auto simp: bit_simps)
  finally have "push_bit 4 hi OR lo = 16 * hi + lo"
    using word_plus_and_or [of "push_bit 4 hi" lo] by (simp add: push_bit_eq_mult mult.commute)
  then show ?thesis
    using assms by (simp add: unat_word_ariths)
qed

text \<open>One byte of the text, read and printed.\<close>

lemma hex2_nibbles:
  "hex2 b = [c, d] \<longleftrightarrow> (\<exists>hi lo. hex_nibble c = Some hi \<and> hex_nibble d = Some lo \<and> b = push_bit 4 hi OR lo)"
proof
  assume b: "hex2 b = [c, d]"
  have lt: "unat b div 16 < 16" "unat b mod 16 < 16"
    using unsigned_less [of b, where 'a = nat] by simp_all
  have "b = push_bit 4 (of_nat (unat b div 16)) OR of_nat (unat b mod 16)"
    using lt by (intro word_unat_eq_iff [THEN iffD2]) (simp add: unat_nibbles unat_of_nat)
  then show "\<exists>hi lo. hex_nibble c = Some hi \<and> hex_nibble d = Some lo \<and> b = push_bit 4 hi OR lo"
    using b hex_nibble_digit [OF lt(1)] hex_nibble_digit [OF lt(2)]
    by (auto simp: hex2_def)
next
  assume "\<exists>hi lo. hex_nibble c = Some hi \<and> hex_nibble d = Some lo \<and> b = push_bit 4 hi OR lo"
  then obtain hi lo where h: "hex_nibble c = Some hi" "hex_nibble d = Some lo" "b = push_bit 4 hi OR lo"
    by blast
  show "hex2 b = [c, d]"
    using hex_nibble_Some [OF h(1)] hex_nibble_Some [OF h(2)] by (simp add: h(3) hex2_def unat_nibbles)
qed

lemma uuid_byte:
  assumes "length s = 36" "i + 1 < 36" "i \<notin> set HYPHENS_AT" "length out < 16"
  shows "uuid_loop s i out = Inr r \<longleftrightarrow>
    (\<exists>b. hex2 b = [s ! i, s ! (i + 1)] \<and> uuid_loop s (i + 2) (out @ [b]) = Inr r)"
  using assms unfolding hex2_nibbles
  by (subst uuid_loop.simps) (auto simp: UUID_LEN_def split: option.splits)

lemma uuid_hyphen:
  assumes "i < 36" "i \<in> set HYPHENS_AT"
  shows "uuid_loop s i out = Inr r \<longleftrightarrow> s ! i = CHR ''-'' \<and> uuid_loop s (i + 1) out = Inr r"
  using assms by (subst uuid_loop.simps) (simp add: UUID_LEN_def)

lemma uuid_end: "uuid_loop s 36 out = Inr r \<longleftrightarrow> length out = 16 \<and> r = out"
  by (subst uuid_loop.simps) (auto simp: UUID_LEN_def)

text \<open>The loop reads exactly the printed form.\<close>

lemma uuid_loop_unrolled:
  assumes "length s = 36"
  shows "uuid_loop s 0 [] = Inr r \<longleftrightarrow>
    (\<exists>b0 b1 b2 b3 b4 b5 b6 b7 b8 b9 b10 b11 b12 b13 b14 b15.
       r = [b0, b1, b2, b3, b4, b5, b6, b7, b8, b9, b10, b11, b12, b13, b14, b15] \<and>
       s = hex2 b0 @ hex2 b1 @ hex2 b2 @ hex2 b3 @ ''-'' @ hex2 b4 @ hex2 b5 @ ''-'' @
         hex2 b6 @ hex2 b7 @ ''-'' @ hex2 b8 @ hex2 b9 @ ''-'' @ hex2 b10 @ hex2 b11 @ hex2 b12 @
         hex2 b13 @ hex2 b14 @ hex2 b15)"
  (is "?L \<longleftrightarrow> ?R")
proof -
  obtain c0 c1 c2 c3 c4 c5 c6 c7 c8 c9 c10 c11 c12 c13 c14 c15 c16 c17 c18 c19 c20 c21 c22 c23 c24 c25 c26 c27 c28 c29 c30 c31 c32 c33 c34 c35 where
    s: "s = [c0, c1, c2, c3, c4, c5, c6, c7, c8, c9, c10, c11, c12, c13, c14, c15, c16, c17, c18, c19, c20, c21, c22, c23, c24, c25, c26, c27, c28, c29, c30, c31, c32, c33, c34, c35]"
    using assms by (auto simp: numeral_eq_Suc length_Suc_conv)
  note unroll = uuid_byte uuid_hyphen uuid_end HYPHENS_AT_def
  show ?thesis
  proof
    assume ?L
    then show ?R
      using assms by (simp add: unroll del: add_2_eq_Suc add_2_eq_Suc' One_nat_def) (elim exE conjE, intro exI conjI, assumption, simp add: s)
  next
    assume ?R
    then show ?L
      using assms by (elim exE conjE) (simp add: unroll hex2_def del: add_2_eq_Suc add_2_eq_Suc' One_nat_def)
  qed
qed

lemma command_id_print_16:
  "length bs = 16 \<Longrightarrow> \<exists>b0 b1 b2 b3 b4 b5 b6 b7 b8 b9 b10 b11 b12 b13 b14 b15.
     bs = [b0, b1, b2, b3, b4, b5, b6, b7, b8, b9, b10, b11, b12, b13, b14, b15]"
  by (auto simp: numeral_eq_Suc length_Suc_conv)

lemma command_id_parse_iff:
  "command_id_parse s = Inr c \<longleftrightarrow>
     s = command_id_to_string c \<and> length (command_bytes c) = 16 \<and>
     drop_bit 4 (command_bytes c ! 6) = 7"
proof (cases "length s = 36")
  case True
  have "uuid_loop s 0 [] = Inr r \<longleftrightarrow> length r = 16 \<and> s = command_id_to_string (CommandId r)" for r
    unfolding uuid_loop_unrolled [OF True] command_id_to_string_def
    by (auto dest!: command_id_print_16)
  from this [of "command_bytes c"]
  have loop: "uuid_loop s 0 [] = Inr (command_bytes c) \<longleftrightarrow>
      length (command_bytes c) = 16 \<and> s = command_id_to_string c"
    by simp
  have "command_id_parse s = Inr c \<longleftrightarrow>
      uuid_loop s 0 [] = Inr (command_bytes c) \<and> drop_bit 4 (command_bytes c ! 6) = 7"
    using True by (cases c) (auto simp: command_id_parse_def command_id_from_bytes_def UUID_LEN_def Let_def
        split: sum.splits if_splits)
  then show ?thesis
    using loop by blast
next
  case False
  have "length (command_id_to_string c) = 36" if "length (command_bytes c) = 16"
    using command_id_print_16 [OF that] by (auto simp: command_id_to_string_def hex2_def)
  then show ?thesis
    using False by (auto simp: command_id_parse_def UUID_LEN_def)
qed

end
