(* ===== verification/Props_Outbox.thy ===== *)
theory Props_Outbox
  imports Samples Core_Push Core_Results Proto_Facts
begin

text \<open>
  Properties of the engine's write side and of what it consults: the registry, the migrations,
  queueing, pushing and resolving.
\<close>

section \<open>Registry and migrations\<close>

text \<open>Nothing pull-only is ever queued. An enqueue succeeds only for a command whose target entity is
  registered under a class that accepts commands; a command whose target is server-authoritative is
  refused with the entity named and the engine, its store included, is exactly as it was.\<close>

theorem enqueue_guards_server_truth:
  "(case enqueue st entry e of
      (Inr _, _) \<Rightarrow>
        (\<exists>n cl. target_of (eng_registry e) (cmd_name (oe_command entry)) = Some n \<and>
           class_of (eng_registry e) n = Some cl \<and> cl \<noteq> ServerAuthoritative)
    | (Inl (OutboxRegistry _), e') \<Rightarrow> e' = e
    | (Inl _, _) \<Rightarrow> True) \<and>
   (case target_of (eng_registry e) (cmd_name (oe_command entry)) of
      Some n \<Rightarrow> (if class_of (eng_registry e) n = Some ServerAuthoritative
        then enqueue st entry e = (Inl (OutboxRegistry (PullOnly n)), e) else True)
    | None \<Rightarrow> enqueue st entry e =
        (Inl (OutboxRegistry (UnknownCommand (cmd_name (oe_command entry)))), e))"
proof -
  have "check_command (eng_registry e) (oe_command entry) = Inr n \<Longrightarrow>
      \<exists>n cl. target_of (eng_registry e) (cmd_name (oe_command entry)) = Some n \<and>
        class_of (eng_registry e) n = Some cl \<and> cl \<noteq> ServerAuthoritative" for n
    by (auto simp: check_command_ok)
  then show ?thesis
    by (auto simp: enqueue_def check_command_def target_of_def class_of_def accepts_commands_def
        split: sum.splits prod.splits option.splits outbox_error.splits)
qed

text \<open>C36. Migration composes. Migrating from one version to a later one is migrating to any version in
  between and then on: same document, and the same failing step, with the target in a missing-step
  report being the final one.\<close>

theorem migration_composes:
  assumes "schema_get a \<le> schema_get b" and "schema_get b \<le> schema_get c"
  shows "migrate_value m n x a c =
    (case migrate_value m n x a b of
       Inl err \<Rightarrow> Inl (retarget (schema_get c) err)
     | Inr y \<Rightarrow> migrate_value m n y b c)"
proof -
  have "schema_get a \<le> schema_get c"
    using assms by (rule order_trans)
  then show ?thesis
    using migrate_loop_split [OF assms, of m n x] assms
    by (simp add: migrate_value_loop split: sum.splits)
qed

definition sample_migrations :: migrations where
  "sample_migrations =
     migrations_register lesson (SchemaVersion 2) (\<lambda>v. Inr (JObject [(''v3'', v)]))
       (migrations_register lesson (SchemaVersion 1) (\<lambda>v. Inr (JObject [(''v2'', v)])) migrations_new)"

theorem migration_composes_witness:
  "migrate_value sample_migrations lesson sample_doc (SchemaVersion 1) (SchemaVersion 3) =
   migrate_value sample_migrations lesson (JObject [(''v2'', sample_doc)])
     (SchemaVersion 2) (SchemaVersion 3)"
proof -
  have "migrate_value sample_migrations lesson sample_doc (SchemaVersion 1) (SchemaVersion 2) =
      Inr (JObject [(''v2'', sample_doc)])"
    by code_simp
  then show ?thesis
    using migration_composes [of "SchemaVersion 1" "SchemaVersion 2" "SchemaVersion 3"
        sample_migrations lesson sample_doc] by simp
qed

text \<open>\<open>plan\<close> tells the truth. A planned chain never ends for want of a step; an unplanned one is
  never migrated, and unless a registered step before the gap fails first it stops at the very step
  the plan names.\<close>

theorem plan_predicts_migration:
  "(case migrations_plan m n a b of
      Inr _ \<Rightarrow> (\<nexists>n' s t. migrate_value m n x a b = Inl (NoPath n' s t))
    | Inl err \<Rightarrow> migrate_value m n x a b = Inl err \<or>
        (\<exists>n' v w r. migrate_value m n x a b = Inl (MigrationFailed n' v w r)))"
proof (cases "schema_get a \<le> schema_get b")
  case True
  then have "\<not> schema_get b < schema_get a"
    by simp
  with True migrate_loop_plan [of m n "schema_get a" "schema_get b" x] show ?thesis
    by (simp add: migrations_plan_def Let_def migrate_value_loop split: sum.splits)
next
  case False
  then show ?thesis
    by (simp add: migrations_plan_def migrate_value_def Let_def not_le)
qed

section \<open>Pushing\<close>

text \<open>C22. A push keeps the order of the queue and drops nothing. What \<open>build_push\<close> sends are the
  commands of a prefix of the queue, in order, each migrated to the app's schema when it needs to be;
  the entries of the prefix that cannot be migrated are the ones reported as held; and the queue and
  the store are left as they were.\<close>

theorem push_is_queue_prefix:
  assumes "build_push X z st protocol budget e = (Inr (Some req), e')"
  shows "(\<exists>n \<le> length (eng_outbox e').
      psq_commands req =
        List.map_filter (sent_as X (eng_registry e') (eng_migrations e')) (take n (eng_outbox e')) \<and>
      eng_effects e' = eng_effects e @ map (\<lambda>(i, v, r). Emit (CommandHeld i v r))
        (concat (map (held_report X (eng_registry e') (eng_migrations e')) (take n (eng_outbox e'))))) \<and>
    eng_storage e' = eng_storage e \<and>
    eng_outbox e' = eng_outbox (snd (refresh_outbox_if_suspect st e))"
proof -
  obtain e1 hld where "refresh_outbox_if_suspect st e = (Inr (), e1)"
    "e' = e1\<lparr>eng_effects := eng_effects e1 @ map (\<lambda>(i, v, r). Emit (CommandHeld i v r)) hld\<rparr>"
    using build_push_cases [OF assms] by metis
  then show ?thesis
    using build_push_spec [OF assms]
    by (auto simp: refresh_outbox_if_suspect_def split: if_splits sum.splits)
qed

text \<open>A device with two queued commands, and a compressor that reports every request as over budget.\<close>

definition heavy :: compressor where
  "heavy bs = 10"

definition sample_queue :: "db engine" where
  "sample_queue = restore_outbox [sample_entry 1, sample_entry 2] sample_device"

definition sample_push :: "(outbox_error + push_request option) \<times> db engine" where
  "sample_push = build_push sample_externs heavy sim_storage (ProtocolVersion 1) 5 sample_queue"

lemma sample_unmigrated:
  "migrated_command X (eng_registry sample_queue) m (sample_entry n) = Inr None"
  by (simp add: migrated_command_def sample_queue_def sample_device_def restart_fields restore_outbox_def
      sim_registry_lookup sample_entry_def sample_command_def schema_version_of_def sim_registry_def
      sim_register_def registry_defs)

lemma sample_push_run:
  "sample_push = (Inr (Some \<lparr>psq_protocol = ProtocolVersion 1, psq_commands = [sample_command 1]\<rparr>), sample_queue)"
proof -
  have q: "eng_outbox sample_queue = [sample_entry 1, sample_entry 2]" "\<not> eng_outbox_suspect sample_queue"
    "eng_upgrade_required sample_queue = None"
    by (simp_all add: sample_queue_def sample_device_def restart_device_def Let_def restore_outbox_def
        engine_new_def db_default_def)
  have enc: "canonical_to_vec sample_externs command_to_value c =
      Inr (as_bytes (json_text (command_to_value c)))" for c
    by (simp add: canonical_to_vec_def sample_externs_def map_err_def)
  have cmd: "oe_command (sample_entry n) = sample_command n" for n
    by (simp add: sample_entry_def)
  show ?thesis
    by (simp add: sample_push_def build_push_def refresh_outbox_if_suspect_def q sample_unmigrated
        enc cmd heavy_def COMMANDS_MAX_COUNT_def Let_def)
qed

theorem push_is_queue_prefix_witness:
  "eng_storage (snd sample_push) = eng_storage sample_queue"
  using push_is_queue_prefix [OF sample_push_run [unfolded sample_push_def]]
  unfolding sample_push_run by simp

text \<open>C21. A push respects every budget and leaves nothing behind that would fit. It carries at most 256
  commands; unless it is a single command, its encoding is at most 1 MB and its compressed size is
  within the caller's budget; every command in it encodes; and it ends before the end of the queue
  only at the count limit or at a sendable entry that would break one of the byte budgets.\<close>

theorem push_is_bounded_and_greedy:
  assumes "build_push X z st protocol budget e = (Inr (Some req), e')"
  shows "length (psq_commands req) \<le> 256 \<and>
    (2 \<le> length (psq_commands req) \<longrightarrow>
       length (push_bytes X (psq_commands req)) \<le> 1048576 \<and>
       z (push_bytes X (psq_commands req)) \<le> budget) \<and>
    list_all (encodable X) (psq_commands req) \<and>
    (\<exists>n \<le> length (eng_outbox e').
      psq_commands req =
        List.map_filter (sent_as X (eng_registry e') (eng_migrations e')) (take n (eng_outbox e')) \<and>
      (n = length (eng_outbox e') \<or> length (psq_commands req) = 256 \<or>
       (\<exists>c. sent_as X (eng_registry e') (eng_migrations e') (eng_outbox e' ! n) = Some c \<and>
          psq_commands req \<noteq> [] \<and>
          (1048576 < length (push_bytes X (psq_commands req @ [c])) \<or>
           budget < z (push_bytes X (psq_commands req @ [c]))))))"
proof -
  obtain n where n: "n \<le> length (eng_outbox e')"
    and c: "psq_commands req =
        List.map_filter (sent_as X (eng_registry e') (eng_migrations e')) (take n (eng_outbox e'))"
    and bounds: "length (psq_commands req) \<le> COMMANDS_MAX_COUNT"
      "length (psq_commands req) \<le> 1 \<or> fits X z budget (psq_commands req)"
      "list_all (encodable X) (psq_commands req)"
    and stop: "n < length (eng_outbox e') \<longrightarrow> length (psq_commands req) = COMMANDS_MAX_COUNT \<or>
         (\<exists>c. sent_as X (eng_registry e') (eng_migrations e') (eng_outbox e' ! n) = Some c \<and>
            psq_commands req \<noteq> [] \<and> \<not> fits X z budget (psq_commands req @ [c]))"
    using build_push_spec [OF assms] by blast
  have "n = length (eng_outbox e') \<or> length (psq_commands req) = 256 \<or>
       (\<exists>c. sent_as X (eng_registry e') (eng_migrations e') (eng_outbox e' ! n) = Some c \<and>
          psq_commands req \<noteq> [] \<and>
          (1048576 < length (push_bytes X (psq_commands req @ [c])) \<or>
           budget < z (push_bytes X (psq_commands req @ [c]))))"
    using stop n by (auto simp: fits_def COMMANDS_MAX_COUNT_def COMMANDS_MAX_TOTAL_BYTES_def not_le)
  with n c bounds show ?thesis
    by (auto simp: fits_def COMMANDS_MAX_COUNT_def COMMANDS_MAX_TOTAL_BYTES_def)
qed

theorem push_is_bounded_and_greedy_witness:
  "length [sample_command 1] \<le> 256 \<and> list_all (encodable sample_externs) [sample_command 1]"
  using push_is_bounded_and_greedy [OF sample_push_run [unfolded sample_push_def]] by simp

text \<open>What \<open>serde_json::to_vec\<close> documents of its compact form: an array is its elements separated by commas
  between brackets; an object takes, besides its fields, its braces and a colon and at most one comma for
  each field; a string takes at most six bytes for each of its own, and its quotes; an \<open>i64\<close> at most
  twenty characters.\<close>

definition compact_arrays :: "externs \<Rightarrow> bool" where
  "compact_arrays X \<longleftrightarrow>
     (\<forall>vs bss. list_all2 (\<lambda>v bs. json_to_vec X v = Inr bs) vs bss \<longrightarrow>
        json_to_vec X (JArray vs) = Inr (array_bytes bss))"

definition takes_at_most :: "externs \<Rightarrow> json \<Rightarrow> nat \<Rightarrow> bool" where
  "takes_at_most X v n \<longleftrightarrow> (\<exists>bs. json_to_vec X v = Inr bs \<and> length bs \<le> n)"

definition compact_encoder :: "externs \<Rightarrow> bool" where
  "compact_encoder X \<longleftrightarrow> compact_arrays X \<and>
     (\<forall>m ns. list_all2 (\<lambda>(k, v) n. takes_at_most X v n) m ns \<longrightarrow>
        takes_at_most X (JObject m) (2 + sum_list (map (\<lambda>(k, v). 6 * length k + 4) m) + sum_list ns)) \<and>
     (\<forall>s. takes_at_most X (JString s) (6 * length s + 2)) \<and>
     (\<forall>n. takes_at_most X (json_i64 n) 20)"

text \<open>A command whose parts went through the constructors of their types.\<close>

definition checked_command :: "externs \<Rightarrow> command \<Rightarrow> bool" where
  "checked_command X c \<longleftrightarrow>
     length (command_bytes (cmd_id c)) = 16 \<and>
     command_name_new (command_name_str (cmd_name c)) = Inr (cmd_name c) \<and>
     scope_id_new (scope_str (cmd_scope c)) = Inr (cmd_scope c) \<and>
     payload_new X (payload_value (cmd_payload c)) = Inr (cmd_payload c) \<and>
     hex_string_new (hex_str (cmd_checksum c)) = Inr (cmd_checksum c)"

lemma command_id_text_length: "length (command_bytes i) = 16 \<Longrightarrow> length (command_id_to_string i) = 36"
  using command_id_print_16 [of "command_bytes i"] by (auto simp: command_id_to_string_def hex2_def)

lemma checked_command_size:
  assumes enc: "compact_encoder X" and c: "checked_command X c"
  shows "takes_at_most X (command_to_value c) (PAYLOAD_MAX_BYTES + 2000)"
proof -
  have sizes: "length (command_name_str (cmd_name c)) \<le> 64" "length (scope_str (cmd_scope c)) \<le> 128"
    "length (hex_str (cmd_checksum c)) = 32" "length (command_id_to_string (cmd_id c)) = 36"
    using c command_id_text_length
    by (auto simp: checked_command_def command_name_new_def scope_id_new_def hex_string_new_ok map_ok_Inr
        checked_ok COMMAND_NAME_MAX_BYTES_def SCOPE_MAX_BYTES_def HEX_CHARS_def)
  define m where "m = [(''checksum'', JString (hex_str (cmd_checksum c))), (''client_ts'', json_i64 (cmd_client_ts c)),
       (''id'', JString (command_id_to_string (cmd_id c))), (''name'', JString (command_name_str (cmd_name c))),
       (''payload'', payload_value (cmd_payload c)), (''scope'', JString (scope_str (cmd_scope c)))]"
  define ns where "ns = [6 * length (hex_str (cmd_checksum c)) + 2, 20, 6 * length (command_id_to_string (cmd_id c)) + 2,
       6 * length (command_name_str (cmd_name c)) + 2, PAYLOAD_MAX_BYTES, 6 * length (scope_str (cmd_scope c)) + 2]"
  have "command_to_value c = JObject m"
    by (simp add: command_to_value_def json_object_def m_def)
  moreover have "takes_at_most X (payload_value (cmd_payload c)) PAYLOAD_MAX_BYTES"
    using c by (auto simp: checked_command_def payload_new_def document_new_def canonicalize_def map_err_def
        takes_at_most_def split: sum.splits if_splits)
  then have "list_all2 (\<lambda>(k, v) n. takes_at_most X v n) m ns"
    using enc by (simp add: m_def ns_def compact_encoder_def)
  then have "takes_at_most X (JObject m) (2 + sum_list (map (\<lambda>(k, v). 6 * length k + 4) m) + sum_list ns)"
    using enc by (simp add: compact_encoder_def)
  moreover have "2 + sum_list (map (\<lambda>(k, v). 6 * length k + 4) m) + sum_list ns \<le> PAYLOAD_MAX_BYTES + 2000"
    using sizes by (simp add: m_def ns_def)
  ultimately show ?thesis
    unfolding takes_at_most_def by fastforce
qed

lemma encoded_commands:
  assumes "compact_arrays X" and "list_all (encodable X) cs"
  shows "encoded_len X commands_to_value cs = Inr (length (push_bytes X cs))"
proof -
  have "list_all2 (\<lambda>v bs. json_to_vec X v = Inr bs) (map command_to_value cs) (map (command_bytes_of X) cs)"
    using assms(2)
    by (induction cs) (auto simp: encodable_def command_bytes_of_def canonical_to_vec_def map_err_def
        is_ok_def split: sum.splits)
  then have "json_to_vec X (commands_to_value cs) = Inr (push_bytes X cs)"
    using assms(1) by (simp add: compact_arrays_def commands_to_value_def push_bytes_def)
  then show ?thesis
    by (simp add: encoded_len_def canonical_to_vec_def map_err_def map_ok_def)
qed

text \<open>A command is sent as it is queued, or with a migrated payload that went through \<open>Payload::new\<close>.\<close>

lemma sent_as_checked:
  assumes "sent_as X g m entry = Some c" and "checked_command X (oe_command entry)"
  shows "checked_command X c"
proof -
  have "payload_new X (payload_value p) = Inr p" if "payload_new X v = Inr p" for v p
    using that by (auto simp: payload_new_def document_new_def split: sum.splits if_splits)
  with assms show ?thesis
    by (auto simp: sent_as_def migrated_command_def checked_command_def
        split: sum.splits option.splits if_splits)
qed

text \<open>C37. A push the engine builds is a push the server accepts. With the compact encoder of \<open>serde_json\<close>
  and queued commands whose parts went through the constructors of their types, the request passes the
  server's own \<open>PushRequest::validate\<close>, also when it is a single command that no budget was tested for:
  the limits on payload and names keep every command far below the 1 MB of a request.\<close>

theorem built_push_is_accepted:
  assumes "build_push X z st protocol budget e = (Inr (Some req), e')"
    and "compact_encoder X" and "\<forall>entry \<in> set (eng_outbox e'). checked_command X (oe_command entry)"
  shows "push_request_try_from X req = Inr req"
proof -
  obtain n where sent: "psq_commands req =
      List.map_filter (sent_as X (eng_registry e') (eng_migrations e')) (take n (eng_outbox e'))"
    and spec: "length (psq_commands req) \<le> COMMANDS_MAX_COUNT"
    "length (psq_commands req) \<le> 1 \<or> fits X z budget (psq_commands req)"
    "list_all (encodable X) (psq_commands req)"
    using build_push_spec [OF assms(1)] by blast
  have checked: "checked_command X c" if "c \<in> set (psq_commands req)" for c
    using that assms(3) in_set_takeD unfolding sent map_filter_def by (fastforce intro: sent_as_checked)
  have "length (push_bytes X (psq_commands req)) \<le> COMMANDS_MAX_TOTAL_BYTES"
  proof (cases "length (psq_commands req) \<le> 1")
    case False
    then show ?thesis
      using spec(2) by (simp add: fits_def)
  next
    case True
    then consider "psq_commands req = []" | c where "psq_commands req = [c]"
      by (cases "psq_commands req") auto
    then show ?thesis
    proof cases
      case 1
      then show ?thesis by (simp add: push_bytes_Nil COMMANDS_MAX_TOTAL_BYTES_def)
    next
      case (2 c)
      then have "takes_at_most X (command_to_value c) (PAYLOAD_MAX_BYTES + 2000)"
        using checked_command_size [OF assms(2)] checked by simp
      then have "length (push_bytes X [c]) \<le> PAYLOAD_MAX_BYTES + 2002"
        by (auto simp: takes_at_most_def push_bytes_def array_bytes_def command_bytes_of_def
            canonical_to_vec_def map_err_def)
      with 2 show ?thesis
        by (simp add: PAYLOAD_MAX_BYTES_def COMMANDS_MAX_TOTAL_BYTES_def)
    qed
  qed
  then show ?thesis
    using spec(1) encoded_commands [OF _ spec(3)] assms(2)
    by (simp add: push_request_try_from_def push_request_validate_def not_less compact_encoder_def)
qed

lemma json_items_commas:
  "as_bytes (json_items vs) = join_commas (map (\<lambda>v. as_bytes (json_text v)) vs)"
proof (induction vs)
  case (Cons v vs)
  then show ?case
    by (cases vs) (simp_all add: as_bytes_def byte_comma_def)
qed (simp add: as_bytes_def)

lemma sample_compact_arrays: "compact_arrays sample_externs"
  unfolding compact_arrays_def
proof (intro allI impI)
  fix vs bss
  assume "list_all2 (\<lambda>v bs. json_to_vec sample_externs v = Inr bs) vs bss"
  then have "bss = map (\<lambda>v. as_bytes (json_text v)) vs"
    by (induction rule: list_all2_induct) (auto simp: sample_externs_def)
  then show "json_to_vec sample_externs (JArray vs) = Inr (array_bytes bss)"
    using json_items_commas [of vs]
    by (simp add: sample_externs_def array_bytes_def byte_open_def byte_close_def as_bytes_def)
qed

lemma show_nat_length: "n < 10 ^ Suc k \<Longrightarrow> length (show_nat n) \<le> Suc k"
proof (induction k arbitrary: n)
  case (Suc k)
  then have "n div 10 < 10 ^ Suc k"
    by (simp add: less_mult_imp_div_less mult.commute)
  from Suc.IH [OF this] show ?case
    by (subst show_nat.simps) simp
qed (simp add: show_nat.simps)

lemma sample_takes: "takes_at_most sample_externs v n \<longleftrightarrow> length (json_text v) \<le> n"
  by (simp add: takes_at_most_def sample_externs_def as_bytes_def)

lemma sample_compact: "compact_encoder sample_externs"
proof -
  have "length (json_fields m) \<le> sum_list (map (\<lambda>(k, v). 6 * length k + 4) m) + sum_list ns"
    if "list_all2 (\<lambda>(k, v) n. takes_at_most sample_externs v n) m ns" for m ns
    using that
  proof (induction rule: list_all2_induct)
    case (Cons x xs y ys)
    then show ?case
      by (cases x) (simp add: sample_takes)
  qed simp
  moreover have "length (json_text (json_i64 v)) \<le> 20" for v
  proof (cases "0 \<le> sint v")
    case True
    have "unat v < 10 ^ Suc 19"
      using unsigned_less [of v, where ?'a = nat] by simp
    then show ?thesis
      using True show_nat_length [of "unat v" 19] by (simp add: json_i64_def)
  next
    case False
    have low: "- (2 ^ 63) \<le> sint v"
      using sint_greater_eq [of v] by simp
    have "- v = word_of_int (- sint v)"
      by simp
    then have "uint (- v) = (- sint v) mod 2 ^ 64"
      by (simp only: uint_word_of_int) simp
    also have "\<dots> = - sint v"
      using False low by (intro mod_pos_pos_trivial) simp_all
    finally have "uint (- v) = - sint v" .
    then have "unat (- v) \<le> 2 ^ 63"
      using low by (simp add: unat_eq_nat_uint)
    then show ?thesis
      using False show_nat_length [of "unat (- v)" 18] by (simp add: json_i64_def)
  qed
  ultimately show ?thesis
    by (auto simp: compact_encoder_def sample_compact_arrays sample_takes)
qed

theorem built_push_is_accepted_witness:
  "push_request_try_from sample_externs
     \<lparr>psq_protocol = ProtocolVersion 1, psq_commands = [sample_command 1]\<rparr> =
   Inr \<lparr>psq_protocol = ProtocolVersion 1, psq_commands = [sample_command 1]\<rparr>"
proof (rule built_push_is_accepted [OF sample_push_run [unfolded sample_push_def] sample_compact])
  have "eng_outbox sample_queue = [sample_entry 1, sample_entry 2]"
    by (simp add: sample_queue_def sample_device_def restart_device_def Let_def restore_outbox_def
        engine_new_def db_default_def)
  moreover have "checked_command sample_externs (sample_command n)" for n
    by (simp add: checked_command_def sample_command_def sample_id_def sample_doc_def submit_reflection_def
        pupil_def hex_zero_def command_name_new_def scope_id_new_def hex_string_new_ok map_ok_Inr checked_ok
        payload_new_def document_new_ok canonicalize_def map_err_def sample_externs_def as_bytes_def
        json_is_object_def limit_defs charset_defs)
  ultimately show "\<forall>entry \<in> set (eng_outbox sample_queue). checked_command sample_externs (oe_command entry)"
    by (simp add: sample_entry_def)
qed

section \<open>Resolving\<close>

lemma apply_results_ok:
  assumes "apply_results st response e = (Inr res, e')" and "\<not> eng_outbox_suspect e"
  defines "a \<equiv> resolve_all (eng_registry e) (eng_outbox e) (psr_results response)"
  shows "rsd_resolutions res = rs_resolutions a" "rsd_unknown res = rs_unknown a"
    "eng_outbox e' = filter (\<lambda>x. oe_id x \<notin> fst ` set (rs_resolutions a)) (eng_outbox e)"
    "\<not> eng_outbox_suspect e'" "eng_registry e' = eng_registry e"
proof -
  have empty: "rs_ops a = [] \<Longrightarrow> rs_resolutions a = []"
    using resolve_all_resolved [of "eng_registry e" "eng_outbox e" "psr_results response"]
    unfolding a_def by (metis append_self_conv view_ops_Nil)
  show "rsd_resolutions res = rs_resolutions a" "rsd_unknown res = rs_unknown a"
    "eng_outbox e' = filter (\<lambda>x. oe_id x \<notin> fst ` set (rs_resolutions a)) (eng_outbox e)"
    "\<not> eng_outbox_suspect e'" "eng_registry e' = eng_registry e"
    using assms(1,2) empty fold_filter_ids [of "rs_resolutions a" "eng_outbox e"]
    unfolding apply_results_def refresh_outbox_if_suspect_def a_def [symmetric]
    by (auto simp: Let_def a_def [symmetric] split: if_splits sum.splits prod.splits)
qed

text \<open>C12. A response resolves exactly what it answers, once. When a response is accepted by an engine
  that trusts its queue, the queue afterwards is the queue before without the commands the response
  names, in order; exactly the named commands that were queued are resolved, each once, whatever
  repetitions the response holds; every other result is counted as unknown; and a command the
  response does not name is still queued.\<close>

theorem results_resolve_exactly_the_answered:
  assumes "apply_results st response e = (Inr res, e')" and "\<not> eng_outbox_suspect e"
  shows "eng_outbox e' = filter (\<lambda>x. oe_id x \<notin> res_id ` set (psr_results response)) (eng_outbox e) \<and>
    distinct (map fst (rsd_resolutions res)) \<and>
    fst ` set (rsd_resolutions res) =
      {i \<in> res_id ` set (psr_results response). outbox_contains e i} \<and>
    length (rsd_resolutions res) + rsd_unknown res = length (psr_results response)"
proof -
  let ?a = "resolve_all (eng_registry e) (eng_outbox e) (psr_results response)"
  note r = apply_results_ok [OF assms]
  have ans: "fst ` set (rs_resolutions ?a) = {i \<in> res_id ` set (psr_results response). i \<in> ids (eng_outbox e)}"
    by (rule resolve_all_answered)
  have "eng_outbox e' = filter (\<lambda>x. oe_id x \<notin> res_id ` set (psr_results response)) (eng_outbox e)"
    unfolding r(3) ans by (auto simp: ids_def intro: filter_cong)
  moreover have "distinct (map fst (rs_resolutions ?a))"
    using resolve_all_ok [of "eng_outbox e" "eng_registry e" "psr_results response"]
    by (simp add: resolving_ok_def)
  ultimately show ?thesis
    using r(1,2) ans resolve_all_counts [of "eng_registry e" "eng_outbox e" "psr_results response"]
    by (simp add: outbox_contains_ids)
qed

definition sample_response :: push_response where
  "sample_response =
     \<lparr>psr_protocol = ProtocolVersion 1,
      psr_results = [sample_result 1 Rejected, sample_result 1 Applied, sample_result 9 Applied]\<rparr>"

definition sample_answered :: "(outbox_error + resolved) \<times> db engine" where
  "sample_answered = apply_results sim_storage sample_response sample_queue"

lemma sample_answered_run:
  "sample_answered =
     (Inr \<lparr>rsd_resolutions = [(sample_id 1, DeadLettered unstated_rejection)], rsd_unknown = 2\<rparr>,
      snd sample_answered)"
proof -
  have "fst sample_answered =
      Inr \<lparr>rsd_resolutions = [(sample_id 1, DeadLettered unstated_rejection)], rsd_unknown = 2\<rparr>"
    unfolding sample_answered_def sample_queue_def sample_response_def by code_simp
  then show ?thesis
    by (simp add: prod_eq_iff)
qed

lemma sample_queue_trusted: "\<not> eng_outbox_suspect sample_queue"
  by (simp add: sample_queue_def sample_device_def restart_device_def Let_def restore_outbox_def
      engine_new_def db_default_def)

theorem results_resolve_exactly_the_answered_witness:
  "eng_outbox (snd sample_answered) =
     filter (\<lambda>x. oe_id x \<notin> res_id ` set (psr_results sample_response)) (eng_outbox sample_queue)"
  using results_resolve_exactly_the_answered
    [OF sample_answered_run [unfolded sample_answered_def] sample_queue_trusted]
  unfolding sample_answered_def by blast

text \<open>C32. A replayed response is harmless. Handing the same accepted response to the engine again changes
  nothing, the store included: it resolves no command and counts every result as unknown.\<close>

theorem replayed_response_changes_nothing:
  assumes "apply_results st response e = (Inr res, e')" and "\<not> eng_outbox_suspect e"
  shows "apply_results st response e' =
    (Inr \<lparr>rsd_resolutions = [], rsd_unknown = length (psr_results response)\<rparr>, e')"
proof -
  let ?a = "resolve_all (eng_registry e) (eng_outbox e) (psr_results response)"
  let ?b = "resolve_all (eng_registry e) (eng_outbox e') (psr_results response)"
  note r = apply_results_ok [OF assms]
  have "fst ` set (rs_resolutions ?b) =
      {i \<in> res_id ` set (psr_results response). i \<in> ids (eng_outbox e')}"
    by (rule resolve_all_answered)
  also have "\<dots> = {}"
  proof -
    have "i \<notin> ids (eng_outbox e')" if "i \<in> res_id ` set (psr_results response)" for i
    proof
      assume "i \<in> ids (eng_outbox e')"
      then obtain x where x: "x \<in> set (eng_outbox e)" "oe_id x = i"
          "\<not> (i \<in> res_id ` set (psr_results response) \<and> i \<in> ids (eng_outbox e))"
        unfolding r(3) resolve_all_answered ids_def by force
      have "i \<in> ids (eng_outbox e)"
        using x(1,2) unfolding ids_def by blast
      with x(3) that show False
        by blast
    qed
    then show ?thesis
      by blast
  qed
  finally have none: "rs_resolutions ?b = []"
    by simp
  have "\<And>q rs a. rs_resolutions (fold (resolve_one g q) rs a) = [] \<Longrightarrow>
      rs_ops (fold (resolve_one g q) rs a) = rs_ops a" for g
    by (rule resolve_none)
  then have "rs_ops ?b = []"
    using none unfolding resolve_all_def by (simp add: resolving_start_def)
  moreover have "rs_unknown ?b = length (psr_results response)"
    using resolve_all_counts [of "eng_registry e" "eng_outbox e'" "psr_results response"] none by simp
  ultimately show ?thesis
    using none r(4,5) by (simp add: apply_results_def refresh_outbox_if_suspect_def Let_def)
qed

theorem replayed_response_changes_nothing_witness:
  "apply_results sim_storage sample_response (snd sample_answered) =
     (Inr \<lparr>rsd_resolutions = [], rsd_unknown = length (psr_results sample_response)\<rparr>,
      snd sample_answered)"
  by (rule replayed_response_changes_nothing
      [OF sample_answered_run [unfolded sample_answered_def] sample_queue_trusted, folded sample_answered_def])

text \<open>A forced upgrade stops pushing and loses nothing. After the server refuses the protocol version
  the queue and the store are what they were, the prompt carries the number of commands waiting, no
  push is built however often it is asked for, and completing the upgrade gives back exactly the
  engine that was refused, with the prompt queued.\<close>

theorem forced_upgrade_keeps_the_queue:
  "eng_outbox (on_upgrade_required env e) = eng_outbox e \<and>
   eng_storage (on_upgrade_required env e) = eng_storage e \<and>
   fst (build_push X z st protocol budget (on_upgrade_required env e)) \<noteq> Inr (Some req) \<and>
   upgrade_completed (on_upgrade_required env e) =
     emit (Emit (UpgradeRequired (fup_min_protocol env) (fup_current_protocol env) (fup_reason env)
       (length (eng_outbox e)))) (e\<lparr>eng_upgrade_required := None\<rparr>)"
  by (auto simp: on_upgrade_required_def emit_def build_push_def refresh_outbox_if_suspect_def
      upgrade_completed_def split: sum.splits)

end
