(* ===== verification/Props_Protocol.thy ===== *)
theory Props_Protocol
  imports Samples Proto_Facts
begin

text \<open>
  The properties of \<open>credsync-protocol\<close>: the scope digest and its preimage, the two textual forms
  (hexadecimal and UUID), host documents, the canonical encoding, and the bounded decoders. Each
  property that has hypotheses is followed by a theorem that applies it to a concrete input.
\<close>

section \<open>The scope digest\<close>

text \<open>C29. The scope digest is a function of the set of live rows: any order of the rows gives the same
  hexadecimal form, and the three incremental operations are exactly what inserting, deleting and
  replacing a row anywhere in the list does to the digest computed from scratch.\<close>

theorem digest_is_a_function_of_the_rows:
  assumes "mset rows = mset (xs @ ys)"
  shows "digest_to_hex (digest_from_rows X rows) = digest_to_hex (digest_from_rows X (xs @ ys)) \<and>
    digest_add X e i v (digest_from_rows X rows) = digest_from_rows X (xs @ (e, i, v) # ys) \<and>
    digest_remove X e i v (digest_from_rows X (xs @ (e, i, v) # ys)) = digest_from_rows X rows \<and>
    digest_update X e i v w (digest_from_rows X (xs @ (e, i, v) # ys)) =
      digest_from_rows X (xs @ (e, i, w) # ys)"
proof -
  have rows: "digest_from_rows X rows = digest_from_rows X (xs @ ys)"
    by (rule digest_from_rows_mset) (rule assms)
  show ?thesis
    unfolding rows by (auto simp: digest_from_rows_sum digest_defs algebra_simps)
qed

theorem digest_is_a_function_of_the_rows_witness:
  "digest_to_hex (digest_from_rows sample_externs
      [(lesson, EntityId ''b'', RowVersion 2), (lesson, EntityId ''a'', RowVersion 1)]) =
   digest_to_hex (digest_from_rows sample_externs
      [(lesson, EntityId ''a'', RowVersion 1), (lesson, EntityId ''b'', RowVersion 2)])"
  using digest_is_a_function_of_the_rows
    [of "[(lesson, EntityId ''b'', RowVersion 2), (lesson, EntityId ''a'', RowVersion 1)]"
      "[(lesson, EntityId ''a'', RowVersion 1)]" "[(lesson, EntityId ''b'', RowVersion 2)]" sample_externs]
  by simp

text \<open>C38. Two rows have the same hash preimage only if they are the same row at the same version. The
  length prefixes keep the entity name and the identifier apart, for all names and identifiers the
  checking constructors let through.\<close>

theorem row_preimage_names_one_row:
  assumes "entity_name_new s = Inr e" "entity_name_new s' = Inr e'"
    and "entity_id_new t = Inr i" "entity_id_new t' = Inr i'"
  shows "row_preimage e i v = row_preimage e' i' v' \<longleftrightarrow> (e, i, v) = (e', i', v')"
proof -
  have "length (entity_str e) < 2 ^ 64" "length (entity_str e') < 2 ^ 64"
    using assms(1,2) by (auto simp: entity_name_new_ok ENTITY_MAX_BYTES_def)
  moreover have "length (entity_id_str i) < 2 ^ 64" "length (entity_id_str i') < 2 ^ 64"
    using assms(3,4) by (auto simp: entity_id_new_ok ENTITY_ID_MAX_BYTES_def)
  ultimately show ?thesis
    using row_preimage_inj [of e i v e' i' v'] by auto
qed

theorem row_preimage_names_one_row_witness:
  "row_preimage (EntityName ''ab'') (EntityId ''c'') (RowVersion 1) \<noteq>
   row_preimage (EntityName ''a'') (EntityId ''bc'') (RowVersion 1)"
proof -
  have "entity_name_new ''ab'' = Inr (EntityName ''ab'')" "entity_name_new ''a'' = Inr (EntityName ''a'')"
    "entity_id_new ''c'' = Inr (EntityId ''c'')" "entity_id_new ''bc'' = Inr (EntityId ''bc'')"
    by code_simp+
  from row_preimage_names_one_row [OF this, of "RowVersion 1" "RowVersion 1"] show ?thesis
    by simp
qed

section \<open>Textual forms\<close>

text \<open>The hexadecimal form of every 128-bit value is accepted by the digest type, so neither fallback
  of \<open>hex_u128\<close> is ever taken, and reading it back as a hexadecimal number gives the value.\<close>

theorem hex_form_is_total_and_reads_back:
  "hex_string_new (hex_text v) = Inr (hex_u128 v) \<and> hex_u128_checked v = Some (hex_u128 v) \<and>
   u128_from_str_radix16 (hex_str (hex_u128 v)) = Some v"
proof -
  have "hex_string_new (hex_text v) = Inr (HexString (hex_text v))"
    using digs_less [of 16]
    by (simp add: hex_string_new_ok hex_text_digits HEX_CHARS_def list_all_iff hex_digit_props(1))
  then show ?thesis
    by (simp add: hex_u128_eq hex_u128_text from_hex_text)
qed

text \<open>C31. Parsing inverts printing of command ids, and nothing else parses: a text is read as an id
  exactly when it is the printed form (hyphens, lower case, 36 characters) of that id's sixteen bytes
  and their version nibble is 7.\<close>

theorem command_id_text_round_trip:
  "command_id_parse s = Inr c \<longleftrightarrow>
     s = command_id_to_string c \<and> length (command_bytes c) = 16 \<and>
     command_id_from_bytes (command_bytes c) = Inr c"
  unfolding command_id_parse_iff by (cases c) (auto simp: command_id_from_bytes_def Let_def)

section \<open>Host documents and the canonical encoding\<close>

text \<open>A host document is accepted exactly when it is an object, has no floating-point number at any
  depth, and its canonical encoding succeeds within the limit; the accepted document is the value
  itself. So no snapshot or payload in the system can hold a float.\<close>

theorem document_accepts_exactly:
  "(snapshot_new X v = Inr sn \<longleftrightarrow>
      sn = Snapshot v \<and> json_is_object v \<and> \<not> (\<exists>b. json_within (JFloat b) v) \<and>
      (\<exists>bs. canonicalize X v = Inr bs \<and> length bs \<le> SNAPSHOT_MAX_BYTES)) \<and>
   (payload_new X v = Inr pl \<longleftrightarrow>
      pl = Payload v \<and> json_is_object v \<and> \<not> (\<exists>b. json_within (JFloat b) v) \<and>
      (\<exists>bs. canonicalize X v = Inr bs \<and> length bs \<le> PAYLOAD_MAX_BYTES))"
  unfolding snapshot_new_def payload_new_def document_new_ok float_within_def by blast

text \<open>The canonical form, and with it every checksum, does not depend on the order in which the
  fields of an object are written.\<close>

theorem canonical_form_ignores_field_order:
  assumes "distinct (map fst fs)" and "mset fs = mset gs"
  shows "canonicalize X (json_object fs) = canonicalize X (json_object gs) \<and>
    checksum X json_object fs = checksum X json_object gs \<and>
    payload_checksum X json_object fs = payload_checksum X json_object gs"
  using json_object_permute [OF assms]
  by (simp add: checksum_def payload_checksum_def canonical_to_vec_def)

theorem canonical_form_ignores_field_order_witness:
  "canonicalize sample_externs (json_object [(''b'', JNull), (''a'', JPosInt 1)]) =
   canonicalize sample_externs (json_object [(''a'', JPosInt 1), (''b'', JNull)])"
  using canonical_form_ignores_field_order
    [of "[(''b'', JNull), (''a'', JPosInt 1)]" "[(''a'', JPosInt 1), (''b'', JNull)]" sample_externs]
  by simp

section \<open>Decoders\<close>

text \<open>A bounded list decodes exactly when it has at most \<open>MAX\<close> elements and each of them decodes, to
  those elements in order; and the answer depends on the first \<open>MAX + 1\<close> elements only, so an
  oversized list costs no more than the limit.\<close>

theorem bounded_decoder_exact:
  "(bounded_visit_seq mx decode custom ts = Inr xs \<longleftrightarrow>
      length ts \<le> mx \<and> list_all2 (\<lambda>t x. decode t = Inr x) ts xs) \<and>
   bounded_visit_seq mx decode custom (take (Suc mx) ts) = bounded_visit_seq mx decode custom ts"
  using bounded_loop_iff [of "[]" mx decode custom ts xs] bounded_loop_take [of "[]" mx decode custom ts]
  by (simp add: bounded_visit_seq_def)

text \<open>What the decoding mirrors let through. A decoded batch is the raw one and its changes have
  strictly increasing sequence numbers, all pairs of them; a decoded change carries a snapshot
  exactly when it is an upsert; a decoded rejection has a reason.\<close>

theorem decoded_messages_are_consistent:
  "(batch_try_from rb = Inr b \<longleftrightarrow>
      b = rb \<and> sorted_wrt (<) (map (\<lambda>c. seq_get (chg_seq c)) (bat_changes rb))) \<and>
   (change_try_from rc = Inr c \<longleftrightarrow> c = rc \<and> (chg_op rc = Upsert) = (chg_snapshot rc \<noteq> None)) \<and>
   (command_result_try_from rr = Inr r \<longleftrightarrow>
      r = rr \<and> \<not> (res_status rr = Rejected \<and> res_reason rr = None))"
proof -
  have "batch_validate_ordering rb = Inr () \<longleftrightarrow>
      sorted_wrt (<) (map (\<lambda>c. seq_get (chg_seq c)) (bat_changes rb))"
    by (simp add: batch_ordering_iff sorted_wrt_map seq_lt_def [abs_def])
  moreover have "batch_try_from rb = Inr b \<longleftrightarrow> b = rb \<and> batch_validate_ordering rb = Inr ()"
    by (auto simp: batch_try_from_def split: sum.splits)
  moreover have "change_try_from rc = Inr c \<longleftrightarrow> c = rc \<and> change_validate rc = Inr ()"
    by (auto simp: change_try_from_def split: sum.splits)
  ultimately show ?thesis
    by (auto simp: change_validate_iff command_result_try_from_def command_result_validate_def
        split: sum.splits)
qed

end
