(* ===== verification/Server_Pull.thy ===== *)
theory Server_Pull
  imports Core_Push Core_Apply
begin

text \<open>
  Pull pagination on the server (\<open>credsync-server/src/pull.rs\<close>) and the errors of the crate
  (\<open>error.rs\<close>): the validation of a database row into a wire change, and \<open>fill_batch\<close>, which fills a
  batch up to a budget of compressed bytes. The lemmas say what a filled batch holds, and that a
  client accepts it. A \<open>bigint\<close> or \<open>int\<close> column is its bits, read with \<^const>\<open>sint\<close>.
\<close>

section \<open>Errors\<close>

datatype server_error =
    Corrupt string
  | ServerProtocol protocol_error
  | Database string

fun server_error_display :: "server_error \<Rightarrow> string" where
  "server_error_display (Corrupt detail) = ''corrupt change log: '' @ detail"
| "server_error_display (ServerProtocol e) =
     ''invalid value in the change log: '' @ protocol_error_display e"
| "server_error_display (Database detail) = ''database failure: '' @ detail"

text \<open>\<open>Display\<close> of a signed integer.\<close>

definition show_signed :: "'a::len word \<Rightarrow> string" where
  "show_signed v =
     (if sint v < 0 then ''-'' @ show_nat (nat (- sint v)) else show_nat (nat (sint v)))"

section \<open>Rows of the change log\<close>

record change_row =
  crw_seq :: u64
  crw_entity :: string
  crw_entity_id :: string
  crw_op :: string
  crw_snapshot :: "json option"
  crw_row_version :: u64
  crw_schema_version :: u32

definition row_op :: "string \<Rightarrow> server_error + op" where
  "row_op s =
     (if s = ''upsert'' then Inr Upsert
      else if s = ''delete'' then Inr Delete
      else Inl (Corrupt (''sync_changes.op is '' @ quoted s @ '', which is not a valid op'')))"

definition row_snapshot ::
  "externs \<Rightarrow> op \<Rightarrow> json option \<Rightarrow> u64 \<Rightarrow> server_error + snapshot option" where
  "row_snapshot X o' sn sq =
     (case (o', sn) of
        (Upsert, Some v) \<Rightarrow> map_ok Some (map_err ServerProtocol (snapshot_new X v))
      | (Upsert, None) \<Rightarrow>
          Inl (Corrupt (''sync_changes.seq '' @ show_signed sq @ '' is an upsert with no snapshot''))
      | (Delete, None) \<Rightarrow> Inr None
      | (Delete, Some _) \<Rightarrow>
          Inl (Corrupt (''sync_changes.seq '' @ show_signed sq @ '' is a delete carrying a snapshot'')))"

text \<open>\<open>u64::try_from(i64)\<close> and \<open>u16::try_from(i32)\<close>.\<close>

definition u64_try_from :: "u64 \<Rightarrow> u64 option" where
  "u64_try_from v = (if sint v < 0 then None else Some v)"

definition u16_try_from :: "u32 \<Rightarrow> u16 option" where
  "u16_try_from v = (if 0 \<le> sint v \<and> sint v < 2 ^ 16 then Some (ucast v) else None)"

definition ok_or :: "'e \<Rightarrow> 'a option \<Rightarrow> 'e + 'a" where
  "ok_or e v = (case v of None \<Rightarrow> Inl e | Some x \<Rightarrow> Inr x)"

text \<open>\<open>and_then\<close>, the reading of \<open>?\<close>.\<close>

definition and_then :: "'e + 'a \<Rightarrow> ('a \<Rightarrow> 'e + 'b) \<Rightarrow> 'e + 'b" where
  "and_then r f = (case r of Inl e \<Rightarrow> Inl e | Inr x \<Rightarrow> f x)"

definition into_change :: "externs \<Rightarrow> change_row \<Rightarrow> server_error + change" where
  "into_change X r =
     and_then (row_op (crw_op r)) (\<lambda>o'.
     and_then (row_snapshot X o' (crw_snapshot r) (crw_seq r)) (\<lambda>sn.
     and_then (ok_or (Corrupt (''sync_changes.seq '' @ show_signed (crw_seq r) @ '' is negative''))
        (u64_try_from (crw_seq r))) (\<lambda>sq.
     and_then (ok_or (Corrupt (''sync_changes.row_version '' @ show_signed (crw_row_version r) @
          '' is negative'')) (u64_try_from (crw_row_version r))) (\<lambda>rv.
     and_then (ok_or (Corrupt (''sync_changes.schema_version '' @ show_signed (crw_schema_version r) @
          '' does not fit the wire'' @ [CHR 0x27] @ ''s range'')) (u16_try_from (crw_schema_version r))) (\<lambda>sv.
     and_then (map_err ServerProtocol (seq_new sq)) (\<lambda>sq'.
     and_then (map_err ServerProtocol (entity_name_new (crw_entity r))) (\<lambda>en.
     and_then (map_err ServerProtocol (entity_id_new (crw_entity_id r))) (\<lambda>ei.
     and_then (map_err ServerProtocol (row_version_new rv)) (\<lambda>rv'.
     and_then (map_err ServerProtocol (schema_version_new sv)) (\<lambda>sv'.
       Inr \<lparr>chg_seq = sq', chg_entity = en, chg_entity_id = ei, chg_op = o', chg_snapshot = sn,
            chg_row_version = rv', chg_schema_version = sv'\<rparr>))))))))))"

section \<open>Filling a batch\<close>

definition DEFAULT_BUDGET_BYTES :: nat where "DEFAULT_BUDGET_BYTES = 100000"

text \<open>The loop, with its spliced buffer: a change that does not fit is rolled back by truncating.\<close>

primrec fill_loop ::
  "externs \<Rightarrow> compressor \<Rightarrow> nat \<Rightarrow> change list \<Rightarrow> change list \<Rightarrow> bytes \<Rightarrow>
   server_error + change list \<times> bytes" where
  "fill_loop X z budget [] chosen buf = Inr (chosen, buf)"
| "fill_loop X z budget (c # cs) chosen buf =
     (case canonical_to_vec X change_to_value c of
        Inl _ \<Rightarrow> Inl (Corrupt ''a change in the log could not be encoded'')
      | Inr one \<Rightarrow>
          (let rollback = length buf;
               buf1 = butlast buf;
               buf2 = (if chosen \<noteq> [] then buf1 @ [byte_comma] else buf1);
               buf3 = buf2 @ one @ [byte_close]
           in if z buf3 > budget \<and> chosen \<noteq> []
              then Inr (chosen, take (rollback - 1) buf3 @ [byte_close])
              else fill_loop X z budget cs (chosen @ [c]) buf3))"

definition batch_checksum :: "externs \<Rightarrow> change list \<Rightarrow> server_error + hex_string" where
  "batch_checksum X cs =
     map_err (\<lambda>_. Corrupt ''a batch could not be encoded for checksumming'')
       (checksum X changes_to_value cs)"

definition fill_batch ::
  "externs \<Rightarrow> compressor \<Rightarrow> scope_id \<Rightarrow> cursor \<Rightarrow> change list \<Rightarrow> bool \<Rightarrow> nat \<Rightarrow> hex_string \<Rightarrow>
   server_error + batch" where
  "fill_batch X z scope cur candidates more_beyond budget digest =
     and_then (fill_loop X z budget candidates [] [byte_open, byte_close]) (\<lambda>(chosen, _).
       let next = (if chosen = [] then cur
                   else case cursor_new (seq_get (chg_seq (last chosen))) of
                          Inl _ \<Rightarrow> cur | Inr c \<Rightarrow> c)
       in map_ok (\<lambda>sum.
            \<lparr>bat_scope = scope, bat_changes = chosen, bat_next_cursor = next,
             bat_has_more = (length chosen < length candidates \<or> more_beyond),
             bat_checksum = sum, bat_digest = digest\<rparr>) (batch_checksum X chosen))"

lemmas pull_defs [run_defs] =
  show_signed_def row_op_def row_snapshot_def u64_try_from_def u16_try_from_def ok_or_def
  and_then_def into_change_def batch_checksum_def fill_batch_def

section \<open>Facts about rows\<close>

lemma and_then_Inr: "and_then r f = Inr y \<longleftrightarrow> (\<exists>x. r = Inr x \<and> f x = Inr y)"
  by (auto simp: and_then_def split: sum.splits)

lemma map_err_Inr: "map_err f r = Inr y \<longleftrightarrow> r = Inr y"
  by (auto simp: map_err_def split: sum.splits)

lemma ok_or_Inr: "ok_or e v = Inr y \<longleftrightarrow> v = Some y"
  by (auto simp: ok_or_def split: option.splits)

lemma row_op_ok: "row_op s = Inr o' \<longleftrightarrow> (s = ''upsert'' \<and> o' = Upsert) \<or> (s = ''delete'' \<and> o' = Delete)"
  by (auto simp: row_op_def)

lemma row_snapshot_ok:
  "row_snapshot X o' sn sq = Inr sn' \<Longrightarrow>
     (o' = Upsert \<longleftrightarrow> sn' \<noteq> None) \<and> (\<forall>s. sn' = Some s \<longrightarrow> (\<exists>v. sn = Some v \<and> snapshot_new X v = Inr s))"
  by (cases o'; cases sn) (auto simp: row_snapshot_def map_ok_Inr map_err_Inr)

text \<open>A change that came out of the table satisfies every rule of the wire.\<close>

lemma into_change_ok:
  assumes "into_change X r = Inr c"
  shows "chg_seq c = Seq (crw_seq r)" "change_validate c = Inr ()"
    "SEQ_MIN \<le> seq_get (chg_seq c)" "seq_get (chg_seq c) \<le> SEQ_MAX"
    "entity_name_new (crw_entity r) = Inr (chg_entity c)"
    "entity_id_new (crw_entity_id r) = Inr (chg_entity_id c)"
    "row_version_get (chg_row_version c) = crw_row_version r"
    "chg_snapshot c = None \<longleftrightarrow> crw_op r = ''delete''"
  using assms unfolding into_change_def
  by (auto simp: and_then_Inr map_err_Inr ok_or_Inr u64_try_from_def change_validate_iff
      seq_new_def row_version_new_def bounded_num_ok row_op_ok dest!: row_snapshot_ok split: if_splits)

section \<open>Facts about a filled batch\<close>

text \<open>What one change encodes to, and the compact array of several.\<close>

definition change_bytes_of :: "externs \<Rightarrow> change \<Rightarrow> bytes" where
  "change_bytes_of X c = (case canonical_to_vec X change_to_value c of Inr bs \<Rightarrow> bs | Inl _ \<Rightarrow> [])"

definition batch_bytes :: "externs \<Rightarrow> change list \<Rightarrow> bytes" where
  "batch_bytes X cs = array_bytes (map (change_bytes_of X) cs)"

definition change_encodable :: "externs \<Rightarrow> change \<Rightarrow> bool" where
  "change_encodable X c = is_ok (canonical_to_vec X change_to_value c)"

lemma array_bytes_reopen: "butlast (array_bytes bss) @ [byte_close] = array_bytes bss"
  by (simp add: array_bytes_def butlast_append)

lemma fill_loop_step:
  "fill_loop X z budget (c # cs) chosen (batch_bytes X chosen) =
     (if \<not> change_encodable X c then Inl (Corrupt ''a change in the log could not be encoded'')
      else if budget < z (batch_bytes X (chosen @ [c])) \<and> chosen \<noteq> []
      then Inr (chosen, batch_bytes X chosen)
      else fill_loop X z budget cs (chosen @ [c]) (batch_bytes X (chosen @ [c])))"
proof (cases "canonical_to_vec X change_to_value c")
  case (Inl err)
  then show ?thesis
    by (simp add: change_encodable_def is_ok_def)
next
  case (Inr one)
  have grown: "(if chosen \<noteq> [] then butlast (batch_bytes X chosen) @ [byte_comma]
      else butlast (batch_bytes X chosen)) @ one @ [byte_close] = batch_bytes X (chosen @ [c])"
    using Inr by (simp add: batch_bytes_def change_bytes_of_def array_bytes_def join_commas_snoc
        butlast_append)
  have "butlast (batch_bytes X chosen) = take (length (batch_bytes X chosen) - 1) (batch_bytes X (chosen @ [c]))"
    unfolding grown [symmetric] by simp
  then have trunc: "take (length (batch_bytes X chosen) - 1) (batch_bytes X (chosen @ [c])) @ [byte_close] =
      batch_bytes X chosen"
    using array_bytes_reopen by (metis batch_bytes_def)
  have enc: "change_encodable X c"
    using Inr by (simp add: change_encodable_def is_ok_def)
  show ?thesis
    unfolding fill_loop.simps Inr sum.case Let_def grown trunc by (simp only: enc simp_thms if_False)
qed

definition batch_fits :: "externs \<Rightarrow> compressor \<Rightarrow> nat \<Rightarrow> change list \<Rightarrow> bool" where
  "batch_fits X z budget cs = (length cs \<le> 1 \<or> z (batch_bytes X cs) \<le> budget)"

lemma fill_loop_spec:
  assumes "fill_loop X z budget cs chosen (batch_bytes X chosen) = Inr (out, buf)"
    and "batch_fits X z budget chosen"
  shows "\<exists>n \<le> length cs. out = chosen @ take n cs \<and> batch_fits X z budget out \<and>
     (n < length cs \<longrightarrow> out \<noteq> [] \<and> budget < z (batch_bytes X (out @ [cs ! n])))"
  using assms
proof (induction cs arbitrary: chosen)
  case Nil
  then show ?case by simp
next
  case (Cons c cs)
  note step = Cons.prems(1) [unfolded fill_loop_step]
  show ?case
  proof (cases "budget < z (batch_bytes X (chosen @ [c])) \<and> chosen \<noteq> []")
    case True
    with step Cons.prems(2) show ?thesis
      by (intro exI [of _ 0]) (auto split: if_splits)
  next
    case False
    with step have "fill_loop X z budget cs (chosen @ [c]) (batch_bytes X (chosen @ [c])) = Inr (out, buf)"
      by (auto split: if_splits)
    moreover have "batch_fits X z budget (chosen @ [c])"
      using False by (auto simp: batch_fits_def)
    ultimately obtain n where "n \<le> length cs" "out = (chosen @ [c]) @ take n cs"
      "batch_fits X z budget out"
      "n < length cs \<longrightarrow> out \<noteq> [] \<and> budget < z (batch_bytes X (out @ [cs ! n]))"
      using Cons.IH by blast
    then show ?thesis
      by (intro exI [of _ "Suc n"]) simp
  qed
qed

lemma fill_loop_total:
  "list_all (change_encodable X) cs \<Longrightarrow>
   \<exists>out buf. fill_loop X z budget cs chosen (batch_bytes X chosen) = Inr (out, buf)"
proof (induction cs arbitrary: chosen)
  case (Cons c cs)
  then show ?case
    using Cons.IH [of "chosen @ [c]"] unfolding fill_loop_step by auto
qed simp

text \<open>A filled batch: the longest affordable prefix, never empty when there is something to send.\<close>

lemma fill_batch_spec:
  assumes "fill_batch X z scope cur cs beyond budget digest = Inr b"
  shows "\<exists>n \<le> length cs. bat_changes b = take n cs \<and> batch_fits X z budget (take n cs) \<and>
     (n < length cs \<longrightarrow> 0 < n \<and> budget < z (batch_bytes X (take (Suc n) cs))) \<and>
     (bat_has_more b \<longleftrightarrow> n < length cs \<or> beyond) \<and> bat_scope b = scope \<and> bat_digest b = digest \<and>
     bat_next_cursor b =
       (if take n cs = [] then cur
        else case cursor_new (seq_get (chg_seq (last (take n cs)))) of Inl _ \<Rightarrow> cur | Inr c \<Rightarrow> c) \<and>
     checksum X changes_to_value (take n cs) = Inr (bat_checksum b)"
proof -
  have nil: "batch_bytes X [] = [byte_open, byte_close]"
    by (simp add: batch_bytes_def array_bytes_def)
  obtain out buf sum where run: "fill_loop X z budget cs [] (batch_bytes X []) = Inr (out, buf)"
    and sum: "checksum X changes_to_value out = Inr sum" "bat_checksum b = sum"
    and b: "bat_changes b = out" "bat_has_more b = (length out < length cs \<or> beyond)" "bat_scope b = scope"
      "bat_digest b = digest"
      "bat_next_cursor b = (if out = [] then cur
        else case cursor_new (seq_get (chg_seq (last out))) of Inl _ \<Rightarrow> cur | Inr c \<Rightarrow> c)"
    using assms unfolding nil fill_batch_def
    by (auto simp: and_then_Inr map_ok_Inr batch_checksum_def map_err_Inr Let_def)
  obtain n where n: "n \<le> length cs" "out = take n cs" "batch_fits X z budget out"
    "n < length cs \<longrightarrow> out \<noteq> [] \<and> budget < z (batch_bytes X (out @ [cs ! n]))"
    using fill_loop_spec [OF run] by (auto simp: batch_fits_def)
  with sum b show ?thesis
    by (intro exI [of _ n]) (auto simp: take_Suc_conv_app_nth)
qed

end
