(* ===== verification/Server_Log.thy ===== *)
theory Server_Log
  imports Server_Pull
begin

text \<open>
  The change log in the database (\<open>credsync-server/src/db.rs\<close>, \<open>migrations/0001_sync_tables.sql\<close> and
  \<open>0003_watermark.sql\<close>). PostgreSQL itself is outside the repository; what its statements do is
  written out from the SQL text: the queries as functions of the committed rows, and the writers,
  the advisory lock and the watermark as a step relation. A \<open>seq\<close> is allocated at the insert and its
  row becomes visible at the commit, so the orders differ; the lemmas show that the watermark closes
  the gap.
\<close>

section \<open>Tables\<close>

record log_row =
  lgr_scope :: string
  lgr_row :: change_row

abbreviation row_seq :: "log_row \<Rightarrow> int" where
  "row_seq r \<equiv> sint (crw_seq (lgr_row r))"

record new_change =
  nch_scope :: string
  nch_entity :: string
  nch_entity_id :: string
  nch_op :: string
  nch_snapshot :: "json option"
  nch_row_version :: u64
  nch_schema_version :: u32

text \<open>The check constraints of \<open>sync_changes\<close>.\<close>

definition sync_changes_checks :: "new_change \<Rightarrow> bool" where
  "sync_changes_checks n =
     (nch_op n \<in> {''upsert'', ''delete''} \<and> 1 \<le> sint (nch_row_version n) \<and>
      1 \<le> sint (nch_schema_version n) \<and>
      ((nch_op n = ''upsert'' \<and> nch_snapshot n \<noteq> None) \<or> (nch_op n = ''delete'' \<and> nch_snapshot n = None)))"

definition inserted_row :: "u64 \<Rightarrow> new_change \<Rightarrow> log_row" where
  "inserted_row sq n =
     \<lparr>lgr_scope = nch_scope n,
      lgr_row = \<lparr>crw_seq = sq, crw_entity = nch_entity n, crw_entity_id = nch_entity_id n,
        crw_op = nch_op n, crw_snapshot = nch_snapshot n, crw_row_version = nch_row_version n,
        crw_schema_version = nch_schema_version n\<rparr>\<rparr>"

section \<open>Reading a page\<close>

record page =
  pg_changes :: "change list"
  pg_more_beyond :: bool

fun collect_ok :: "('e + 'a) list \<Rightarrow> 'e + 'a list" where
  "collect_ok [] = Inr []"
| "collect_ok (r # rs) =
     (case r of Inl e \<Rightarrow> Inl e | Inr x \<Rightarrow> map_ok (\<lambda>xs. x # xs) (collect_ok rs))"

text \<open>The rows of one scope above the cursor and up to the watermark, in \<open>seq\<close> order.\<close>

definition log_query :: "log_row list \<Rightarrow> string \<Rightarrow> int \<Rightarrow> int \<Rightarrow> log_row list" where
  "log_query rows scope cur watermark =
     sort_key row_seq
       (filter (\<lambda>r. lgr_scope r = scope \<and> cur < row_seq r \<and> row_seq r \<le> watermark) rows)"

text \<open>The page around a query: one row more than the limit is asked for. \<open>fault\<close> is a failure of the
  statement; a negative \<open>LIMIT\<close> is one.\<close>

definition read_page ::
  "externs \<Rightarrow> string option \<Rightarrow> log_row list \<Rightarrow> u64 \<Rightarrow> server_error + page" where
  "read_page X fault selected limit =
     (case fault of
        Some detail \<Rightarrow> Inl (Database detail)
      | None \<Rightarrow>
          if sint (limit + 1) < 0 then Inl (Database ''LIMIT must not be negative'')
          else
            (let rows = take (nat (sint (limit + 1))) selected;
                 kept = (if sint limit < 0 then rows else take (nat (sint limit)) rows)
             in map_ok (\<lambda>cs. \<lparr>pg_changes = cs, pg_more_beyond = (int (length rows) > sint limit)\<rparr>)
                  (collect_ok (map (\<lambda>r. into_change X (lgr_row r)) kept))))"

definition changes_after_watermark ::
  "externs \<Rightarrow> string option \<Rightarrow> log_row list \<Rightarrow> scope_id \<Rightarrow> u64 \<Rightarrow> u64 \<Rightarrow> u64 \<Rightarrow> server_error + page" where
  "changes_after_watermark X fault rows scope cur limit watermark =
     (if sint cur < 0
      then Inl (Corrupt (''cursor '' @ show_nat (unat cur) @ '' does not fit a bigint''))
      else read_page X fault (log_query rows (scope_str scope) (sint cur) (sint watermark)) limit)"

text \<open>\<open>DISTINCT ON (entity, entity_id) ... ORDER BY entity, entity_id, seq DESC\<close>: the latest change of
  each row, up to the watermark.\<close>

definition is_latest :: "log_row list \<Rightarrow> log_row \<Rightarrow> bool" where
  "is_latest rows r =
     list_all (\<lambda>r'. crw_entity (lgr_row r') = crw_entity (lgr_row r) \<and>
         crw_entity_id (lgr_row r') = crw_entity_id (lgr_row r) \<longrightarrow> row_seq r' \<le> row_seq r) rows"

definition bootstrap_query :: "log_row list \<Rightarrow> string \<Rightarrow> int \<Rightarrow> int \<Rightarrow> log_row list" where
  "bootstrap_query rows scope after watermark =
     (let mine = filter (\<lambda>r. lgr_scope r = scope \<and> row_seq r \<le> watermark) rows;
          latest = filter (is_latest mine) mine
      in sort_key row_seq
           (filter (\<lambda>r. after < row_seq r \<and> (crw_op (lgr_row r) \<noteq> ''delete'' \<or> after > 0)) latest))"

definition bootstrap_after ::
  "externs \<Rightarrow> string option \<Rightarrow> server_error + u64 \<Rightarrow> log_row list \<Rightarrow> scope_id \<Rightarrow> u64 \<Rightarrow> u64 \<Rightarrow>
   server_error + page" where
  "bootstrap_after X fault watermark rows scope after limit =
     and_then watermark (\<lambda>w.
       if sint after < 0
       then Inl (Corrupt (''bootstrap cursor '' @ show_nat (unat after) @ '' does not fit a bigint''))
       else read_page X fault (bootstrap_query rows (scope_str scope) (sint after) (sint w)) limit)"

section \<open>Writers, the lock and the watermark\<close>

record writer =
  wr_locked :: bool
  wr_rows :: "log_row list"

text \<open>
  \<open>lg_last\<close> is the sequence's \<open>last_value\<close> (zero while it was never called); \<open>lg_reader\<close> says that a
  reader's transaction holds the lock exclusively and \<open>lg_pending\<close> what it has written to
  \<open>sync_watermark\<close> but not committed.
\<close>

record log_state =
  lg_rows :: "log_row list"
  lg_last :: u64
  lg_writers :: "(nat, writer) btree"
  lg_reader :: bool
  lg_pending :: "u64 option"
  lg_watermark :: u64

definition log_empty :: log_state where
  "log_empty =
     \<lparr>lg_rows = [], lg_last = 0, lg_writers = [], lg_reader = False, lg_pending = None,
      lg_watermark = 0\<rparr>"

text \<open>\<^const>\<open>None\<close> means that the session waits.\<close>

definition lock_for_write :: "nat \<Rightarrow> log_state \<Rightarrow> log_state option" where
  "lock_for_write t s =
     (case bt_get (lg_writers s) t of
        None \<Rightarrow> None
      | Some w \<Rightarrow>
          if lg_reader s then None
          else Some (s\<lparr>lg_writers := bt_insert t (w\<lparr>wr_locked := True\<rparr>) (lg_writers s)\<rparr>))"

definition insert_change :: "nat \<Rightarrow> new_change \<Rightarrow> log_state \<Rightarrow> (u64 \<times> log_state) option" where
  "insert_change t n s =
     (case bt_get (lg_writers s) t of
        None \<Rightarrow> None
      | Some w \<Rightarrow>
          if sync_changes_checks n \<and> sint (lg_last s) < 2 ^ 63 - 1
          then (let sq = lg_last s + 1
                in Some (sq, s\<lparr>lg_last := sq,
                     lg_writers := bt_insert t (w\<lparr>wr_rows := wr_rows w @ [inserted_row sq n]\<rparr>) (lg_writers s)\<rparr>))
          else None)"

definition append_change :: "nat \<Rightarrow> new_change \<Rightarrow> log_state \<Rightarrow> (u64 \<times> log_state) option" where
  "append_change t n s =
     (case lock_for_write t s of None \<Rightarrow> None | Some s' \<Rightarrow> insert_change t n s')"

definition begin_writer :: "nat \<Rightarrow> log_state \<Rightarrow> log_state" where
  "begin_writer t s = s\<lparr>lg_writers := bt_insert t \<lparr>wr_locked = False, wr_rows = []\<rparr> (lg_writers s)\<rparr>"

definition commit_writer :: "nat \<Rightarrow> log_state \<Rightarrow> log_state" where
  "commit_writer t s =
     (case bt_get (lg_writers s) t of
        None \<Rightarrow> s
      | Some w \<Rightarrow> s\<lparr>lg_rows := lg_rows s @ wr_rows w, lg_writers := bt_remove t (lg_writers s)\<rparr>)"

definition rollback_writer :: "nat \<Rightarrow> log_state \<Rightarrow> log_state" where
  "rollback_writer t s = s\<lparr>lg_writers := bt_remove t (lg_writers s)\<rparr>"

text \<open>The exclusive lock is granted only while no transaction holds it shared.\<close>

definition reader_lock :: "log_state \<Rightarrow> log_state option" where
  "reader_lock s =
     (if lg_reader s \<or> list_ex (\<lambda>(_, w). wr_locked w) (lg_writers s) then None
      else Some (s\<lparr>lg_reader := True\<rparr>))"

definition reader_record :: "log_state \<Rightarrow> log_state" where
  "reader_record s =
     s\<lparr>lg_pending :=
        Some (if sint (lg_watermark s) < sint (lg_last s) then lg_last s else lg_watermark s)\<rparr>"

definition reader_commit :: "log_state \<Rightarrow> log_state" where
  "reader_commit s =
     s\<lparr>lg_watermark := (case lg_pending s of None \<Rightarrow> lg_watermark s | Some v \<Rightarrow> v),
       lg_pending := None, lg_reader := False\<rparr>"

definition reader_rollback :: "log_state \<Rightarrow> log_state" where
  "reader_rollback s = s\<lparr>lg_pending := None, lg_reader := False\<rparr>"

text \<open>What may fail on the way to a page, each with the text of its error: the statements of the
  transaction that establishes a watermark, reading back a recorded one, and the query.\<close>

record log_faults =
  lf_begin :: "string option"
  lf_timeout :: "string option"
  lf_lock :: "string option"
  lf_record :: "string option"
  lf_commit :: "string option"
  lf_read :: "string option"
  lf_query :: "string option"

definition no_faults :: log_faults where
  "no_faults =
     \<lparr>lf_begin = None, lf_timeout = None, lf_lock = None, lf_record = None, lf_commit = None,
      lf_read = None, lf_query = None\<rparr>"

text \<open>\<open>establish_watermark\<close> inside its transaction; \<open>Inr None\<close> when a writer holds the lock past the
  timeout.\<close>

definition establish_watermark :: "log_faults \<Rightarrow> log_state \<Rightarrow> (string + u64 option) \<times> log_state" where
  "establish_watermark F s =
     (case lf_timeout F of
        Some e \<Rightarrow> (Inl e, s)
      | None \<Rightarrow>
          (case lf_lock F of
             Some e \<Rightarrow> (Inl e, s)
           | None \<Rightarrow>
               (case reader_lock s of
                  None \<Rightarrow> (Inr None, s)
                | Some s1 \<Rightarrow>
                    (case lf_record F of
                       Some e \<Rightarrow> (Inl e, s1)
                     | None \<Rightarrow>
                         (let s2 = reader_record s1 in (Inr (lg_pending s2), s2))))))"

definition recorded_watermark :: "log_faults \<Rightarrow> log_state \<Rightarrow> server_error + u64" where
  "recorded_watermark F s =
     (case lf_read F of Some e \<Rightarrow> Inl (Database e) | None \<Rightarrow> Inr (lg_watermark s))"

text \<open>A transaction that does not commit leaves the log as it was when it began.\<close>

definition safe_watermark :: "log_faults \<Rightarrow> log_state \<Rightarrow> (server_error + u64) \<times> log_state" where
  "safe_watermark F s =
     (case lf_begin F of
        Some e \<Rightarrow> (Inl (Database e), s)
      | None \<Rightarrow>
          (case establish_watermark F s of
             (Inr (Some v), s1) \<Rightarrow>
               (case lf_commit F of
                  Some e \<Rightarrow> (Inl (Database e), s)
                | None \<Rightarrow> (Inr v, reader_commit s1))
           | (Inr None, _) \<Rightarrow> (recorded_watermark F s, s)
           | (Inl _, _) \<Rightarrow> (recorded_watermark F s, s)))"

definition changes_after ::
  "externs \<Rightarrow> log_faults \<Rightarrow> scope_id \<Rightarrow> u64 \<Rightarrow> u64 \<Rightarrow> log_state \<Rightarrow>
   (server_error + page) \<times> log_state" where
  "changes_after X F scope cur limit s =
     (case safe_watermark F s of
        (r, s') \<Rightarrow>
          (and_then r (changes_after_watermark X (lf_query F) (lg_rows s') scope cur limit), s'))"

lemmas log_defs [run_defs] =
  sync_changes_checks_def inserted_row_def log_query_def read_page_def changes_after_watermark_def
  is_latest_def bootstrap_query_def bootstrap_after_def log_empty_def lock_for_write_def
  insert_change_def append_change_def begin_writer_def commit_writer_def rollback_writer_def
  reader_record_def reader_commit_def reader_rollback_def recorded_watermark_def no_faults_def

section \<open>Runs\<close>

text \<open>
  The steps any number of sessions can take, in any interleaving. With \<open>d\<close> every writer keeps the
  contract of \<open>lock_for_write\<close> and takes the lock before its first insert; without it nothing is
  assumed. A failed insert still consumes its sequence value and aborts its transaction.
\<close>

inductive log_step :: "bool \<Rightarrow> log_state \<Rightarrow> log_state \<Rightarrow> bool" for d where
  step_begin: "bt_get (lg_writers s) t = None \<Longrightarrow> log_step d s (begin_writer t s)"
| step_lock: "lock_for_write t s = Some s' \<Longrightarrow> log_step d s s'"
| step_insert: "insert_change t n s = Some (sq, s') \<Longrightarrow> bt_get (lg_writers s) t = Some w \<Longrightarrow>
    d \<longrightarrow> wr_locked w \<Longrightarrow> log_step d s s'"
| step_insert_fails: "bt_get (lg_writers s) t = Some w \<Longrightarrow> d \<longrightarrow> wr_locked w \<Longrightarrow>
    sint (lg_last s) < 2 ^ 63 - 1 \<Longrightarrow>
    log_step d s (rollback_writer t (s\<lparr>lg_last := lg_last s + 1\<rparr>))"
| step_commit: "log_step d s (commit_writer t s)"
| step_rollback: "log_step d s (rollback_writer t s)"
| step_reader_lock: "reader_lock s = Some s' \<Longrightarrow> log_step d s s'"
| step_reader_record: "lg_reader s \<Longrightarrow> log_step d s (reader_record s)"
| step_reader_commit: "lg_reader s \<Longrightarrow> log_step d s (reader_commit s)"
| step_reader_rollback: "lg_reader s \<Longrightarrow> log_step d s (reader_rollback s)"

inductive log_run :: "bool \<Rightarrow> log_state \<Rightarrow> log_state \<Rightarrow> bool" for d s where
  run_refl: "log_run d s s"
| run_step: "log_run d s s' \<Longrightarrow> log_step d s' s'' \<Longrightarrow> log_run d s s''"

lemma log_run_trans: "log_run d s' s'' \<Longrightarrow> log_run d s s' \<Longrightarrow> log_run d s s''"
  by (induction rule: log_run.induct) (auto intro: run_step)

lemma log_run_one: "log_step d s s' \<Longrightarrow> log_run d s s'"
  by (rule run_step [OF run_refl])

text \<open>The two composed operations are runs of the steps.\<close>

lemma append_change_run:
  assumes "append_change t n s = Some (sq, s')"
  shows "log_run d s s'"
proof -
  obtain s1 where s1: "lock_for_write t s = Some s1" "insert_change t n s1 = Some (sq, s')"
    using assms by (auto simp: append_change_def split: option.splits)
  then obtain w where "bt_get (lg_writers s1) t = Some w" "wr_locked w"
    by (auto simp: lock_for_write_def split: option.splits if_splits)
  with s1 show ?thesis
    by (meson log_run_one run_step step_insert step_lock)
qed

lemma safe_watermark_run: "log_run d s (snd (safe_watermark F s))"
proof (cases "reader_lock s")
  case None
  then show ?thesis
    by (simp add: safe_watermark_def establish_watermark_def run_refl split: option.split)
next
  case (Some s1)
  then have r: "lg_reader s1"
    by (auto simp: reader_lock_def split: if_splits)
  then have "log_run d s1 (reader_commit (reader_record s1))"
    by (intro run_step [OF log_run_one [OF step_reader_record] step_reader_commit])
      (simp_all add: reader_record_def)
  then have "log_run d s (reader_commit (reader_record s1))"
    using log_run_one [OF step_reader_lock [OF Some]] by (rule log_run_trans)
  then show ?thesis
    using Some
    by (auto simp: safe_watermark_def establish_watermark_def reader_record_def run_refl Let_def
        split: option.split)
qed

text \<open>What \<^const>\<open>safe_watermark\<close> answers is a watermark that is recorded when it answers, also when it
  falls back after a failure.\<close>

lemma safe_watermark_recorded:
  assumes "safe_watermark F s = (Inr w, s')"
  shows "lg_watermark s' = w" "log_run d s s'" "lg_rows s' = lg_rows s"
  using assms safe_watermark_run [of d s F]
  by (auto simp: safe_watermark_def establish_watermark_def reader_record_def reader_commit_def
      recorded_watermark_def reader_lock_def Let_def split: if_splits option.splits)

section \<open>No hole beneath the watermark\<close>

text \<open>Every allocated position at or below the watermark has been decided: no open transaction holds
  one, and none can still be handed out.\<close>

definition writer_ok :: "int \<Rightarrow> int \<Rightarrow> bool \<Rightarrow> writer \<Rightarrow> bool" where
  "writer_ok low high reader w \<longleftrightarrow>
     (\<forall>r \<in> set (wr_rows w). wr_locked w \<and> low < row_seq r \<and> row_seq r \<le> high) \<and> \<not> (reader \<and> wr_locked w)"

definition log_inv :: "log_state \<Rightarrow> bool" where
  "log_inv s \<longleftrightarrow>
     sint (lg_watermark s) \<le> sint (lg_last s) \<and>
     (\<forall>t w. bt_get (lg_writers s) t = Some w \<longrightarrow>
        writer_ok (sint (lg_watermark s)) (sint (lg_last s)) (lg_reader s) w) \<and>
     (\<forall>v. lg_pending s = Some v \<longrightarrow> lg_reader s \<and> sint (lg_watermark s) \<le> sint v \<and>
        sint v \<le> sint (lg_last s)) \<and>
     (\<forall>r \<in> set (lg_rows s). row_seq r \<le> sint (lg_last s))"

lemma sint_last_Suc: "sint (v :: u64) < 2 ^ 63 - 1 \<Longrightarrow> sint (v + 1) = sint v + 1"
proof -
  assume "sint v < 2 ^ 63 - 1"
  moreover have "- (2 ^ 63) \<le> sint v"
    using sint_ge [of v] by simp
  ultimately show ?thesis
    by (simp add: sint_word_ariths signed_take_bit_int_eq_self)
qed

lemma writer_ok_mono: "writer_ok low high reader w \<Longrightarrow> high \<le> high' \<Longrightarrow> writer_ok low high' reader w"
  unfolding writer_ok_def by force

lemma writer_ok_closed: "writer_ok low high True w \<Longrightarrow> wr_rows w = []"
  unfolding writer_ok_def by (metis list.set_intros(1) neq_Nil_conv)

text \<open>The invariant is kept when only the open transactions change, or the sequence moves on.\<close>

lemma log_inv_moved:
  assumes "log_inv s" and "lg_rows s' = lg_rows s" "lg_reader s' = lg_reader s"
    "lg_pending s' = lg_pending s" "lg_watermark s' = lg_watermark s"
    and "sint (lg_last s) \<le> sint (lg_last s')"
    and "\<And>t w. bt_get (lg_writers s') t = Some w \<Longrightarrow> bt_get (lg_writers s) t = Some w \<or>
       writer_ok (sint (lg_watermark s)) (sint (lg_last s')) (lg_reader s) w"
  shows "log_inv s'"
  unfolding log_inv_def assms(2-5)
proof (intro conjI allI impI)
  show "sint (lg_watermark s) \<le> sint (lg_last s')"
    using assms(1,6) by (simp add: log_inv_def)
  show "writer_ok (sint (lg_watermark s)) (sint (lg_last s')) (lg_reader s) w"
    if "bt_get (lg_writers s') t = Some w" for t w
    using assms(1,6) assms(7) [OF that] unfolding log_inv_def by (blast intro: writer_ok_mono)
  show "\<forall>r \<in> set (lg_rows s). row_seq r \<le> sint (lg_last s')"
    using assms(1,6) unfolding log_inv_def by force
qed (use assms(1,6) in \<open>auto simp: log_inv_def\<close>)

lemma log_inv_insert:
  assumes inv: "log_inv s" and ins: "insert_change t n s = Some (sq, s')"
    and w: "bt_get (lg_writers s) t = Some w" "wr_locked w"
  shows "log_inv s'"
proof -
  have next_seq: "sint (lg_last s + 1) = sint (lg_last s) + 1"
    and s': "s' = s\<lparr>lg_last := lg_last s + 1,
      lg_writers := bt_insert t (w\<lparr>wr_rows := wr_rows w @ [inserted_row (lg_last s + 1) n]\<rparr>) (lg_writers s)\<rparr>"
    using ins w by (auto simp: insert_change_def Let_def sint_last_Suc split: if_splits)
  have "writer_ok (sint (lg_watermark s)) (sint (lg_last s)) (lg_reader s) w"
    and "sint (lg_watermark s) \<le> sint (lg_last s)"
    using inv w(1) unfolding log_inv_def by blast+
  then have "writer_ok (sint (lg_watermark s)) (sint (lg_last s) + 1) (lg_reader s)
      (w\<lparr>wr_rows := wr_rows w @ [inserted_row (lg_last s + 1) n]\<rparr>)"
    using w(2) by (force simp: writer_ok_def inserted_row_def next_seq)
  then show ?thesis
    unfolding s' by (intro log_inv_moved [OF inv]) (auto simp: next_seq split: if_splits)
qed

lemma log_step_inv:
  assumes "log_step True s s'" and inv: "log_inv s"
  shows "log_inv s'"
  using assms(1)
proof cases
  case (step_begin t)
  then show ?thesis
    by (intro log_inv_moved [OF inv]) (auto simp: begin_writer_def writer_ok_def split: if_splits)
next
  case (step_lock t)
  then obtain w where w: "bt_get (lg_writers s) t = Some w" "\<not> lg_reader s"
    "s' = s\<lparr>lg_writers := bt_insert t (w\<lparr>wr_locked := True\<rparr>) (lg_writers s)\<rparr>"
    by (auto simp: lock_for_write_def split: option.splits if_splits)
  then have "writer_ok (sint (lg_watermark s)) (sint (lg_last s)) (lg_reader s) w"
    using inv unfolding log_inv_def by blast
  with w show ?thesis
    by (intro log_inv_moved [OF inv]) (auto simp: writer_ok_def split: if_splits)
next
  case (step_insert t n sq w)
  then show ?thesis
    using inv by (auto intro: log_inv_insert)
next
  case (step_insert_fails t w)
  have "sint (lg_last s + 1) = sint (lg_last s) + 1"
    using step_insert_fails(4) by (rule sint_last_Suc)
  then show ?thesis
    unfolding step_insert_fails(1)
    by (intro log_inv_moved [OF inv]) (auto simp: rollback_writer_def split: if_splits)
next
  case (step_commit t)
  show ?thesis
  proof (cases "bt_get (lg_writers s) t")
    case None
    with step_commit inv show ?thesis by (simp add: commit_writer_def)
  next
    case (Some w)
    then have "writer_ok (sint (lg_watermark s)) (sint (lg_last s)) (lg_reader s) w"
      using inv unfolding log_inv_def by blast
    with Some show ?thesis
      using inv unfolding step_commit log_inv_def by (auto simp: commit_writer_def writer_ok_def split: if_splits)
  qed
next
  case (step_rollback t)
  then show ?thesis
    by (intro log_inv_moved [OF inv]) (auto simp: rollback_writer_def split: if_splits)
next
  case step_reader_lock
  then have s': "s' = s\<lparr>lg_reader := True\<rparr>"
    and free: "\<And>t w. bt_get (lg_writers s) t = Some w \<Longrightarrow> \<not> wr_locked w"
    by (auto simp: reader_lock_def list_ex_iff split: if_splits dest: map_of_SomeD)
  show ?thesis
    using inv free unfolding log_inv_def s' by (auto simp: writer_ok_def)
next
  case step_reader_record
  then show ?thesis
    using inv unfolding log_inv_def by (auto simp: reader_record_def)
next
  case step_reader_commit
  then have "wr_rows w = []" "\<not> wr_locked w" if "bt_get (lg_writers s) t = Some w" for t w
  proof -
    have w: "writer_ok (sint (lg_watermark s)) (sint (lg_last s)) True w"
      using inv that step_reader_commit unfolding log_inv_def by auto
    show "wr_rows w = []"
      using w by (rule writer_ok_closed)
    show "\<not> wr_locked w"
      using w by (simp add: writer_ok_def)
  qed
  then have "writer_ok low high False w" if "bt_get (lg_writers s) t = Some w" for t w low high
    using that by (auto simp: writer_ok_def)
  then show ?thesis
    using inv unfolding step_reader_commit log_inv_def by (auto simp: reader_commit_def split: option.splits)
next
  case step_reader_rollback
  then show ?thesis
    using inv unfolding log_inv_def by (auto simp: reader_rollback_def writer_ok_def)
qed

lemma log_run_inv: "log_run True s s' \<Longrightarrow> log_inv s \<Longrightarrow> log_inv s'"
  by (induction rule: log_run.induct) (auto intro: log_step_inv)

lemma log_empty_inv: "log_inv log_empty"
  by (simp add: log_inv_def log_empty_def)

text \<open>What a step appends to the committed rows lies above the watermark.\<close>

lemma log_step_rows:
  assumes "log_step True s s'" and "log_inv s"
  shows "\<exists>new. lg_rows s' = lg_rows s @ new \<and> (\<forall>r \<in> set new. sint (lg_watermark s) < row_seq r) \<and>
    sint (lg_watermark s) \<le> sint (lg_watermark s')"
  using assms(1)
proof cases
  case (step_commit t)
  have "sint (lg_watermark s) < row_seq r" if "bt_get (lg_writers s) t = Some w" "r \<in> set (wr_rows w)" for w r
    using assms(2) that unfolding log_inv_def writer_ok_def by blast
  with step_commit show ?thesis
    by (auto simp: commit_writer_def split: option.splits)
next
  case step_reader_commit
  then show ?thesis
    using assms(2) unfolding log_inv_def by (auto simp: reader_commit_def split: option.splits)
qed (auto simp: begin_writer_def lock_for_write_def insert_change_def rollback_writer_def reader_lock_def
    reader_record_def reader_rollback_def Let_def split: option.splits if_splits)

lemma log_run_rows:
  assumes "log_run True s s'" and "log_inv s"
  shows "\<exists>new. lg_rows s' = lg_rows s @ new \<and> (\<forall>r \<in> set new. sint (lg_watermark s) < row_seq r) \<and>
    sint (lg_watermark s) \<le> sint (lg_watermark s')"
  using assms
proof (induction rule: log_run.induct)
  case run_refl
  then show ?case by simp
next
  case (run_step s' s'')
  then have "log_inv s'"
    using log_run_inv by blast
  with log_step_rows [OF run_step.hyps(2)] run_step.IH [OF run_step.prems] show ?case
    by fastforce
qed

text \<open>A page read at a watermark is final: nothing that commits later belongs to it.\<close>

lemma log_query_stable:
  assumes "log_run True s s'" and "log_inv s" and "w \<le> sint (lg_watermark s)"
  shows "log_query (lg_rows s') scope cur w = log_query (lg_rows s) scope cur w"
proof -
  obtain new where "lg_rows s' = lg_rows s @ new" "\<forall>r \<in> set new. sint (lg_watermark s) < row_seq r"
    using log_run_rows [OF assms(1,2)] by blast
  with assms(3) have "filter (\<lambda>r. lgr_scope r = scope \<and> cur < row_seq r \<and> row_seq r \<le> w) new = []"
    by (force simp: filter_empty_conv)
  with \<open>lg_rows s' = lg_rows s @ new\<close> show ?thesis
    by (simp add: log_query_def)
qed

section \<open>Positions are unique\<close>

text \<open>The primary key: no two rows, committed or in an open transaction, share a position. This needs
  no discipline of the writers.\<close>

definition open_seqs :: "(nat, writer) btree \<Rightarrow> int multiset" where
  "open_seqs ws = (\<Sum>p \<leftarrow> ws. mset (map row_seq (wr_rows (snd p))))"

definition all_seqs :: "log_state \<Rightarrow> int multiset" where
  "all_seqs s = mset (map row_seq (lg_rows s)) + open_seqs (lg_writers s)"

definition seq_inv :: "log_state \<Rightarrow> bool" where
  "seq_inv s \<longleftrightarrow>
     bt_wf (lg_writers s) \<and> (\<forall>x. count (all_seqs s) x \<le> 1) \<and>
     (\<forall>x \<in># all_seqs s. x \<le> sint (lg_last s))"

lemma open_seqs_Nil [simp]: "open_seqs [] = {#}"
  by (simp add: open_seqs_def)

lemma open_seqs_Cons [simp]: "open_seqs (p # ws) = mset (map row_seq (wr_rows (snd p))) + open_seqs ws"
  by (simp add: open_seqs_def)

lemma open_seqs_new:
  "bt_get ws t = None \<Longrightarrow>
   open_seqs (bt_insert t w ws) = open_seqs ws + mset (map row_seq (wr_rows w))"
  by (induction t w ws rule: bt_insert.induct) (auto split: if_splits)

lemma open_seqs_replace:
  "bt_wf ws \<Longrightarrow> bt_get ws t = Some w0 \<Longrightarrow>
   open_seqs (bt_insert t w ws) + mset (map row_seq (wr_rows w0)) =
     open_seqs ws + mset (map row_seq (wr_rows w))"
proof (induction t w ws rule: bt_insert.induct)
  case (2 t w t' w' ws)
  then show ?case
    by (auto simp: bt_wf_Cons split: if_splits) (force dest: map_of_SomeD)
qed simp

lemma open_seqs_remove: "open_seqs (bt_remove t ws) \<subseteq># open_seqs ws"
  by (induction ws) (auto simp: bt_remove_def intro: subset_mset.add_mono subset_mset.add_increasing)

lemma open_seqs_remove_rows:
  "bt_get ws t = Some w \<Longrightarrow>
   open_seqs (bt_remove t ws) + mset (map row_seq (wr_rows w)) \<subseteq># open_seqs ws"
proof (induction ws)
  case (Cons p ws)
  show ?case
  proof (cases "fst p = t")
    case True
    then show ?thesis
      using Cons.prems open_seqs_remove [of t ws]
      by (cases p) (auto simp: bt_remove_def add.commute)
  next
    case False
    then show ?thesis
      using Cons by (cases p) (auto simp: bt_remove_def add.assoc)
  qed
qed simp

lemma seq_inv_shrinks:
  assumes "seq_inv s" and "bt_wf (lg_writers s')" "all_seqs s' \<subseteq># all_seqs s"
    and "sint (lg_last s) \<le> sint (lg_last s')"
  shows "seq_inv s'"
  using assms unfolding seq_inv_def
  by (meson mset_subset_eq_count mset_subset_eqD order_trans)

lemma seq_inv_insert:
  assumes inv: "seq_inv s" and "insert_change t n s = Some (sq, s')"
  shows "seq_inv s'"
proof -
  obtain w where w: "bt_get (lg_writers s) t = Some w"
    and next_seq: "sint (lg_last s + 1) = sint (lg_last s) + 1"
    and s': "s' = s\<lparr>lg_last := lg_last s + 1,
      lg_writers := bt_insert t (w\<lparr>wr_rows := wr_rows w @ [inserted_row (lg_last s + 1) n]\<rparr>) (lg_writers s)\<rparr>"
    using assms(2) by (auto simp: insert_change_def Let_def sint_last_Suc split: option.splits if_splits)
  have "all_seqs s' = add_mset (sint (lg_last s) + 1) (all_seqs s)"
    using open_seqs_replace [OF _ w, of "w\<lparr>wr_rows := wr_rows w @ [inserted_row (lg_last s + 1) n]\<rparr>"] inv
    by (simp add: all_seqs_def s' seq_inv_def inserted_row_def next_seq)
  moreover have "sint (lg_last s) + 1 \<notin># all_seqs s"
    using inv unfolding seq_inv_def by force
  ultimately show ?thesis
    using inv unfolding seq_inv_def s' by (auto simp: next_seq count_eq_zero_iff)
qed

lemma log_step_seq_inv:
  assumes "log_step d s s'" and inv: "seq_inv s"
  shows "seq_inv s'"
  using assms(1)
proof cases
  case (step_begin t)
  then show ?thesis
    using inv by (intro seq_inv_shrinks [OF inv]) (auto simp: begin_writer_def all_seqs_def open_seqs_new seq_inv_def)
next
  case (step_lock t)
  then obtain w where w: "bt_get (lg_writers s) t = Some w"
    "s' = s\<lparr>lg_writers := bt_insert t (w\<lparr>wr_locked := True\<rparr>) (lg_writers s)\<rparr>"
    by (auto simp: lock_for_write_def split: option.splits if_splits)
  then have "all_seqs s' = all_seqs s"
    using open_seqs_replace [OF _ w(1), of "w\<lparr>wr_locked := True\<rparr>"] inv by (simp add: all_seqs_def seq_inv_def)
  with w inv show ?thesis
    by (intro seq_inv_shrinks [OF inv]) (auto simp: seq_inv_def)
next
  case (step_insert t n sq w)
  then show ?thesis
    using inv by (auto intro: seq_inv_insert)
next
  case (step_insert_fails t w)
  have "sint (lg_last s + 1) = sint (lg_last s) + 1"
    using step_insert_fails(4) by (rule sint_last_Suc)
  then show ?thesis
    using inv unfolding step_insert_fails(1)
    by (intro seq_inv_shrinks [OF inv]) (auto simp: rollback_writer_def all_seqs_def open_seqs_remove seq_inv_def)
next
  case (step_commit t)
  show ?thesis
  proof (cases "bt_get (lg_writers s) t")
    case None
    with step_commit inv show ?thesis
      by (simp add: commit_writer_def)
  next
    case (Some w)
    then have s': "s' = s\<lparr>lg_rows := lg_rows s @ wr_rows w, lg_writers := bt_remove t (lg_writers s)\<rparr>"
      using step_commit by (simp add: commit_writer_def)
    have "all_seqs s' = mset (map row_seq (lg_rows s)) +
        (open_seqs (bt_remove t (lg_writers s)) + mset (map row_seq (wr_rows w)))"
      by (simp add: s' all_seqs_def)
    also have "\<dots> \<subseteq># all_seqs s"
      unfolding all_seqs_def by (intro subset_mset.add_left_mono open_seqs_remove_rows Some)
    finally show ?thesis
      using inv by (intro seq_inv_shrinks [OF inv]) (simp_all add: s' seq_inv_def)
  qed
next
  case (step_rollback t)
  then show ?thesis
    using inv by (intro seq_inv_shrinks [OF inv]) (auto simp: rollback_writer_def all_seqs_def open_seqs_remove seq_inv_def)
qed (use inv in \<open>auto simp: reader_lock_def reader_record_def reader_commit_def reader_rollback_def seq_inv_def
      all_seqs_def split: if_splits\<close>)

lemma log_run_seq_inv: "log_run d s s' \<Longrightarrow> seq_inv s \<Longrightarrow> seq_inv s'"
  by (induction rule: log_run.induct) (auto intro: log_step_seq_inv)

lemma log_empty_seq_inv: "seq_inv log_empty"
  by (simp add: seq_inv_def log_empty_def all_seqs_def)

lemma distinct_by_count: "(\<And>x. count (mset xs) x \<le> 1) \<Longrightarrow> distinct xs"
proof (induction xs)
  case (Cons x xs)
  have "count (mset xs) y \<le> 1" for y
    by (rule order_trans [OF _ Cons.prems [of y]]) simp
  moreover have "count (mset xs) x = 0"
    using Cons.prems [of x] by (simp add: not_in_iff)
  ultimately show ?case
    using Cons.IH by (simp add: count_eq_zero_iff)
qed simp

lemma seq_inv_distinct:
  assumes "seq_inv s"
  shows "distinct (map row_seq (lg_rows s))"
proof (rule distinct_by_count)
  fix x
  have "count (mset (map row_seq (lg_rows s))) x \<le> count (all_seqs s) x"
    by (simp add: all_seqs_def)
  then show "count (mset (map row_seq (lg_rows s))) x \<le> 1"
    using assms unfolding seq_inv_def by (meson order_trans)
qed

end
