(* ===== verification/Server_Paging.thy ===== *)
theory Server_Paging
  imports Server_Log
begin

text \<open>
  Serving a pull: a page of the log (\<^theory_text>\<open>Server_Log\<close>) is filled into a batch (\<^theory_text>\<open>Server_Pull\<close>), and the
  client pulls again from \<open>next_cursor\<close> while \<open>has_more\<close>. The lemmas show that the client's rules
  accept every batch, and that the pages together are the log.
\<close>

section \<open>Serving one pull, and pulling to the end\<close>

definition serve_pull ::
  "externs \<Rightarrow> compressor \<Rightarrow> log_row list \<Rightarrow> scope_id \<Rightarrow> u64 \<Rightarrow> u64 \<Rightarrow> nat \<Rightarrow> hex_string \<Rightarrow> cursor \<Rightarrow>
   server_error + batch" where
  "serve_pull X z rows scope limit watermark budget digest cur =
     and_then (changes_after_watermark X None rows scope (cursor_get cur) limit watermark)
       (\<lambda>pg. fill_batch X z scope cur (pg_changes pg) (pg_more_beyond pg) budget digest)"

text \<open>\<^const>\<open>None\<close> when the fuel runs out before the server says that nothing is left.\<close>

fun pull_all :: "(cursor \<Rightarrow> server_error + batch) \<Rightarrow> nat \<Rightarrow> cursor \<Rightarrow> (server_error + batch list) option" where
  "pull_all serve 0 cur = None"
| "pull_all serve (Suc fuel) cur =
     (case serve cur of
        Inl e \<Rightarrow> Some (Inl e)
      | Inr b \<Rightarrow>
          if bat_has_more b
          then map_option (map_ok (\<lambda>bs. b # bs)) (pull_all serve fuel (bat_next_cursor b))
          else Some (Inr [b]))"

section \<open>Strictly sorted selections\<close>

lemma collect_ok_iff: "collect_ok (map f xs) = Inr ys \<longleftrightarrow> list_all2 (\<lambda>x y. f x = Inr y) xs ys"
proof (induction xs arbitrary: ys)
  case (Cons x xs)
  show ?case
  proof (cases "f x")
    case (Inl e)
    then show ?thesis by (cases ys) auto
  next
    case (Inr y)
    show ?thesis
      using Inr Cons.IH by (cases ys) (auto simp: map_ok_Inr list_all2_Cons1)
  qed
qed auto

lemma sorted_strict: "sorted (map f xs) \<Longrightarrow> distinct (map f xs) \<Longrightarrow> sorted_wrt (\<lambda>a b. f a < f b) xs"
  for f :: "'a \<Rightarrow> 'b::linorder"
  by (induction xs) (auto simp: less_le)

lemma log_query_strict:
  assumes "distinct (map row_seq rows)"
  shows "sorted_wrt (\<lambda>a b. row_seq a < row_seq b) (log_query rows scope cur w)"
  unfolding log_query_def
proof (rule sorted_strict)
  let ?sel = "filter (\<lambda>r. lgr_scope r = scope \<and> cur < row_seq r \<and> row_seq r \<le> w) rows"
  show "sorted (map row_seq (sort_key row_seq ?sel))"
    by (rule sorted_sort_key)
  have "distinct (map row_seq ?sel)"
    using assms by (rule distinct_map_filter)
  moreover have "mset (map row_seq (sort_key row_seq ?sel)) = mset (map row_seq ?sel)"
    by (simp only: mset_map mset_sort)
  ultimately show "distinct (map row_seq (sort_key row_seq ?sel))"
    using mset_eq_imp_distinct_iff by blast
qed

lemma log_query_above:
  "cur \<le> cur' \<Longrightarrow> log_query rows scope cur' w = filter (\<lambda>r. cur' < row_seq r) (log_query rows scope cur w)"
  unfolding log_query_def filter_sort by (auto intro!: arg_cong [where f = "sort_key row_seq"] filter_cong)

lemma set_log_query:
  "r \<in> set (log_query rows scope cur w) \<longleftrightarrow>
     r \<in> set rows \<and> lgr_scope r = scope \<and> cur < row_seq r \<and> row_seq r \<le> w"
  by (auto simp: log_query_def)

lemma filter_above_nth:
  fixes f :: "'a \<Rightarrow> 'b::linorder"
  assumes "sorted_wrt (\<lambda>a b. f a < f b) xs" and "k < length xs"
  shows "filter (\<lambda>x. f (xs ! k) < f x) xs = drop (Suc k) xs"
proof -
  have low: "filter (\<lambda>x. f (xs ! k) < f x) (take (Suc k) xs) = []"
    unfolding filter_empty_conv
  proof (intro ballI)
    fix x
    assume "x \<in> set (take (Suc k) xs)"
    then obtain i where "i \<le> k" "x = xs ! i"
      using assms(2) by (auto simp: in_set_conv_nth less_Suc_eq_le)
    then show "\<not> f (xs ! k) < f x"
      using sorted_wrt_nth_less [OF assms(1), of i k] assms(2) by (cases "i = k") (auto dest: order.asym)
  qed
  have high: "filter (\<lambda>x. f (xs ! k) < f x) (drop (Suc k) xs) = drop (Suc k) xs"
    unfolding filter_id_conv
  proof (intro ballI)
    fix x
    assume "x \<in> set (drop (Suc k) xs)"
    then obtain i where "i < length xs - Suc k" "x = xs ! (Suc k + i)"
      by (auto simp: in_set_conv_nth)
    then show "f (xs ! k) < f x"
      using sorted_wrt_nth_less [OF assms(1), of k "Suc k + i"] assms(2) by simp
  qed
  have "filter (\<lambda>x. f (xs ! k) < f x) (take (Suc k) xs @ drop (Suc k) xs) = drop (Suc k) xs"
    by (simp only: filter_append low high append_Nil)
  then show ?thesis
    by simp
qed

section \<open>What one served batch holds\<close>

definition converted :: "externs \<Rightarrow> log_row \<Rightarrow> change \<Rightarrow> bool" where
  "converted X r c = (into_change X (lgr_row r) = Inr c)"

lemma converted_seq:
  assumes "converted X r c"
  shows "seq_get (chg_seq c) = crw_seq (lgr_row r)" "change_validate c = Inr ()"
    "1 \<le> seq_get (chg_seq c)" "seq_get (chg_seq c) \<le> SEQ_MAX"
    "cursor_new (seq_get (chg_seq c)) = Inr (Cursor (crw_seq (lgr_row r)))"
  using into_change_ok(1-4) [OF assms [unfolded converted_def]]
  by (auto simp: SEQ_MIN_def cursor_new_def)

lemma page_rows:
  assumes "read_page X fault sel limit = Inr pg"
  shows "list_all2 (converted X) (take (nat (sint limit)) sel) (pg_changes pg) \<and>
    (0 \<le> sint limit \<longrightarrow> (pg_more_beyond pg \<longleftrightarrow> nat (sint limit) < length sel))"
proof -
  have lim: "0 \<le> sint (limit + 1)" and f: "fault = None"
    using assms by (auto simp: read_page_def split: option.splits if_splits)
  have top: "sint limit < 2 ^ 63" "- (2 ^ 63) \<le> sint limit"
    using sint_lt [of limit] sint_ge [of limit] by simp_all
  have "sint limit < 2 ^ 63 - 1 \<Longrightarrow> sint (limit + 1) = sint limit + 1"
    by (rule sint_last_Suc)
  moreover have "sint limit \<noteq> 2 ^ 63 - 1"
  proof
    assume "sint limit = 2 ^ 63 - 1"
    then have "sint (limit + 1) = - (2 ^ 63)"
      by (simp add: sint_word_ariths)
    with lim show False by simp
  qed
  ultimately have suc: "sint (limit + 1) = sint limit + 1"
    using top by simp
  let ?kept = "if sint limit < 0 then take (nat (sint (limit + 1))) sel
      else take (nat (sint limit)) (take (nat (sint (limit + 1))) sel)"
  have kept: "?kept = take (nat (sint limit)) sel"
    using lim suc by (auto simp: min_def)
  have "collect_ok (map (\<lambda>r. into_change X (lgr_row r)) ?kept) = Inr (pg_changes pg)"
    and more: "pg_more_beyond pg = (int (length (take (nat (sint (limit + 1))) sel)) > sint limit)"
    using assms lim f by (auto simp: read_page_def Let_def map_ok_Inr)
  then have "list_all2 (converted X) (take (nat (sint limit)) sel) (pg_changes pg)"
    unfolding kept collect_ok_iff converted_def by simp
  moreover have "0 \<le> sint limit \<longrightarrow> (pg_more_beyond pg \<longleftrightarrow> nat (sint limit) < length sel)"
    unfolding more suc by (auto simp: min_def nat_add_distrib)
  ultimately show ?thesis
    by blast
qed

text \<open>The batch is a prefix of the rows that are left, and the cursor stands at its last row.\<close>

lemma serve_pull_spec:
  assumes "serve_pull X z rows scope limit w budget digest cur = Inr b"
  defines "sel \<equiv> log_query rows (scope_str scope) (sint (cursor_get cur)) (sint w)"
  shows "0 \<le> sint (cursor_get cur) \<and> (\<exists>n \<le> length sel.
    list_all2 (converted X) (take n sel) (bat_changes b) \<and> bat_scope b = scope \<and>
    bat_next_cursor b = (if n = 0 then cur else Cursor (crw_seq (lgr_row (sel ! (n - 1))))) \<and>
    (1 \<le> sint limit \<longrightarrow> (bat_has_more b \<longleftrightarrow> n < length sel) \<and> (sel \<noteq> [] \<longrightarrow> 0 < n)))"
proof -
  obtain pg where c0: "0 \<le> sint (cursor_get cur)" and pg: "read_page X None sel limit = Inr pg"
    and fill: "fill_batch X z scope cur (pg_changes pg) (pg_more_beyond pg) budget digest = Inr b"
    using assms(1) unfolding serve_pull_def sel_def
    by (auto simp: and_then_Inr changes_after_watermark_def split: if_splits)
  note rows = page_rows [OF pg]
  have len: "length (pg_changes pg) = min (length sel) (nat (sint limit))"
    using list_all2_lengthD [OF conjunct1 [OF rows]] by simp
  obtain n where n: "n \<le> length (pg_changes pg)" "bat_changes b = take n (pg_changes pg)"
    "n < length (pg_changes pg) \<longrightarrow> 0 < n"
    "bat_has_more b \<longleftrightarrow> n < length (pg_changes pg) \<or> pg_more_beyond pg" "bat_scope b = scope"
    "bat_next_cursor b = (if take n (pg_changes pg) = [] then cur
      else case cursor_new (seq_get (chg_seq (last (take n (pg_changes pg))))) of
        Inl _ \<Rightarrow> cur | Inr c \<Rightarrow> c)"
    using fill_batch_spec [OF fill] by blast
  have conv: "list_all2 (converted X) (take n sel) (take n (pg_changes pg))"
    using list_all2_takeI [OF conjunct1 [OF rows], of n] n(1) len by (simp add: min_absorb1)
  have "bat_next_cursor b = (if n = 0 then cur else Cursor (crw_seq (lgr_row (sel ! (n - 1)))))"
  proof (cases "n = 0")
    case False
    then have ne: "take n (pg_changes pg) \<noteq> []" and k: "n - 1 < length (take n sel)"
      using n(1) len by auto
    have "last (take n (pg_changes pg)) = pg_changes pg ! (n - 1)"
      using ne n(1) by (simp add: last_conv_nth min_def)
    moreover have "converted X (sel ! (n - 1)) (pg_changes pg ! (n - 1))"
      using list_all2_nthD [OF conv k] False by simp
    ultimately show ?thesis
      using n(6) ne False converted_seq(5) by (simp add: converted_seq(1))
  qed (use n(6) in simp)
  moreover have "(bat_has_more b \<longleftrightarrow> n < length sel) \<and> (sel \<noteq> [] \<longrightarrow> 0 < n)" if "1 \<le> sint limit"
    using that rows n(1,3,4) len by (cases "n < length (pg_changes pg)") auto
  ultimately show ?thesis
    using c0 conv n(1,2,5) len by (intro conjI exI [of _ n]) auto
qed

section \<open>The client accepts what is served\<close>

lemma sint_nonneg: "0 \<le> sint (v :: u64) \<Longrightarrow> sint v = uint v"
  unfolding uint_sint using sint_lt [of v] by (simp add: take_bit_int_eq_self)

lemma sint_less: "0 \<le> sint (a :: u64) \<Longrightarrow> 0 \<le> sint b \<Longrightarrow> a < b \<longleftrightarrow> sint a < sint b"
  by (simp add: sint_nonneg word_less_def)

text \<open>Converted rows keep the order of the log.\<close>

lemma converted_ordering:
  assumes "list_all2 (converted X) rows cs" and "sorted_wrt (\<lambda>a b. row_seq a < row_seq b) rows"
    and "0 \<le> sint c" and "\<forall>r \<in> set rows. sint c < row_seq r"
  shows "sorted_wrt seq_lt cs \<and> list_all change_wf cs \<and> list_all (above c None) cs"
  using assms(1,2,4)
proof (induction rows cs rule: list_all2_induct)
  case (Cons r rows ch cs)
  note ch = converted_seq [OF Cons.hyps(1)]
  have "seq_lt ch ch'" if "ch' \<in> set cs" for ch'
  proof -
    obtain r' where r': "r' \<in> set rows" "converted X r' ch'"
      using Cons.hyps(2) \<open>ch' \<in> set cs\<close> unfolding list_all2_conv_all_nth in_set_conv_nth by metis
    then have "row_seq r < row_seq r'" "0 \<le> row_seq r" "0 \<le> row_seq r'"
      using Cons.prems assms(3) by force+
    then show ?thesis
      using ch(1) converted_seq(1) [OF r'(2)] by (simp add: seq_lt_def sint_less)
  qed
  moreover have "c < seq_get (chg_seq ch)"
    using Cons.prems assms(3) ch(1) by (simp add: sint_less)
  ultimately show ?case
    using Cons.IH Cons.prems ch(2) by (simp add: above_def change_wf_def change_validate_iff)
qed simp

lemma served_batch_ordering:
  assumes "distinct (map row_seq rows)"
    and "serve_pull X z rows scope limit w budget digest cur = Inr b"
  shows "validate_ordering b (cursor_get cur) = Inr () \<and>
    cursor_get cur \<le> cursor_get (bat_next_cursor b) \<and> batch_try_from b = Inr b"
proof -
  define sel where "sel = log_query rows (scope_str scope) (sint (cursor_get cur)) (sint w)"
  obtain n where n: "0 \<le> sint (cursor_get cur)" "n \<le> length sel"
    "list_all2 (converted X) (take n sel) (bat_changes b)"
    "bat_next_cursor b = (if n = 0 then cur else Cursor (crw_seq (lgr_row (sel ! (n - 1)))))"
    using serve_pull_spec [OF assms(2)] unfolding sel_def by blast
  have above_cur: "sint (cursor_get cur) < row_seq r" if "r \<in> set sel" for r
    using that by (simp add: sel_def set_log_query)
  have strict: "sorted_wrt (\<lambda>a b. row_seq a < row_seq b) (take n sel)"
    using log_query_strict [OF assms(1)] unfolding sel_def by (rule sorted_wrt_take)
  have ord: "sorted_wrt seq_lt (bat_changes b)" "list_all change_wf (bat_changes b)"
    "list_all (above (cursor_get cur) None) (bat_changes b)"
    using converted_ordering [OF n(3) strict n(1)] above_cur by (auto dest: in_set_takeD)
  have len: "length (bat_changes b) = n"
    using list_all2_lengthD [OF n(3)] n(2) by simp
  have last: "bat_next_cursor b = Cursor (seq_get (chg_seq (last (bat_changes b))))" if "bat_changes b \<noteq> []"
  proof -
    have "converted X (sel ! (n - 1)) (bat_changes b ! (n - 1))"
      using list_all2_nthD [OF n(3), of "n - 1"] that len n(2) by auto
    moreover have "0 < n"
      using that len by auto
    ultimately show ?thesis
      using that len n(4) by (simp add: last_conv_nth converted_seq(1))
  qed
  have "seq_get (chg_seq c) \<le> seq_get (chg_seq (last (bat_changes b)))" if "c \<in> set (bat_changes b)" for c
    using that ord(1) by (cases "bat_changes b" rule: rev_cases) (auto simp: sorted_wrt_append seq_lt_def)
  then have top: "seq_get (chg_seq c) \<le> cursor_get (bat_next_cursor b)" if "c \<in> set (bat_changes b)" for c
    using that last by (cases "bat_changes b = []") auto
  have "cursor_get cur \<le> cursor_get (bat_next_cursor b)"
  proof (cases "n = 0")
    case False
    then have "sel ! (n - 1) \<in> set sel"
      using n(2) by (intro nth_mem) simp
    then have "cursor_get cur < crw_seq (lgr_row (sel ! (n - 1)))"
      using above_cur n(1) by (subst sint_less) force+
    then show ?thesis
      using n(4) False by simp
  qed (simp add: n(4))
  moreover have "validate_ordering b (cursor_get cur) = Inr ()"
    using ord top by (auto simp: validate_ordering_ok above_def list_all_iff)
  moreover have "batch_try_from b = Inr b"
    using ord(1) batch_ordering_iff [of b] by (simp add: batch_try_from_def)
  ultimately show ?thesis
    by blast
qed

section \<open>The pages together are the log\<close>

definition encodes_all :: "externs \<Rightarrow> bool" where
  "encodes_all X = (\<forall>v. is_ok (json_to_vec X v))"

definition readable :: "externs \<Rightarrow> log_row list \<Rightarrow> bool" where
  "readable X rows = list_all (\<lambda>r. is_ok (into_change X (lgr_row r))) rows"

lemma is_ok_iff: "is_ok r \<longleftrightarrow> (\<exists>x. r = Inr x)"
  by (auto simp: is_ok_def split: sum.splits)

lemma readable_converted: "readable X rows \<Longrightarrow> \<exists>cs. list_all2 (converted X) rows cs"
proof (induction rows)
  case (Cons r rows)
  then obtain c cs where "into_change X (lgr_row r) = Inr c" "list_all2 (converted X) rows cs"
    by (auto simp: readable_def is_ok_iff)
  then show ?case
    by (intro exI [of _ "c # cs"]) (simp add: converted_def [of X r c])
qed auto

lemma encodes_all_vec:
  assumes "encodes_all X"
  shows "\<exists>bs. canonical_to_vec X tv v = Inr bs"
proof -
  obtain bs where "json_to_vec X (tv v) = Inr bs"
    using assms unfolding encodes_all_def is_ok_iff by blast
  then show ?thesis
    by (simp add: canonical_to_vec_def map_err_def)
qed

lemma fill_batch_total:
  assumes "encodes_all X"
  shows "\<exists>b. fill_batch X z scope cur cs beyond budget digest = Inr b"
proof -
  have "list_all (change_encodable X) cs"
    unfolding list_all_iff change_encodable_def is_ok_iff by (intro ballI encodes_all_vec [OF assms])
  moreover have nil: "batch_bytes X [] = [byte_open, byte_close]"
    by (simp add: batch_bytes_def array_bytes_def)
  ultimately obtain chosen buf where
    fill: "fill_loop X z budget cs [] [byte_open, byte_close] = Inr (chosen, buf)"
    using fill_loop_total [of X cs z budget "[]"] unfolding nil by blast
  obtain bs where sum: "canonical_to_vec X changes_to_value chosen = Inr bs"
    using encodes_all_vec [OF assms, of changes_to_value chosen] by blast
  show ?thesis
    unfolding fill_batch_def fill and_then_def sum.case prod.case Let_def batch_checksum_def
      checksum_def sum map_ok_def map_err_def by blast
qed

lemma serve_pull_total:
  assumes "encodes_all X" and "1 \<le> sint limit" "sint limit < 2 ^ 63 - 1" and "0 \<le> sint (cursor_get cur)"
    and "readable X (log_query rows (scope_str scope) (sint (cursor_get cur)) (sint w))"
  shows "\<exists>b. serve_pull X z rows scope limit w budget digest cur = Inr b"
proof -
  let ?sel = "log_query rows (scope_str scope) (sint (cursor_get cur)) (sint w)"
  have "sint (limit + 1) = sint limit + 1"
    using assms(3) by (rule sint_last_Suc)
  then have lim: "\<not> sint (limit + 1) < 0" "\<not> sint limit < 0"
    using assms(2) by simp_all
  let ?kept = "take (nat (sint limit)) (take (nat (sint (limit + 1))) ?sel)"
  have "readable X ?kept"
    using assms(5) by (auto simp: readable_def list_all_iff dest!: in_set_takeD)
  then obtain cs where "list_all2 (converted X) ?kept cs"
    using readable_converted by blast
  then have "collect_ok (map (\<lambda>r. into_change X (lgr_row r)) ?kept) = Inr cs"
    unfolding collect_ok_iff converted_def .
  then have "\<exists>pg. changes_after_watermark X None rows scope (cursor_get cur) limit w = Inr pg"
    using assms(4) lim by (simp add: changes_after_watermark_def read_page_def Let_def map_ok_def)
  then show ?thesis
    using fill_batch_total [OF assms(1)] by (auto simp: serve_pull_def and_then_def)
qed

lemma pull_all_delivers:
  fixes z :: compressor and scope :: scope_id and w :: u64 and budget :: nat and digest :: hex_string
  assumes "encodes_all X" and "1 \<le> sint limit" "sint limit < 2 ^ 63 - 1" and "distinct (map row_seq rows)"
  defines "serve \<equiv> serve_pull X z rows scope limit w budget digest"
  shows "0 \<le> sint (cursor_get cur) \<Longrightarrow>
    readable X (log_query rows (scope_str scope) (sint (cursor_get cur)) (sint w)) \<Longrightarrow>
    length (log_query rows (scope_str scope) (sint (cursor_get cur)) (sint w)) < fuel \<Longrightarrow>
    \<exists>bs. pull_all serve fuel cur = Some (Inr bs) \<and>
      list_all2 (converted X) (log_query rows (scope_str scope) (sint (cursor_get cur)) (sint w))
        (concat (map bat_changes bs)) \<and>
      (\<exists>front final. bs = front @ [final] \<and> list_all bat_has_more front \<and> \<not> bat_has_more final)"
proof (induction fuel arbitrary: cur)
  case (Suc fuel)
  define sel where "sel = log_query rows (scope_str scope) (sint (cursor_get cur)) (sint w)"
  obtain b where b: "serve cur = Inr b"
    using serve_pull_total [OF assms(1-3) Suc.prems(1,2)] unfolding serve_def by blast
  obtain n where n: "n \<le> length sel" "list_all2 (converted X) (take n sel) (bat_changes b)"
    "bat_next_cursor b = (if n = 0 then cur else Cursor (crw_seq (lgr_row (sel ! (n - 1)))))"
    "bat_has_more b \<longleftrightarrow> n < length sel" "sel \<noteq> [] \<longrightarrow> 0 < n"
    using serve_pull_spec [OF b [unfolded serve_def]] assms(2) unfolding sel_def by blast
  show ?case
  proof (cases "n < length sel")
    case False
    with n have "pull_all serve (Suc fuel) cur = Some (Inr [b])" "take n sel = sel" "\<not> bat_has_more b"
      using b by simp_all
    with n(2) show ?thesis
      by (intro exI [of _ "[b]"]) (simp add: sel_def)
  next
    case True
    then have n0: "0 < n"
      using n(5) by auto
    let ?next = "bat_next_cursor b"
    have next_seq: "sint (cursor_get ?next) = row_seq (sel ! (n - 1))"
      using n(3) n0 by simp
    have mem: "sel ! (n - 1) \<in> set sel"
      using True by simp
    then have up: "sint (cursor_get cur) \<le> sint (cursor_get ?next)"
      unfolding next_seq by (simp add: sel_def set_log_query)
    have "log_query rows (scope_str scope) (sint (cursor_get ?next)) (sint w) =
        filter (\<lambda>r. row_seq (sel ! (n - 1)) < row_seq r) sel"
      using log_query_above [OF up] unfolding next_seq sel_def .
    also have "\<dots> = drop (Suc (n - 1)) sel"
      using True unfolding sel_def by (intro filter_above_nth log_query_strict assms(4)) simp
    finally have rest: "log_query rows (scope_str scope) (sint (cursor_get ?next)) (sint w) = drop n sel"
      using n0 by simp
    have "\<exists>bs. pull_all serve fuel ?next = Some (Inr bs) \<and>
        list_all2 (converted X) (drop n sel) (concat (map bat_changes bs)) \<and>
        (\<exists>front final. bs = front @ [final] \<and> list_all bat_has_more front \<and> \<not> bat_has_more final)"
    proof (rule Suc.IH [of ?next, unfolded rest])
      show "0 \<le> sint (cursor_get ?next)"
        using up Suc.prems(1) by simp
      show "readable X (drop n sel)"
        using Suc.prems(2) unfolding sel_def readable_def by (auto simp: list_all_iff dest: in_set_dropD)
      show "length (drop n sel) < fuel"
        using Suc.prems(3) n0 True unfolding sel_def by simp
    qed
    then obtain bs front final where bs: "pull_all serve fuel ?next = Some (Inr bs)"
      "list_all2 (converted X) (drop n sel) (concat (map bat_changes bs))"
      "bs = front @ [final]" "list_all bat_has_more front" "\<not> bat_has_more final"
      by blast
    have "list_all2 (converted X) (take n sel @ drop n sel) (concat (map bat_changes (b # bs)))"
      using list_all2_appendI [OF n(2) bs(2)] by simp
    moreover have "pull_all serve (Suc fuel) cur = Some (Inr (b # bs))"
      using b bs(1) n(4) True by (simp add: map_ok_def)
    moreover have "b # bs = (b # front) @ [final] \<and> list_all bat_has_more (b # front)"
      using bs(3,4) n(4) True by simp
    ultimately show ?thesis
      using bs(5) unfolding sel_def [symmetric] append_take_drop_id by blast
  qed
qed simp

text \<open>A page covers every selected row up to its last change.\<close>

lemma page_covers:
  assumes "read_page X fault sel limit = Inr pg" and "pg_changes pg \<noteq> []"
    and strict: "sorted_wrt (\<lambda>a b. row_seq a < row_seq b) sel"
  defines "final \<equiv> sint (seq_get (chg_seq (last (pg_changes pg))))"
  shows "final \<in> row_seq ` set sel"
    and "r \<in> set sel \<Longrightarrow> row_seq r \<le> final \<Longrightarrow> \<exists>c \<in> set (pg_changes pg). converted X r c"
proof -
  define m where "m = length (pg_changes pg)"
  have rows: "list_all2 (converted X) (take (nat (sint limit)) sel) (pg_changes pg)"
    using page_rows [OF assms(1)] by blast
  have m: "0 < m" "m = min (length sel) (nat (sint limit))"
    using list_all2_lengthD [OF rows] assms(2) by (simp_all add: m_def)
  have conv: "converted X (sel ! i) (pg_changes pg ! i)" if "i < m" for i
    using list_all2_nthD [OF rows, of i] that m(2) by simp
  have final: "final = row_seq (sel ! (m - 1))"
    using conv [of "m - 1"] m(1) assms(2) by (simp add: final_def last_conv_nth m_def converted_seq(1))
  have "m - 1 < length sel"
    using m by linarith
  then show "final \<in> row_seq ` set sel"
    using final by simp
  assume r: "r \<in> set sel" "row_seq r \<le> final"
  then obtain i where i: "i < length sel" "sel ! i = r"
    by (auto simp: in_set_conv_nth)
  have "\<not> m - 1 < i"
    using sorted_wrt_nth_less [OF strict, of "m - 1" i] i r(2) final by force
  then have "i < m"
    using m(1) by simp
  then show "\<exists>c \<in> set (pg_changes pg). converted X r c"
    using conv i(2) unfolding m_def by (metis nth_mem)
qed

end
