(* ===== verification/Server_Bootstrap.thy ===== *)
theory Server_Bootstrap
  imports Server_Paging
begin

text \<open>
  Compaction (\<open>bootstrap_after\<close> of \<open>credsync-server/src/db.rs\<close>): what a device holds after replaying
  the compacted pages of a scope, read at different instants, is what replaying the whole log up to
  the last of those instants gives. This is where the asymmetry of tombstones comes from.
\<close>

section \<open>Replaying a log\<close>

definition row_of :: "log_row \<Rightarrow> string \<times> string" where
  "row_of r = (crw_entity (lgr_row r), crw_entity_id (lgr_row r))"

text \<open>What a row's latest change leaves of it.\<close>

definition left_by :: "log_row \<Rightarrow> log_row option" where
  "left_by r = (if crw_op (lgr_row r) = ''delete'' then None else Some r)"

definition replay :: "log_row list \<Rightarrow> (string \<times> string \<rightharpoonup> log_row) \<Rightarrow> (string \<times> string \<rightharpoonup> log_row)" where
  "replay rows m = fold (\<lambda>r m. m(row_of r := left_by r)) rows m"

lemma replay_append: "replay (xs @ ys) m = replay ys (replay xs m)"
  by (simp add: replay_def)

lemma replay_other: "k \<notin> row_of ` set xs \<Longrightarrow> replay xs m k = m k"
  by (induction xs arbitrary: m) (auto simp: replay_def)

text \<open>A row is what its latest change in the list leaves.\<close>

lemma replay_latest:
  assumes "r \<in> set xs" and "sorted_wrt (\<lambda>a b. row_seq a < row_seq b) xs"
    and "\<And>r'. r' \<in> set xs \<Longrightarrow> row_of r' = row_of r \<Longrightarrow> row_seq r' \<le> row_seq r"
  shows "replay xs m (row_of r) = left_by r"
proof -
  obtain ys zs where xs: "xs = ys @ r # zs"
    using assms(1) by (auto simp: in_set_conv_decomp)
  have "row_of r \<notin> row_of ` set zs"
    using assms(2,3) unfolding xs by (fastforce simp: sorted_wrt_append)
  then show ?thesis
    unfolding xs replay_append by (simp add: replay_def [of "r # zs"] replay_def [symmetric] replay_other)
qed

section \<open>The compacted set\<close>

definition latest_at :: "log_row list \<Rightarrow> string \<Rightarrow> int \<Rightarrow> log_row \<Rightarrow> bool" where
  "latest_at rows scope w r \<longleftrightarrow>
     r \<in> set rows \<and> lgr_scope r = scope \<and> row_seq r \<le> w \<and>
     (\<forall>r' \<in> set rows. lgr_scope r' = scope \<and> row_seq r' \<le> w \<and> row_of r' = row_of r \<longrightarrow>
        row_seq r' \<le> row_seq r)"

lemma latest_at_unique:
  assumes "distinct (map row_seq rows)" and "latest_at rows scope w r" "latest_at rows scope w r'"
    and "row_of r' = row_of r"
  shows "r' = r"
proof -
  have "row_seq r' = row_seq r"
    using assms(2-4) unfolding latest_at_def by (metis order.antisym)
  then show ?thesis
    using assms(1-3) unfolding latest_at_def by (metis distinct_map inj_onD)
qed

lemma latest_at_exists:
  assumes "r0 \<in> set rows" "lgr_scope r0 = scope" "row_seq r0 \<le> w"
  shows "\<exists>r. latest_at rows scope w r \<and> row_of r = row_of r0"
proof -
  let ?S = "{r \<in> set rows. lgr_scope r = scope \<and> row_seq r \<le> w \<and> row_of r = row_of r0}"
  have "finite (row_seq ` ?S)" "row_seq ` ?S \<noteq> {}"
    using assms by auto
  then obtain r where "r \<in> ?S" "row_seq r = Max (row_seq ` ?S)"
    by (metis (mono_tags, lifting) Max_in imageE)
  moreover have "row_seq r' \<le> Max (row_seq ` ?S)" if "r' \<in> ?S" for r'
    using that by (intro Max_ge) auto
  ultimately show ?thesis
    unfolding latest_at_def by (intro exI [of _ r]) auto
qed

lemma set_bootstrap_query:
  "r \<in> set (bootstrap_query rows scope after w) \<longleftrightarrow>
     latest_at rows scope w r \<and> after < row_seq r \<and> (crw_op (lgr_row r) \<noteq> ''delete'' \<or> 0 < after)"
  by (auto simp: bootstrap_query_def Let_def is_latest_def latest_at_def list_all_iff row_of_def)

text \<open>The rows a device that stopped at \<open>a\<close>, at watermark \<open>w1\<close>, and resumed at watermark \<open>w2\<close> has replayed.\<close>

definition bootstrapped :: "log_row list \<Rightarrow> string \<Rightarrow> int \<Rightarrow> int \<Rightarrow> int \<Rightarrow> log_row list" where
  "bootstrapped rows scope a w1 w2 =
     filter (\<lambda>r. row_seq r \<le> a) (bootstrap_query rows scope 0 w1) @ bootstrap_query rows scope a w2"

lemma replay_constant:
  "r \<in> set xs \<Longrightarrow> (\<And>r'. r' \<in> set xs \<Longrightarrow> row_of r' = row_of r \<Longrightarrow> r' = r) \<Longrightarrow>
   replay xs m (row_of r) = left_by r"
proof (induction xs rule: rev_induct)
  case (snoc x xs)
  show ?case
  proof (cases "row_of x = row_of r")
    case True
    with snoc.prems(2) have "x = r" by simp
    then show ?thesis by (simp add: replay_append) (simp add: replay_def)
  next
    case False
    with snoc show ?thesis by (auto simp: replay_append) (auto simp: replay_def)
  qed
qed simp

lemma bootstrap_resumes:
  assumes seqs: "distinct (map row_seq rows)" "\<forall>r \<in> set rows. 0 < row_seq r"
    and order: "0 < a" "a \<le> w1" "w1 \<le> w2"
  shows "replay (bootstrapped rows scope a w1 w2) Map.empty = replay (log_query rows scope 0 w2) Map.empty"
proof
  fix k
  let ?A = "filter (\<lambda>r. row_seq r \<le> a) (bootstrap_query rows scope 0 w1)"
  let ?B = "bootstrap_query rows scope a w2"
  show "replay (bootstrapped rows scope a w1 w2) Map.empty k = replay (log_query rows scope 0 w2) Map.empty k"
  proof (cases "\<exists>r. latest_at rows scope w2 r \<and> row_of r = k")
    case False
    then have none: "row_of r \<noteq> k" if "r \<in> set rows" "lgr_scope r = scope" "row_seq r \<le> w2" for r
      using latest_at_exists [OF that] by metis
    have "k \<notin> row_of ` set (log_query rows scope 0 w2)"
    proof
      assume "k \<in> row_of ` set (log_query rows scope 0 w2)"
      then obtain r where "row_of r = k" "r \<in> set (log_query rows scope 0 w2)"
        by blast
      with none [of r] show False
        by (simp add: set_log_query)
    qed
    moreover have "k \<notin> row_of ` set (?A @ ?B)"
      using none order(3) by (fastforce simp: set_bootstrap_query latest_at_def)
    ultimately show ?thesis
      by (simp add: bootstrapped_def replay_other)
  next
    case True
    then obtain r where r: "latest_at rows scope w2 r" "row_of r = k"
      by blast
    have rhs: "replay (log_query rows scope 0 w2) Map.empty k = left_by r"
      unfolding r(2) [symmetric] using r(1) seqs
      by (intro replay_latest log_query_strict) (auto simp: set_log_query latest_at_def)
    have B: "r' = r" if "r' \<in> set ?B" "row_of r' = k" for r'
      using that latest_at_unique [OF seqs(1) r(1), of r'] r(2) by (simp add: set_bootstrap_query)
    show ?thesis
    proof (cases "a < row_seq r")
      case True
      then have "r \<in> set ?B"
        using r(1) order(1) by (simp add: set_bootstrap_query)
      then have "replay ?B m (row_of r) = left_by r" for m
        by (rule replay_constant) (use B r(2) in simp)
      then show ?thesis
        using rhs r(2) by (simp add: bootstrapped_def replay_append)
    next
      case False
      then have low: "row_seq r \<le> a"
        by simp
      have w1: "latest_at rows scope w1 r"
        using r(1) low order(2,3) unfolding latest_at_def by force
      have A: "r' = r" if "r' \<in> set ?A" "row_of r' = k" for r'
        using that latest_at_unique [OF seqs(1) w1, of r'] r(2) by (simp add: set_bootstrap_query)
      have "k \<notin> row_of ` set ?B"
        using B low by (force simp: set_bootstrap_query)
      then have "replay (bootstrapped rows scope a w1 w2) Map.empty k = replay ?A Map.empty k"
        by (simp add: bootstrapped_def replay_append replay_other)
      also have "\<dots> = left_by r"
      proof (cases "crw_op (lgr_row r) = ''delete''")
        case True
        then have "k \<notin> row_of ` set ?A"
          using A by (auto simp: set_bootstrap_query)
        then show ?thesis
          using True by (simp add: replay_other left_by_def)
      next
        case False
        then have "r \<in> set ?A"
          using w1 low r(1) seqs(2) by (auto simp: set_bootstrap_query latest_at_def)
        then show ?thesis
          unfolding r(2) [symmetric] by (rule replay_constant) (use A r(2) in simp)
      qed
      finally show ?thesis
        using rhs by simp
    qed
  qed
qed

text \<open>A compacted page is final too: rows that commit later lie above its watermark.\<close>

lemma bootstrap_query_stable:
  assumes "log_run True s s'" and "log_inv s" and "w \<le> sint (lg_watermark s)"
  shows "bootstrap_query (lg_rows s') scope after w = bootstrap_query (lg_rows s) scope after w"
proof -
  obtain new where new: "lg_rows s' = lg_rows s @ new" "\<forall>r \<in> set new. sint (lg_watermark s) < row_seq r"
    using log_run_rows [OF assms(1,2)] by blast
  then have "filter (\<lambda>r. lgr_scope r = scope \<and> row_seq r \<le> w) new = []"
    using assms(3) by (force simp: filter_empty_conv)
  with new(1) show ?thesis
    by (simp add: bootstrap_query_def)
qed

text \<open>Every position the sequence handed out is positive.\<close>

lemma log_step_positive:
  assumes "log_step d s s'" and "0 \<le> sint (lg_last s)" "\<forall>x \<in># all_seqs s. 0 < x" "bt_wf (lg_writers s)"
  shows "0 \<le> sint (lg_last s') \<and> (\<forall>x \<in># all_seqs s'. 0 < x)"
  using assms(1)
proof cases
  case (step_begin t)
  then show ?thesis
    using assms by (auto simp: begin_writer_def all_seqs_def open_seqs_new)
next
  case (step_lock t)
  then obtain w where w: "bt_get (lg_writers s) t = Some w"
    "s' = s\<lparr>lg_writers := bt_insert t (w\<lparr>wr_locked := True\<rparr>) (lg_writers s)\<rparr>"
    by (auto simp: lock_for_write_def split: option.splits if_splits)
  then have "all_seqs s' = all_seqs s"
    using open_seqs_replace [OF assms(4) w(1), of "w\<lparr>wr_locked := True\<rparr>"] by (simp add: all_seqs_def)
  with w(2) assms(2,3) show ?thesis by simp
next
  case (step_insert t n sq w)
  then obtain w0 where w: "bt_get (lg_writers s) t = Some w0"
    and next_seq: "sint (lg_last s + 1) = sint (lg_last s) + 1"
    and s': "s' = s\<lparr>lg_last := lg_last s + 1,
      lg_writers := bt_insert t (w0\<lparr>wr_rows := wr_rows w0 @ [inserted_row (lg_last s + 1) n]\<rparr>) (lg_writers s)\<rparr>"
    by (auto simp: insert_change_def Let_def sint_last_Suc split: option.splits if_splits)
  have "all_seqs s' = add_mset (sint (lg_last s) + 1) (all_seqs s)"
    using open_seqs_replace [OF assms(4) w, of "w0\<lparr>wr_rows := wr_rows w0 @ [inserted_row (lg_last s + 1) n]\<rparr>"]
    by (simp add: all_seqs_def s' inserted_row_def next_seq)
  then show ?thesis
    using assms(2,3) by (auto simp: s' next_seq)
next
  case (step_insert_fails t w)
  have "sint (lg_last s + 1) = sint (lg_last s) + 1"
    using step_insert_fails(4) by (rule sint_last_Suc)
  then show ?thesis
    using assms(2,3) open_seqs_remove [of t "lg_writers s"] unfolding step_insert_fails(1)
    by (auto simp: rollback_writer_def all_seqs_def dest: mset_subset_eqD)
next
  case (step_commit t)
  show ?thesis
  proof (cases "bt_get (lg_writers s) t")
    case None
    with step_commit assms(2,3) show ?thesis by (simp add: commit_writer_def)
  next
    case (Some w)
    then have "all_seqs s' \<subseteq># all_seqs s"
      using open_seqs_remove_rows [OF Some] step_commit
      by (simp add: commit_writer_def all_seqs_def add.assoc add.commute)
    with Some step_commit assms(2,3) show ?thesis
      by (auto simp: commit_writer_def dest: mset_subset_eqD)
  qed
next
  case (step_rollback t)
  then show ?thesis
    using assms(2,3) open_seqs_remove [of t "lg_writers s"]
    by (auto simp: rollback_writer_def all_seqs_def dest: mset_subset_eqD)
qed (use assms(2,3) in \<open>auto simp: reader_lock_def reader_record_def reader_commit_def reader_rollback_def
      all_seqs_def split: if_splits\<close>)

lemma log_run_positive:
  "log_run d log_empty s \<Longrightarrow> 0 \<le> sint (lg_last s) \<and> (\<forall>x \<in># all_seqs s. 0 < x) \<and> seq_inv s"
proof (induction rule: log_run.induct)
  case run_refl
  then show ?case
    using log_empty_seq_inv by (simp add: log_empty_def all_seqs_def)
next
  case (run_step s' s'')
  then show ?case
    using log_step_positive [OF run_step.hyps(2)] log_step_seq_inv [OF run_step.hyps(2)]
    by (simp add: seq_inv_def)
qed

lemma log_run_rows_positive: "log_run d log_empty s \<Longrightarrow> r \<in> set (lg_rows s) \<Longrightarrow> 0 < row_seq r"
  using log_run_positive [of d s] by (force simp: all_seqs_def)

end
