(* ===== verification/Server_Dedupe.thy ===== *)
theory Server_Dedupe
  imports Server_Pull Proto_Facts
begin

text \<open>
  Command dedupe and host forwarding (\<open>credsync-server/src/dedupe.rs\<close>, \<open>host.rs\<close>, and the table
  \<open>sync_command_results\<close> of \<open>migrations/0001_sync_tables.sql\<close>). The rule \<open>decide\<close> is a pure function;
  around it, each SQL statement is a function of the table and of its fate, and \<open>forward\<close> is given
  both as the sequence one session runs and, statement by statement, as the steps of any number of
  concurrent sessions.
\<close>

section \<open>The dedupe rule\<close>

datatype decision =
    Fresh
  | Replay command_result
  | MutatedBody string string

record recorded =
  rcd_checksum :: string
  rcd_result :: command_result

definition payload_to_value :: "payload \<Rightarrow> json" where
  "payload_to_value p = payload_value p"

definition decide :: "externs \<Rightarrow> command \<Rightarrow> recorded option \<Rightarrow> server_error + decision" where
  "decide X command rcd =
     (case payload_checksum X payload_to_value (cmd_payload command) of
        Inl _ \<Rightarrow> Inl (Corrupt ''a submitted payload could not be encoded for checksumming'')
      | Inr submitted \<Rightarrow>
          (case rcd of
             None \<Rightarrow> Inr Fresh
           | Some r \<Rightarrow>
               if rcd_checksum r \<noteq> hex_str submitted
               then Inr (MutatedBody (rcd_checksum r) (hex_str submitted))
               else Inr (Replay (rcd_result r))))"

section \<open>Counters\<close>

record dedupe_stats =
  dst_fresh :: u64
  dst_replays :: u64
  dst_mutated :: u64

definition stats_total :: "dedupe_stats \<Rightarrow> u64" where
  "stats_total s = dst_fresh s + dst_replays s + dst_mutated s"

section \<open>The table\<close>

record result_row =
  rrw_command_id :: string
  rrw_checksum :: string
  rrw_status :: string
  rrw_reason :: "string option"
  rrw_server_seq :: "u64 option"
  rrw_scope :: string

type_synonym results_table = "result_row list"

text \<open>A statement works, fails, or takes effect without its answer reaching the caller.\<close>

datatype sql_fate = SqlOk | SqlFailed string | SqlLost string

definition select_result :: "results_table \<Rightarrow> string \<Rightarrow> result_row option" where
  "select_result tbl i = find (\<lambda>r. rrw_command_id r = i) tbl"

definition transpose_opt :: "('e + 'a) option \<Rightarrow> 'e + 'a option" where
  "transpose_opt v = (case v of None \<Rightarrow> Inr None | Some r \<Rightarrow> map_ok Some r)"

definition read_status :: "string \<Rightarrow> server_error + status" where
  "read_status s =
     (if s = ''applied'' then Inr Applied
      else if s = ''rejected'' then Inr Rejected
      else if s = ''superseded'' then Inr Superseded
      else Inl (Corrupt (''sync_command_results.status is '' @ quoted s)))"

definition read_server_seq :: "u64 \<Rightarrow> server_error + seq" where
  "read_server_seq s =
     (case u64_try_from s of
        None \<Rightarrow> Inl (Corrupt (''sync_command_results.server_seq '' @ show_signed s @ '' is negative''))
      | Some v \<Rightarrow> map_err ServerProtocol (seq_new v))"

definition read_result :: "command_id \<Rightarrow> result_row \<Rightarrow> server_error + command_result" where
  "read_result i row =
     and_then (read_status (rrw_status row)) (\<lambda>status.
     and_then (map_err ServerProtocol (transpose_opt (map_option reason_new (rrw_reason row)))) (\<lambda>reason.
     and_then (transpose_opt (map_option read_server_seq (rrw_server_seq row))) (\<lambda>sq.
       (let result = \<lparr>res_id = i, res_status = status, res_reason = reason, res_server_seq = sq\<rparr>
        in and_then (map_err ServerProtocol (command_result_validate result)) (\<lambda>_. Inr result)))))"

definition classify ::
  "externs \<Rightarrow> sql_fate \<Rightarrow> results_table \<Rightarrow> command \<Rightarrow> server_error + decision" where
  "classify X fate tbl command =
     (case fate of
        SqlFailed d \<Rightarrow> Inl (Database d)
      | SqlLost d \<Rightarrow> Inl (Database d)
      | SqlOk \<Rightarrow>
          (case select_result tbl (command_id_to_string (cmd_id command)) of
             None \<Rightarrow> decide X command None
           | Some row \<Rightarrow>
               and_then (read_result (cmd_id command) row) (\<lambda>result.
                 decide X command (Some \<lparr>rcd_checksum = rrw_checksum row, rcd_result = result\<rparr>))))"

text \<open>The check constraints of \<open>sync_command_results\<close>; the foreign key is a set of positions.\<close>

definition results_checks :: "result_row \<Rightarrow> bool" where
  "results_checks r =
     (length (rrw_checksum r) = 32 \<and> rrw_status r \<in> {''applied'', ''rejected'', ''superseded''} \<and>
      \<not> (rrw_status r = ''rejected'' \<and> rrw_reason r = None))"

text \<open>\<open>INSERT ... ON CONFLICT (command_id) DO NOTHING\<close>.\<close>

definition insert_statement ::
  "(u64 \<Rightarrow> bool) \<Rightarrow> result_row \<Rightarrow> results_table \<Rightarrow> (string + nat) \<times> results_table" where
  "insert_statement fk r tbl =
     (if \<not> results_checks r then (Inl ''new row violates check constraint'', tbl)
      else if list_ex (\<lambda>r'. rrw_command_id r' = rrw_command_id r) tbl then (Inr 0, tbl)
      else if \<not> (case rrw_server_seq r of None \<Rightarrow> True | Some s \<Rightarrow> fk s)
      then (Inl ''insert violates foreign key constraint'', tbl)
      else (Inr 1, tbl @ [r]))"

definition run_insert ::
  "(u64 \<Rightarrow> bool) \<Rightarrow> sql_fate \<Rightarrow> result_row \<Rightarrow> results_table \<Rightarrow> (server_error + nat) \<times> results_table" where
  "run_insert fk fate r tbl =
     (case fate of
        SqlFailed d \<Rightarrow> (Inl (Database d), tbl)
      | SqlLost d \<Rightarrow> (Inl (Database d), snd (insert_statement fk r tbl))
      | SqlOk \<Rightarrow> (map_err Database (fst (insert_statement fk r tbl)), snd (insert_statement fk r tbl)))"

definition status_text :: "status \<Rightarrow> string" where
  "status_text s = (case s of Applied \<Rightarrow> ''applied'' | Rejected \<Rightarrow> ''rejected'' | Superseded \<Rightarrow> ''superseded'')"

text \<open>The row \<open>record\<close> writes: checksum, then \<open>i64::try_from\<close> of the position.\<close>

definition row_to_record :: "externs \<Rightarrow> command \<Rightarrow> command_result \<Rightarrow> server_error + result_row" where
  "row_to_record X command result =
     (case payload_checksum X payload_to_value (cmd_payload command) of
        Inl _ \<Rightarrow> Inl (Corrupt ''a payload could not be encoded for checksumming'')
      | Inr digest \<Rightarrow>
          and_then (transpose_opt (map_option (\<lambda>s.
              ok_or (Corrupt ''server_seq does not fit a bigint'') (u64_try_from (seq_get s)))
              (res_server_seq result))) (\<lambda>sq.
            Inr \<lparr>rrw_command_id = command_id_to_string (cmd_id command), rrw_checksum = hex_str digest,
                 rrw_status = status_text (res_status result),
                 rrw_reason = map_option reason_str (res_reason result), rrw_server_seq = sq,
                 rrw_scope = scope_str (cmd_scope command)\<rparr>))"

text \<open>What \<open>record\<close> makes of the second look-up, after a lost insert race.\<close>

definition lost_race :: "command \<Rightarrow> server_error + decision \<Rightarrow> server_error + command_result" where
  "lost_race command d =
     and_then d (\<lambda>d. case d of
        Replay existing \<Rightarrow> Inr existing
      | MutatedBody rcd submitted \<Rightarrow>
          Inl (Corrupt (''command '' @ command_id_to_string (cmd_id command) @
            '' lost an insert race to a record with checksum '' @ rcd @ '', but this '' @
            ''submission'' @ [CHR 0x27] @ ''s payload hashes to '' @ submitted))
      | Fresh \<Rightarrow>
          Inl (Corrupt (''command '' @ command_id_to_string (cmd_id command) @
            '' lost an insert race and then found no record at all'')))"

definition record_result ::
  "externs \<Rightarrow> (u64 \<Rightarrow> bool) \<Rightarrow> sql_fate \<Rightarrow> sql_fate \<Rightarrow> results_table \<Rightarrow> command \<Rightarrow> command_result \<Rightarrow>
   (server_error + command_result) \<times> results_table" where
  "record_result X fk insert_fate select_fate tbl command result =
     (case row_to_record X command result of
        Inl e \<Rightarrow> (Inl e, tbl)
      | Inr row \<Rightarrow>
          (case run_insert fk insert_fate row tbl of
             (Inl e, tbl') \<Rightarrow> (Inl e, tbl')
           | (Inr n, tbl') \<Rightarrow>
               if n = 1 then (Inr result, tbl')
               else (lost_race command (classify X select_fate tbl' command), tbl')))"

definition mutated_reason :: reason where
  "mutated_reason =
     (case reason_new ''This request could not be verified. Please try again.'' of
        Inr r \<Rightarrow> r
      | Inl _ \<Rightarrow> undefined)"

section \<open>The host\<close>

datatype host_outcome = HostApplied seq | HostRejected reason | HostSuperseded

datatype host_error =
    HostTimeout
  | HostStatus u16
  | HostUnreachable string
  | HostMalformed string

fun host_error_display :: "host_error \<Rightarrow> string" where
  "host_error_display HostTimeout = ''the host did not answer in time''"
| "host_error_display (HostStatus code) = ''the host answered with status '' @ show_nat (unat code)"
| "host_error_display (HostUnreachable detail) = ''the host was unreachable: '' @ detail"
| "host_error_display (HostMalformed detail) =
     ''the host'' @ [CHR 0x27] @ ''s answer was unreadable: '' @ detail"

datatype forwarded =
    Decided command_result
  | Replayed command_result
  | Mutated command_result
  | Unresolved host_error

definition forwarded_result :: "forwarded \<Rightarrow> command_result option" where
  "forwarded_result f =
     (case f of Decided r \<Rightarrow> Some r | Replayed r \<Rightarrow> Some r | Mutated r \<Rightarrow> Some r | Unresolved _ \<Rightarrow> None)"

definition result_of_outcome :: "command \<Rightarrow> host_outcome \<Rightarrow> command_result" where
  "result_of_outcome command outcome =
     (case outcome of
        HostApplied s \<Rightarrow>
          \<lparr>res_id = cmd_id command, res_status = Applied, res_reason = None, res_server_seq = Some s\<rparr>
      | HostRejected r \<Rightarrow>
          \<lparr>res_id = cmd_id command, res_status = Rejected, res_reason = Some r, res_server_seq = None\<rparr>
      | HostSuperseded \<Rightarrow>
          \<lparr>res_id = cmd_id command, res_status = Superseded, res_reason = None, res_server_seq = None\<rparr>)"

definition mutated_result :: "command \<Rightarrow> command_result" where
  "mutated_result command =
     \<lparr>res_id = cmd_id command, res_status = Rejected, res_reason = Some mutated_reason,
      res_server_seq = None\<rparr>"

text \<open>\<open>forward\<close> as one session runs it; the three fates are those of its statements.\<close>

definition forward ::
  "externs \<Rightarrow> (u64 \<Rightarrow> bool) \<Rightarrow> (command \<Rightarrow> host_error + host_outcome) \<Rightarrow> sql_fate \<Rightarrow> sql_fate \<Rightarrow> sql_fate \<Rightarrow>
   results_table \<Rightarrow> command \<Rightarrow> (server_error + forwarded) \<times> results_table" where
  "forward X fk host f1 f2 f3 tbl command =
     (case classify X f1 tbl command of
        Inl e \<Rightarrow> (Inl e, tbl)
      | Inr (Replay existing) \<Rightarrow> (Inr (Replayed existing), tbl)
      | Inr (MutatedBody _ _) \<Rightarrow> (Inr (Mutated (mutated_result command)), tbl)
      | Inr Fresh \<Rightarrow>
          (case host command of
             Inl err \<Rightarrow> (Inr (Unresolved err), tbl)
           | Inr outcome \<Rightarrow>
               (case record_result X fk f2 f3 tbl command (result_of_outcome command outcome) of
                  (r, tbl') \<Rightarrow> (map_ok Decided r, tbl'))))"

lemmas dedupe_defs [run_defs] =
  payload_to_value_def decide_def select_result_def transpose_opt_def read_status_def
  read_server_seq_def read_result_def classify_def results_checks_def insert_statement_def
  run_insert_def status_text_def row_to_record_def lost_race_def record_result_def
  mutated_reason_def result_of_outcome_def mutated_result_def forward_def

section \<open>Facts about one statement\<close>

lemma transpose_opt_Inr:
  "transpose_opt v = Inr w \<longleftrightarrow>
     (v = None \<and> w = None) \<or> (\<exists>x. v = Some (Inr x) \<and> w = Some x)"
  by (cases v) (auto simp: transpose_opt_def map_ok_Inr)

definition unique_ids :: "results_table \<Rightarrow> bool" where
  "unique_ids tbl = distinct (map rrw_command_id tbl)"

lemma select_result_iff:
  "unique_ids tbl \<Longrightarrow> select_result tbl i = Some r \<longleftrightarrow> r \<in> set tbl \<and> rrw_command_id r = i"
  by (induction tbl) (auto simp: select_result_def unique_ids_def)

lemma select_result_append: "select_result tbl i = Some r \<Longrightarrow> select_result (tbl @ new) i = Some r"
  by (simp add: select_result_def find_Some_iff nth_append)
    (metis length_append less_le_trans le_add1 nth_append)

text \<open>An insert adds the row under a new id, or changes nothing.\<close>

lemma insert_statement_table:
  "snd (insert_statement fk r tbl) =
     (if results_checks r \<and> rrw_command_id r \<notin> rrw_command_id ` set tbl \<and>
         (case rrw_server_seq r of None \<Rightarrow> True | Some s \<Rightarrow> fk s)
      then tbl @ [r] else tbl)"
  by (auto simp: insert_statement_def list_ex_iff intro: rev_image_eqI)

lemma insert_statement_one:
  "fst (insert_statement fk r tbl) = Inr n \<Longrightarrow>
     (if n = 1 then snd (insert_statement fk r tbl) = tbl @ [r] \<and> rrw_command_id r \<notin> rrw_command_id ` set tbl
      else snd (insert_statement fk r tbl) = tbl)"
  by (auto simp: insert_statement_def list_ex_iff split: if_splits)

lemma run_insert_table:
  "snd (run_insert fk fate r tbl) = tbl \<or>
   (snd (run_insert fk fate r tbl) = tbl @ [r] \<and> results_checks r \<and>
    rrw_command_id r \<notin> rrw_command_id ` set tbl)"
  by (auto simp: run_insert_def insert_statement_table split: sql_fate.splits)

text \<open>The values a host hands over are values of the checked types.\<close>

definition outcome_valid :: "host_outcome \<Rightarrow> bool" where
  "outcome_valid outcome =
     (case outcome of
        HostApplied s \<Rightarrow> seq_new (seq_get s) = Inr s
      | HostRejected r \<Rightarrow> reason_new (reason_str r) = Inr r
      | HostSuperseded \<Rightarrow> True)"

lemma seq_valid_sint:
  assumes "seq_new (seq_get s) = Inr s"
  shows "u64_try_from (seq_get s) = Some (seq_get s)"
proof -
  have "seq_get s \<le> 0x7FFFFFFFFFFFFFFF"
    using assms by (simp add: seq_new_def bounded_num_ok SEQ_MAX_def)
  then have "uint (seq_get s) < 2 ^ 63"
    by (simp add: word_le_def)
  moreover have "- (2 ^ 63) \<le> uint (seq_get s)"
    by (rule order_trans [OF _ uint_ge_0]) simp
  ultimately have "sint (seq_get s) = uint (seq_get s)"
    by (simp add: sint_uint signed_take_bit_int_eq_self)
  then show ?thesis
    by (simp add: u64_try_from_def)
qed

text \<open>A recorded outcome reads back as the outcome.\<close>

lemma read_recorded:
  assumes "outcome_valid outcome"
    and "row_to_record X command (result_of_outcome command outcome) = Inr row"
  shows "read_result (cmd_id command) row = Inr (result_of_outcome command outcome)"
    and "payload_checksum X payload_to_value (cmd_payload command) = Inr (HexString (rrw_checksum row))"
    and "rrw_command_id row = command_id_to_string (cmd_id command)"
  using assms
  by (cases outcome; auto simp: row_to_record_def result_of_outcome_def outcome_valid_def
      transpose_opt_def and_then_def ok_or_def map_ok_def seq_valid_sint status_text_def read_result_def
      read_status_def read_server_seq_def map_err_def command_result_validate_def Let_def
      split: sum.splits)+

section \<open>Concurrent sessions\<close>

text \<open>Where one \<open>forward\<close> stands, between two of its awaits.\<close>

datatype session =
    Submitted command
  | AskingHost command
  | Recording command command_result
  | LostRace command
  | Answered command "server_error + forwarded"

definition after_classify :: "command \<Rightarrow> server_error + decision \<Rightarrow> session" where
  "after_classify command d =
     (case d of
        Inl e \<Rightarrow> Answered command (Inl e)
      | Inr (Replay existing) \<Rightarrow> Answered command (Inr (Replayed existing))
      | Inr (MutatedBody _ _) \<Rightarrow> Answered command (Inr (Mutated (mutated_result command)))
      | Inr Fresh \<Rightarrow> AskingHost command)"

definition after_host :: "command \<Rightarrow> host_error + host_outcome \<Rightarrow> session" where
  "after_host command answer =
     (case answer of
        Inl err \<Rightarrow> Answered command (Inr (Unresolved err))
      | Inr outcome \<Rightarrow> Recording command (result_of_outcome command outcome))"

definition after_insert :: "command \<Rightarrow> command_result \<Rightarrow> server_error + nat \<Rightarrow> session" where
  "after_insert command result inserted =
     (case inserted of
        Inl e \<Rightarrow> Answered command (Inl e)
      | Inr n \<Rightarrow> if n = 1 then Answered command (Inr (Decided result)) else LostRace command)"

text \<open>
  One statement of one session. The table is shared; the host may answer anything, and another
  session may run between any two statements.
\<close>

inductive forward_step ::
  "externs \<Rightarrow> (u64 \<Rightarrow> bool) \<Rightarrow> results_table \<times> (nat \<rightharpoonup> session) \<Rightarrow> results_table \<times> (nat \<rightharpoonup> session) \<Rightarrow> bool"
  for X fk where
  step_submit: "ss i = None \<Longrightarrow> forward_step X fk (tbl, ss) (tbl, ss(i \<mapsto> Submitted command))"
| step_classify: "ss i = Some (Submitted command) \<Longrightarrow>
    forward_step X fk (tbl, ss) (tbl, ss(i \<mapsto> after_classify command (classify X fate tbl command)))"
| step_host: "ss i = Some (AskingHost command) \<Longrightarrow>
    answer = Inl err \<or> (\<exists>outcome. answer = Inr outcome \<and> outcome_valid outcome) \<Longrightarrow>
    forward_step X fk (tbl, ss) (tbl, ss(i \<mapsto> after_host command answer))"
| step_unencodable: "ss i = Some (Recording command result) \<Longrightarrow>
    row_to_record X command result = Inl e \<Longrightarrow>
    forward_step X fk (tbl, ss) (tbl, ss(i \<mapsto> Answered command (Inl e)))"
| step_record: "ss i = Some (Recording command result) \<Longrightarrow>
    row_to_record X command result = Inr row \<Longrightarrow> run_insert fk fate row tbl = (inserted, tbl') \<Longrightarrow>
    forward_step X fk (tbl, ss) (tbl', ss(i \<mapsto> after_insert command result inserted))"
| step_lost_race: "ss i = Some (LostRace command) \<Longrightarrow>
    forward_step X fk (tbl, ss)
      (tbl, ss(i \<mapsto> Answered command (map_ok Decided (lost_race command (classify X fate tbl command)))))"

inductive forward_run ::
  "externs \<Rightarrow> (u64 \<Rightarrow> bool) \<Rightarrow> results_table \<times> (nat \<rightharpoonup> session) \<Rightarrow> results_table \<times> (nat \<rightharpoonup> session) \<Rightarrow> bool"
  for X fk s where
  forward_refl: "forward_run X fk s s"
| forward_more: "forward_run X fk s s' \<Longrightarrow> forward_step X fk s' s'' \<Longrightarrow> forward_run X fk s s''"

section \<open>Every answer is the recorded one\<close>

text \<open>A result stands when the table holds it under the command's id, for the command's own body.\<close>

definition answer_stands :: "externs \<Rightarrow> results_table \<Rightarrow> command \<Rightarrow> command_result \<Rightarrow> bool" where
  "answer_stands X tbl command result \<longleftrightarrow>
     (\<exists>row. select_result tbl (command_id_to_string (cmd_id command)) = Some row \<and>
        read_result (cmd_id command) row = Inr result \<and>
        payload_checksum X payload_to_value (cmd_payload command) = Inr (HexString (rrw_checksum row)))"

definition session_ok :: "externs \<Rightarrow> results_table \<Rightarrow> session \<Rightarrow> bool" where
  "session_ok X tbl s =
     (case s of
        Recording command result \<Rightarrow>
          \<exists>outcome. outcome_valid outcome \<and> result = result_of_outcome command outcome
      | Answered command (Inr (Decided result)) \<Rightarrow> answer_stands X tbl command result
      | Answered command (Inr (Replayed result)) \<Rightarrow> answer_stands X tbl command result
      | _ \<Rightarrow> True)"

definition dedupe_inv :: "externs \<Rightarrow> results_table \<times> (nat \<rightharpoonup> session) \<Rightarrow> bool" where
  "dedupe_inv X s \<longleftrightarrow> unique_ids (fst s) \<and> (\<forall>i x. snd s i = Some x \<longrightarrow> session_ok X (fst s) x)"

lemma answer_stands_grows: "answer_stands X tbl command result \<Longrightarrow> answer_stands X (tbl @ new) command result"
  unfolding answer_stands_def by (blast intro: select_result_append)

lemma session_ok_grows: "session_ok X tbl s \<Longrightarrow> session_ok X (tbl @ new) s"
  unfolding session_ok_def by (auto simp: answer_stands_grows split: session.splits sum.splits forwarded.splits)

lemma classify_replay:
  assumes "classify X fate tbl command = Inr (Replay result)"
  shows "answer_stands X tbl command result"
  using assms unfolding classify_def answer_stands_def decide_def
  by (cases "payload_checksum X payload_to_value (cmd_payload command)")
    (auto simp: and_then_Inr split: sql_fate.splits option.splits sum.splits if_splits)

lemma dedupe_step_inv:
  assumes "forward_step X fk s s'" and "dedupe_inv X s"
  shows "dedupe_inv X s'"
  using assms(1)
proof cases
  case (step_classify ss i command tbl fate)
  have "session_ok X tbl (after_classify command (classify X fate tbl command))"
    using classify_replay [of X fate tbl command]
    by (auto simp: after_classify_def session_ok_def split: sum.splits decision.splits)
  with step_classify assms(2) show ?thesis
    by (auto simp: dedupe_inv_def)
next
  case (step_host ss i command answer err tbl)
  have "session_ok X tbl (after_host command answer)"
    using step_host(4) by (auto simp: after_host_def session_ok_def)
  with step_host assms(2) show ?thesis
    by (auto simp: dedupe_inv_def)
next
  case (step_record ss i command result row fate tbl inserted tbl')
  obtain outcome where outcome: "outcome_valid outcome" "result = result_of_outcome command outcome"
    using assms(2) step_record(1,3) by (force simp: dedupe_inv_def session_ok_def)
  note back_read = read_recorded [OF outcome(1) step_record(4) [unfolded outcome(2)]]
  consider "tbl' = tbl" | "tbl' = tbl @ [row]" "rrw_command_id row \<notin> rrw_command_id ` set tbl"
    using run_insert_table [of fk fate row tbl] step_record(5) by auto
  note grown = this
  have unique: "unique_ids tbl'" and old: "session_ok X tbl x \<Longrightarrow> session_ok X tbl' x" for x
    using grown assms(2) step_record(1) by (cases; auto simp: dedupe_inv_def unique_ids_def session_ok_grows)+
  have "answer_stands X tbl' command result" if "inserted = Inr 1"
  proof -
    have "row \<in> set tbl'"
      using insert_statement_one [of fk row tbl 1] that step_record(5)
      by (auto simp: run_insert_def map_err_Inr split: sql_fate.splits)
    then have "select_result tbl' (command_id_to_string (cmd_id command)) = Some row"
      using unique back_read(3) by (simp add: select_result_iff)
    then show ?thesis
      using back_read(1,2) outcome(2) by (auto simp: answer_stands_def)
  qed
  then have "session_ok X tbl' (after_insert command result inserted)"
    by (auto simp: after_insert_def session_ok_def split: sum.splits)
  with step_record(1,2) old unique assms(2) show ?thesis
    by (auto simp: dedupe_inv_def)
next
  case (step_lost_race ss i command tbl fate)
  have "session_ok X tbl
      (Answered command (map_ok Decided (lost_race command (classify X fate tbl command))))"
    using classify_replay [of X fate tbl command]
    by (auto simp: session_ok_def lost_race_def and_then_def map_ok_def split: sum.splits decision.splits)
  with step_lost_race assms(2) show ?thesis
    by (auto simp: dedupe_inv_def)
qed (use assms(2) in \<open>auto simp: dedupe_inv_def session_ok_def\<close>)

lemma dedupe_run_inv: "forward_run X fk s s' \<Longrightarrow> dedupe_inv X s \<Longrightarrow> dedupe_inv X s'"
  by (induction rule: forward_run.induct) (auto intro: dedupe_step_inv)

text \<open>The table only grows.\<close>

lemma dedupe_step_grows: "forward_step X fk s s' \<Longrightarrow> \<exists>new. fst s' = fst s @ new"
proof (induction rule: forward_step.cases)
  case (step_record ss i command result row fate tbl inserted tbl')
  then show ?case
    using run_insert_table [of fk fate row tbl] by auto
qed auto

lemma dedupe_run_grows: "forward_run X fk s s' \<Longrightarrow> \<exists>new. fst s' = fst s @ new"
  by (induction rule: forward_run.induct) (auto dest!: dedupe_step_grows)

lemma forward_run_trans: "forward_run X fk s' s'' \<Longrightarrow> forward_run X fk s s' \<Longrightarrow> forward_run X fk s s''"
  by (induction rule: forward_run.induct) (auto intro: forward_more)

text \<open>\<open>forward\<close>, run by one session without interruption, is such a run.\<close>

lemma forward_is_run:
  assumes "forward X fk host f1 f2 f3 tbl command = (r, tbl')"
    and "\<And>outcome. host command = Inr outcome \<Longrightarrow> outcome_valid outcome" and "ss i = None"
  shows "forward_run X fk (tbl, ss) (tbl', ss(i \<mapsto> Answered command r))"
proof -
  have "forward_run X fk (tbl, ss) (tbl, ss(i \<mapsto> Submitted command))"
    by (rule forward_more [OF forward_refl step_submit [where ss = ss and i = i, OF assms(3)]])
  from forward_more [OF this step_classify [of _ i command X fk tbl f1]]
  have 1: "forward_run X fk (tbl, ss) (tbl, ss(i \<mapsto> after_classify command (classify X f1 tbl command)))"
    by simp
  show ?thesis
  proof (cases "classify X f1 tbl command = Inr Fresh")
    case False
    then have "tbl' = tbl" "after_classify command (classify X f1 tbl command) = Answered command r"
      using assms(1) by (auto simp: forward_def after_classify_def split: sum.splits decision.splits)
    with 1 show ?thesis by simp
  next
    case fresh: True
    then have 2: "forward_run X fk (tbl, ss) (tbl, ss(i \<mapsto> AskingHost command))"
      using 1 by (simp add: after_classify_def)
    from forward_more [OF 2 step_host [of _ i command "host command"]] assms(2)
    have 3: "forward_run X fk (tbl, ss) (tbl, ss(i \<mapsto> after_host command (host command)))"
      by (cases "host command") auto
    show ?thesis
    proof (cases "host command")
      case (Inl err)
      with assms(1) fresh 3 show ?thesis
        by (simp add: forward_def after_host_def)
    next
      case (Inr outcome)
      let ?result = "result_of_outcome command outcome"
      have rec: "record_result X fk f2 f3 tbl command ?result = (fst (record_result X fk f2 f3 tbl command ?result), tbl')"
        "r = map_ok Decided (fst (record_result X fk f2 f3 tbl command ?result))"
        using assms(1) fresh Inr by (auto simp: forward_def split: prod.splits)
      have 4: "forward_run X fk (tbl, ss) (tbl, ss(i \<mapsto> Recording command ?result))"
        using 3 Inr by (simp add: after_host_def)
      show ?thesis
      proof (cases "row_to_record X command ?result")
        case (Inl e)
        then have "tbl' = tbl" "r = Inl e"
          using rec by (auto simp: record_result_def map_ok_def)
        with forward_more [OF 4 step_unencodable [of _ i command ?result X e]] Inl show ?thesis
          by simp
      next
        case row: (Inr row)
        obtain inserted t1 where ins: "run_insert fk f2 row tbl = (inserted, t1)"
          by fastforce
        from forward_more [OF 4 step_record [of _ i command ?result X row fk f2]] row ins
        have 5: "forward_run X fk (tbl, ss) (t1, ss(i \<mapsto> after_insert command ?result inserted))"
          by simp
        show ?thesis
        proof (cases "\<exists>n. inserted = Inr n \<and> n \<noteq> 1")
          case False
          then have "t1 = tbl'" "after_insert command ?result inserted = Answered command r"
            using rec row ins by (auto simp: record_result_def after_insert_def map_ok_def split: sum.splits)
          with 5 show ?thesis by simp
        next
          case True
          then have 6: "forward_run X fk (tbl, ss) (t1, ss(i \<mapsto> LostRace command))"
            using 5 by (auto simp: after_insert_def)
          have "t1 = tbl'" "r = map_ok Decided (lost_race command (classify X f3 t1 command))"
            using rec row ins True by (auto simp: record_result_def)
          with forward_more [OF 6 step_lost_race [of _ i command X fk t1 f3]] show ?thesis
            by simp
        qed
      qed
    qed
  qed
qed

end
