(* ===== verification/Server_Auth.thy ===== *)
theory Server_Auth
  imports Server_Log
begin

text \<open>
  Who may pull: protocol negotiation (\<open>credsync-server/src/version.rs\<close>), scope tokens (\<open>auth.rs\<close>),
  the blocklist (\<open>blocklist.rs\<close>, \<open>migrations/0002_scope_blocklist.sql\<close>) and the request path of the
  reference server (\<open>credsyncd/src/lib.rs\<close>). Decoding a JWT and reading a header value are library
  code outside the repository, fields of the parameter record \<open>jwt\<close>.
\<close>

section \<open>Protocol versions\<close>

datatype negotiated = NegAccepted | NegRefused forced_upgrade

definition is_accepted :: "negotiated \<Rightarrow> bool" where
  "is_accepted n = (case n of NegAccepted \<Rightarrow> True | NegRefused _ \<Rightarrow> False)"

record version_policy =
  vp_current :: protocol_version
  vp_min :: protocol_version

text \<open>\<open>current.get().saturating_sub(1)\<close>, floored by the type's own minimum.\<close>

definition policy_window :: "protocol_version \<Rightarrow> version_policy" where
  "policy_window current =
     (let below = (if protocol_get current = 0 then 0 else protocol_get current - 1)
      in \<lparr>vp_current = current,
          vp_min = (case protocol_version_new below of Inr v \<Rightarrow> v | Inl _ \<Rightarrow> current)\<rparr>)"

definition policy_new :: "protocol_version \<Rightarrow> protocol_version \<Rightarrow> string + version_policy" where
  "policy_new current mn =
     (if protocol_get mn > protocol_get current
      then Inl ''the minimum protocol version is above the current one''
      else Inr \<lparr>vp_current = current, vp_min = mn\<rparr>)"

definition envelope :: "version_policy \<Rightarrow> protocol_version \<Rightarrow> forced_upgrade" where
  "envelope p client =
     (let text = (if protocol_get client > protocol_get (vp_current p)
                  then ''This service is running an older version than this app. Please try again later.''
                  else ''This app is too old to sync. Please update it to continue.'')
      in \<lparr>fup_min_protocol = vp_min p, fup_current_protocol = vp_current p,
          fup_reason = (case reason_new text of Inr r \<Rightarrow> r | Inl _ \<Rightarrow> undefined)\<rparr>)"

definition negotiate :: "version_policy \<Rightarrow> protocol_version \<Rightarrow> negotiated" where
  "negotiate p client =
     (if protocol_get client \<ge> protocol_get (vp_min p) \<and> protocol_get client \<le> protocol_get (vp_current p)
      then NegAccepted
      else NegRefused (envelope p client))"

section \<open>Scope tokens\<close>

text \<open>An algorithm is its name.\<close>

type_synonym algorithm = string

datatype auth_error =
    AuthMalformed string
  | WrongAlgorithm algorithm
  | BadSignature
  | Expired
  | NoScopes
  | ScopeNotClaimed string
  | ScopeBlocked string

definition is_expired :: "auth_error \<Rightarrow> bool" where
  "is_expired e = (case e of Expired \<Rightarrow> True | _ \<Rightarrow> False)"

definition client_message :: "auth_error \<Rightarrow> string" where
  "client_message e =
     (case e of
        Expired \<Rightarrow> ''This session has expired. Please sign in again.''
      | _ \<Rightarrow> ''Not authorized for this scope.'')"

fun auth_error_display :: "auth_error \<Rightarrow> string" where
  "auth_error_display (AuthMalformed detail) = ''malformed scope token: '' @ detail"
| "auth_error_display (WrongAlgorithm found) =
     ''token algorithm '' @ quoted found @ '' is not the one this server accepts''"
| "auth_error_display BadSignature = ''the token'' @ [CHR 0x27] @ ''s signature did not verify''"
| "auth_error_display Expired = ''the token has expired''"
| "auth_error_display NoScopes = ''the token claims no scopes''"
| "auth_error_display (ScopeNotClaimed requested) =
     ''scope '' @ quoted requested @ '' is not in the token'' @ [CHR 0x27] @ ''s claims''"
| "auth_error_display (ScopeBlocked scope) = ''scope '' @ quoted scope @ '' is blocked''"

record raw_claims =
  raw_scopes :: "string list"
  raw_exp :: u64
  raw_sub :: "string option"

record claims =
  clm_scopes :: "scope_id list"
  clm_subject :: "string option"
  clm_expires_at :: u64

datatype jwt_error_kind =
    ExpiredSignature
  | InvalidSignature
  | InvalidAlgorithm
  | InvalidAlgorithmName
  | OtherKind string

record validation =
  val_algorithms :: "algorithm list"
  val_leeway :: u64
  val_required :: "string list"
  val_exp :: bool
  val_aud :: bool

record jwt =
  jwt_header :: "string \<Rightarrow> string + algorithm"
  jwt_decode :: "validation \<Rightarrow> string \<Rightarrow> jwt_error_kind + raw_claims"
  jwt_to_str :: "bytes \<Rightarrow> string option"

record verifier =
  vrf_algorithm :: algorithm
  vrf_validation :: validation

definition verifier_new :: "algorithm \<Rightarrow> u64 \<Rightarrow> verifier" where
  "verifier_new alg leeway =
     \<lparr>vrf_algorithm = alg,
      vrf_validation = \<lparr>val_algorithms = [alg], val_leeway = leeway, val_required = [''exp''],
        val_exp = True, val_aud = False\<rparr>\<rparr>"

definition map_jwt_err :: "jwt_error_kind \<Rightarrow> auth_error" where
  "map_jwt_err k =
     (case k of
        ExpiredSignature \<Rightarrow> Expired
      | InvalidSignature \<Rightarrow> BadSignature
      | InvalidAlgorithm \<Rightarrow> WrongAlgorithm ''rejected by the decoder''
      | InvalidAlgorithmName \<Rightarrow> WrongAlgorithm ''rejected by the decoder''
      | OtherKind detail \<Rightarrow> AuthMalformed detail)"

fun claimed_scopes :: "string list \<Rightarrow> auth_error + scope_id list" where
  "claimed_scopes [] = Inr []"
| "claimed_scopes (s # ss) =
     (case scope_id_new s of
        Inl e \<Rightarrow>
          Inl (AuthMalformed (''a claimed scope is not a valid scope id: '' @ protocol_error_display e))
      | Inr scope \<Rightarrow> map_ok (\<lambda>scopes. scope # scopes) (claimed_scopes ss))"

definition verify :: "jwt \<Rightarrow> verifier \<Rightarrow> string \<Rightarrow> auth_error + claims" where
  "verify J v token =
     (case jwt_header J token of
        Inl e \<Rightarrow> Inl (AuthMalformed (''unreadable header: '' @ e))
      | Inr alg \<Rightarrow>
          if alg \<noteq> vrf_algorithm v then Inl (WrongAlgorithm alg)
          else case jwt_decode J (vrf_validation v) token of
            Inl k \<Rightarrow> Inl (map_jwt_err k)
          | Inr raw \<Rightarrow>
              if raw_scopes raw = [] then Inl NoScopes
              else map_ok (\<lambda>scopes. \<lparr>clm_scopes = scopes, clm_subject = raw_sub raw,
                     clm_expires_at = raw_exp raw\<rparr>) (claimed_scopes (raw_scopes raw)))"

definition claims_scope :: "claims \<Rightarrow> scope_id \<Rightarrow> bool" where
  "claims_scope c scope = list_ex (\<lambda>s. s = scope) (clm_scopes c)"

definition claims_authorize :: "claims \<Rightarrow> scope_id \<Rightarrow> auth_error + unit" where
  "claims_authorize c scope =
     (if claims_scope c scope then Inr () else Inl (ScopeNotClaimed (scope_str scope)))"

section \<open>The blocklist\<close>

text \<open>\<open>sync_scope_blocks\<close>: scope and reason; \<open>fault\<close> is a statement that failed.\<close>

type_synonym block_table = "(string \<times> string) list"

datatype standing = StandingAllowed | StandingBlocked

definition standing_allowed :: "standing \<Rightarrow> bool" where
  "standing_allowed s = (case s of StandingAllowed \<Rightarrow> True | StandingBlocked \<Rightarrow> False)"

definition scope_standing ::
  "string option \<Rightarrow> block_table \<Rightarrow> scope_id \<Rightarrow> server_error + standing" where
  "scope_standing fault tbl scope =
     (case fault of
        Some d \<Rightarrow> Inl (Database d)
      | None \<Rightarrow>
          if filter (\<lambda>(s, _). s = scope_str scope) tbl = [] then Inr StandingAllowed
          else Inr StandingBlocked)"

definition block_check :: "string option \<Rightarrow> block_table \<Rightarrow> scope_id \<Rightarrow> auth_error + unit" where
  "block_check fault tbl scope =
     (case scope_standing fault tbl scope of
        Inr StandingAllowed \<Rightarrow> Inr ()
      | Inr StandingBlocked \<Rightarrow> Inl (ScopeBlocked (scope_str scope))
      | Inl _ \<Rightarrow> Inl (ScopeBlocked (scope_str scope)))"

definition block_scope ::
  "string option \<Rightarrow> scope_id \<Rightarrow> string \<Rightarrow> block_table \<Rightarrow> (server_error + unit) \<times> block_table" where
  "block_scope fault scope why tbl =
     (case fault of
        Some d \<Rightarrow> (Inl (Database d), tbl)
      | None \<Rightarrow>
          if \<not> (1 \<le> length (scope_str scope) \<and> length (scope_str scope) \<le> 128)
          then (Inl (Database ''new row violates check constraint''), tbl)
          else if list_ex (\<lambda>(s, _). s = scope_str scope) tbl
          then (Inr (), map (\<lambda>(s, r). (s, if s = scope_str scope then why else r)) tbl)
          else (Inr (), tbl @ [(scope_str scope, why)]))"

definition unblock_scope ::
  "string option \<Rightarrow> scope_id \<Rightarrow> block_table \<Rightarrow> (server_error + unit) \<times> block_table" where
  "unblock_scope fault scope tbl =
     (case fault of
        Some d \<Rightarrow> (Inl (Database d), tbl)
      | None \<Rightarrow> (Inr (), filter (\<lambda>(s, _). s \<noteq> scope_str scope) tbl))"

section \<open>The request path\<close>

definition ascii_lower :: "char \<Rightarrow> char" where
  "ascii_lower c = (if is_ascii_uppercase c then char_of ((of_char c :: nat) + 32) else c)"

definition eq_ignore_ascii_case :: "string \<Rightarrow> string \<Rightarrow> bool" where
  "eq_ignore_ascii_case a b = (map ascii_lower a = map ascii_lower b)"

definition split_once :: "char \<Rightarrow> string \<Rightarrow> (string \<times> string) option" where
  "split_once c s =
     (if c \<in> set s then Some (takeWhile (\<lambda>x. x \<noteq> c) s, tl (dropWhile (\<lambda>x. x \<noteq> c) s)) else None)"

text \<open>\<open>char::is_whitespace\<close> on the ASCII text of a header.\<close>

definition ascii_whitespace :: "char \<Rightarrow> bool" where
  "ascii_whitespace c = (c = CHR '' '' \<or> (CHR 0x09 \<le> c \<and> c \<le> CHR 0x0D))"

definition bearer :: "jwt \<Rightarrow> bytes option \<Rightarrow> auth_error + string" where
  "bearer J authorization =
     (case authorization of
        None \<Rightarrow> Inl (AuthMalformed ''no Authorization header'')
      | Some value \<Rightarrow>
          (case jwt_to_str J value of
             None \<Rightarrow> Inl (AuthMalformed ''Authorization header is not valid ASCII'')
           | Some raw \<Rightarrow>
               (case split_once CHR '' '' raw of
                  None \<Rightarrow> Inl (AuthMalformed ''Authorization header is not a Bearer token'')
                | Some (scheme, rest) \<Rightarrow>
                    if \<not> eq_ignore_ascii_case scheme ''bearer''
                    then Inl (AuthMalformed ''Authorization header is not a Bearer token'')
                    else
                      (let token = dropWhile (\<lambda>c. c = CHR '' '') rest
                       in if token = [] then Inl (AuthMalformed ''empty bearer token'')
                          else if list_ex ascii_whitespace token
                          then Inl (AuthMalformed ''bearer token contains whitespace'')
                          else Inr token))))"

text \<open>The tables the handlers query, and the queries they issue.\<close>

datatype db_query = BlocklistQuery | LogQuery

record app_state =
  app_log :: log_state
  app_blocks :: block_table
  app_verifier :: verifier

definition authorize ::
  "jwt \<Rightarrow> string option \<Rightarrow> app_state \<Rightarrow> bytes option \<Rightarrow> scope_id \<Rightarrow>
   (auth_error + claims) \<times> db_query list" where
  "authorize J fault app authorization scope =
     (case bearer J authorization of
        Inl e \<Rightarrow> (Inl e, [])
      | Inr token \<Rightarrow>
          (case verify J (app_verifier app) token of
             Inl e \<Rightarrow> (Inl e, [])
           | Inr c \<Rightarrow>
               (case claims_authorize c scope of
                  Inl e \<Rightarrow> (Inl e, [])
                | Inr _ \<Rightarrow>
                    (case block_check fault (app_blocks app) scope of
                       Inl e \<Rightarrow> (Inl e, [BlocklistQuery])
                     | Inr _ \<Rightarrow> (Inr c, [BlocklistQuery])))))"

datatype body = ErrorBody string | PageBody "change list" bool

record response =
  rsp_status :: nat
  rsp_body :: body

definition refuse :: "auth_error \<Rightarrow> response" where
  "refuse e =
     \<lparr>rsp_status = (if is_expired e then 401 else 403), rsp_body = ErrorBody (client_message e)\<rparr>"

definition pull_handler ::
  "externs \<Rightarrow> jwt \<Rightarrow> string option \<Rightarrow> log_faults \<Rightarrow> bytes option \<Rightarrow> string \<Rightarrow> u64 \<Rightarrow> app_state \<Rightarrow>
   response \<times> app_state \<times> db_query list" where
  "pull_handler X J block_fault log_faults authorization scope_param cur app =
     (case scope_id_new scope_param of
        Inl _ \<Rightarrow> (refuse (ScopeNotClaimed ''<invalid>''), app, [])
      | Inr scope \<Rightarrow>
          (case authorize J block_fault app authorization scope of
             (Inl e, qs) \<Rightarrow> (refuse e, app, qs)
           | (Inr _, qs) \<Rightarrow>
               (case changes_after X log_faults scope cur 500 (app_log app) of
                  (Inr pg, log') \<Rightarrow>
                    (\<lparr>rsp_status = 200, rsp_body = PageBody (pg_changes pg) (pg_more_beyond pg)\<rparr>,
                     app\<lparr>app_log := log'\<rparr>, qs @ [LogQuery])
                | (Inl _, log') \<Rightarrow>
                    (\<lparr>rsp_status = 500, rsp_body = ErrorBody ''Sync is temporarily unavailable.''\<rparr>,
                     app\<lparr>app_log := log'\<rparr>, qs @ [LogQuery]))))"

definition healthz :: string where
  "healthz = ''ok''"

lemmas auth_defs [run_defs] =
  is_accepted_def policy_window_def policy_new_def envelope_def negotiate_def is_expired_def
  client_message_def verifier_new_def map_jwt_err_def verify_def claims_scope_def claims_authorize_def
  standing_allowed_def scope_standing_def block_check_def block_scope_def unblock_scope_def
  ascii_lower_def eq_ignore_ascii_case_def split_once_def ascii_whitespace_def bearer_def
  authorize_def refuse_def pull_handler_def

end
