(* ===== verification/Server_Shared.thy ===== *)
theory Server_Shared
  imports Server_Auth
begin

text \<open>
  Requests that share a database session. \<open>safe_watermark\<close> (\<open>credsync-server/src/db.rs\<close>) sends its
  transaction statement by statement, and the reference server (\<open>AppState\<close> in
  \<open>credsyncd/src/lib.rs\<close>) gives every request the same \<open>Client\<close>, whose statements the driver sends in
  the order they are issued. Here the requests of one server interleave their statements on that one
  session, beside the writers, which have sessions of their own and keep their contract. Nothing
  fails. A transaction belongs to the session: a second \<open>BEGIN\<close> inside one is a warning, whoever
  commits ends it for all, and outside of one every statement is its own transaction, so that a
  transaction-scoped lock is given back at once.
\<close>

datatype wm_stmt = WmBegin | WmTimeout | WmLock | WmRecord | WmCommit

text \<open>The statements of \<^const>\<open>safe_watermark\<close>, in order, when the lock is granted.\<close>

definition watermark_stmts :: "wm_stmt list" where
  "watermark_stmts = [WmBegin, WmTimeout, WmLock, WmRecord, WmCommit]"

text \<open>One statement on the session, which is in a transaction or not: what the request is answered, and
  the session after it. \<^const>\<open>None\<close> means that it waits.\<close>

fun wm_exec :: "wm_stmt \<Rightarrow> log_state \<times> bool \<Rightarrow> (u64 option \<times> log_state \<times> bool) option" where
  "wm_exec WmBegin (s, _) = Some (None, s, True)"
| "wm_exec WmTimeout (s, txn) = Some (None, s, txn)"
| "wm_exec WmLock (s, txn) =
     (if txn \<and> lg_reader s then Some (None, s, txn)
      else map_option (\<lambda>s'. (None, if txn then s' else s, txn)) (reader_lock s))"
| "wm_exec WmRecord (s, txn) =
     (let s' = reader_record s in Some (lg_pending s', if txn then s' else reader_commit s', txn))"
| "wm_exec WmCommit (s, txn) = Some (None, if txn then reader_commit s else s, False)"

text \<open>A request: how many statements it has had answered, and the watermark it was given.\<close>

record wm_task =
  wt_sent :: nat
  wt_watermark :: "u64 option"

record shared_state =
  sh_log :: log_state
  sh_txn :: bool
  sh_tasks :: "nat \<Rightarrow> wm_task"

definition shared_initial :: "log_state \<Rightarrow> shared_state" where
  "shared_initial s =
     \<lparr>sh_log = s, sh_txn = False, sh_tasks = \<lambda>_. \<lparr>wt_sent = 0, wt_watermark = None\<rparr>\<rparr>"

text \<open>The next statement of request \<open>t\<close>.\<close>

definition shared_turn :: "nat \<Rightarrow> shared_state \<Rightarrow> shared_state option" where
  "shared_turn t h =
     (let k = sh_tasks h t in
      if wt_sent k < length watermark_stmts
      then map_option (\<lambda>(v, s', txn).
             \<lparr>sh_log = s', sh_txn = txn,
              sh_tasks = (sh_tasks h)(t := \<lparr>wt_sent = wt_sent k + 1,
                wt_watermark = (case v of None \<Rightarrow> wt_watermark k | Some _ \<Rightarrow> v)\<rparr>)\<rparr>)
             (wm_exec (watermark_stmts ! wt_sent k) (sh_log h, sh_txn h))
      else None)"

text \<open>Either a request moves, or a writer in a session of its own does, which takes the lock before its
  first insert and leaves what the readers hold alone.\<close>

inductive shared_step :: "shared_state \<Rightarrow> shared_state \<Rightarrow> bool" where
  shared_request: "shared_turn t h = Some h' \<Longrightarrow> shared_step h h'"
| shared_writer: "log_step True (sh_log h) s' \<Longrightarrow> lg_reader s' = lg_reader (sh_log h) \<Longrightarrow>
    lg_pending s' = lg_pending (sh_log h) \<Longrightarrow> lg_watermark s' = lg_watermark (sh_log h) \<Longrightarrow>
    shared_step h (h\<lparr>sh_log := s'\<rparr>)"

inductive shared_run :: "shared_state \<Rightarrow> shared_state \<Rightarrow> bool" for h where
  shared_refl: "shared_run h h"
| shared_more: "shared_run h h' \<Longrightarrow> shared_step h' h'' \<Longrightarrow> shared_run h h''"

lemmas shared_defs [run_defs] = watermark_stmts_def shared_initial_def shared_turn_def

section \<open>A request on its own\<close>

text \<open>The five statements of one request in a row.\<close>

fun turns :: "nat list \<Rightarrow> shared_state \<Rightarrow> shared_state option" where
  "turns [] h = Some h"
| "turns (t # ts) h = (case shared_turn t h of None \<Rightarrow> None | Some h' \<Rightarrow> turns ts h')"

lemma turns_run: "turns ts h = Some h' \<Longrightarrow> shared_run h0 h \<Longrightarrow> shared_run h0 h'"
proof (induction ts arbitrary: h)
  case (Cons t ts)
  then obtain h1 where "shared_turn t h = Some h1" "turns ts h1 = Some h'"
    by (auto split: option.splits)
  with Cons.IH shared_more [OF Cons.prems(2) shared_request] show ?case
    by blast
qed simp

lemma turns_append: "turns (ts @ us) h = (case turns ts h of None \<Rightarrow> None | Some h' \<Rightarrow> turns us h')"
  by (induction ts arbitrary: h) (auto split: option.split)

text \<open>Not interleaved, they are \<^const>\<open>safe_watermark\<close>.\<close>

lemma alone_is_safe_watermark:
  assumes "reader_lock (sh_log h) \<noteq> None" and "\<not> sh_txn h" and "wt_sent (sh_tasks h t) = 0"
  shows "\<exists>h' w. turns [t, t, t, t, t] h = Some h' \<and> \<not> sh_txn h' \<and> wt_watermark (sh_tasks h' t) = Some w \<and>
    safe_watermark no_faults (sh_log h) = (Inr w, sh_log h')"
proof -
  obtain s1 where lock: "reader_lock (sh_log h) = Some s1"
    using assms(1) by blast
  then have "\<not> lg_reader (sh_log h)"
    by (auto simp: reader_lock_def split: if_splits)
  with lock assms(2,3) show ?thesis
    by (simp add: shared_turn_def watermark_stmts_def safe_watermark_def establish_watermark_def no_faults_def
        reader_record_def Let_def numeral_nat)
qed

section \<open>Writers beside them\<close>

lemma shared_writer_run:
  assumes "shared_run h0 h" and "bt_get (lg_writers (sh_log h)) t = None"
    and "append_change t n (begin_writer t (sh_log h)) = Some (sq, s3)"
  shows "shared_run h0 (h\<lparr>sh_log := s3\<rparr>)"
proof -
  let ?s1 = "begin_writer t (sh_log h)"
  obtain s2 where s2: "lock_for_write t ?s1 = Some s2" "insert_change t n s2 = Some (sq, s3)"
    using assms(3) by (auto simp: append_change_def split: option.splits)
  have 1: "shared_run h0 (h\<lparr>sh_log := ?s1\<rparr>)"
    using shared_more [OF assms(1) shared_writer [OF step_begin [OF assms(2)]]]
    by (auto simp: begin_writer_def)
  obtain w where w: "bt_get (lg_writers s2) t = Some w" "wr_locked w"
    using s2(1) by (auto simp: lock_for_write_def split: option.splits if_splits)
  have 2: "shared_run h0 (h\<lparr>sh_log := s2\<rparr>)"
    using shared_more [OF 1 shared_writer [of _ s2]] step_lock [of t ?s1 s2] s2(1)
    by (auto simp: lock_for_write_def split: option.splits if_splits)
  show ?thesis
    using shared_more [OF 2 shared_writer [of _ s3]] step_insert [of t n s2 sq s3 w True] s2(2) w
    by (auto simp: insert_change_def Let_def split: option.splits if_splits)
qed

lemma shared_commit_run:
  assumes "shared_run h0 h"
  shows "shared_run h0 (h\<lparr>sh_log := commit_writer t (sh_log h)\<rparr>)"
  using shared_more [OF assms shared_writer [OF step_commit]]
  by (simp add: commit_writer_def split: option.split)

end
