(* ===== verification/Props_Server.thy ===== *)
theory Props_Server
  imports Samples Server_Bootstrap Server_Dedupe Server_Shared
begin

text \<open>
  The properties of the server: how a pull is filled and paged, what a reader may rely on while
  writers run, compaction, command dedupe under concurrency, versions and authorization.
\<close>

section \<open>Samples\<close>

definition sample_tombstone :: "string \<Rightarrow> new_change" where
  "sample_tombstone i =
     \<lparr>nch_scope = ''user:1'', nch_entity = ''lesson'', nch_entity_id = i, nch_op = ''delete'',
      nch_snapshot = None, nch_row_version = 1, nch_schema_version = 1\<rparr>"

text \<open>Two committed tombstones, a watermark over both, and a third row that commits later.\<close>

definition sample_rows :: "log_row list" where
  "sample_rows = [inserted_row 1 (sample_tombstone ''a''), inserted_row 2 (sample_tombstone ''b'')]"

definition sample_log :: log_state where
  "sample_log = log_empty\<lparr>lg_rows := sample_rows, lg_last := 2, lg_watermark := 2\<rparr>"

definition sample_log_later :: log_state where
  "sample_log_later =
     sample_log\<lparr>lg_rows := sample_rows @ [inserted_row 3 (sample_tombstone ''a'')], lg_last := 3\<rparr>"

text \<open>One writer appends one change and commits.\<close>

definition appended :: "nat \<Rightarrow> new_change \<Rightarrow> log_state \<Rightarrow> log_state" where
  "appended t n s =
     (case append_change t n (begin_writer t s) of None \<Rightarrow> s | Some (_, s') \<Rightarrow> commit_writer t s')"

lemma log_run_appended:
  assumes "bt_get (lg_writers s) t = None"
  shows "log_run d s (appended t n s)"
proof (cases "append_change t n (begin_writer t s)")
  case None
  then show ?thesis
    by (simp add: appended_def run_refl)
next
  case (Some p)
  then have "log_run d s (snd p)"
    using log_run_trans [OF append_change_run log_run_one [OF step_begin [OF assms]]] by (cases p) auto
  then show ?thesis
    using Some by (cases p) (auto simp: appended_def intro: run_step [OF _ step_commit])
qed

lemma sample_log_run: "log_run True log_empty sample_log"
proof -
  let ?s1 = "log_empty\<lparr>lg_rows := [inserted_row 1 (sample_tombstone ''a'')], lg_last := 1\<rparr>"
  let ?s2 = "log_empty\<lparr>lg_rows := sample_rows, lg_last := 2\<rparr>"
  have "appended 1 (sample_tombstone ''a'') log_empty = ?s1"
    by (simp add: appended_def log_defs bt_remove_def sample_tombstone_def)
  then have "log_run True log_empty ?s1"
    using log_run_appended [of log_empty 1 True "sample_tombstone ''a''"] by (simp add: log_empty_def)
  moreover have "appended 1 (sample_tombstone ''b'') ?s1 = ?s2"
    by (simp add: appended_def log_defs bt_remove_def sample_tombstone_def sample_rows_def)
  then have "log_run True ?s1 ?s2"
    using log_run_appended [of ?s1 1 True "sample_tombstone ''b''"] by (simp add: log_empty_def)
  moreover have "snd (safe_watermark no_faults ?s2) = sample_log"
    by (simp add: safe_watermark_def establish_watermark_def reader_lock_def log_defs sample_log_def)
  then have "log_run True ?s2 sample_log"
    using safe_watermark_run [of True ?s2 no_faults] by simp
  ultimately show ?thesis
    by (blast intro: log_run_trans)
qed

lemma sample_log_later_run: "log_run True sample_log sample_log_later"
proof -
  have "appended 1 (sample_tombstone ''a'') sample_log = sample_log_later"
    by (simp add: appended_def log_defs bt_remove_def sample_tombstone_def sample_log_def sample_log_later_def)
  then show ?thesis
    using log_run_appended [of sample_log 1 True "sample_tombstone ''a''"]
    by (simp add: sample_log_def log_empty_def)
qed

lemma sample_encodes: "encodes_all sample_externs"
  by (simp add: encodes_all_def sample_externs_def is_ok_def)

section \<open>Filling and paging\<close>

text \<open>C33. A batch is the longest affordable prefix. What \<open>fill_batch\<close> sends is a prefix of the
  candidates whose encoding fits the compressed budget, or a single change; it stops before the end
  only at a change that would not fit, after at least one; and \<open>has_more\<close> says exactly whether
  anything was left behind.\<close>

theorem batch_is_longest_affordable_prefix:
  assumes "fill_batch X z scope cur candidates beyond budget digest = Inr b"
  shows "\<exists>n \<le> length candidates. bat_changes b = take n candidates \<and>
    (n \<le> 1 \<or> z (batch_bytes X (take n candidates)) \<le> budget) \<and>
    (if n = length candidates then True
     else 0 < n \<and> budget < z (batch_bytes X (take (Suc n) candidates))) \<and>
    bat_has_more b = (n < length candidates \<or> beyond) \<and>
    checksum X changes_to_value (bat_changes b) = Inr (bat_checksum b)"
proof -
  obtain n where "n \<le> length candidates" "bat_changes b = take n candidates"
    "batch_fits X z budget (take n candidates)"
    "n < length candidates \<longrightarrow> 0 < n \<and> budget < z (batch_bytes X (take (Suc n) candidates))"
    "bat_has_more b \<longleftrightarrow> n < length candidates \<or> beyond"
    "checksum X changes_to_value (take n candidates) = Inr (bat_checksum b)"
    using fill_batch_spec [OF assms] by blast
  then show ?thesis
    by (intro exI [of _ n]) (auto simp: batch_fits_def min_def split: if_splits)
qed

text \<open>With a budget of nothing, one change goes alone.\<close>

theorem batch_is_longest_affordable_prefix_witness:
  "\<exists>b. fill_batch sample_externs length pupil (Cursor 0) [sample_delete 3 ''a'' 1, sample_delete 5 ''b'' 1]
      False 0 hex_zero = Inr b \<and> bat_changes b = [sample_delete 3 ''a'' 1] \<and> bat_has_more b"
proof -
  let ?cs = "[sample_delete 3 ''a'' 1, sample_delete 5 ''b'' 1]"
  obtain b where b: "fill_batch sample_externs length pupil (Cursor 0) ?cs False 0 hex_zero = Inr b"
    using fill_batch_total [OF sample_encodes] by blast
  have pos: "\<not> length (batch_bytes sample_externs cs) \<le> 0" for cs
    by (simp add: batch_bytes_def array_bytes_def)
  from batch_is_longest_affordable_prefix [OF b] obtain n where n: "n \<le> length ?cs"
    "bat_changes b = take n ?cs" "n \<le> 1" "0 < n" "bat_has_more b = (n < length ?cs)"
    using pos by (auto split: if_splits)
  then have "n = 1"
    by simp
  with n b show ?thesis
    by (intro exI [of _ b]) simp
qed

text \<open>C17. A client accepts what the server serves. A batch served at the client's cursor passes the
  client's ordering rules and the wire's, and its \<open>next_cursor\<close> never lies behind the cursor.\<close>

theorem served_batch_is_accepted:
  assumes "log_run d log_empty s"
    and "serve_pull X z (lg_rows s) scope limit w budget digest cur = Inr b"
  shows "validate_ordering b (cursor_get cur) = Inr () \<and>
    cursor_get cur \<le> cursor_get (bat_next_cursor b) \<and> batch_try_from b = Inr b \<and> bat_scope b = scope"
proof -
  have "distinct (map row_seq (lg_rows s))"
    by (rule seq_inv_distinct [OF log_run_seq_inv [OF assms(1) log_empty_seq_inv]])
  moreover have "bat_scope b = scope"
    using serve_pull_spec [OF assms(2)] by blast
  ultimately show ?thesis
    using served_batch_ordering [OF _ assms(2)] by blast
qed

lemma sample_readable: "readable sample_externs (log_query sample_rows ''user:1'' 0 2)"
  by (simp add: sample_rows_def log_query_def inserted_row_def sample_tombstone_def readable_def) code_simp

theorem served_batch_is_accepted_witness:
  "\<exists>b. serve_pull sample_externs length (lg_rows sample_log) pupil 500 2 100 hex_zero (Cursor 0) = Inr b \<and>
     validate_ordering b 0 = Inr ()"
proof -
  have "\<exists>b. serve_pull sample_externs length (lg_rows sample_log) pupil 500 2 100 hex_zero (Cursor 0) = Inr b"
    using serve_pull_total [of sample_externs 500 "Cursor 0" "lg_rows sample_log" pupil 2] sample_encodes
      sample_readable by (simp add: sample_log_def log_empty_def pupil_def)
  then obtain b where "serve_pull sample_externs length (lg_rows sample_log) pupil 500 2 100 hex_zero (Cursor 0) = Inr b"
    by blast
  with served_batch_is_accepted [OF sample_log_run this] show ?thesis
    by auto
qed

text \<open>C9. Pulling to the end delivers the log. A client that pulls from the returned cursor while
  \<open>has_more\<close> is set stops after at most one pull per row, and the batches together are every row of
  its scope above its cursor and up to the watermark, each once, in order; only the last batch says
  that nothing is left.\<close>

theorem paging_delivers_the_log:
  assumes "log_run d log_empty s" and "encodes_all X"
    and "1 \<le> sint limit" "sint limit < 2 ^ 63 - 1" and "0 \<le> sint (cursor_get cur)"
    and "readable X (log_query (lg_rows s) (scope_str scope) (sint (cursor_get cur)) (sint w))"
    and "length (log_query (lg_rows s) (scope_str scope) (sint (cursor_get cur)) (sint w)) < fuel"
  shows "\<exists>bs. pull_all (serve_pull X z (lg_rows s) scope limit w budget digest) fuel cur = Some (Inr bs) \<and>
    list_all2 (\<lambda>r c. into_change X (lgr_row r) = Inr c)
      (log_query (lg_rows s) (scope_str scope) (sint (cursor_get cur)) (sint w))
      (concat (map bat_changes bs)) \<and>
    (\<exists>front final. bs = front @ [final] \<and> list_all bat_has_more front \<and> \<not> bat_has_more final)"
  using pull_all_delivers [OF assms(2-4) seq_inv_distinct [OF log_run_seq_inv [OF assms(1) log_empty_seq_inv]]
      assms(5-7)] unfolding converted_def .

theorem paging_delivers_the_log_witness:
  "\<exists>bs. pull_all (serve_pull sample_externs length (lg_rows sample_log) pupil 1 2 0 hex_zero) 3 (Cursor 0) =
      Some (Inr bs) \<and> length (concat (map bat_changes bs)) = 2"
proof -
  have sel: "length (log_query sample_rows ''user:1'' 0 2) = 2"
    by (simp add: sample_rows_def log_query_def inserted_row_def sample_tombstone_def)
  have "\<exists>bs. pull_all (serve_pull sample_externs length (lg_rows sample_log) pupil 1 2 0 hex_zero) 3 (Cursor 0) =
      Some (Inr bs) \<and> list_all2 (\<lambda>r c. into_change sample_externs (lgr_row r) = Inr c)
      (log_query sample_rows ''user:1'' 0 2) (concat (map bat_changes bs))"
    using paging_delivers_the_log [OF sample_log_run sample_encodes, of 1 "Cursor 0" pupil 2 3 length 0 hex_zero]
      sel sample_readable by (auto simp: sample_log_def log_empty_def pupil_def)
  then show ?thesis
    using sel list_all2_lengthD by fastforce
qed

section \<open>Readers and writers\<close>

text \<open>C7. A delivered page is final. With any number of sessions writing, committing, aborting and
  establishing watermarks in any interleaving, as long as every writer takes the lock before its first
  insert: no row that ever becomes visible lies between the cursor a page was read at and the last
  change of that page, unless it is in the page. A client that moves its cursor there misses nothing.\<close>

theorem delivered_page_is_final:
  assumes "log_run True log_empty s" and "changes_after X F scope cur limit s = (Inr pg, s1)"
    and "log_run True s1 s2" and "pg_changes pg \<noteq> []"
    and "r \<in> set (lg_rows s2)" "lgr_scope r = scope_str scope" "sint cur < row_seq r"
    and "row_seq r \<le> sint (seq_get (chg_seq (last (pg_changes pg))))"
  shows "\<exists>c \<in> set (pg_changes pg). into_change X (lgr_row r) = Inr c"
proof -
  obtain w where w: "safe_watermark F s = (Inr w, s1)"
    and page: "changes_after_watermark X (lf_query F) (lg_rows s1) scope cur limit w = Inr pg"
    using assms(2) by (auto simp: changes_after_def and_then_def split: prod.splits sum.splits)
  note sw = safe_watermark_recorded [OF w]
  have run1: "log_run True log_empty s1"
    by (rule log_run_trans [OF sw(2) assms(1)])
  let ?sel = "log_query (lg_rows s1) (scope_str scope) (sint cur) (sint w)"
  have read: "read_page X (lf_query F) ?sel limit = Inr pg"
    using page by (auto simp: changes_after_watermark_def split: if_splits)
  have strict: "sorted_wrt (\<lambda>a b. row_seq a < row_seq b) ?sel"
    by (intro log_query_strict seq_inv_distinct log_run_seq_inv [OF run1 log_empty_seq_inv])
  have "sint (seq_get (chg_seq (last (pg_changes pg)))) \<le> sint w"
    using page_covers(1) [OF read assms(4) strict] by (auto simp: set_log_query)
  then have "r \<in> set (log_query (lg_rows s2) (scope_str scope) (sint cur) (sint w))"
    using assms(5-8) by (simp add: set_log_query)
  then have "r \<in> set ?sel"
    using log_query_stable [OF assms(3) log_run_inv [OF run1 log_empty_inv]] sw(1) by simp
  then show ?thesis
    using page_covers(2) [OF read assms(4) strict _ assms(8)] by (simp add: converted_def)
qed

lemma sample_page_read:
  "\<exists>pg. changes_after sample_externs no_faults pupil 0 500 sample_log = (Inr pg, sample_log) \<and>
     length (pg_changes pg) = 2 \<and> chg_seq (last (pg_changes pg)) = Seq 2"
proof -
  have "safe_watermark no_faults sample_log = (Inr 2, sample_log)"
    by (simp add: safe_watermark_def establish_watermark_def reader_lock_def log_defs sample_log_def)
  moreover have "read_page sample_externs None sample_rows 500 =
      Inr \<lparr>pg_changes = [\<lparr>chg_seq = Seq 1, chg_entity = lesson, chg_entity_id = EntityId ''a'', chg_op = Delete,
          chg_snapshot = None, chg_row_version = RowVersion 1, chg_schema_version = SchemaVersion 1\<rparr>,
        \<lparr>chg_seq = Seq 2, chg_entity = lesson, chg_entity_id = EntityId ''b'', chg_op = Delete,
          chg_snapshot = None, chg_row_version = RowVersion 1, chg_schema_version = SchemaVersion 1\<rparr>],
        pg_more_beyond = False\<rparr>"
    unfolding sample_rows_def inserted_row_def sample_tombstone_def lesson_def by code_simp
  moreover have "log_query sample_rows ''user:1'' 0 2 = sample_rows"
    by (simp add: sample_rows_def log_query_def inserted_row_def sample_tombstone_def)
  ultimately show ?thesis
    by (simp add: changes_after_def changes_after_watermark_def and_then_def no_faults_def pupil_def
        sample_log_def log_empty_def)
qed

theorem delivered_page_is_final_witness:
  "\<exists>pg c. changes_after sample_externs no_faults pupil 0 500 sample_log = (Inr pg, sample_log) \<and>
     c \<in> set (pg_changes pg) \<and>
     into_change sample_externs (lgr_row (inserted_row 1 (sample_tombstone ''a''))) = Inr c"
proof -
  obtain pg where pg: "changes_after sample_externs no_faults pupil 0 500 sample_log = (Inr pg, sample_log)"
    "pg_changes pg \<noteq> []" "chg_seq (last (pg_changes pg)) = Seq 2"
    using sample_page_read by fastforce
  have "inserted_row 1 (sample_tombstone ''a'') \<in> set (lg_rows sample_log_later)"
    by (simp add: sample_log_later_def sample_rows_def)
  from delivered_page_is_final [OF sample_log_run pg(1) sample_log_later_run pg(2) this]
  obtain c where "c \<in> set (pg_changes pg)"
    "into_change sample_externs (lgr_row (inserted_row 1 (sample_tombstone ''a''))) = Inr c"
    using pg(3) by (auto simp: inserted_row_def sample_tombstone_def pupil_def)
  with pg(1) show ?thesis
    by blast
qed

text \<open>C15. A bootstrap may stop and resume. A device that read the compacted log up to some position at
  one watermark, and the rest at a later one, holds exactly the rows that replaying the whole log up
  to the later watermark gives, deletions in between included.\<close>

theorem bootstrap_resumes_exactly:
  assumes "log_run True log_empty s1" and "log_run True s1 s2"
    and "0 < stop" "stop \<le> w1" "w1 \<le> sint (lg_watermark s1)" "w1 \<le> w2"
  shows "replay
      (filter (\<lambda>r. row_seq r \<le> stop) (bootstrap_query (lg_rows s1) scope 0 w1) @
       bootstrap_query (lg_rows s2) scope stop w2) Map.empty =
    replay (log_query (lg_rows s2) scope 0 w2) Map.empty"
proof -
  have run2: "log_run True log_empty s2"
    by (rule log_run_trans [OF assms(2,1)])
  have "bootstrap_query (lg_rows s1) scope 0 w1 = bootstrap_query (lg_rows s2) scope 0 w1"
    using bootstrap_query_stable [OF assms(2) log_run_inv [OF assms(1) log_empty_inv] assms(5)] by simp
  moreover have "distinct (map row_seq (lg_rows s2))"
    by (rule seq_inv_distinct [OF log_run_seq_inv [OF run2 log_empty_seq_inv]])
  ultimately show ?thesis
    using bootstrap_resumes [OF _ _ assms(3,4,6), of "lg_rows s2" scope] log_run_rows_positive [OF run2]
    by (simp add: bootstrapped_def)
qed

theorem bootstrap_resumes_exactly_witness:
  "replay
     (filter (\<lambda>r. row_seq r \<le> 2) (bootstrap_query (lg_rows sample_log) ''user:1'' 0 2) @
      bootstrap_query (lg_rows sample_log_later) ''user:1'' 2 3) Map.empty =
   replay (log_query (lg_rows sample_log_later) ''user:1'' 0 3) Map.empty"
  by (rule bootstrap_resumes_exactly [OF sample_log_run sample_log_later_run])
    (simp_all add: sample_log_def)

section \<open>Commands\<close>

text \<open>C8. Every answer is the recorded outcome. With any number of sessions forwarding commands, in any
  interleaving of their statements, with statements that fail or take effect unseen and a host that
  may answer anything: two sessions that were given an outcome for the same command id (decided or
  replayed) were given the same outcome, and their payloads have the same checksum. No replay with
  another body is ever given the recorded success.\<close>

theorem answers_are_the_recorded_outcome:
  assumes "forward_run X fk ([], Map.empty) (tbl, ss)"
    and "ss i = Some (Answered c1 (Inr f1))" "f1 = Decided r1 \<or> f1 = Replayed r1"
    and "ss j = Some (Answered c2 (Inr f2))" "f2 = Decided r2 \<or> f2 = Replayed r2"
    and "cmd_id c1 = cmd_id c2"
  shows "r1 = r2 \<and>
    payload_checksum X payload_to_value (cmd_payload c1) = payload_checksum X payload_to_value (cmd_payload c2)"
proof -
  have inv: "dedupe_inv X (tbl, ss)"
    by (rule dedupe_run_inv [OF assms(1)]) (simp add: dedupe_inv_def unique_ids_def)
  then have "answer_stands X tbl c1 r1" "answer_stands X tbl c2 r2"
    using assms(2-5) unfolding dedupe_inv_def by (fastforce simp: session_ok_def)+
  then show ?thesis
    using assms(6) by (auto simp: answer_stands_def)
qed

definition sample_host :: "command \<Rightarrow> host_error + host_outcome" where
  "sample_host c = Inr (HostApplied (Seq 7))"

abbreviation sample_outcome :: command_result where
  "sample_outcome \<equiv> result_of_outcome (sample_command 1) (HostApplied (Seq 7))"

lemma sample_checksum:
  "\<exists>h. payload_checksum sample_externs payload_to_value p = Inr h \<and> length (hex_str h) = 32"
  by (simp add: payload_checksum_def canonical_to_vec_def sample_externs_def map_err_def map_ok_def
      payload_checksum_bytes_def hex_u128_text hex_text_digits)

text \<open>A command is decided, and the same command replayed.\<close>

lemma sample_forward:
  "\<exists>tbl. forward sample_externs (\<lambda>_. True) sample_host SqlOk SqlOk SqlOk [] (sample_command 1) =
     (Inr (Decided sample_outcome), tbl) \<and>
     forward sample_externs (\<lambda>_. True) sample_host SqlOk SqlOk SqlOk tbl (sample_command 1) =
     (Inr (Replayed sample_outcome), tbl)"
proof -
  obtain h where h: "payload_checksum sample_externs payload_to_value (cmd_payload (sample_command 1)) = Inr h"
    "length (hex_str h) = 32"
    using sample_checksum by blast
  have val: "outcome_valid (HostApplied (Seq 7))"
    by (simp add: outcome_valid_def seq_new_def bounded_num_def SEQ_MIN_def SEQ_MAX_def)
  obtain row where row: "row_to_record sample_externs (sample_command 1) sample_outcome = Inr row"
    by (simp add: row_to_record_def h result_of_outcome_def transpose_opt_def ok_or_def u64_try_from_def
        map_ok_def and_then_def)
  note stored = read_recorded [OF val row]
  have checks: "results_checks row"
    using row h(2) by (auto simp: row_to_record_def h(1) result_of_outcome_def results_checks_def
        status_text_def and_then_Inr)
  have "forward sample_externs (\<lambda>_. True) sample_host SqlOk SqlOk SqlOk [] (sample_command 1) =
      (Inr (Decided sample_outcome), [row])"
    using checks by (simp add: forward_def classify_def select_result_def decide_def h(1) sample_host_def
        record_result_def row run_insert_def insert_statement_def map_err_def map_ok_def split: option.splits)
  moreover have "forward sample_externs (\<lambda>_. True) sample_host SqlOk SqlOk SqlOk [row] (sample_command 1) =
      (Inr (Replayed sample_outcome), [row])"
    using stored by (simp add: forward_def classify_def select_result_def decide_def and_then_def)
  ultimately show ?thesis
    by blast
qed

lemma sample_forward_run:
  "\<exists>tbl ss. forward_run sample_externs (\<lambda>_. True) ([], Map.empty) (tbl, ss) \<and>
     ss 0 = Some (Answered (sample_command 1) (Inr (Decided sample_outcome))) \<and>
     ss 1 = Some (Answered (sample_command 1) (Inr (Replayed sample_outcome)))"
proof -
  obtain tbl where f: "forward sample_externs (\<lambda>_. True) sample_host SqlOk SqlOk SqlOk [] (sample_command 1) =
      (Inr (Decided sample_outcome), tbl)"
    "forward sample_externs (\<lambda>_. True) sample_host SqlOk SqlOk SqlOk tbl (sample_command 1) =
      (Inr (Replayed sample_outcome), tbl)"
    using sample_forward by blast
  have val: "sample_host (sample_command 1) = Inr outcome \<Longrightarrow> outcome_valid outcome" for outcome
    by (auto simp: sample_host_def outcome_valid_def seq_new_def bounded_num_def SEQ_MIN_def SEQ_MAX_def)
  let ?ss = "[0 \<mapsto> Answered (sample_command 1) (Inr (Decided sample_outcome))]"
  have "forward_run sample_externs (\<lambda>_. True) ([], Map.empty) (tbl, ?ss)"
    using forward_is_run [OF f(1) val, of Map.empty 0] by simp
  moreover have "forward_run sample_externs (\<lambda>_. True) (tbl, ?ss)
      (tbl, ?ss(1 \<mapsto> Answered (sample_command 1) (Inr (Replayed sample_outcome))))"
    using forward_is_run [OF f(2) val, of ?ss 1] by simp
  ultimately have "forward_run sample_externs (\<lambda>_. True) ([], Map.empty)
      (tbl, ?ss(1 \<mapsto> Answered (sample_command 1) (Inr (Replayed sample_outcome))))"
    by (blast intro: forward_run_trans)
  then show ?thesis
    by fastforce
qed

theorem answers_are_the_recorded_outcome_witness:
  "\<exists>tbl ss r. forward_run sample_externs (\<lambda>_. True) ([], Map.empty) (tbl, ss) \<and>
     ss 1 = Some (Answered (sample_command 1) (Inr (Replayed r))) \<and> r = sample_outcome"
proof -
  obtain tbl ss where run: "forward_run sample_externs (\<lambda>_. True) ([], Map.empty) (tbl, ss)"
    and ss: "ss 0 = Some (Answered (sample_command 1) (Inr (Decided sample_outcome)))"
      "ss 1 = Some (Answered (sample_command 1) (Inr (Replayed sample_outcome)))"
    using sample_forward_run by blast
  have "sample_outcome = sample_outcome"
    using answers_are_the_recorded_outcome [OF run ss(1) _ ss(2)] by blast
  with run ss show ?thesis
    by blast
qed

text \<open>C34. An unanswered host leaves nothing behind. When the host could not be asked or could not
  answer, the table is what it was and holds nothing for the command, so the retry is again a first
  submission and asks the host again, whether or not the host had already applied the command.\<close>

theorem unresolved_records_nothing:
  assumes "forward X fk host f1 f2 f3 tbl command = (Inr (Unresolved err), tbl')"
  shows "tbl' = tbl \<and> select_result tbl' (command_id_to_string (cmd_id command)) = None \<and>
    forward X fk host' SqlOk g2 g3 tbl' command =
      (case host' command of
         Inl e \<Rightarrow> (Inr (Unresolved e), tbl)
       | Inr outcome \<Rightarrow>
           (case record_result X fk g2 g3 tbl command (result_of_outcome command outcome) of
              (r, t) \<Rightarrow> (map_ok Decided r, t)))"
proof -
  have fresh: "classify X f1 tbl command = Inr Fresh"
    using assms by (auto simp: forward_def map_ok_def split: sum.splits decision.splits prod.splits)
  then have none: "select_result tbl (command_id_to_string (cmd_id command)) = None" and "f1 = SqlOk"
    by (cases "payload_checksum X payload_to_value (cmd_payload command)";
      auto simp: classify_def decide_def and_then_Inr split: sql_fate.splits option.splits if_splits)+
  moreover have "tbl' = tbl"
    using assms fresh by (auto simp: forward_def map_ok_def split: sum.splits prod.splits)
  ultimately show ?thesis
    using fresh by (simp add: forward_def)
qed

theorem unresolved_records_nothing_witness:
  "\<exists>tbl. forward sample_externs (\<lambda>_. True) (\<lambda>_. Inl HostTimeout) SqlOk SqlOk SqlOk [] (sample_command 1) =
     (Inr (Unresolved HostTimeout), tbl) \<and> tbl = []"
proof -
  obtain h where "payload_checksum sample_externs payload_to_value (cmd_payload (sample_command 1)) = Inr h"
    using sample_checksum by blast
  then have "forward sample_externs (\<lambda>_. True) (\<lambda>_. Inl HostTimeout) SqlOk SqlOk SqlOk [] (sample_command 1) =
      (Inr (Unresolved HostTimeout), [])"
    by (simp add: forward_def classify_def select_result_def decide_def)
  with unresolved_records_nothing [OF this] show ?thesis
    by simp
qed

section \<open>Versions and authorization\<close>

text \<open>The version window, exactly. The standard policy serves the current protocol and the one below
  it and nothing else; a refusal names both ends of the window, and the minimum it names would be
  served.\<close>

theorem version_window_exact:
  assumes "protocol_version_new n = Inr current" and "protocol_version_new m = Inr client"
  shows "(negotiate (policy_window current) client = NegAccepted) = (m = n \<or> unat m + 1 = unat n) \<and>
    (case negotiate (policy_window current) client of
       NegAccepted \<Rightarrow> True
     | NegRefused u \<Rightarrow>
         fup_current_protocol u = current \<and> fup_min_protocol u = vp_min (policy_window current) \<and>
         negotiate (policy_window current) (fup_min_protocol u) = NegAccepted)"
proof -
  have cur: "current = ProtocolVersion n" "1 \<le> n" and cli: "client = ProtocolVersion m" "1 \<le> m"
    using assms by (simp_all add: protocol_version_new_def bounded_num_ok PROTOCOL_VERSION_MIN_def)
  have pos: "1 \<le> unat n" "1 \<le> unat m"
    using cur(2) cli(2) by (simp_all add: word_le_nat_alt)
  have pred: "unat (n - 1) = unat n - 1"
    using pos(1) by (simp add: unat_sub_if_size)
  have top: "(n - 1 :: u16) \<le> 0xFFFF"
    using unsigned_less [of "n - 1", where 'a = nat] by (simp add: word_le_nat_alt)
  have low: "protocol_get (vp_min (policy_window current)) = (if unat n = 1 then n else n - 1)"
    using pos pred top by (auto simp: policy_window_def cur(1) protocol_version_new_def bounded_num_def
        PROTOCOL_VERSION_MIN_def Let_def word_le_nat_alt word_less_nat_alt)
  have current: "protocol_get (vp_current (policy_window current)) = n"
    by (simp add: policy_window_def cur(1))
  have "(negotiate (policy_window current) client = NegAccepted) = (m = n \<or> unat m + 1 = unat n)"
    using pos pred by (auto simp: negotiate_def low current cli(1) word_le_nat_alt word_unat_eq_iff split: if_splits)
  moreover have "negotiate (policy_window current) (vp_min (policy_window current)) = NegAccepted"
    using pos pred by (simp add: negotiate_def low current word_le_nat_alt)
  ultimately show ?thesis
    by (simp add: negotiate_def envelope_def Let_def) (simp add: policy_window_def)
qed

theorem version_window_exact_witness:
  "negotiate (policy_window (ProtocolVersion 3)) (ProtocolVersion 2) = NegAccepted \<and>
   negotiate (policy_window (ProtocolVersion 3)) (ProtocolVersion 4) \<noteq> NegAccepted"
proof -
  have v: "protocol_version_new n = Inr (ProtocolVersion n)" if "n \<in> {2, 3, 4}" for n
    using that by (auto simp: protocol_version_new_def bounded_num_def PROTOCOL_VERSION_MIN_def)
  show ?thesis
    using version_window_exact [OF v [of 3] v [of 2]] version_window_exact [OF v [of 3] v [of 4]] by simp
qed

definition claimed :: "string list \<Rightarrow> string \<Rightarrow> bool" where
  "claimed names s = (list_all (\<lambda>n. is_ok (scope_id_new n)) names \<and> s \<in> set names)"

lemma scope_id_new_str: "scope_id_new s = Inr scope \<Longrightarrow> scope_str scope = s"
  by (auto simp: scope_id_new_def map_ok_Inr)

lemma claimed_scopes_iff:
  "claimed_scopes names = Inr scopes \<longleftrightarrow>
     list_all (\<lambda>n. is_ok (scope_id_new n)) names \<and> scopes = map ScopeId names"
proof (induction names arbitrary: scopes)
  case (Cons n names)
  have "scope_id_new n = Inr x \<Longrightarrow> x = ScopeId n" for x
    by (auto simp: scope_id_new_def map_ok_Inr)
  with Cons show ?case
    by (auto simp: map_ok_Inr is_ok_def split: sum.splits)
qed auto

lemma verify_ok:
  "verify J v token = Inr c \<longleftrightarrow>
     (\<exists>raw. jwt_header J token = Inr (vrf_algorithm v) \<and> jwt_decode J (vrf_validation v) token = Inr raw \<and>
        raw_scopes raw \<noteq> [] \<and> list_all (\<lambda>n. is_ok (scope_id_new n)) (raw_scopes raw) \<and>
        c = \<lparr>clm_scopes = map ScopeId (raw_scopes raw), clm_subject = raw_sub raw, clm_expires_at = raw_exp raw\<rparr>)"
  by (auto simp: verify_def map_ok_Inr claimed_scopes_iff split: sum.splits)

lemma block_check_ok: "block_check fault tbl scope = Inr () \<longleftrightarrow> fault = None \<and> scope_str scope \<notin> fst ` set tbl"
  by (cases fault) (force simp: block_check_def scope_standing_def filter_empty_conv)+

text \<open>A bearer is entitled to a scope when its token verifies and claims it.\<close>

definition entitled :: "jwt \<Rightarrow> verifier \<Rightarrow> bytes option \<Rightarrow> string \<Rightarrow> bool" where
  "entitled J v authorization name =
     (\<exists>token raw. bearer J authorization = Inr token \<and> jwt_header J token = Inr (vrf_algorithm v) \<and>
        jwt_decode J (vrf_validation v) token = Inr raw \<and> claimed (raw_scopes raw) name)"

lemma entitled_iff:
  "entitled J v authorization name \<longleftrightarrow>
     (\<exists>token c. bearer J authorization = Inr token \<and> verify J v token = Inr c \<and>
        claims_scope c (ScopeId name))"
  unfolding entitled_def verify_ok
  by (auto simp: claims_scope_def claimed_def list_ex_iff)

lemma authorize_outcome:
  assumes "authorize J fault app authorization (ScopeId name) = (r, qs)"
  shows "qs = (if entitled J (app_verifier app) authorization name then [BlocklistQuery] else [])"
    and "is_ok r \<longleftrightarrow> entitled J (app_verifier app) authorization name \<and>
      block_check fault (app_blocks app) (ScopeId name) = Inr ()"
  using assms unfolding authorize_def entitled_iff
  by (auto simp: claims_authorize_def is_ok_def split: sum.splits if_splits)

lemma changes_after_rows:
  assumes "changes_after X F scope cur limit s = (Inr pg, s')"
  shows "list_all (\<lambda>c. \<exists>r \<in> set (lg_rows s). lgr_scope r = scope_str scope \<and> into_change X (lgr_row r) = Inr c)
    (pg_changes pg)"
proof -
  obtain w where w: "safe_watermark F s = (Inr w, s')"
    and page: "read_page X (lf_query F) (log_query (lg_rows s') (scope_str scope) (sint cur) (sint w)) limit = Inr pg"
    using assms
    by (auto simp: changes_after_def changes_after_watermark_def and_then_def split: prod.splits sum.splits if_splits)
  have "lg_rows s' = lg_rows s"
    using safe_watermark_recorded(3) [OF w] .
  then have "\<exists>r \<in> set (lg_rows s). lgr_scope r = scope_str scope \<and> converted X r c"
    if "c \<in> set (pg_changes pg)" for c
    using page_rows [OF page] that unfolding list_all2_conv_all_nth in_set_conv_nth [of c]
    by (metis in_set_takeD nth_mem set_log_query)
  then show ?thesis
    by (simp add: list_all_iff converted_def)
qed

text \<open>C16. The log is read only for a bearer entitled to the scope. The request path reaches the change
  log exactly when the scope is well formed, the header carries one bearer token, the token names the
  pinned algorithm and decodes under the verifier's own settings, its claims are scope ids and list
  this very scope, and the blocklist was read and does not hold it; the blocklist itself is queried
  only for a token that claims the scope. Anything else is refused without a change in the answer.\<close>

theorem log_is_read_only_when_entitled:
  "(LogQuery \<in> set (snd (snd (pull_handler X J block_fault log_faults authorization name cur app))) \<longleftrightarrow>
     is_ok (scope_id_new name) \<and>
     entitled J (app_verifier app) authorization name \<and>
     block_fault = None \<and> name \<notin> fst ` set (app_blocks app)) \<and>
   (BlocklistQuery \<in> set (snd (snd (pull_handler X J block_fault log_faults authorization name cur app))) \<longleftrightarrow>
     is_ok (scope_id_new name) \<and>
     entitled J (app_verifier app) authorization name) \<and>
   (case rsp_body (fst (pull_handler X J block_fault log_faults authorization name cur app)) of
      ErrorBody _ \<Rightarrow> True
    | PageBody cs _ \<Rightarrow>
        LogQuery \<in> set (snd (snd (pull_handler X J block_fault log_faults authorization name cur app))) \<and>
        list_all (\<lambda>c. \<exists>r \<in> set (lg_rows (app_log app)). lgr_scope r = name \<and> into_change X (lgr_row r) = Inr c) cs)"
proof (cases "scope_id_new name")
  case (Inl e)
  then show ?thesis
    by (simp add: pull_handler_def is_ok_def refuse_def)
next
  case (Inr scope)
  then have name: "scope_str scope = name" "is_ok (scope_id_new name)"
    by (simp_all add: scope_id_new_str is_ok_def)
  have scope: "scope = ScopeId name"
    using name(1) by (cases scope) simp
  obtain r qs where run: "authorize J block_fault app authorization (ScopeId name) = (r, qs)"
    by fastforce
  show ?thesis
    using authorize_outcome [OF run] name(2) unfolding pull_handler_def Inr sum.case scope run prod.case
    by (cases r) (auto simp: is_ok_def block_check_ok refuse_def dest!: changes_after_rows
        split: prod.splits sum.splits if_splits)
qed

text \<open>C35. A cut is immediate and closed. Once a scope has been blocked no request for it is served, for
  any token and any failure of the blocklist query, and nothing is written; other scopes stand as
  they stood; unblocking restores it. A blocklist that cannot be read refuses every scope.\<close>

theorem cut_is_immediate:
  assumes "block_scope fault scope why tbl = (Inr (), tbl')" and "app_blocks app = tbl'"
    and "scope_id_new (scope_str scope) = Inr scope" and "other \<noteq> scope"
  shows "rsp_status (fst (pull_handler X J block_fault log_faults authorization (scope_str scope) cur app)) \<in> {401, 403} \<and>
    fst (snd (pull_handler X J block_fault log_faults authorization (scope_str scope) cur app)) = app \<and>
    block_check block_fault tbl' other = block_check block_fault tbl other \<and>
    block_check None (snd (unblock_scope None scope tbl')) scope = Inr () \<and>
    block_check (Some d) tbl other = Inl (ScopeBlocked (scope_str other))"
proof -
  have keys: "fst ` set tbl' = insert (scope_str scope) (fst ` set tbl)"
    using assms(1) by (auto simp: block_scope_def list_ex_iff split: option.splits if_splits) force+
  have names: "scope_str other \<noteq> scope_str scope"
    using assms(4) by (auto intro: scope_id.expand)
  have standing: "block_check f t x =
      (if f = None \<and> scope_str x \<notin> fst ` set t then Inr () else Inl (ScopeBlocked (scope_str x)))" for f t x
    using block_check_ok [of f t x]
    by (auto simp: block_check_def split: sum.splits standing.splits if_splits)
  have refused: "block_check block_fault tbl' scope = Inl (ScopeBlocked (scope_str scope))"
    unfolding standing keys by simp
  have "\<exists>e qs. authorize J block_fault app authorization scope = (Inl e, qs)"
    using refused assms(2) by (auto simp: authorize_def split: sum.splits)
  then have handler: "\<exists>e qs. pull_handler X J block_fault log_faults authorization (scope_str scope) cur app =
      (refuse e, app, qs)"
    using assms(3) by (auto simp: pull_handler_def)
  have "block_check None (snd (unblock_scope None scope tbl')) scope = Inr ()"
    unfolding standing by (auto simp: unblock_scope_def)
  moreover have "block_check block_fault tbl' other = block_check block_fault tbl other"
    unfolding standing keys using names by auto
  ultimately show ?thesis
    using handler standing [of "Some d" tbl other] by (auto simp: refuse_def split: if_splits)
qed

theorem cut_is_immediate_witness:
  "rsp_status (fst (pull_handler sample_externs
      \<lparr>jwt_header = (\<lambda>_. Inr ''HS256''),
       jwt_decode = (\<lambda>_ _. Inr \<lparr>raw_scopes = [''user:1''], raw_exp = 9, raw_sub = None\<rparr>),
       jwt_to_str = (\<lambda>_. Some ''Bearer t'')\<rparr>
      None no_faults (Some []) ''user:1'' 0
      \<lparr>app_log = sample_log, app_blocks = [(''user:1'', ''stolen'')],
       app_verifier = verifier_new ''HS256'' 5\<rparr>)) \<in> {401, 403}"
proof -
  have "block_scope None pupil ''stolen'' [] = (Inr (), [(''user:1'', ''stolen'')])"
    by (simp add: block_scope_def pupil_def)
  moreover have "scope_id_new (scope_str pupil) = Inr pupil"
    unfolding pupil_def by code_simp
  moreover have "ScopeId ''user:2'' \<noteq> pupil"
    by (simp add: pupil_def)
  ultimately show ?thesis
    using cut_is_immediate [of None pupil "''stolen''" "[]" "[(''user:1'', ''stolen'')]"
        "\<lparr>app_log = sample_log, app_blocks = [(''user:1'', ''stolen'')], app_verifier = verifier_new ''HS256'' 5\<rparr>"
        "ScopeId ''user:2''"]
    by (simp add: pupil_def)
qed

section \<open>One session for all requests\<close>

text \<open>C10. Requests on one session lose changes. The reference server gives all requests one database
  session. Two of them, interleaved statement by statement, can record a watermark above a change that
  is not committed, although every writer keeps its contract: the commit of the first ends the
  transaction of the second, whose lock is then given back at once. The second request is served
  change 2 and moves to cursor 2; change 1 of the same scope commits afterwards, and no later request
  from that cursor, at any watermark, returns it.\<close>

theorem shared_session_loses_a_change:
  "\<exists>h w pg s' r. shared_run (shared_initial log_empty) h \<and>
     wt_sent (sh_tasks h 2) = length watermark_stmts \<and> wt_watermark (sh_tasks h 2) = Some w \<and>
     changes_after_watermark sample_externs None (lg_rows (sh_log h)) pupil 0 500 w = Inr pg \<and>
     map chg_seq (pg_changes pg) = [Seq 2] \<and>
     log_run True (sh_log h) s' \<and> r \<in> set (lg_rows s') \<and> lgr_scope r = scope_str pupil \<and> row_seq r = 1 \<and>
     (\<forall>w'. r \<notin> set (log_query (lg_rows s') (scope_str pupil) 2 w'))"
proof -
  let ?task = "\<lambda>n v. \<lparr>wt_sent = n, wt_watermark = v\<rparr>"
  let ?a = "inserted_row 1 (sample_tombstone ''a'')" and ?b = "inserted_row 2 (sample_tombstone ''b'')"
  let ?t0 = "\<lambda>_. ?task 0 None"
  define h1 where "h1 = \<lparr>sh_log = log_empty, sh_txn = False, sh_tasks = ?t0(1 := ?task 5 (Some 0), 2 := ?task 3 None)\<rparr>"
  define l2 where "l2 = log_empty\<lparr>lg_last := 1, lg_writers := [(10, \<lparr>wr_locked = True, wr_rows = [?a]\<rparr>)]\<rparr>"
  define l3 where "l3 = l2\<lparr>lg_last := 2, lg_writers := lg_writers l2 @ [(11, \<lparr>wr_locked = True, wr_rows = [?b]\<rparr>)]\<rparr>"
  define l4 where "l4 = l2\<lparr>lg_last := 2, lg_rows := [?b]\<rparr>"
  define h where "h = \<lparr>sh_log = l4\<lparr>lg_watermark := 2\<rparr>, sh_txn = False, sh_tasks = ?t0(1 := ?task 5 (Some 0), 2 := ?task 5 (Some 2))\<rparr>"
  have "turns [1, 1, 1, 2, 1, 1, 2, 2] (shared_initial log_empty) = Some h1"
    by (simp add: shared_defs h1_def log_empty_def reader_lock_def reader_record_def reader_commit_def
        numeral_nat fun_eq_iff)
  then have r1: "shared_run (shared_initial log_empty) h1"
    using turns_run shared_refl by blast
  have "shared_run (shared_initial log_empty) (h1\<lparr>sh_log := l2\<rparr>)"
    by (rule shared_writer_run [OF r1, of 10 "sample_tombstone ''a''" 1 l2])
      (simp_all add: h1_def l2_def log_defs sample_tombstone_def Let_def)
  then have r2: "shared_run (shared_initial log_empty) (h1\<lparr>sh_log := l2\<rparr>)" .
  have "shared_run (shared_initial log_empty) ((h1\<lparr>sh_log := l2\<rparr>)\<lparr>sh_log := l3\<rparr>)"
    by (rule shared_writer_run [OF r2, of 11 "sample_tombstone ''b''" 2 l3])
      (simp_all add: l3_def l2_def log_defs sample_tombstone_def Let_def)
  from shared_commit_run [OF this, of 11]
  have r3: "shared_run (shared_initial log_empty) (h1\<lparr>sh_log := l4\<rparr>)"
    by (simp add: l4_def l3_def l2_def log_defs bt_remove_def)
  have "turns [2, 2] (h1\<lparr>sh_log := l4\<rparr>) = Some h"
    by (simp add: shared_defs h1_def h_def l4_def l2_def log_empty_def reader_record_def reader_commit_def
        numeral_nat fun_eq_iff)
  then have run: "shared_run (shared_initial log_empty) h"
    using turns_run r3 by blast
  define s' where "s' = commit_writer 10 (sh_log h)"
  have "log_query [?b] ''user:1'' 0 2 = [?b]"
    by (simp add: log_query_def inserted_row_def sample_tombstone_def)
  moreover have "read_page sample_externs None [?b] 500 =
      Inr \<lparr>pg_changes = [\<lparr>chg_seq = Seq 2, chg_entity = lesson, chg_entity_id = EntityId ''b'', chg_op = Delete,
          chg_snapshot = None, chg_row_version = RowVersion 1, chg_schema_version = SchemaVersion 1\<rparr>],
        pg_more_beyond = False\<rparr>"
    unfolding inserted_row_def sample_tombstone_def lesson_def by code_simp
  ultimately have page: "\<exists>pg. changes_after_watermark sample_externs None (lg_rows (sh_log h)) pupil 0 500 2 = Inr pg \<and>
      map chg_seq (pg_changes pg) = [Seq 2]"
    by (simp add: changes_after_watermark_def pupil_def h_def l4_def)
  then obtain pg where pg: "changes_after_watermark sample_externs None (lg_rows (sh_log h)) pupil 0 500 2 = Inr pg"
    "map chg_seq (pg_changes pg) = [Seq 2]"
    by (elim exE conjE)
  have later: "log_run True (sh_log h) s'"
    unfolding s'_def by (intro log_run_one step_commit)
  have missed: "?a \<in> set (lg_rows s')" "lgr_scope ?a = scope_str pupil" "row_seq ?a = 1"
    by (simp_all add: s'_def h_def l4_def l2_def commit_writer_def inserted_row_def sample_tombstone_def pupil_def)
  have never: "?a \<notin> set (log_query (lg_rows s') (scope_str pupil) 2 w')" for w'
    using missed(3) by (simp add: set_log_query)
  have served: "wt_sent (sh_tasks h 2) = length watermark_stmts" "wt_watermark (sh_tasks h 2) = Some 2"
    by (simp_all add: h_def watermark_stmts_def)
  show ?thesis
    by (intro exI [of _ h] exI [of _ "2 :: u64"] exI [of _ pg] exI [of _ s'] exI [of _ ?a] conjI allI)
      (rule run served pg later missed never)+
qed

end
