(* ===== verification/Sim_Rng.thy ===== *)
theory Sim_Rng
  imports Prelude
begin

text \<open>
  The simulator's generator (\<open>credsync-sim/src/rng.rs\<close>): PCG-XSH-RR 64/32. \<open>below\<close> rejects outputs
  until one is usable, a loop with no bound in the code. It ends because the congruential step
  visits every one of the \<open>2 ^ 64\<close> states (multiplier 1 modulo 4, odd increment), among them one whose
  output no threshold rejects; that is the termination proof of the definition.
\<close>

section \<open>The generator\<close>

record rng =
  rng_state :: u64
  rng_seed :: u64

definition RNG_MULTIPLIER :: u64 where "RNG_MULTIPLIER = 6364136223846793005"
definition RNG_INCREMENT :: u64 where "RNG_INCREMENT = 1442695040888963407"

definition rng_advance :: "u64 \<Rightarrow> u64" where
  "rng_advance old = old * RNG_MULTIPLIER + RNG_INCREMENT"

definition rng_new :: "u64 \<Rightarrow> rng" where
  "rng_new seed = \<lparr>rng_state = rng_advance (seed + RNG_INCREMENT), rng_seed = seed\<rparr>"

definition rng_output :: "u64 \<Rightarrow> u32" where
  "rng_output old =
     (let xorshifted = ucast (drop_bit 27 (drop_bit 18 old XOR old)) :: u32;
          rot = unat (drop_bit 59 old)
      in word_rotr rot xorshifted)"

definition next_u32 :: "rng \<Rightarrow> u32 \<times> rng" where
  "next_u32 r = (rng_output (rng_state r), r\<lparr>rng_state := rng_advance (rng_state r)\<rparr>)"

definition next_u64 :: "rng \<Rightarrow> u64 \<times> rng" where
  "next_u64 r =
     (let (hi, r1) = next_u32 r;
          (lo, r2) = next_u32 r1
      in (push_bit 32 (ucast hi) OR ucast lo, r2))"

section \<open>The congruential step has full period\<close>

definition geometric :: "nat \<Rightarrow> int" where
  "geometric n = (\<Sum>i<n. uint RNG_MULTIPLIER ^ i)"

lemma geometric_simps [simp]:
  "geometric 0 = 0"
  "geometric (Suc n) = geometric n + uint RNG_MULTIPLIER ^ n"
  by (simp_all add: geometric_def)

lemma multiplier_mod_4: "uint RNG_MULTIPLIER mod 4 = 1"
  by (simp add: RNG_MULTIPLIER_def)

lemma odd_multiplier: "odd (uint RNG_MULTIPLIER)"
  using multiplier_mod_4 by presburger

lemma power_mod_4: "uint RNG_MULTIPLIER ^ n mod 4 = 1"
  using multiplier_mod_4 by (induction n) (simp_all add: mod_mult_eq [symmetric])

lemma odd_geometric: "odd (geometric n) \<longleftrightarrow> odd n"
  using odd_multiplier by (induction n) auto

lemma geometric_add:
  "geometric (m + n) = geometric m + uint RNG_MULTIPLIER ^ m * geometric n"
  by (induction n) (simp_all add: algebra_simps power_add)

lemma geometric_double: "geometric (2 * n) = geometric n * (1 + uint RNG_MULTIPLIER ^ n)"
  unfolding mult_2 geometric_add by (simp add: distrib_left mult.commute)

text \<open>The powers of two that divide the sum divide the number of its terms.\<close>

lemma geometric_dvd: "2 ^ k dvd geometric n \<Longrightarrow> 2 ^ k dvd n"
proof (induction k arbitrary: n)
  case (Suc k)
  then have "even n"
    using odd_geometric by (metis dvd_power dvd_trans zero_less_Suc)
  then obtain m where n: "n = 2 * m"
    by (elim evenE)
  obtain c where c: "1 + uint RNG_MULTIPLIER ^ m = 2 * c" and "odd c"
  proof
    show "1 + uint RNG_MULTIPLIER ^ m = 2 * ((1 + uint RNG_MULTIPLIER ^ m) div 2)"
      and "odd ((1 + uint RNG_MULTIPLIER ^ m) div 2)"
      using power_mod_4 [of m] by presburger+
  qed
  have "2 * 2 ^ k dvd 2 * (geometric m * c)"
    using Suc.prems unfolding n geometric_double c by (simp add: mult.left_commute)
  then have "2 ^ k dvd geometric m * c"
    by simp
  then have "2 ^ k dvd geometric m"
    using \<open>odd c\<close> by (metis coprime_dvd_mult_left_iff coprime_left_2_iff_odd coprime_power_left_iff)
  then show ?case
    using Suc.IH n by simp
qed simp

lemma affine_step:
  fixes m i g s :: "'a::comm_ring_1"
  shows "(s + g * ((m - 1) * s + i)) * m + i = s + (1 + m * g) * ((m - 1) * s + i)"
  by (simp add: algebra_simps)

lemma advance_iterate:
  "(rng_advance ^^ n) s = s + word_of_int (geometric n) * ((RNG_MULTIPLIER - 1) * s + RNG_INCREMENT)"
proof (induction n)
  case (Suc n)
  have "geometric (Suc n) = 1 + uint RNG_MULTIPLIER * geometric n"
    using geometric_add [of 1 n] by simp
  then have "word_of_int (geometric (Suc n)) = (1 :: u64) + RNG_MULTIPLIER * word_of_int (geometric n)"
    by (metis wi_hom_add wi_hom_mult word_of_int_1 word_of_int_uint)
  moreover have "(rng_advance ^^ Suc n) s =
      (s + word_of_int (geometric n) * ((RNG_MULTIPLIER - 1) * s + RNG_INCREMENT)) * RNG_MULTIPLIER
      + RNG_INCREMENT"
    by (simp only: funpow.simps comp_apply Suc.IH) (simp only: rng_advance_def)
  ultimately show ?case
    by (simp only: affine_step)
qed simp

lemma advance_injective:
  assumes "(rng_advance ^^ i) s = (rng_advance ^^ j) s" and "i \<le> j" and "j < 2 ^ 64"
  shows "i = j"
proof -
  define u where "u = (RNG_MULTIPLIER - 1) * s + RNG_INCREMENT"
  have odd_u: "odd (uint u)"
    by (simp add: u_def RNG_MULTIPLIER_def RNG_INCREMENT_def uint_word_ariths dvd_mod_iff)
  have "word_of_int (geometric j) * u = word_of_int (geometric i) * u"
    using assms(1) by (simp add: advance_iterate u_def)
  then have "(word_of_int (geometric j * uint u) :: u64) = word_of_int (geometric i * uint u)"
    by (metis wi_hom_mult word_of_int_uint)
  then have "2 ^ 64 dvd geometric j * uint u - geometric i * uint u"
    unfolding word_of_int_eq_iff by (simp add: take_bit_eq_mod mod_eq_dvd_iff)
  then have "2 ^ 64 dvd (geometric j - geometric i) * uint u"
    by (simp add: left_diff_distrib)
  moreover have "geometric j - geometric i = uint RNG_MULTIPLIER ^ i * geometric (j - i)"
    using geometric_add [of i "j - i"] assms(2) by simp
  ultimately have "2 ^ 64 dvd geometric (j - i)"
    using odd_u odd_multiplier
    by (metis coprime_dvd_mult_left_iff coprime_dvd_mult_right_iff coprime_left_2_iff_odd
        coprime_power_left_iff even_power)
  then have "2 ^ 64 dvd j - i"
    by (rule geometric_dvd)
  with assms show ?thesis
    by (metis diff_is_0_eq' dvd_imp_le le_antisym less_imp_diff_less linorder_not_less
        not_gr_zero diff_diff_cancel diff_zero)
qed

lemma advance_reaches: "\<exists>k < 2 ^ 64. (rng_advance ^^ k) s = t"
proof -
  let ?f = "\<lambda>k. (rng_advance ^^ k) s"
  have "inj_on ?f {..<2 ^ 64}"
  proof (rule inj_onI)
    fix i j :: nat
    assume "i \<in> {..<2 ^ 64}" "j \<in> {..<2 ^ 64}" "?f i = ?f j"
    then show "i = j"
      using advance_injective [of i s j] advance_injective [of j s i] by (cases "i \<le> j") auto
  qed
  then have "card (?f ` {..<2 ^ 64}) = card (UNIV :: u64 set)"
    by (simp add: card_image card_word)
  then have "?f ` {..<2 ^ 64} = UNIV"
    by (intro card_subset_eq) auto
  then show ?thesis
    by (metis (mono_tags, lifting) UNIV_I imageE lessThan_iff)
qed

definition saturating_state :: u64 where "saturating_state = 0x7fffe0000000000"

lemma rotate_none: "word_rotr 0 (w :: u32) = w"
  by (rule bit_word_eqI) (simp add: bit_word_rotr_iff)

lemma saturating_output: "rng_output saturating_state = 0xFFFFFFFF"
  by (simp add: rng_output_def saturating_state_def rotate_none)

lemma largest_u32: "w \<le> (0xFFFFFFFF :: u32)"
proof -
  have "(0xFFFFFFFF :: u32) = - 1"
    by code_simp
  then show ?thesis
    using word_order.extremum [of w] by (simp only:)
qed

section \<open>Drawing numbers\<close>

text \<open>The loop of \<open>below\<close>: draw until an output reaches the threshold.\<close>

function below_loop :: "u32 \<Rightarrow> u32 \<Rightarrow> rng \<Rightarrow> u32 \<times> rng" where
  "below_loop threshold n r =
     (let (v, r') = next_u32 r
      in if threshold \<le> v then (v mod n, r') else below_loop threshold n r')"
  by pat_completeness auto

text \<open>The number of draws until an output is accepted.\<close>

definition rejections :: "u32 \<Rightarrow> u64 \<Rightarrow> nat" where
  "rejections threshold s = (LEAST k. threshold \<le> rng_output ((rng_advance ^^ k) s))"

lemma acceptance: "\<exists>k < 2 ^ 64. threshold \<le> rng_output ((rng_advance ^^ k) s)"
proof -
  obtain k where "k < 2 ^ 64" and "(rng_advance ^^ k) s = saturating_state"
    using advance_reaches by blast
  then show ?thesis
    using saturating_output largest_u32 by (intro exI [of _ k]) simp
qed

lemma rejections_accepts: "threshold \<le> rng_output ((rng_advance ^^ rejections threshold s) s)"
  unfolding rejections_def using acceptance [of threshold s] by (metis LeastI)

lemma rejections_least: "k < rejections threshold s \<Longrightarrow> rng_output ((rng_advance ^^ k) s) < threshold"
  unfolding rejections_def using not_less_Least not_le by blast

lemma rejections_bound: "rejections threshold s < 2 ^ 64"
  unfolding rejections_def using acceptance [of threshold s]
  by (metis (no_types, lifting) Least_le order_le_less_trans)

lemma rejections_step:
  assumes "rng_output s < threshold"
  shows "rejections threshold s = Suc (rejections threshold (rng_advance s))"
proof -
  have "\<not> threshold \<le> rng_output ((rng_advance ^^ 0) s)"
    using assms by simp
  then show ?thesis
    unfolding rejections_def using Least_Suc [of "\<lambda>k. threshold \<le> rng_output ((rng_advance ^^ k) s)"]
      rejections_accepts [of threshold s] by (simp add: funpow_swap1 not_le)
qed

termination below_loop
proof (relation "measure (\<lambda>(threshold, n, r). rejections threshold (rng_state r))")
  fix threshold n :: u32 and r r' :: rng and x v
  assume "x = next_u32 r" and "(v, r') = x" and "\<not> threshold \<le> v"
  then show "((threshold, n, r'), (threshold, n, r)) \<in>
      measure (\<lambda>(threshold, n, r). rejections threshold (rng_state r))"
    using rejections_step [of "rng_state r" threshold] by (simp add: next_u32_def not_le)
qed simp

declare below_loop.simps [simp del]

definition below :: "u32 \<Rightarrow> rng \<Rightarrow> u32 \<times> rng" where
  "below n r = (if n = 0 then (0, r) else below_loop ((- n) mod n) n r)"

definition rng_range :: "u32 \<Rightarrow> u32 \<Rightarrow> rng \<Rightarrow> u32 \<times> rng" where
  "rng_range low high r =
     (if high \<le> low then (low, r)
      else let (v, r') = below (high - low + 1) r in (low + v, r'))"

definition chance :: "u32 \<Rightarrow> rng \<Rightarrow> bool \<times> rng" where
  "chance percent r =
     (if percent = 0 then (False, r)
      else if 100 \<le> percent then (True, r)
      else let (v, r') = below 100 r in (v < percent, r'))"

text \<open>An \<open>i64\<close> is its bits, read with \<^const>\<open>sint\<close>.\<close>

definition signed_offset :: "u64 \<Rightarrow> rng \<Rightarrow> u64 \<times> rng" where
  "signed_offset magnitude r =
     (if sint magnitude \<le> 0 then (0, r)
      else let span = magnitude * 2 + 1;
               (v, r') = next_u64 r
           in (v mod span - magnitude, r'))"

definition rng_index :: "nat \<Rightarrow> rng \<Rightarrow> nat option \<times> rng" where
  "rng_index len r =
     (if len = 0 then (None, r)
      else let (v, r') = below (of_nat len) r in (Some (unat v), r'))"

lemmas rng_defs [run_defs] =
  RNG_MULTIPLIER_def RNG_INCREMENT_def rng_advance_def rng_new_def rng_output_def next_u32_def
  next_u64_def below_loop.simps below_def rng_range_def chance_def signed_offset_def rng_index_def

section \<open>What is drawn\<close>

lemma below_loop_result:
  "below_loop threshold n r =
     (rng_output ((rng_advance ^^ rejections threshold (rng_state r)) (rng_state r)) mod n,
      r\<lparr>rng_state := (rng_advance ^^ Suc (rejections threshold (rng_state r))) (rng_state r)\<rparr>)"
proof (induction threshold n r rule: below_loop.induct)
  case (1 threshold n r)
  show ?case
  proof (cases "threshold \<le> rng_output (rng_state r)")
    case True
    then have "rejections threshold (rng_state r) = 0"
      by (simp add: rejections_def)
    with True show ?thesis
      by (simp add: below_loop.simps [of threshold n r] next_u32_def)
  next
    case False
    then have "rejections threshold (rng_state r) = Suc (rejections threshold (rng_advance (rng_state r)))"
      by (simp add: rejections_step not_le)
    with False show ?thesis
      using 1 by (simp add: below_loop.simps [of threshold n r] next_u32_def funpow_swap1)
  qed
qed

lemma below_less: "n \<noteq> 0 \<Longrightarrow> fst (below n r) < n"
  by (simp add: below_def below_loop_result word_mod_less_divisor word_gt_0)

lemma range_within:
  assumes "low \<le> high"
  shows "low \<le> fst (rng_range low high r)" and "fst (rng_range low high r) \<le> high"
proof -
  have "low \<le> fst (rng_range low high r) \<and> fst (rng_range low high r) \<le> high"
  proof (cases "high \<le> low \<or> high - low + 1 = 0")
    case True
    then show ?thesis
      using assms by (auto simp: rng_range_def below_def)
  next
    case False
    let ?v = "fst (below (high - low + 1) r)"
    have "?v < high - low + 1"
      using False below_less by blast
    moreover have "unat (high - low + 1) = Suc (unat (high - low))"
      using False unatSuc [of "high - low"] by (simp add: add.commute)
    ultimately have "?v \<le> high - low"
      by (simp add: word_less_nat_alt word_le_nat_alt)
    then have "unat ?v + unat low \<le> unat high"
      using assms by (simp add: word_le_nat_alt unat_sub)
    moreover have "unat high < 2 ^ 32"
      using unsigned_less [of high, where 'a = nat] by simp
    ultimately have "unat (low + ?v) = unat low + unat ?v"
      by (simp add: unat_word_ariths)
    with \<open>unat ?v + unat low \<le> unat high\<close> show ?thesis
      using False by (simp add: rng_range_def case_prod_beta word_le_nat_alt)
  qed
  then show "low \<le> fst (rng_range low high r)" and "fst (rng_range low high r) \<le> high"
    by simp_all
qed

lemma signed_within:
  assumes "0 < sint magnitude" and "sint magnitude < 2 ^ 62"
  shows "\<bar>sint (fst (signed_offset magnitude r))\<bar> \<le> sint magnitude"
proof -
  define v where "v = fst (next_u64 r) mod (magnitude * 2 + 1)"
  have m: "uint magnitude = sint magnitude"
    using assms uint_sint [of magnitude] by (simp add: take_bit_int_eq_self)
  then have "uint (magnitude * 2 + 1) = 2 * sint magnitude + 1"
    using assms by (simp add: uint_word_ariths)
  then have v: "0 \<le> uint v" "uint v \<le> 2 * sint magnitude"
    using assms pos_mod_bound [of "uint (magnitude * 2 + 1)" "uint (fst (next_u64 r))"]
    by (auto simp: v_def uint_mod)
  have "- (2 ^ 63) \<le> uint v"
    by (rule order_trans [OF _ v(1)]) simp
  moreover have "uint v < 2 ^ 63"
    using v(2) assms by simp
  ultimately have "sint v = uint v"
    by (subst sint_uint) (simp add: signed_take_bit_int_eq_self)
  then have "sint (v - magnitude) = uint v - sint magnitude"
  proof -
    have "- (2 ^ 63) \<le> uint v - sint magnitude"
    proof (rule order_trans)
      show "- (2 ^ 63) \<le> - sint magnitude"
        using assms(2) by simp
      show "- sint magnitude \<le> uint v - sint magnitude"
        using v(1) by simp
    qed
    moreover have "uint v - sint magnitude < 2 ^ 63"
      using v(2) assms by simp
    ultimately show ?thesis
      using \<open>sint v = uint v\<close> by (simp add: sint_word_ariths signed_take_bit_int_eq_self)
  qed
  then have "\<bar>sint (v - magnitude)\<bar> \<le> sint magnitude"
    using v assms(1) by linarith
  then show ?thesis
    using assms(1) by (simp add: signed_offset_def v_def case_prod_beta Let_def)
qed

lemma index_within: "0 < len \<Longrightarrow> len < 2 ^ 32 \<Longrightarrow> \<exists>i < len. fst (rng_index len r) = Some i"
  using below_less [of "of_nat len" r]
  by (auto simp: rng_index_def case_prod_beta word_less_nat_alt unat_of_nat take_bit_eq_mod
      word_eq_iff_unsigned [where 'a = nat])

text \<open>Among the accepted outputs every residue is equally frequent.\<close>

lemma residue_in_block:
  fixes i n a :: nat
  assumes "i < n"
  shows "card {v \<in> {a..<a + n}. v mod n = i} = 1"
proof -
  define w where "w = a + (i + (n - a mod n)) mod n"
  have "a mod n < n"
    using assms by simp
  then have "a + (i + (n - a mod n)) = i + n + n * (a div n)"
    using mult_div_mod_eq [of n a] by linarith
  then have "(a + (i + (n - a mod n))) mod n = i"
    using assms by simp
  then have "w mod n = i"
    unfolding w_def using assms by (simp add: mod_add_right_eq)
  moreover have "v \<le> w" if "v \<in> {a..<a + n}" "w \<in> {a..<a + n}" "v mod n = w mod n" for v w
  proof (rule ccontr)
    assume "\<not> v \<le> w"
    then have "n dvd v - w"
      using that(3) by (simp add: mod_eq_dvd_iff_nat)
    moreover have "0 < v - w" "v - w < n"
      using that \<open>\<not> v \<le> w\<close> by auto
    ultimately show False
      using nat_dvd_not_less by blast
  qed
  moreover have "w \<in> {a..<a + n}"
    using assms by (simp add: w_def)
  ultimately have "v = w" if "v \<in> {a..<a + n}" "v mod n = i" for v
    using that by (intro antisym) simp_all
  with \<open>w mod n = i\<close> \<open>w \<in> {a..<a + n}\<close> have "{v \<in> {a..<a + n}. v mod n = i} = {w}"
    by blast
  then show ?thesis
    by simp
qed

lemma residues_in_blocks:
  fixes i n t q :: nat
  assumes "i < n"
  shows "card {v \<in> {t..<t + q * n}. v mod n = i} = q"
proof (induction q)
  case (Suc q)
  have "{v \<in> {t..<t + Suc q * n}. v mod n = i} =
      {v \<in> {t..<t + q * n}. v mod n = i} \<union> {v \<in> {t + q * n..<t + q * n + n}. v mod n = i}"
    by auto
  then show ?case
    using Suc residue_in_block [OF assms, of "t + q * n"] by (simp add: card_Un_disjoint disjoint_iff)
qed simp

lemma accepted_unbiased:
  assumes "i < n"
  shows "card {v :: u32. (- n) mod n \<le> v \<and> v mod n = i} = 2 ^ 32 div unat n"
proof -
  let ?t = "2 ^ 32 mod unat n" and ?q = "2 ^ 32 div unat n"
  have n: "0 < unat n" "unat n < 2 ^ 32"
    using assms unsigned_less [of n, where 'a = nat] by (auto simp: word_less_nat_alt)
  have "uint (- n) = 2 ^ 32 - uint n"
  proof -
    have "0 < uint n"
      using n(1) by (metis unat_eq_nat_uint zero_less_nat_eq)
    moreover have "uint n < 2 ^ 32"
      using unsigned_less [of n, where 'a = int] by simp
    moreover have "uint (- n) = (- uint n) mod 2 ^ 32"
      by (simp add: uint_word_ariths)
    ultimately show ?thesis
      by (simp add: zmod_zminus1_eq_if)
  qed
  then have "unat (- n) = 2 ^ 32 - unat n"
    unfolding unat_eq_nat_uint by (simp add: nat_diff_distrib')
  then have "unat ((- n) mod n) = ?t"
    using n by (simp add: unat_mod le_mod_geq)
  then have mem: "v \<in> {v. (- n) mod n \<le> v \<and> v mod n = i} \<longleftrightarrow>
      unat v \<in> {v \<in> {?t..<2 ^ 32}. v mod unat n = unat i}" for v
    using unsigned_less [of v, where 'a = nat]
    by (auto simp: word_le_nat_alt unat_mod word_eq_iff_unsigned [where 'a = nat])
  have "unat ` {v :: u32. (- n) mod n \<le> v \<and> v mod n = i} =
      {v \<in> {?t..<2 ^ 32}. v mod unat n = unat i}" (is "unat ` ?A = ?B")
  proof (intro set_eqI iffI)
    fix k
    assume k: "k \<in> ?B"
    then have "k < 2 ^ 32"
      by (simp only: mem_Collect_eq atLeastLessThan_iff)
    then have same: "unat (of_nat k :: u32) = k"
      by (simp only: unat_of_nat) (simp add: take_bit_nat_eq_self)
    then have "of_nat k \<in> ?A"
      using k mem [of "of_nat k"] by (simp only:)
    then show "k \<in> unat ` ?A"
      using same by (rule rev_image_eqI [OF _ sym])
  qed (use mem in blast)
  moreover have "?t + ?q * unat n = 2 ^ 32"
    by (rule mod_div_mult_eq)
  then have "card {v \<in> {?t..<2 ^ 32}. v mod unat n = unat i} = ?q"
    using residues_in_blocks [of "unat i" "unat n" ?t ?q] assms by (metis word_less_nat_alt)
  moreover have "card (unat ` {v :: u32. (- n) mod n \<le> v \<and> v mod n = i}) =
      card {v :: u32. (- n) mod n \<le> v \<and> v mod n = i}"
    by (rule card_image) (simp add: inj_on_def word_eq_iff_unsigned [where 'a = nat])
  ultimately show ?thesis
    by (simp only:)
qed

end
