(* ===== verification/Sim_Fault.thy ===== *)
theory Sim_Fault
  imports Sim_Rng
begin

text \<open>
  The fault menu, the trace and the load state of the simulator (\<open>fault.rs\<close>, \<open>trace.rs\<close> and
  \<open>pressure.rs\<close> under \<open>credsync-sim/src\<close>). Simulated time is an \<open>i64\<close> in the code; it starts at
  1.8e12 and grows by 60,000 a step, so that no run leaves the range, and it is an \<^typ>\<open>int\<close> here. The
  lemmas say which fault a decision picks, that a decision costs the generator the same whatever it
  decides, that the trace counts every fault, and that shedding shrinks an answer without emptying it.
\<close>

section \<open>The menu\<close>

definition SKEW_MAGNITUDE_MS :: int where "SKEW_MAGNITUDE_MS = 3 * 24 * 60 * 60 * 1000"
definition FLAP_DURATION_MS :: int where "FLAP_DURATION_MS = 90000"

record fault_rates =
  fr_drop_every_nth :: u32
  fr_duplicate_response :: u32
  fr_reorder_response :: u32
  fr_sever_mid_batch :: u32
  fr_malformed_bytes :: u32
  fr_connectivity_flap :: u32
  fr_storage_fail_before_commit :: u32
  fr_storage_commit_then_kill :: u32
  fr_server_restart :: u32
  fr_device_restart :: u32
  fr_storage_lie_about_commit :: u32
  fr_overload :: u32
  fr_slow_commit :: u32
  fr_protocol_violation :: u32
  fr_latency_ms :: "u32 \<times> u32"

definition rates_default :: fault_rates where
  "rates_default =
     \<lparr>fr_drop_every_nth = 7, fr_duplicate_response = 12, fr_reorder_response = 12,
      fr_sever_mid_batch = 6, fr_malformed_bytes = 5, fr_connectivity_flap = 4,
      fr_storage_fail_before_commit = 6, fr_storage_commit_then_kill = 4, fr_server_restart = 2,
      fr_device_restart = 3, fr_storage_lie_about_commit = 5, fr_overload = 6, fr_slow_commit = 8,
      fr_protocol_violation = 5, fr_latency_ms = (20, 2000)\<rparr>"

definition rates_none :: fault_rates where
  "rates_none =
     \<lparr>fr_drop_every_nth = 0, fr_duplicate_response = 0, fr_reorder_response = 0,
      fr_sever_mid_batch = 0, fr_malformed_bytes = 0, fr_connectivity_flap = 0,
      fr_storage_fail_before_commit = 0, fr_storage_commit_then_kill = 0, fr_server_restart = 0,
      fr_device_restart = 0, fr_storage_lie_about_commit = 0, fr_overload = 0, fr_slow_commit = 0,
      fr_protocol_violation = 0, fr_latency_ms = (10, 10)\<rparr>"

datatype fault =
    Dropped | Duplicated | Reordered | Severed | MalformedBytes | Flap | StorageFailed
  | StorageCommittedThenKilled | ServerRestarted | DeviceRestarted | ProtocolViolation | SlowCommit
  | Overloaded | StorageLiedAboutCommit

fun fault_name :: "fault \<Rightarrow> string" where
  "fault_name Dropped = ''dropped''"
| "fault_name Duplicated = ''duplicated''"
| "fault_name Reordered = ''reordered''"
| "fault_name Severed = ''severed''"
| "fault_name MalformedBytes = ''malformed''"
| "fault_name Flap = ''flap''"
| "fault_name StorageFailed = ''storage-failed''"
| "fault_name StorageCommittedThenKilled = ''storage-committed-then-killed''"
| "fault_name ServerRestarted = ''server-restarted''"
| "fault_name DeviceRestarted = ''device-restarted''"
| "fault_name Overloaded = ''overloaded''"
| "fault_name StorageLiedAboutCommit = ''storage-lied-about-commit''"
| "fault_name ProtocolViolation = ''protocol-violation''"
| "fault_name SlowCommit = ''slow-commit''"

definition ALL_FAULTS :: "fault list" where
  "ALL_FAULTS =
     [Dropped, Duplicated, Reordered, Severed, MalformedBytes, Flap, StorageFailed,
      StorageCommittedThenKilled, ServerRestarted, DeviceRestarted, ProtocolViolation, SlowCommit,
      Overloaded, StorageLiedAboutCommit]"

section \<open>Decisions\<close>

definition decide_response :: "fault_rates \<Rightarrow> u64 \<Rightarrow> rng \<Rightarrow> fault option \<times> rng" where
  "decide_response rates request_index r =
     (let (duplicate, r) = chance (fr_duplicate_response rates) r;
          (reorder, r) = chance (fr_reorder_response rates) r;
          (sever, r) = chance (fr_sever_mid_batch rates) r;
          (malformed, r) = chance (fr_malformed_bytes rates) r;
          nth = ucast (fr_drop_every_nth rates) :: u64;
          dropped = (nth > 0 \<and> request_index mod nth = 0)
      in (if dropped then Some Dropped
          else if malformed then Some MalformedBytes
          else if sever then Some Severed
          else if duplicate then Some Duplicated
          else if reorder then Some Reordered
          else None, r))"

definition decide_storage :: "fault_rates \<Rightarrow> rng \<Rightarrow> fault option \<times> rng" where
  "decide_storage rates r =
     (let (fail, r) = chance (fr_storage_fail_before_commit rates) r;
          (kill, r) = chance (fr_storage_commit_then_kill rates) r;
          (lie, r) = chance (fr_storage_lie_about_commit rates) r
      in (if fail then Some StorageFailed
          else if kill then Some StorageCommittedThenKilled
          else if lie then Some StorageLiedAboutCommit
          else None, r))"

section \<open>The trace\<close>

record trace =
  tr_lines :: "string list"
  tr_faults :: "string \<rightharpoonup> u64"
  tr_recording :: bool

definition trace_counting :: trace where
  "trace_counting = \<lparr>tr_lines = [], tr_faults = Map.empty, tr_recording = False\<rparr>"

definition trace_recording :: trace where
  "trace_recording = trace_counting\<lparr>tr_recording := True\<rparr>"

text \<open>\<open>{:0w}\<close> of an integer: the sign, then zeros, then the digits, to at least \<open>w\<close> characters.\<close>

definition show_padded :: "nat \<Rightarrow> int \<Rightarrow> string" where
  "show_padded w v =
     (let digits = show_nat (nat \<bar>v\<bar>);
          sign = (if v < 0 then ''-'' else [])
      in sign @ replicate (w - (length sign + length digits)) (CHR ''0'') @ digits)"

definition trace_event :: "int \<Rightarrow> nat \<Rightarrow> string \<Rightarrow> trace \<Rightarrow> trace" where
  "trace_event at_ms device what t =
     (if tr_recording t
      then t\<lparr>tr_lines := tr_lines t @
             [show_padded 12 at_ms @ '' d'' @ show_padded 2 (int device) @ '' '' @ what]\<rparr>
      else t)"

definition trace_fault :: "int \<Rightarrow> nat \<Rightarrow> fault \<Rightarrow> trace \<Rightarrow> trace" where
  "trace_fault at_ms device f t =
     (let n = (case tr_faults t (fault_name f) of None \<Rightarrow> 0 | Some n \<Rightarrow> n)
      in trace_event at_ms device (fault_name f)
           (t\<lparr>tr_faults := (tr_faults t)(fault_name f \<mapsto> n + 1)\<rparr>))"

text \<open>\<open>lines.join("\n")\<close>.\<close>

fun join_lines :: "string list \<Rightarrow> string" where
  "join_lines [] = []"
| "join_lines [l] = l"
| "join_lines (l # ls) = l @ [CHR 0x0A] @ join_lines ls"

definition trace_render :: "trace \<Rightarrow> string" where
  "trace_render t = join_lines (tr_lines t)"

definition trace_bytes :: "trace \<Rightarrow> bytes" where
  "trace_bytes t = as_bytes (trace_render t)"

definition trim_end :: "string \<Rightarrow> string" where
  "trim_end s = rev (dropWhile (\<lambda>c. c = CHR '' '') (rev s))"

definition trace_coverage :: "trace \<Rightarrow> string" where
  "trace_coverage t =
     trim_end (concat (map (\<lambda>f.
       fault_name f @ ''='' @
       show_nat (unat (case tr_faults t (fault_name f) of None \<Rightarrow> 0 | Some n \<Rightarrow> n)) @ '' '') ALL_FAULTS))"

section \<open>Load\<close>

definition SIM_BUDGET_BYTES :: nat where "SIM_BUDGET_BYTES = 2048"
definition MIN_BUDGET_BYTES :: nat where "MIN_BUDGET_BYTES = 256"

datatype load = NormalLoad | Shedding u32

record pressure =
  prs_load :: load
  prs_severity :: u32
  prs_deferred_commands :: u64
  prs_episodes :: u64

definition pressure_new :: pressure where
  "pressure_new =
     \<lparr>prs_load = NormalLoad, prs_severity = 1, prs_deferred_commands = 0, prs_episodes = 0\<rparr>"

definition is_shedding :: "pressure \<Rightarrow> bool" where
  "is_shedding p = (case prs_load p of Shedding _ \<Rightarrow> True | NormalLoad \<Rightarrow> False)"

definition overload :: "pressure \<Rightarrow> rng \<Rightarrow> pressure \<times> rng" where
  "overload p r =
     (let (severity, r) = rng_range 2 8 r;
          (steps_left, r) = rng_range 3 30 r
      in (p\<lparr>prs_severity := severity, prs_load := Shedding steps_left,
            prs_episodes := prs_episodes p + 1\<rparr>, r))"

definition pressure_tick :: "pressure \<Rightarrow> pressure" where
  "pressure_tick p =
     (case prs_load p of
        NormalLoad \<Rightarrow> p
      | Shedding steps_left \<Rightarrow>
          if steps_left \<le> 1 then p\<lparr>prs_load := NormalLoad, prs_severity := 1\<rparr>
          else p\<lparr>prs_load := Shedding (steps_left - 1)\<rparr>)"

definition pressure_budget :: "pressure \<Rightarrow> nat" where
  "pressure_budget p =
     (case prs_load p of
        NormalLoad \<Rightarrow> SIM_BUDGET_BYTES
      | Shedding _ \<Rightarrow>
          (let shrunk = SIM_BUDGET_BYTES div unat (prs_severity p)
           in if shrunk < MIN_BUDGET_BYTES then MIN_BUDGET_BYTES else shrunk))"

definition accept_count :: "nat \<Rightarrow> pressure \<Rightarrow> nat \<times> pressure" where
  "accept_count offered p =
     (if offered = 0 then (0, p)
      else let taken = (case prs_load p of
                          NormalLoad \<Rightarrow> offered
                        | Shedding _ \<Rightarrow> max (offered div unat (prs_severity p)) 1)
           in (taken, p\<lparr>prs_deferred_commands := prs_deferred_commands p + of_nat (offered - taken)\<rparr>))"

lemmas fault_defs [run_defs] =
  SKEW_MAGNITUDE_MS_def FLAP_DURATION_MS_def rates_default_def rates_none_def ALL_FAULTS_def
  decide_response_def decide_storage_def trace_counting_def trace_recording_def show_padded_def
  trace_event_def trace_fault_def trace_render_def trace_bytes_def trim_end_def trace_coverage_def
  SIM_BUDGET_BYTES_def MIN_BUDGET_BYTES_def pressure_new_def is_shedding_def overload_def
  pressure_tick_def pressure_budget_def accept_count_def

section \<open>Facts about decisions\<close>

text \<open>A decision costs the same draws whatever it decides and whichever request it is about.\<close>

lemma decision_cost:
  "snd (decide_response rates i r) =
     (snd \<circ> chance (fr_malformed_bytes rates) \<circ> snd \<circ> chance (fr_sever_mid_batch rates) \<circ> snd \<circ>
      chance (fr_reorder_response rates) \<circ> snd \<circ> chance (fr_duplicate_response rates)) r"
  by (simp add: decide_response_def case_prod_beta Let_def)

lemma ucast_64_zero: "(ucast (n :: u32) :: u64) = 0 \<longleftrightarrow> n = 0"
proof -
  have "m < 64" if "bit n m" for m
    using bit_imp_le_length [OF that] by simp
  then show ?thesis
    using bit_imp_le_length [of n] by (auto simp: bit_eq_iff bit_simps)
qed

lemma decision_dropped:
  "fst (decide_response rates i r) = Some Dropped \<longleftrightarrow>
     0 < fr_drop_every_nth rates \<and> i mod ucast (fr_drop_every_nth rates) = 0"
  by (auto simp: decide_response_def case_prod_beta Let_def word_gt_0 ucast_64_zero split: if_splits)

text \<open>A rate of 0 or of 100 draws nothing.\<close>

lemma chance_certain: "p = 0 \<or> 100 \<le> p \<Longrightarrow> chance p r = (p \<noteq> 0, r)"
  by (auto simp: chance_def)

lemma quiet_decisions:
  "decide_response rates_none i r = (None, r)"
  "decide_storage rates_none r = (None, r)"
  by (simp_all add: decide_response_def decide_storage_def rates_none_def chance_certain)

lemma every_fault_listed: "set ALL_FAULTS = UNIV" "distinct (map fault_name ALL_FAULTS)"
proof -
  have "f \<in> set ALL_FAULTS" for f
    by (cases f) (simp_all add: ALL_FAULTS_def)
  then show "set ALL_FAULTS = UNIV"
    by blast
qed (simp add: ALL_FAULTS_def)

text \<open>Every fault is counted under its own name, recorded or not.\<close>

lemma fault_name_inj: "fault_name f = fault_name g \<longleftrightarrow> f = g"
  using every_fault_listed by (metis UNIV_I distinct_map inj_onD)

lemma trace_event_faults [simp]: "tr_faults (trace_event at_ms d w t) = tr_faults t"
  by (simp add: trace_event_def)

lemma trace_fault_counts:
  "tr_faults (trace_fault at_ms d f t) (fault_name g) =
     (if g = f then Some ((case tr_faults t (fault_name f) of None \<Rightarrow> 0 | Some n \<Rightarrow> n) + 1)
      else tr_faults t (fault_name g))"
  by (simp add: trace_fault_def Let_def fault_name_inj)

section \<open>Facts about load\<close>

text \<open>The states the simulator's server goes through.\<close>

inductive pressure_reachable :: "pressure \<Rightarrow> bool" where
  "pressure_reachable pressure_new"
| "pressure_reachable p \<Longrightarrow> pressure_reachable (fst (overload p r))"
| "pressure_reachable p \<Longrightarrow> pressure_reachable (pressure_tick p)"
| "pressure_reachable p \<Longrightarrow> pressure_reachable (snd (accept_count offered p))"

definition pressure_wf :: "pressure \<Rightarrow> bool" where
  "pressure_wf p \<longleftrightarrow>
     1 \<le> prs_severity p \<and> prs_severity p \<le> 8 \<and>
     (case prs_load p of NormalLoad \<Rightarrow> True | Shedding k \<Rightarrow> k \<le> 30)"

lemma pressure_reachable_wf: "pressure_reachable p \<Longrightarrow> pressure_wf p"
proof (induction rule: pressure_reachable.induct)
  case 1
  then show ?case
    by (simp add: pressure_wf_def pressure_new_def)
next
  case (2 p r)
  have "2 \<le> fst (rng_range 2 8 r)" and "fst (rng_range 2 8 r) \<le> 8"
    by (rule range_within, simp)+
  then have "1 \<le> fst (rng_range 2 8 r)" and "fst (rng_range 2 8 r) \<le> 8"
    using order_trans [of 1 "2 :: u32"] by simp_all
  moreover have "fst (rng_range 3 30 r') \<le> 30" for r'
    by (rule range_within) simp
  ultimately show ?case
    by (simp add: pressure_wf_def overload_def case_prod_beta Let_def)
next
  case (3 p)
  then show ?case
    by (auto simp: pressure_wf_def pressure_tick_def not_le word_le_nat_alt word_less_nat_alt
        unat_sub split: load.splits)
next
  case (4 p offered)
  then show ?case
    by (simp add: pressure_wf_def accept_count_def Let_def)
qed

lemma budget_bounds:
  assumes "pressure_wf p"
  shows "MIN_BUDGET_BYTES \<le> pressure_budget p" and "pressure_budget p \<le> SIM_BUDGET_BYTES"
  using assms
  by (auto simp: pressure_wf_def pressure_budget_def Let_def SIM_BUDGET_BYTES_def MIN_BUDGET_BYTES_def
      not_less split: load.splits intro: order_trans [OF div_le_dividend])

lemma accept_count_bounds:
  assumes "pressure_wf p" and "0 < offered"
  shows "1 \<le> fst (accept_count offered p)" and "fst (accept_count offered p) \<le> offered"
  using assms
  by (auto simp: accept_count_def Let_def split: load.splits intro: order_trans [OF div_le_dividend])

text \<open>An episode of load ends: thirty-one ticks are enough for the longest.\<close>

lemma ticks_end_load:
  "(case prs_load p of NormalLoad \<Rightarrow> True | Shedding k \<Rightarrow> unat k \<le> n) \<Longrightarrow>
   prs_load ((pressure_tick ^^ Suc n) p) = NormalLoad"
proof (induction n arbitrary: p)
  case (Suc n)
  have "case prs_load (pressure_tick p) of NormalLoad \<Rightarrow> True | Shedding k \<Rightarrow> unat k \<le> n"
    using Suc.prems by (auto simp: pressure_tick_def unat_sub word_le_nat_alt split: load.splits)
  then show ?case
    using Suc.IH by (simp add: funpow_swap1)
qed (auto simp: pressure_tick_def unat_eq_zero split: load.splits)

end
