(* ===== verification/Sim_Server.thy ===== *)
theory Sim_Server
  imports Server_Dedupe Sim_Fault
begin

text \<open>
  The simulated server (\<open>credsync-sim/src/server.rs\<close>): one log for all scopes, an index and a row
  history per scope, the dedupe table, and writes that take their \<open>seq\<close> before they become visible.
  Batching and the dedupe rule are the shipped \<^const>\<open>fill_batch\<close> and \<^const>\<open>decide\<close>. Maps that the
  code only looks up and updates are HOL maps; the ones it iterates are sorted entry lists.
\<close>

section \<open>State\<close>

text \<open>\<open>unwrap_or_else(|_| unreachable!(..))\<close>.\<close>

definition or_unreachable :: "'e + 'a \<Rightarrow> 'a" where
  "or_unreachable r = (case r of Inr x \<Rightarrow> x | Inl _ \<Rightarrow> undefined)"

record log_entry =
  len_seq :: seq
  len_change :: change
  len_visible :: bool

record sim_dedupe_entry =
  sde_checksum :: hex_string
  sde_result :: command_result

type_synonym row_versions = "(u64 \<times> row_version) list"

record sim_server =
  srv_log :: "log_entry list"
  srv_by_scope :: "scope_id \<rightharpoonup> nat list"
  srv_rows :: "scope_id \<rightharpoonup> (row_key, row_version) btree"
  srv_row_history :: "scope_id \<rightharpoonup> (row_key, row_versions) btree"
  srv_dedupe :: "(command_id, sim_dedupe_entry) btree"
  srv_next_seq :: u64
  srv_command_targets :: "string \<rightharpoonup> entity_name \<times> scope_id"
  srv_warm :: bool
  srv_in_flight :: "(nat \<times> u32) list"
  srv_hold_next :: u32
  srv_guard :: bool

definition server_new :: sim_server where
  "server_new =
     \<lparr>srv_log = [], srv_by_scope = Map.empty, srv_rows = Map.empty, srv_row_history = Map.empty,
      srv_dedupe = [], srv_next_seq = 1, srv_command_targets = Map.empty, srv_warm = True,
      srv_in_flight = [], srv_hold_next = 0, srv_guard = True\<rparr>"

text \<open>\<open>SimCompressor\<close> of the server: a third, rounded up.\<close>

definition sim_server_compressor :: compressor where
  "sim_server_compressor bs = (length bs + 2) div 3"

definition hex_placeholder :: hex_string where
  "hex_placeholder = or_unreachable (hex_string_new (replicate 32 (CHR ''0'')))"

definition server_protocol :: protocol_version where
  "server_protocol = or_unreachable (protocol_version_new 1)"

definition srv_register_command ::
  "string \<Rightarrow> entity_name \<Rightarrow> scope_id \<Rightarrow> sim_server \<Rightarrow> sim_server" where
  "srv_register_command name entity scope s =
     s\<lparr>srv_command_targets := (srv_command_targets s)(name \<mapsto> (entity, scope))\<rparr>"

section \<open>Commits\<close>

definition hold_next_write :: "u32 \<Rightarrow> sim_server \<Rightarrow> sim_server" where
  "hold_next_write delay s = s\<lparr>srv_hold_next := (if delay = 0 then 1 else delay)\<rparr>"

text \<open>\<open>if let Some(entry) = self.log.get_mut(index) { entry.visible = true }\<close>.\<close>

definition make_visible :: "nat \<Rightarrow> log_entry list \<Rightarrow> log_entry list" where
  "make_visible i log = (if i < length log then log[i := (log ! i)\<lparr>len_visible := True\<rparr>] else log)"

fun commit_loop ::
  "(nat \<times> u32) list \<Rightarrow> log_entry list \<Rightarrow> (nat \<times> u32) list \<Rightarrow> log_entry list \<times> (nat \<times> u32) list" where
  "commit_loop [] log waiting = (log, waiting)"
| "commit_loop ((i, remaining) # rest) log waiting =
     (if remaining \<le> 1 then commit_loop rest (make_visible i log) waiting
      else commit_loop rest log (waiting @ [(i, remaining - 1)]))"

definition advance_commits :: "sim_server \<Rightarrow> sim_server" where
  "advance_commits s =
     (let (log, waiting) = commit_loop (srv_in_flight s) (srv_log s) []
      in s\<lparr>srv_log := log, srv_in_flight := waiting\<rparr>)"

definition in_flight_writes :: "sim_server \<Rightarrow> nat" where
  "in_flight_writes s = length (srv_in_flight s)"

definition restart_cold :: "sim_server \<Rightarrow> sim_server" where
  "restart_cold s = s\<lparr>srv_warm := False\<rparr>"

section \<open>What a client should hold\<close>

definition index_of :: "sim_server \<Rightarrow> scope_id \<Rightarrow> nat list" where
  "index_of s sc = (case srv_by_scope s sc of None \<Rightarrow> [] | Some ix \<Rightarrow> ix)"

fun head_loop :: "log_entry list \<Rightarrow> nat list \<Rightarrow> u64 \<Rightarrow> u64" where
  "head_loop log [] head = head"
| "head_loop log (i # ix) head =
     (if \<not> len_visible (log ! i) then head else head_loop log ix (seq_get (len_seq (log ! i))))"

definition visible_head :: "sim_server \<Rightarrow> scope_id \<Rightarrow> u64" where
  "visible_head s sc = head_loop (srv_log s) (index_of s sc) 0"

text \<open>
  \<open>partition_point\<close>: how many leading elements satisfy the predicate. The lists it is used on are in
  \<open>seq\<close> order, so the binary search and the linear count agree.
\<close>

definition partition_point :: "('a \<Rightarrow> bool) \<Rightarrow> 'a list \<Rightarrow> nat" where
  "partition_point p xs = length (takeWhile p xs)"

definition version_at :: "row_versions \<Rightarrow> u64 \<Rightarrow> row_version option" where
  "version_at versions cur =
     (let idx = partition_point (\<lambda>(sq, _). sq \<le> cur) versions
      in if 0 < idx then Some (snd (versions ! (idx - 1))) else None)"

definition rows_at ::
  "sim_server \<Rightarrow> scope_id \<Rightarrow> u64 \<Rightarrow> (entity_name \<times> entity_id \<times> row_version) list" where
  "rows_at s sc cur =
     (case srv_row_history s sc of
        None \<Rightarrow> []
      | Some history \<Rightarrow>
          List.map_filter
            (\<lambda>((entity, entity_id), versions).
               map_option (\<lambda>v. (entity, entity_id, v)) (version_at versions cur)) history)"

definition row_version_at ::
  "sim_server \<Rightarrow> scope_id \<Rightarrow> entity_name \<Rightarrow> entity_id \<Rightarrow> u64 \<Rightarrow> row_version option" where
  "row_version_at s sc entity entity_id cur =
     Option.bind (srv_row_history s sc) (\<lambda>h. Option.bind (bt_get h (entity, entity_id))
       (\<lambda>versions. version_at versions cur))"

definition srv_digest :: "externs \<Rightarrow> sim_server \<Rightarrow> scope_id \<Rightarrow> scope_digest" where
  "srv_digest X s sc = digest_from_rows X (rows_at s sc (visible_head s sc))"

definition answered_commands :: "sim_server \<Rightarrow> nat" where
  "answered_commands s = length (srv_dedupe s)"

definition has_answered :: "sim_server \<Rightarrow> command_id \<Rightarrow> bool" where
  "has_answered s i = (bt_get (srv_dedupe s) i \<noteq> None)"

definition srv_head :: "sim_server \<Rightarrow> u64" where
  "srv_head s = srv_next_seq s - 1"

section \<open>Reading\<close>

text \<open>The \<open>map_while\<close> and \<open>flatten\<close> of \<open>pull\<close>: with the guard, the walk stops at a gap.\<close>

fun visible_walk :: "bool \<Rightarrow> log_entry list \<Rightarrow> nat list \<Rightarrow> change list" where
  "visible_walk guard log [] = []"
| "visible_walk guard log (i # ix) =
     (if len_visible (log ! i) then len_change (log ! i) # visible_walk guard log ix
      else if guard then []
      else visible_walk guard log ix)"

definition cursor_or_start :: "u64 \<Rightarrow> cursor" where
  "cursor_or_start v = (case cursor_new v of Inr c \<Rightarrow> c | Inl _ \<Rightarrow> Cursor_START)"

definition empty_batch :: "scope_id \<Rightarrow> cursor \<Rightarrow> bool \<Rightarrow> hex_string \<Rightarrow> batch" where
  "empty_batch sc cur has_more digest =
     \<lparr>bat_scope = sc, bat_changes = [], bat_next_cursor = cur, bat_has_more = has_more,
      bat_checksum = hex_placeholder, bat_digest = digest\<rparr>"

definition pull_scope ::
  "externs \<Rightarrow> sim_server \<Rightarrow> nat \<Rightarrow> nat \<Rightarrow> scope_cursor \<Rightarrow> batch" where
  "pull_scope X s row_limit budget sc =
     (let after = cursor_get (sc_cursor sc);
          ix = index_of s (sc_scope sc);
          start = partition_point (\<lambda>i. seq_get (len_seq (srv_log s ! i)) \<le> after) ix;
          available = length ix - start;
          candidates = take row_limit (visible_walk (srv_guard s) (srv_log s) (drop start ix));
          more_beyond = available > length candidates;
          cur = cursor_or_start after;
          digest = digest_to_hex (srv_digest X s (sc_scope sc))
      in case fill_batch X sim_server_compressor (sc_scope sc) cur candidates more_beyond budget digest of
           Inr b \<Rightarrow> b
         | Inl _ \<Rightarrow> empty_batch (sc_scope sc) cur more_beyond digest)"

definition srv_pull :: "externs \<Rightarrow> pull_request \<Rightarrow> nat \<Rightarrow> nat \<Rightarrow> sim_server \<Rightarrow> pull_response" where
  "srv_pull X request row_limit budget s =
     \<lparr>plr_protocol = plq_protocol request,
      plr_batches = map (pull_scope X s row_limit budget) (plq_scopes request)\<rparr>"

text \<open>The compaction loop of \<open>bootstrap\<close>: per row, the entry with the highest \<open>seq\<close>.\<close>

fun compact_loop ::
  "bool \<Rightarrow> log_entry list \<Rightarrow> nat list \<Rightarrow> (row_key, u64 \<times> change) btree \<Rightarrow>
   (row_key, u64 \<times> change) btree" where
  "compact_loop guard log [] latest = latest"
| "compact_loop guard log (i # ix) latest =
     (let entry = log ! i
      in if \<not> len_visible entry \<and> guard then latest
         else if \<not> len_visible entry then compact_loop guard log ix latest
         else
           (let key = change_key (len_change entry);
                sq = seq_get (len_seq entry);
                held = (case bt_get latest key of
                          None \<Rightarrow> (sq, len_change entry)
                        | Some h \<Rightarrow> if sq > fst h then (sq, len_change entry) else h)
            in compact_loop guard log ix (bt_insert key held latest)))"

definition srv_bootstrap ::
  "externs \<Rightarrow> bootstrap_request \<Rightarrow> nat \<Rightarrow> sim_server \<Rightarrow> bootstrap_response" where
  "srv_bootstrap X request budget s =
     (let after = cursor_get (bsq_after request);
          sc = bsq_scope request;
          latest = compact_loop (srv_guard s) (srv_log s) (index_of s sc) [];
          candidates = sort_key (\<lambda>c. seq_get (chg_seq c))
            (map snd (filter (\<lambda>(sq, c). sq > after \<and> (chg_op c \<noteq> Delete \<or> after > 0))
               (map snd latest)));
          cur = cursor_or_start after;
          digest = digest_to_hex (srv_digest X s sc);
          b = (case fill_batch X sim_server_compressor sc cur candidates False budget digest of
                 Inr b \<Rightarrow> b
               | Inl _ \<Rightarrow> empty_batch sc cur False digest)
      in \<lparr>bsr_protocol = bsq_protocol request, bsr_scope = sc, bsr_changes = bat_changes b,
          bsr_next_cursor = bat_next_cursor b, bsr_has_more = bat_has_more b,
          bsr_checksum = bat_checksum b, bsr_digest = bat_digest b\<rparr>)"

section \<open>Writing\<close>

text \<open>\<open>entry(key).or_default()\<close> on the nested maps.\<close>

definition add_to_index :: "scope_id \<Rightarrow> nat \<Rightarrow> sim_server \<Rightarrow> sim_server" where
  "add_to_index sc i s = s\<lparr>srv_by_scope := (srv_by_scope s)(sc \<mapsto> index_of s sc @ [i])\<rparr>"

definition add_to_history ::
  "scope_id \<Rightarrow> row_key \<Rightarrow> u64 \<Rightarrow> row_version \<Rightarrow> sim_server \<Rightarrow> sim_server" where
  "add_to_history sc key sq v s =
     (let history = (case srv_row_history s sc of None \<Rightarrow> [] | Some h \<Rightarrow> h);
          versions = (case bt_get history key of None \<Rightarrow> [] | Some vs \<Rightarrow> vs)
      in s\<lparr>srv_row_history := (srv_row_history s)(sc \<mapsto> bt_insert key (versions @ [(sq, v)]) history)\<rparr>)"

definition set_row :: "scope_id \<Rightarrow> row_key \<Rightarrow> row_version \<Rightarrow> sim_server \<Rightarrow> sim_server" where
  "set_row sc key v s =
     (let rows = (case srv_rows s sc of None \<Rightarrow> [] | Some r \<Rightarrow> r)
      in s\<lparr>srv_rows := (srv_rows s)(sc \<mapsto> bt_insert key v rows)\<rparr>)"

definition drop_row :: "scope_id \<Rightarrow> row_key \<Rightarrow> sim_server \<Rightarrow> sim_server" where
  "drop_row sc key s =
     (let rows = (case srv_rows s sc of None \<Rightarrow> [] | Some r \<Rightarrow> r)
      in s\<lparr>srv_rows := (srv_rows s)(sc \<mapsto> bt_remove key rows)\<rparr>)"

definition upsert_change :: "externs \<Rightarrow> seq \<Rightarrow> entity_name \<Rightarrow> entity_id \<Rightarrow> row_version \<Rightarrow> change" where
  "upsert_change X sq entity entity_id v =
     \<lparr>chg_seq = sq, chg_entity = entity, chg_entity_id = entity_id, chg_op = Upsert,
      chg_snapshot = Some (or_unreachable (snapshot_new X (json_object [(''v'', JPosInt (seq_get sq))]))),
      chg_row_version = v, chg_schema_version = or_unreachable (schema_version_new 1)\<rparr>"

definition push_entry ::
  "externs \<Rightarrow> seq \<Rightarrow> scope_id \<Rightarrow> entity_name \<Rightarrow> entity_id \<Rightarrow> row_version \<Rightarrow> sim_server \<Rightarrow> sim_server" where
  "push_entry X sq sc entity entity_id v s =
     (let s1 = add_to_index sc (length (srv_log s)) s;
          s2 = add_to_history sc (entity, entity_id) (seq_get sq) v s1;
          held = srv_hold_next s2;
          s3 = s2\<lparr>srv_hold_next := 0\<rparr>;
          s4 = (if held > 0
                then s3\<lparr>srv_in_flight := srv_in_flight s3 @ [(length (srv_log s3), held)]\<rparr> else s3)
      in s4\<lparr>srv_log := srv_log s4 @
           [\<lparr>len_seq = sq, len_change = upsert_change X sq entity entity_id v,
             len_visible = (held = 0)\<rparr>]\<rparr>)"

text \<open>\<open>let seq = Seq::new(self.next_seq)..; self.next_seq += 1;\<close>, and the row version made of it.\<close>

definition take_seq :: "sim_server \<Rightarrow> seq \<times> sim_server" where
  "take_seq s = (or_unreachable (seq_new (srv_next_seq s)), s\<lparr>srv_next_seq := srv_next_seq s + 1\<rparr>)"

definition version_of_seq :: "seq \<Rightarrow> row_version" where
  "version_of_seq sq = or_unreachable (row_version_new (seq_get sq))"

text \<open>What \<open>append\<close>, \<open>external_change\<close> and \<open>external_change_to\<close> share: the live row, then the entry.\<close>

definition write_row ::
  "externs \<Rightarrow> seq \<Rightarrow> scope_id \<Rightarrow> entity_name \<Rightarrow> entity_id \<Rightarrow> sim_server \<Rightarrow> sim_server" where
  "write_row X sq sc entity entity_id s =
     push_entry X sq sc entity entity_id (version_of_seq sq)
       (set_row sc (entity, entity_id) (version_of_seq sq) s)"

definition numbered_row :: "nat \<Rightarrow> entity_id" where
  "numbered_row k = or_unreachable (entity_id_new (''row:'' @ show_nat k))"

definition srv_append ::
  "externs \<Rightarrow> scope_id \<Rightarrow> entity_name \<Rightarrow> command \<Rightarrow> sim_server \<Rightarrow> seq \<times> sim_server" where
  "srv_append X sc entity command s =
     (let (sq, s1) = take_seq s;
          entity_id = numbered_row (unat (command_bytes (cmd_id command) ! 15 mod 8))
      in (sq, write_row X sq sc entity entity_id s1))"

definition external_change ::
  "externs \<Rightarrow> scope_id \<Rightarrow> entity_name \<Rightarrow> sim_server \<times> rng \<Rightarrow> sim_server \<times> rng" where
  "external_change X sc entity = (\<lambda>(s, r).
     (let (sq, s1) = take_seq s;
          (k, r1) = below 8 r
      in (write_row X sq sc entity (numbered_row (unat k)) s1, r1)))"

definition external_change_to ::
  "externs \<Rightarrow> scope_id \<Rightarrow> entity_name \<Rightarrow> string \<Rightarrow> sim_server \<Rightarrow> sim_server" where
  "external_change_to X sc entity entity_id s =
     (let (sq, s1) = take_seq s
      in case entity_id_new entity_id of
           Inl _ \<Rightarrow> s1
         | Inr i \<Rightarrow> write_row X sq sc entity i s1)"

definition external_delete :: "scope_id \<Rightarrow> entity_name \<Rightarrow> string \<Rightarrow> sim_server \<Rightarrow> sim_server" where
  "external_delete sc entity entity_id s =
     (case entity_id_new entity_id of
        Inl _ \<Rightarrow> s
      | Inr i \<Rightarrow>
          (let (sq, s1) = take_seq s;
               v = version_of_seq sq;
               s2 = drop_row sc (entity, i) s1;
               tombstone =
                 \<lparr>chg_seq = sq, chg_entity = entity, chg_entity_id = i, chg_op = Delete,
                  chg_snapshot = None, chg_row_version = v,
                  chg_schema_version = or_unreachable (schema_version_new 1)\<rparr>;
               index = length (srv_log s2);
               s3 = s2\<lparr>srv_log := srv_log s2 @
                      [\<lparr>len_seq = sq, len_change = tombstone, len_visible = True\<rparr>]\<rparr>
           in add_to_history sc (entity, i) (seq_get sq) v (add_to_index sc index s3)))"

section \<open>Answering commands\<close>

definition record_answer ::
  "command_id \<Rightarrow> hex_string \<Rightarrow> command_result \<Rightarrow> sim_server \<Rightarrow> sim_server" where
  "record_answer i sum_hex result s =
     s\<lparr>srv_dedupe := bt_insert i \<lparr>sde_checksum = sum_hex, sde_result = result\<rparr> (srv_dedupe s)\<rparr>"

definition rejected_with :: "command_id \<Rightarrow> string \<Rightarrow> command_result" where
  "rejected_with i why =
     \<lparr>res_id = i, res_status = Rejected, res_reason = Some (or_unreachable (reason_new why)),
      res_server_seq = None\<rparr>"

definition srv_decide :: "externs \<Rightarrow> command \<Rightarrow> sim_server \<Rightarrow> server_error + decision" where
  "srv_decide X command s =
     decide X command
       (map_option (\<lambda>p. \<lparr>rcd_checksum = hex_str (sde_checksum p), rcd_result = sde_result p\<rparr>)
          (bt_get (srv_dedupe s) (cmd_id command)))"

text \<open>The host's verdict, drawn: applied below 80, superseded below 90, rejected above.\<close>

definition roll_verdict ::
  "externs \<Rightarrow> entity_name \<Rightarrow> scope_id \<Rightarrow> command \<Rightarrow> sim_server \<times> rng \<Rightarrow>
   command_result \<times> sim_server \<times> rng" where
  "roll_verdict X entity sc command = (\<lambda>(s, r).
     (let (roll, r1) = below 100 r
      in if roll < 80 then
           (let (sq, s1) = srv_append X sc entity command s
            in (\<lparr>res_id = cmd_id command, res_status = Applied, res_reason = None,
                 res_server_seq = Some sq\<rparr>, s1, r1))
         else if roll < 90 then
           (\<lparr>res_id = cmd_id command, res_status = Superseded, res_reason = None,
             res_server_seq = None\<rparr>, s, r1)
         else (rejected_with (cmd_id command) ''Submission deadline passed.'', s, r1)))"

text \<open>A payload that cannot be encoded counts as fresh, as the code does with the error.\<close>

definition apply_command ::
  "externs \<Rightarrow> command \<Rightarrow> sim_server \<times> rng \<Rightarrow> command_result \<times> sim_server \<times> rng" where
  "apply_command X command = (\<lambda>(s, r).
     (let sum_hex = (case payload_checksum X payload_to_value (cmd_payload command) of
                        Inr h \<Rightarrow> h | Inl _ \<Rightarrow> hex_placeholder);
          fresh =
            (case srv_command_targets s (command_name_str (cmd_name command)) of
               None \<Rightarrow>
                 (let result = rejected_with (cmd_id command) ''Unknown command.''
                  in (result, record_answer (cmd_id command) sum_hex result s, r))
             | Some (entity, sc) \<Rightarrow>
                 (let (result, s1, r1) = roll_verdict X entity sc command (s, r)
                  in (result, record_answer (cmd_id command) sum_hex result s1, r1)))
      in case srv_decide X command s of
           Inr (Replay result) \<Rightarrow> (result, s, r)
         | Inr (MutatedBody _ _) \<Rightarrow>
             (let result = \<lparr>res_id = cmd_id command, res_status = Rejected,
                            res_reason = Some mutated_reason, res_server_seq = None\<rparr>
              in (result, record_answer (cmd_id command) sum_hex result s, r))
         | Inr Fresh \<Rightarrow> fresh
         | Inl _ \<Rightarrow> fresh))"

fun apply_commands ::
  "externs \<Rightarrow> command list \<Rightarrow> sim_server \<times> rng \<Rightarrow> command_result list \<times> sim_server \<times> rng" where
  "apply_commands X [] sr = ([], sr)"
| "apply_commands X (c # cs) sr =
     (let (result, sr1) = apply_command X c sr;
          (results, sr2) = apply_commands X cs sr1
      in (result # results, sr2))"

definition push_prefix ::
  "externs \<Rightarrow> push_request \<Rightarrow> nat \<Rightarrow> sim_server \<times> rng \<Rightarrow> push_response \<times> sim_server \<times> rng" where
  "push_prefix X request accepted sr =
     (let (results, sr1) = apply_commands X (take accepted (psq_commands request)) sr
      in (\<lparr>psr_protocol = psq_protocol request, psr_results = results\<rparr>, sr1))"

definition srv_push ::
  "externs \<Rightarrow> push_request \<Rightarrow> sim_server \<times> rng \<Rightarrow> push_response \<times> sim_server \<times> rng" where
  "srv_push X request sr = push_prefix X request (length (psq_commands request)) sr"

lemmas sim_server_defs [run_defs] =
  or_unreachable_def server_new_def sim_server_compressor_def hex_placeholder_def
  server_protocol_def srv_register_command_def hold_next_write_def make_visible_def
  advance_commits_def in_flight_writes_def restart_cold_def index_of_def visible_head_def
  partition_point_def version_at_def rows_at_def row_version_at_def srv_digest_def
  answered_commands_def has_answered_def srv_head_def cursor_or_start_def empty_batch_def
  pull_scope_def srv_pull_def srv_bootstrap_def add_to_index_def add_to_history_def set_row_def
  drop_row_def upsert_change_def push_entry_def take_seq_def version_of_seq_def write_row_def
  numbered_row_def srv_append_def external_change_def external_change_to_def external_delete_def
  record_answer_def rejected_with_def srv_decide_def roll_verdict_def apply_command_def
  push_prefix_def srv_push_def

end
