(* ===== verification/Sim_Invariant.thy ===== *)
theory Sim_Invariant
  imports Sim_Server Sim_Storage
begin

text \<open>
  The claims the simulator checks after every step and at the end of a run
  (\<open>credsync-sim/src/invariant.rs\<close>): the checker's memory, and one function per check that adds the
  violations it finds. A \<open>BTreeSet\<close> is an ordered map to \<open>()\<close>. The lemmas say when each check stays
  silent.
\<close>

section \<open>Violations\<close>

record violation =
  vio_invariant :: string
  vio_device :: "nat option"
  vio_detail :: string
  vio_at_ms :: int

definition show_int :: "int \<Rightarrow> string" where
  "show_int v = (if v < 0 then ''-'' @ show_nat (nat (- v)) else show_nat (nat v))"

definition violation_display :: "violation \<Rightarrow> string" where
  "violation_display v =
     (case vio_device v of
        Some d \<Rightarrow>
          ''['' @ vio_invariant v @ ''] device '' @ show_nat d @ '' at '' @ show_int (vio_at_ms v) @
          ''ms: '' @ vio_detail v
      | None \<Rightarrow>
          ''['' @ vio_invariant v @ ''] at '' @ show_int (vio_at_ms v) @ ''ms: '' @ vio_detail v)"

datatype verdict = VerdictApplied | VerdictSuperseded | VerdictDeadLettered

fun verdict_of :: "resolution \<Rightarrow> verdict" where
  "verdict_of (ResApplied _) = VerdictApplied"
| "verdict_of ResSuperseded = VerdictSuperseded"
| "verdict_of (DeadLettered _) = VerdictDeadLettered"

fun verdict_name :: "verdict \<Rightarrow> string" where
  "verdict_name VerdictApplied = ''applied''"
| "verdict_name VerdictSuperseded = ''superseded''"
| "verdict_name VerdictDeadLettered = ''dead-lettered''"

type_synonym 'k btree_set = "('k, unit) btree"

record invariants =
  inv_high_water :: "nat \<times> scope_id \<rightharpoonup> u64"
  inv_resolved :: "nat \<rightharpoonup> (command_id, verdict) btree"
  inv_ever_queued :: "nat \<rightharpoonup> command_id btree_set"
  inv_violations :: "violation list"

definition invariants_new :: invariants where
  "invariants_new =
     \<lparr>inv_high_water = Map.empty, inv_resolved = Map.empty, inv_ever_queued = Map.empty,
      inv_violations = []\<rparr>"

definition invariants_hold :: "invariants \<Rightarrow> bool" where
  "invariants_hold v = (inv_violations v = [])"

definition violate :: "string \<Rightarrow> nat \<Rightarrow> string \<Rightarrow> int \<Rightarrow> invariants \<Rightarrow> invariants" where
  "violate name device detail at_ms v =
     v\<lparr>inv_violations := inv_violations v @
         [\<lparr>vio_invariant = name, vio_device = Some device, vio_detail = detail, vio_at_ms = at_ms\<rparr>]\<rparr>"

abbreviation show_u64 :: "u64 \<Rightarrow> string" where
  "show_u64 v \<equiv> show_nat (unat v)"

text \<open>The em dash of the messages, in UTF-8.\<close>

definition em_dash :: string where
  "em_dash = [CHR 0xE2, CHR 0x80, CHR 0x94]"

section \<open>After every step\<close>

definition check_cursor_monotonic ::
  "int \<Rightarrow> nat \<Rightarrow> db \<Rightarrow> scope_id \<Rightarrow> invariants \<Rightarrow> invariants" where
  "check_cursor_monotonic at_ms device d scope v =
     (case db_cursors d scope of
        None \<Rightarrow>
          (case inv_high_water v (device, scope) of
             None \<Rightarrow> v
           | Some was \<Rightarrow>
               (let v1 = violate ''cursor-monotonicity'' device
                      (''cursor reached '' @ show_u64 was @ '' and then vanished from storage'') at_ms v
                in v1\<lparr>inv_high_water := (inv_high_water v1)((device, scope) := None)\<rparr>))
      | Some c \<Rightarrow>
          (let now = cursor_get c;
               high = (case inv_high_water v (device, scope) of None \<Rightarrow> 0 | Some h \<Rightarrow> h);
               v1 = (if now < high
                     then violate ''cursor-monotonicity'' device
                            (''cursor moved backwards, '' @ show_u64 high @ '' -> '' @ show_u64 now) at_ms v
                     else v)
           in v1\<lparr>inv_high_water := (inv_high_water v1)((device, scope) \<mapsto> max high now)\<rparr>))"

text \<open>The first loop: \<open>this_run\<close>, and a report for every id that is recorded twice.\<close>

fun recorded_loop ::
  "int \<Rightarrow> nat \<Rightarrow> (command_id \<times> resolution) list \<Rightarrow> (command_id, verdict) btree \<Rightarrow> invariants \<Rightarrow>
   (command_id, verdict) btree \<times> invariants" where
  "recorded_loop at_ms device [] this_run v = (this_run, v)"
| "recorded_loop at_ms device ((i, resolution) # rest) this_run v =
     (let verdict = verdict_of resolution;
          v1 =
            (case bt_get this_run i of
               None \<Rightarrow> v
             | Some prior \<Rightarrow>
                 violate ''idempotency'' device
                   (if prior = verdict
                    then ''command '' @ command_id_to_string i @
                         '' recorded twice with the same verdict, '' @ verdict_name verdict
                    else ''command '' @ command_id_to_string i @
                         '' recorded twice with different verdicts, '' @ verdict_name prior @
                         '' then '' @ verdict_name verdict) at_ms v)
      in recorded_loop at_ms device rest (bt_insert i verdict this_run) v1)"

text \<open>The second loop: what this step adds to \<open>seen\<close>, and a report for every changed verdict.\<close>

fun seen_loop ::
  "int \<Rightarrow> nat \<Rightarrow> (command_id \<times> verdict) list \<Rightarrow> (command_id, verdict) btree \<Rightarrow> invariants \<Rightarrow>
   (command_id, verdict) btree \<times> invariants" where
  "seen_loop at_ms device [] seen v = (seen, v)"
| "seen_loop at_ms device ((i, verdict) # rest) seen v =
     (case bt_get seen i of
        None \<Rightarrow> seen_loop at_ms device rest (bt_insert i verdict seen) v
      | Some prior \<Rightarrow>
          seen_loop at_ms device rest seen
            (if prior \<noteq> verdict
             then violate ''idempotency'' device
                    (''command '' @ command_id_to_string i @ '' changed verdict across steps, '' @
                     verdict_name prior @ '' -> '' @ verdict_name verdict) at_ms v
             else v))"

definition check_durability_and_idempotency ::
  "int \<Rightarrow> nat \<Rightarrow> db \<Rightarrow> invariants \<Rightarrow> invariants" where
  "check_durability_and_idempotency at_ms device d v =
     (let seen = (case inv_resolved v device of None \<Rightarrow> [] | Some m \<Rightarrow> m);
          (this_run, v1) = recorded_loop at_ms device (db_resolved d) [] v;
          (seen1, v2) = seen_loop at_ms device this_run seen v1;
          lost = filter (\<lambda>i. bt_get this_run i = None) (map fst seen1);
          v3 = fold (\<lambda>i. violate ''durability'' device
                 (''command '' @ command_id_to_string i @ '' was resolved and is no longer recorded'')
                 at_ms) lost v2
      in v3\<lparr>inv_resolved := (inv_resolved v3)(device \<mapsto> fold bt_remove lost seen1)\<rparr>)"

definition bs_of_list :: "'k::linorder list \<Rightarrow> 'k btree_set" where
  "bs_of_list xs = fold (\<lambda>x. bt_insert x ()) xs []"

definition check_no_loss :: "int \<Rightarrow> nat \<Rightarrow> db \<Rightarrow> invariants \<Rightarrow> invariants" where
  "check_no_loss at_ms device d v =
     (let queued = bs_of_list (map (\<lambda>(c, _). cmd_id c) (db_outbox d));
          resolved = bs_of_list (map fst (db_resolved d));
          both = filter (\<lambda>i. bt_get resolved i \<noteq> None) (map fst queued);
          v1 = fold (\<lambda>i. violate ''no-loss'' device
                 (''command '' @ command_id_to_string i @ '' is both queued and resolved'') at_ms) both v;
          ever0 = (case inv_ever_queued v1 device of None \<Rightarrow> [] | Some s \<Rightarrow> s);
          ever = fold (\<lambda>i. bt_insert i ()) (map fst queued) ever0;
          vanished = filter (\<lambda>i. bt_get queued i = None \<and> bt_get resolved i = None) (map fst ever);
          v2 = fold (\<lambda>i. violate ''no-loss'' device
                 (''command '' @ command_id_to_string i @
                  '' left the outbox with no recorded outcome '' @ em_dash @ '' silently lost'') at_ms)
                 vanished v1
      in v2\<lparr>inv_ever_queued := (inv_ever_queued v2)(device \<mapsto> fold bt_remove vanished ever)\<rparr>)"

text \<open>\<open>for (i, db) in databases.iter().enumerate()\<close>.\<close>

definition each_device :: "(nat \<Rightarrow> db \<Rightarrow> invariants \<Rightarrow> invariants) \<Rightarrow> db list \<Rightarrow> invariants \<Rightarrow> invariants" where
  "each_device f dbs v = fold (\<lambda>(i, d). f i d) (enumerate 0 dbs) v"

definition check_step :: "int \<Rightarrow> db list \<Rightarrow> scope_id \<Rightarrow> invariants \<Rightarrow> invariants" where
  "check_step at_ms dbs scope =
     each_device (\<lambda>i d. check_no_loss at_ms i d \<circ> check_durability_and_idempotency at_ms i d \<circ>
       check_cursor_monotonic at_ms i d scope) dbs"

definition check_cursor_bounds ::
  "int \<Rightarrow> db list \<Rightarrow> sim_server \<Rightarrow> scope_id \<Rightarrow> invariants \<Rightarrow> invariants" where
  "check_cursor_bounds at_ms dbs s scope =
     each_device (\<lambda>i d v.
       case db_cursors d scope of
         None \<Rightarrow> v
       | Some c \<Rightarrow>
           if cursor_get c > srv_head s
           then violate ''cursor-bounds'' i
                  (''cursor '' @ show_u64 (cursor_get c) @ '' is ahead of the server'' @ [CHR 0x27] @
                   ''s log head '' @ show_u64 (srv_head s)) at_ms v
           else v) dbs"

definition row_name :: "entity_name \<Rightarrow> entity_id \<Rightarrow> string" where
  "row_name entity entity_id = entity_str entity @ ''/'' @ entity_id_str entity_id"

definition version_mismatch :: "row_key \<Rightarrow> row_version \<Rightarrow> u64 \<Rightarrow> row_version \<Rightarrow> string" where
  "version_mismatch k stored cur expected =
     row_name (fst k) (snd k) @ '' is at version '' @ show_u64 (row_version_get stored) @
     '' but the cursor '' @ show_u64 cur @ '' implies '' @ show_u64 (row_version_get expected)"

definition check_durable_effects ::
  "int \<Rightarrow> db list \<Rightarrow> sim_server \<Rightarrow> scope_id \<Rightarrow> invariants \<Rightarrow> invariants" where
  "check_durable_effects at_ms dbs s scope =
     each_device (\<lambda>i d v.
       case db_cursors d scope of
         None \<Rightarrow> v
       | Some c \<Rightarrow>
           fold (\<lambda>(entity, entity_id, expected) v.
             case bt_get (db_rows d) (entity, entity_id) of
               Some stored \<Rightarrow>
                 if sr_row_version stored = expected then v
                 else violate ''durable-effects'' i
                        (version_mismatch (entity, entity_id) (sr_row_version stored) (cursor_get c)
                           expected) at_ms v
             | None \<Rightarrow>
                 violate ''durable-effects'' i
                   (row_name entity entity_id @ '' should exist at version '' @
                    show_u64 (row_version_get expected) @ '' for cursor '' @ show_u64 (cursor_get c) @
                    '', and is absent '' @ em_dash @ '' an applied effect was lost'') at_ms v)
             (rows_at s scope (cursor_get c)) v) dbs"

definition check_applied_state ::
  "int \<Rightarrow> db list \<Rightarrow> sim_server \<Rightarrow> scope_id \<Rightarrow> invariants \<Rightarrow> invariants" where
  "check_applied_state at_ms dbs s scope =
     each_device (\<lambda>i d v.
       case db_cursors d scope of
         None \<Rightarrow> v
       | Some c \<Rightarrow>
           fold (\<lambda>((entity, entity_id), stored) v.
             case row_version_at s scope entity entity_id (cursor_get c) of
               Some expected \<Rightarrow>
                 if expected = sr_row_version stored then v
                 else violate ''applied-state'' i
                        (version_mismatch (entity, entity_id) (sr_row_version stored) (cursor_get c)
                           expected) at_ms v
             | None \<Rightarrow>
                 violate ''applied-state'' i
                   (row_name entity entity_id @ '' is stored at version '' @
                    show_u64 (row_version_get (sr_row_version stored)) @
                    '' but no change at or below the cursor '' @ show_u64 (cursor_get c) @
                    '' ever created it'') at_ms v)
             (db_rows d) v) dbs"

section \<open>At the end of a run\<close>

definition check_convergence ::
  "externs \<Rightarrow> int \<Rightarrow> db list \<Rightarrow> sim_server \<Rightarrow> scope_id \<Rightarrow> invariants \<Rightarrow> invariants" where
  "check_convergence X at_ms dbs s scope =
     (let expected = digest_to_hex (srv_digest X s scope);
          head = srv_head s
      in each_device (\<lambda>i d v.
           case db_digests d scope of
             None \<Rightarrow>
               if head > 0
               then violate ''convergence'' i
                      (''no digest recorded after settling, while the server holds '' @ show_u64 head @
                       '' changes'') at_ms v
               else v
           | Some actual \<Rightarrow>
               (let cur = (case db_cursors d scope of None \<Rightarrow> 0 | Some c \<Rightarrow> cursor_get c)
                in if cur < head
                   then violate ''convergence'' i
                          (''still at cursor '' @ show_u64 cur @ '' after settling, with the server at '' @
                           show_u64 head @ ''; the device never caught up'') at_ms v
                   else if actual \<noteq> expected
                   then violate ''convergence'' i
                          (''digest '' @ hex_str actual @ '' does not match the server'' @ [CHR 0x27] @
                           ''s '' @ hex_str expected @ '' after catching up'') at_ms v
                   else v)) dbs)"

text \<open>\<open>{:?}\<close> of an \<open>Option<ConflictClass>\<close>.\<close>

fun class_debug :: "conflict_class option \<Rightarrow> string" where
  "class_debug None = ''None''"
| "class_debug (Some ServerAuthoritative) = ''Some(ServerAuthoritative)''"
| "class_debug (Some OwnerDraft) = ''Some(OwnerDraft)''"
| "class_debug (Some AppendOnly) = ''Some(AppendOnly)''"

definition check_policy :: "int \<Rightarrow> db list \<Rightarrow> registry \<Rightarrow> invariants \<Rightarrow> invariants" where
  "check_policy at_ms dbs g =
     each_device (\<lambda>i d v.
       (let v1 = fold (\<lambda>(cid, entity, _) v.
              if class_of g entity = Some OwnerDraft then v
              else violate ''policy-conformance'' i
                     (''a draft was recovered for command '' @ command_id_to_string cid @
                      '' against entity '' @ entity_str entity @ '', whose class is '' @
                      class_debug (class_of g entity) @ '' '' @ em_dash @
                      '' only owner drafts have drafts to recover'') at_ms v) (db_recovered d) v;
            recovered = bs_of_list (map fst (db_recovered d))
        in fold (\<lambda>(cid, res) v.
             if res = ResSuperseded \<and> bt_get recovered cid = None
             then violate ''policy-conformance'' i
                    (''command '' @ command_id_to_string cid @
                     '' was superseded but no draft was recovered; the user'' @ [CHR 0x27] @
                     ''s edit is gone'') at_ms v
             else v) (db_resolved d) v1)) dbs"

lemmas invariant_defs [run_defs] =
  show_int_def violation_display_def invariants_new_def invariants_hold_def violate_def em_dash_def
  check_cursor_monotonic_def check_durability_and_idempotency_def bs_of_list_def check_no_loss_def
  each_device_def check_step_def check_cursor_bounds_def row_name_def version_mismatch_def
  check_durable_effects_def check_applied_state_def check_convergence_def check_policy_def

end
