(* ===== verification/Sim_Server_Facts.thy ===== *)
theory Sim_Server_Facts
  imports Sim_Server Server_Paging
begin

text \<open>
  What the simulated server promises. Seen from one scope it is a list of changes that only grows,
  strictly increasing in \<open>seq\<close>, of which a leading part is visible and that part never shrinks; a
  cursor is a position in the list. A guarded pull serves the visible changes after a position, and
  the row history answers for every position what replaying the list up to it gives.
\<close>

section \<open>A scope as a list of changes\<close>

definition scope_log :: "sim_server \<Rightarrow> scope_id \<Rightarrow> log_entry list" where
  "scope_log s sc = map ((!) (srv_log s)) (index_of s sc)"

definition scope_changes :: "sim_server \<Rightarrow> scope_id \<Rightarrow> change list" where
  "scope_changes s sc = map len_change (scope_log s sc)"

definition visible_count :: "sim_server \<Rightarrow> scope_id \<Rightarrow> nat" where
  "visible_count s sc = length (takeWhile len_visible (scope_log s sc))"

abbreviation change_seq :: "change \<Rightarrow> u64" where
  "change_seq c \<equiv> seq_get (chg_seq c)"

definition ascending :: "change list \<Rightarrow> bool" where
  "ascending cs \<longleftrightarrow> sorted_wrt (\<lambda>c d. change_seq c < change_seq d) cs \<and> (\<forall>c \<in> set cs. 0 < change_seq c)"

text \<open>The cursor of a client that has applied the first \<open>p\<close> changes.\<close>

definition pos_seq :: "change list \<Rightarrow> nat \<Rightarrow> u64" where
  "pos_seq cs p = (if p = 0 then 0 else change_seq (cs ! (p - 1)))"

lemma pos_seq_append: "p \<le> length cs \<Longrightarrow> pos_seq (cs @ ext) p = pos_seq cs p"
  by (auto simp: pos_seq_def nth_append)

lemma ascending_nth: "ascending cs \<Longrightarrow> i < j \<Longrightarrow> j < length cs \<Longrightarrow> change_seq (cs ! i) < change_seq (cs ! j)"
  by (simp add: ascending_def sorted_wrt_iff_nth_less)

lemma pos_seq_less:
  assumes "ascending cs" and "p < q" and "q \<le> length cs"
  shows "pos_seq cs p < pos_seq cs q"
proof (cases "p = 0")
  case True
  then show ?thesis
    using assms by (simp add: pos_seq_def ascending_def)
next
  case False
  then show ?thesis
    using assms ascending_nth [of cs "p - 1" "q - 1"] by (simp add: pos_seq_def)
qed

lemma pos_seq_inj:
  "ascending cs \<Longrightarrow> p \<le> length cs \<Longrightarrow> q \<le> length cs \<Longrightarrow> pos_seq cs p = pos_seq cs q \<longleftrightarrow> p = q"
  using pos_seq_less [of cs p q] pos_seq_less [of cs q p] by (cases p q rule: linorder_cases) auto

lemma pos_seq_mono:
  "ascending cs \<Longrightarrow> p \<le> q \<Longrightarrow> q \<le> length cs \<Longrightarrow> pos_seq cs p \<le> pos_seq cs q"
  using pos_seq_less [of cs p q] by (cases "p = q") auto

lemma ascending_below: "ascending cs \<Longrightarrow> p \<le> length cs \<Longrightarrow> c \<in> set (take p cs) \<Longrightarrow> change_seq c \<le> pos_seq cs p"
proof -
  assume asc: "ascending cs" "p \<le> length cs" and "c \<in> set (take p cs)"
  then obtain i where i: "i < p" "c = cs ! i"
    by (auto simp: in_set_conv_nth)
  then show ?thesis
    using pos_seq_mono [OF asc(1), of "Suc i" p] asc(2) by (simp add: pos_seq_def)
qed

lemma ascending_above: "ascending cs \<Longrightarrow> c \<in> set (drop p cs) \<Longrightarrow> pos_seq cs p < change_seq c"
proof -
  assume asc: "ascending cs" and "c \<in> set (drop p cs)"
  then obtain i where "i < length (drop p cs)" and "c = drop p cs ! i"
    by (metis in_set_conv_nth)
  then have i: "p + i < length cs" "c = cs ! (p + i)"
    by simp_all
  then show ?thesis
    using pos_seq_less [OF asc, of p "Suc (p + i)"] by (simp add: pos_seq_def)
qed

text \<open>Cutting a filtered list at a position: the binary search of the code finds the position.\<close>

lemma takeWhile_position:
  assumes "ascending cs" and "p \<le> length cs"
  shows "takeWhile (\<lambda>c. change_seq c \<le> pos_seq cs p) (filter P cs) = filter P (take p cs)"
proof -
  have split: "filter P cs = filter P (take p cs) @ filter P (drop p cs)"
    by (metis append_take_drop_id filter_append)
  have "takeWhile (\<lambda>c. change_seq c \<le> pos_seq cs p) (filter P (drop p cs)) = []"
    using ascending_above [OF assms(1)] unfolding takeWhile_eq_Nil_iff
    by (metis (no_types, lifting) filter_is_subset hd_in_set not_le subsetD)
  moreover have "takeWhile (\<lambda>c. change_seq c \<le> pos_seq cs p) (filter P (take p cs) @ filter P (drop p cs)) =
      filter P (take p cs) @ takeWhile (\<lambda>c. change_seq c \<le> pos_seq cs p) (filter P (drop p cs))"
    using ascending_below [OF assms] by (intro takeWhile_append2) auto
  ultimately show ?thesis
    unfolding split by simp
qed

text \<open>The versions a client holds after the first \<open>p\<close> changes, when none of them deletes.\<close>

definition latest_version :: "change list \<Rightarrow> row_key \<rightharpoonup> row_version" where
  "latest_version cs k =
     (let held = filter (\<lambda>c. change_key c = k) cs
      in if held = [] then None else Some (chg_row_version (last held)))"

lemma latest_version_Nil [simp]: "latest_version [] = Map.empty"
  by (simp add: latest_version_def fun_eq_iff)

lemma latest_version_snoc:
  "latest_version (cs @ [c]) = (latest_version cs)(change_key c \<mapsto> chg_row_version c)"
  by (auto simp: latest_version_def fun_eq_iff Let_def)

lemma latest_version_append:
  "latest_version (cs @ ds) = fold (\<lambda>c m. m(change_key c \<mapsto> chg_row_version c)) ds (latest_version cs)"
  by (induction ds arbitrary: cs rule: rev_induct)
    (simp_all flip: append_assoc add: latest_version_snoc)

section \<open>The invariant of the server\<close>

definition history_for :: "change list \<Rightarrow> row_key \<Rightarrow> row_versions option" where
  "history_for cs k =
     (let held = filter (\<lambda>c. change_key c = k) cs
      in if held = [] then None else Some (map (\<lambda>c. (change_seq c, chg_row_version c)) held))"

lemma history_for_snoc:
  "history_for (cs @ [c]) = (history_for cs)(change_key c \<mapsto>
     (case history_for cs (change_key c) of None \<Rightarrow> [] | Some vs \<Rightarrow> vs) @ [(change_seq c, chg_row_version c)])"
  by (auto simp: history_for_def fun_eq_iff Let_def)

definition history_of :: "sim_server \<Rightarrow> scope_id \<Rightarrow> (row_key, row_versions) btree" where
  "history_of s sc = (case srv_row_history s sc of None \<Rightarrow> [] | Some h \<Rightarrow> h)"

definition log_ok :: "sim_server \<Rightarrow> bool" where
  "log_ok s \<longleftrightarrow>
     ascending (map len_change (srv_log s)) \<and>
     (\<forall>e \<in> set (srv_log s). chg_seq (len_change e) = len_seq e \<and> seq_get (len_seq e) < srv_next_seq s)"

definition index_ok :: "sim_server \<Rightarrow> bool" where
  "index_ok s \<longleftrightarrow> (\<forall>sc. sorted_wrt (<) (index_of s sc) \<and> (\<forall>i \<in> set (index_of s sc). i < length (srv_log s)))"

definition history_ok :: "sim_server \<Rightarrow> bool" where
  "history_ok s \<longleftrightarrow>
     (\<forall>sc. bt_wf (history_of s sc) \<and> map_of (history_of s sc) = history_for (scope_changes s sc))"

definition srv_wf :: "sim_server \<Rightarrow> bool" where
  "srv_wf s \<longleftrightarrow> log_ok s \<and> index_ok s \<and> history_ok s \<and> 0 < srv_next_seq s"

lemma srv_wf_new: "srv_wf server_new"
  by (simp add: srv_wf_def log_ok_def index_ok_def history_ok_def server_new_def index_of_def
      history_of_def scope_changes_def scope_log_def ascending_def history_for_def fun_eq_iff)

lemma scope_changes_ascending: "srv_wf s \<Longrightarrow> ascending (scope_changes s sc)"
proof -
  assume wf: "srv_wf s"
  let ?ix = "index_of s sc"
  have ix: "sorted_wrt (<) ?ix" "\<forall>i \<in> set ?ix. i < length (srv_log s)"
    and log: "ascending (map len_change (srv_log s))"
    using wf by (simp_all add: srv_wf_def index_ok_def log_ok_def)
  have "sorted_wrt (\<lambda>i j. change_seq (len_change (srv_log s ! i)) < change_seq (len_change (srv_log s ! j))) ?ix"
    using ix(1) by (rule sorted_wrt_mono_rel [rotated])
      (use ix(2) ascending_nth [OF log] in simp)
  then show ?thesis
    using ix log by (auto simp: ascending_def scope_changes_def scope_log_def sorted_wrt_map)
qed

lemma scope_changes_bounded: "srv_wf s \<Longrightarrow> c \<in> set (scope_changes s sc) \<Longrightarrow> change_seq c < srv_next_seq s"
  by (auto simp: srv_wf_def log_ok_def index_ok_def scope_changes_def scope_log_def)

lemma scope_log_seq: "srv_wf s \<Longrightarrow> e \<in> set (scope_log s sc) \<Longrightarrow> len_seq e = chg_seq (len_change e)"
  by (auto simp: srv_wf_def log_ok_def index_ok_def scope_log_def)

lemma visible_count_le: "visible_count s sc \<le> length (scope_changes s sc)"
  using length_takeWhile_le by (simp add: visible_count_def scope_changes_def)

section \<open>What a step does to the server\<close>

text \<open>A scope grows at the end, and what is visible stays visible.\<close>

definition srv_grows :: "sim_server \<Rightarrow> sim_server \<Rightarrow> bool" where
  "srv_grows s s' \<longleftrightarrow>
     srv_guard s' = srv_guard s \<and>
     (\<forall>sc. (\<exists>ext. scope_changes s' sc = scope_changes s sc @ ext) \<and>
        visible_count s sc \<le> visible_count s' sc)"

lemma srv_grows_refl [simp]: "srv_grows s s"
  by (simp add: srv_grows_def)

lemma srv_grows_trans: "srv_grows s s' \<Longrightarrow> srv_grows s' s'' \<Longrightarrow> srv_grows s s''"
  unfolding srv_grows_def by (metis append.assoc le_trans)

lemma takeWhile_mono:
  "list_all2 (\<lambda>x y. P x \<longrightarrow> Q y) xs ys \<Longrightarrow> length (takeWhile P xs) \<le> length (takeWhile Q ys)"
  by (induction rule: list_all2_induct) auto

lemma takeWhile_append_mono: "length (takeWhile P xs) \<le> length (takeWhile P (xs @ ys))"
  by (induction xs) auto

text \<open>Committing shows entries and does nothing else.\<close>

definition shows_more :: "log_entry list \<Rightarrow> log_entry list \<Rightarrow> bool" where
  "shows_more log log' \<longleftrightarrow>
     list_all2 (\<lambda>e e'. len_seq e' = len_seq e \<and> len_change e' = len_change e \<and>
       (len_visible e \<longrightarrow> len_visible e')) log log'"

lemma shows_more_trans: "shows_more a b \<Longrightarrow> shows_more b c \<Longrightarrow> shows_more a c"
  unfolding shows_more_def by (rule list_all2_trans) auto

lemma make_visible_shows: "shows_more log (make_visible i log)"
  by (auto simp: shows_more_def make_visible_def list_all2_conv_all_nth nth_list_update)

lemma commit_loop_shows: "shows_more log (fst (commit_loop fl log waiting))"
proof (induction fl log waiting rule: commit_loop.induct)
  case (1 log waiting)
  then show ?case
    by (simp add: shows_more_def list_all2_refl)
next
  case (2 i remaining rest log waiting)
  then show ?case
    using shows_more_trans [OF make_visible_shows] by auto
qed

lemma shows_more_scope:
  assumes "shows_more (srv_log s) (srv_log s')" and "srv_by_scope s' = srv_by_scope s" and "index_ok s"
  shows "scope_changes s' sc = scope_changes s sc" and "visible_count s sc \<le> visible_count s' sc"
proof -
  have ix: "index_of s' sc = index_of s sc" "\<forall>i \<in> set (index_of s sc). i < length (srv_log s)"
    using assms(2,3) by (auto simp: index_of_def index_ok_def)
  have "list_all2 (\<lambda>e e'. len_change e' = len_change e \<and> (len_visible e \<longrightarrow> len_visible e'))
      (scope_log s sc) (scope_log s' sc)"
    using assms(1) ix unfolding scope_log_def shows_more_def
    by (auto simp: list_all2_conv_all_nth)
  then show "scope_changes s' sc = scope_changes s sc" "visible_count s sc \<le> visible_count s' sc"
    unfolding scope_changes_def visible_count_def
    by (auto simp: list_all2_conv_all_nth intro!: nth_equalityI takeWhile_mono)
qed

lemma shows_more_log: "shows_more log log' \<Longrightarrow> map len_change log' = map len_change log"
  by (auto simp: shows_more_def list_all2_conv_all_nth intro!: nth_equalityI)

lemma shows_more_ok:
  assumes "shows_more (srv_log s) (srv_log s')" and "srv_wf s" and "srv_by_scope s' = srv_by_scope s"
    and "srv_row_history s' = srv_row_history s" and "srv_next_seq s' = srv_next_seq s"
  shows "srv_wf s'"
proof -
  have len: "length (srv_log s') = length (srv_log s)"
    using assms(1) by (simp add: shows_more_def list_all2_lengthD)
  have "\<exists>e0 \<in> set (srv_log s). len_seq e = len_seq e0 \<and> len_change e = len_change e0"
    if "e \<in> set (srv_log s')" for e
    using assms(1) that by (fastforce simp: shows_more_def list_all2_conv_all_nth in_set_conv_nth)
  then have "log_ok s'"
    using assms(2,5) shows_more_log [OF assms(1)] by (fastforce simp: srv_wf_def log_ok_def)
  moreover have "index_ok s" "history_ok s" "0 < srv_next_seq s"
    using assms(2) by (simp_all add: srv_wf_def)
  ultimately show ?thesis
    using assms len shows_more_scope(1) [OF assms(1,3)]
    by (simp add: srv_wf_def index_ok_def history_ok_def index_of_def history_of_def)
qed

lemma advance_commits_facts:
  assumes "srv_wf s"
  shows "srv_wf (advance_commits s)" and "srv_grows s (advance_commits s)"
    and "srv_next_seq (advance_commits s) = srv_next_seq s"
    and "srv_command_targets (advance_commits s) = srv_command_targets s"
    and "scope_changes (advance_commits s) sc = scope_changes s sc"
proof -
  have more: "shows_more (srv_log s) (srv_log (advance_commits s))"
    using commit_loop_shows by (simp add: advance_commits_def case_prod_beta)
  have same: "srv_by_scope (advance_commits s) = srv_by_scope s"
    "srv_row_history (advance_commits s) = srv_row_history s"
    "srv_next_seq (advance_commits s) = srv_next_seq s" "srv_guard (advance_commits s) = srv_guard s"
    by (simp_all add: advance_commits_def case_prod_beta)
  have ix: "index_ok s"
    using assms by (simp add: srv_wf_def)
  show "srv_wf (advance_commits s)"
    by (rule shows_more_ok [OF more assms same(1-3)])
  show "srv_grows s (advance_commits s)"
    using shows_more_scope [OF more same(1) ix] same(4) by (simp add: srv_grows_def)
  show "scope_changes (advance_commits s) sc = scope_changes s sc"
    by (rule shows_more_scope(1) [OF more same(1) ix])
qed (simp_all add: advance_commits_def case_prod_beta)

text \<open>One write: \<open>append\<close>, \<open>external_change\<close> and \<open>external_change_to\<close> each end in it.\<close>

definition srv_write :: "externs \<Rightarrow> scope_id \<Rightarrow> entity_name \<Rightarrow> entity_id \<Rightarrow> sim_server \<Rightarrow> sim_server" where
  "srv_write X sc entity i s = (let (sq, s1) = take_seq s in write_row X sq sc entity i s1)"

definition written_change :: "externs \<Rightarrow> u64 \<Rightarrow> entity_name \<Rightarrow> entity_id \<Rightarrow> change" where
  "written_change X n entity i = upsert_change X (Seq n) entity i (RowVersion n)"

lemma written_change_fields [simp]:
  "chg_seq (written_change X n entity i) = Seq n" "chg_entity (written_change X n entity i) = entity"
  "chg_entity_id (written_change X n entity i) = i" "chg_op (written_change X n entity i) = Upsert"
  "chg_row_version (written_change X n entity i) = RowVersion n"
  "change_key (written_change X n entity i) = (entity, i)"
  "\<exists>snap. chg_snapshot (written_change X n entity i) = Some snap"
  "chg_schema_version (written_change X n entity i) = SchemaVersion 1"
  by (simp_all add: written_change_def upsert_change_def change_key_def or_unreachable_def
      schema_version_new_def bounded_num_def PROTOCOL_VERSION_MIN_def SCHEMA_VERSION_MIN_def)

lemma srv_write_log:
  assumes "0 < srv_next_seq s" and "srv_next_seq s \<le> SEQ_MAX"
  shows "srv_log (srv_write X sc entity i s) = srv_log s @
      [\<lparr>len_seq = Seq (srv_next_seq s), len_change = written_change X (srv_next_seq s) entity i,
        len_visible = (srv_hold_next s = 0)\<rparr>]"
    and "index_of (srv_write X sc entity i s) sc' =
      (if sc' = sc then index_of s sc @ [length (srv_log s)] else index_of s sc')"
    and "history_of (srv_write X sc entity i s) sc' =
      (if sc' = sc
       then bt_insert (entity, i) ((case bt_get (history_of s sc) (entity, i) of None \<Rightarrow> [] | Some vs \<Rightarrow> vs) @
         [(srv_next_seq s, RowVersion (srv_next_seq s))]) (history_of s sc)
       else history_of s sc')"
    and "srv_next_seq (srv_write X sc entity i s) = srv_next_seq s + 1"
    and "srv_guard (srv_write X sc entity i s) = srv_guard s"
    and "srv_command_targets (srv_write X sc entity i s) = srv_command_targets s"
    and "srv_dedupe (srv_write X sc entity i s) = srv_dedupe s"
proof -
  have "or_unreachable (seq_new (srv_next_seq s)) = Seq (srv_next_seq s)"
    and "version_of_seq (Seq (srv_next_seq s)) = RowVersion (srv_next_seq s)"
    using assms by (auto simp: or_unreachable_def seq_new_def row_version_new_def bounded_num_def
        version_of_seq_def SEQ_MIN_def not_less word_gt_0 split: sum.splits)
  note facts = this srv_write_def take_seq_def write_row_def push_entry_def set_row_def add_to_index_def
    add_to_history_def written_change_def index_of_def history_of_def Let_def
  show "srv_log (srv_write X sc entity i s) = srv_log s @
      [\<lparr>len_seq = Seq (srv_next_seq s), len_change = written_change X (srv_next_seq s) entity i,
        len_visible = (srv_hold_next s = 0)\<rparr>]"
    by (simp add: facts)
  show "index_of (srv_write X sc entity i s) sc' =
      (if sc' = sc then index_of s sc @ [length (srv_log s)] else index_of s sc')"
    by (simp add: facts)
  show "history_of (srv_write X sc entity i s) sc' =
      (if sc' = sc
       then bt_insert (entity, i) ((case bt_get (history_of s sc) (entity, i) of None \<Rightarrow> [] | Some vs \<Rightarrow> vs) @
         [(srv_next_seq s, RowVersion (srv_next_seq s))]) (history_of s sc)
       else history_of s sc')"
    by (simp add: facts)
qed (simp_all add: srv_write_def take_seq_def write_row_def push_entry_def set_row_def
    add_to_index_def add_to_history_def Let_def)

lemma SEQ_MAX_word: "unat SEQ_MAX = 2 ^ 63 - 1"
  by (simp add: SEQ_MAX_def)

lemma seq_next:
  assumes "n \<le> SEQ_MAX"
  shows "n < n + 1" and "unat (n + 1) = unat n + 1"
proof -
  have "unat n < 2 ^ 64 - 1"
    using assms by (simp add: word_le_nat_alt SEQ_MAX_word)
  then show "unat (n + 1) = unat n + 1"
    by (simp add: unat_word_ariths)
  then show "n < n + 1"
    by (simp add: word_less_nat_alt)
qed

lemma ascending_snoc:
  "ascending (cs @ [c]) \<longleftrightarrow> ascending cs \<and> (\<forall>d \<in> set cs. change_seq d < change_seq c) \<and> 0 < change_seq c"
  by (auto simp: ascending_def sorted_wrt_append)

lemma srv_write_changes:
  assumes "srv_wf s" and "srv_next_seq s \<le> SEQ_MAX"
  shows "scope_log (srv_write X sc entity i s) sc' = scope_log s sc' @
      (if sc' = sc
       then [\<lparr>len_seq = Seq (srv_next_seq s), len_change = written_change X (srv_next_seq s) entity i,
              len_visible = (srv_hold_next s = 0)\<rparr>] else [])"
    and "scope_changes (srv_write X sc entity i s) sc' = scope_changes s sc' @
      (if sc' = sc then [written_change X (srv_next_seq s) entity i] else [])"
proof -
  have pos: "0 < srv_next_seq s" and ix: "\<forall>j \<in> set (index_of s sc'). j < length (srv_log s)"
    using assms(1) by (simp_all add: srv_wf_def index_ok_def)
  note log = srv_write_log [OF pos assms(2), of X sc entity i]
  show L: "scope_log (srv_write X sc entity i s) sc' = scope_log s sc' @
      (if sc' = sc
       then [\<lparr>len_seq = Seq (srv_next_seq s), len_change = written_change X (srv_next_seq s) entity i,
              len_visible = (srv_hold_next s = 0)\<rparr>] else [])"
    using ix by (auto simp: scope_log_def log nth_append)
  show "scope_changes (srv_write X sc entity i s) sc' = scope_changes s sc' @
      (if sc' = sc then [written_change X (srv_next_seq s) entity i] else [])"
    by (simp add: scope_changes_def L)
qed

lemma srv_write_wf:
  assumes wf: "srv_wf s" and max: "srv_next_seq s \<le> SEQ_MAX"
  shows "srv_wf (srv_write X sc entity i s)"
proof -
  have pos: "0 < srv_next_seq s" and lok: "log_ok s" and iok: "index_ok s" and hok: "history_ok s"
    using wf by (simp_all add: srv_wf_def)
  note log = srv_write_log [OF pos max, of X sc entity i]
  have "log_ok (srv_write X sc entity i s)"
    using lok pos seq_next [OF max]
    by (auto simp: log_ok_def log ascending_snoc intro: less_trans)
  moreover have "index_ok (srv_write X sc entity i s)"
    using iok by (auto simp: index_ok_def log sorted_wrt_append intro: less_SucI)
  moreover have "history_ok (srv_write X sc entity i s)"
    using hok by (auto simp: history_ok_def log(3) srv_write_changes [OF wf max] history_for_snoc
        simp del: map_of_bt_insert simp add: map_of_bt_insert)
  moreover have "0 < srv_next_seq (srv_write X sc entity i s)"
    using seq_next(1) [OF max] pos by (simp add: log)
  ultimately show ?thesis
    by (simp add: srv_wf_def)
qed

lemma srv_write_grows:
  assumes "srv_wf s" and "srv_next_seq s \<le> SEQ_MAX"
  shows "srv_grows s (srv_write X sc entity i s)"
  using assms srv_write_log(5) [of s X sc entity i]
  by (auto simp: srv_grows_def srv_wf_def visible_count_def srv_write_changes takeWhile_append_mono)

text \<open>The changes the simulator writes: upserts of its one entity at schema 1.\<close>

definition plain_upsert :: "entity_name \<Rightarrow> change \<Rightarrow> bool" where
  "plain_upsert entity c \<longleftrightarrow>
     chg_entity c = entity \<and> chg_schema_version c = SchemaVersion 1 \<and> chg_op c = Upsert \<and>
     chg_snapshot c \<noteq> None"

lemma written_plain: "plain_upsert entity (written_change X n entity i)"
  using written_change_fields(7) [of X n entity i] by (auto simp: plain_upsert_def)

definition srv_evolves :: "entity_name \<Rightarrow> nat \<Rightarrow> sim_server \<Rightarrow> sim_server \<Rightarrow> bool" where
  "srv_evolves entity k s s' \<longleftrightarrow>
     srv_wf s' \<and> srv_grows s s' \<and> srv_command_targets s' = srv_command_targets s \<and>
     unat (srv_next_seq s') \<le> unat (srv_next_seq s) + k \<and>
     (\<forall>sc. \<forall>c \<in> set (scope_changes s' sc). c \<in> set (scope_changes s sc) \<or> plain_upsert entity c)"

lemma srv_evolves_refl: "srv_wf s \<Longrightarrow> srv_evolves entity k s s"
  by (simp add: srv_evolves_def)

lemma srv_evolves_trans:
  "srv_evolves entity j s s' \<Longrightarrow> srv_evolves entity k s' s'' \<Longrightarrow> srv_evolves entity (j + k) s s''"
  unfolding srv_evolves_def using srv_grows_trans [of s s' s''] by fastforce

lemma srv_evolves_mono: "srv_evolves entity j s s' \<Longrightarrow> j \<le> k \<Longrightarrow> srv_evolves entity k s s'"
  by (auto simp: srv_evolves_def)

lemma advance_commits_evolves: "srv_wf s \<Longrightarrow> srv_evolves entity k s (advance_commits s)"
  using advance_commits_facts by (simp add: srv_evolves_def)

lemma srv_write_evolves:
  assumes "srv_wf s" and "unat (srv_next_seq s) < 2 ^ 63"
  shows "srv_evolves entity 1 s (srv_write X sc entity i s)"
proof -
  have max: "srv_next_seq s \<le> SEQ_MAX"
    using assms(2) by (simp add: word_le_nat_alt SEQ_MAX_word)
  have pos: "0 < srv_next_seq s"
    using assms(1) by (simp add: srv_wf_def)
  show ?thesis
    using srv_write_wf [OF assms(1) max] srv_write_grows [OF assms(1) max] seq_next(2) [OF max]
      written_plain
    by (auto simp: srv_evolves_def srv_write_log [OF pos max] srv_write_changes [OF assms(1) max])
qed

text \<open>Fields that no reader of the log looks at.\<close>

lemma same_log_evolves:
  assumes "srv_wf s" and "srv_log s' = srv_log s" and "srv_by_scope s' = srv_by_scope s"
    and "srv_row_history s' = srv_row_history s" and "srv_next_seq s' = srv_next_seq s"
    and "srv_guard s' = srv_guard s" and "srv_command_targets s' = srv_command_targets s"
  shows "srv_evolves entity k s s'"
proof -
  have more: "shows_more (srv_log s) (srv_log s')"
    unfolding assms(2) by (simp add: shows_more_def list_all2_refl)
  then have "srv_wf s'"
    using shows_more_ok assms by blast
  then show ?thesis
    using shows_more_scope [OF more assms(3)] assms by (simp add: srv_evolves_def srv_grows_def srv_wf_def)
qed

lemma hold_next_evolves: "srv_wf s \<Longrightarrow> srv_evolves entity k s (hold_next_write d s)"
  by (rule same_log_evolves) (simp_all add: hold_next_write_def)

lemma restart_cold_evolves: "srv_wf s \<Longrightarrow> srv_evolves entity k s (restart_cold s)"
  by (rule same_log_evolves) (simp_all add: restart_cold_def)

lemma record_answer_evolves: "srv_wf s \<Longrightarrow> srv_evolves entity k s (record_answer i h r s)"
  by (rule same_log_evolves) (simp_all add: record_answer_def)

lemma srv_append_write:
  "srv_append X sc entity command s =
     (or_unreachable (seq_new (srv_next_seq s)),
      srv_write X sc entity (numbered_row (unat (command_bytes (cmd_id command) ! 15 mod 8))) s)"
  by (simp add: srv_append_def srv_write_def take_seq_def)

lemma external_change_write:
  "external_change X sc entity (s, r) =
     (srv_write X sc entity (numbered_row (unat (fst (below 8 r)))) s, snd (below 8 r))"
  by (simp add: external_change_def srv_write_def take_seq_def case_prod_beta Let_def)

lemma external_change_evolves:
  "srv_wf s \<Longrightarrow> unat (srv_next_seq s) < 2 ^ 63 \<Longrightarrow>
   srv_evolves entity 1 s (fst (external_change X sc entity (s, r)))"
  by (simp add: external_change_write srv_write_evolves del: One_nat_def)

text \<open>A command writes at most one change, of the entity its name is declared for.\<close>

definition targets_only :: "entity_name \<Rightarrow> sim_server \<Rightarrow> bool" where
  "targets_only entity s \<longleftrightarrow> (\<forall>n e sc. srv_command_targets s n = Some (e, sc) \<longrightarrow> e = entity)"

lemma roll_verdict_evolves:
  assumes "roll_verdict X entity sc command (s, r) = (res, s', r')"
    and "srv_wf s" and "unat (srv_next_seq s) < 2 ^ 63"
  shows "srv_evolves entity 1 s s'"
  using assms(1) srv_write_evolves [OF assms(2,3)] srv_evolves_refl [OF assms(2)]
  by (auto simp: roll_verdict_def srv_append_write case_prod_beta Let_def split: if_splits)

lemma apply_command_evolves:
  assumes ac: "apply_command X command (s, r) = (res, s', r')"
    and wf: "srv_wf s" and small: "unat (srv_next_seq s) < 2 ^ 63" and only: "targets_only entity s"
  shows "srv_evolves entity 1 s s'"
proof -
  have rec: "srv_evolves entity 1 s (record_answer i h q s1)" if "srv_evolves entity 1 s s1" for i h q s1
    using srv_evolves_trans [OF that record_answer_evolves [of s1 entity 0]] that
    by (simp add: srv_evolves_def)
  have roll: "srv_evolves entity 1 s s1"
    if "srv_command_targets s n = Some (e, sc)" "roll_verdict X e sc command (s, r) = (res1, s1, r1)" for n e sc res1 s1 r1
    using roll_verdict_evolves [OF that(2) wf small] only that(1) by (auto simp: targets_only_def)
  show ?thesis
    using ac rec [OF srv_evolves_refl [OF wf]] rec [OF roll] srv_evolves_refl [OF wf]
    unfolding apply_command_def Let_def
    by (auto split: sum.splits decision.splits option.splits prod.splits)
qed

lemma apply_commands_evolves:
  "apply_commands X cs (s, r) = (res, s', r') \<Longrightarrow> srv_wf s \<Longrightarrow> targets_only entity s \<Longrightarrow>
   unat (srv_next_seq s) + length cs \<le> 2 ^ 63 \<Longrightarrow> srv_evolves entity (length cs) s s'"
proof (induction cs arbitrary: s r res)
  case Nil
  then show ?case
    by (simp add: srv_evolves_refl)
next
  case (Cons c cs)
  obtain res1 s1 r1 where one: "apply_command X c (s, r) = (res1, s1, r1)"
    by (metis prod_cases3)
  then have e1: "srv_evolves entity 1 s s1"
    using apply_command_evolves Cons.prems by simp
  obtain res2 where rest: "apply_commands X cs (s1, r1) = (res2, s', r')"
    using Cons.prems(1) one by (auto split: prod.splits)
  have "srv_evolves entity (length cs) s1 s'"
    using Cons.IH [OF rest] Cons.prems e1 by (simp add: srv_evolves_def targets_only_def)
  then show ?case
    using srv_evolves_trans [OF e1] by fastforce
qed

section \<open>Reading at a position\<close>

lemma version_at_map:
  "version_at (map (\<lambda>c. (change_seq c, chg_row_version c)) held) cur =
     (let seen = takeWhile (\<lambda>c. change_seq c \<le> cur) held
      in if seen = [] then None else Some (chg_row_version (last seen)))"
proof -
  have len: "partition_point (\<lambda>(sq, _). sq \<le> cur) (map (\<lambda>c. (change_seq c, chg_row_version c)) held) =
      length (takeWhile (\<lambda>c. change_seq c \<le> cur) held)"
    by (simp add: partition_point_def takeWhile_map comp_def)
  have "held ! (length (takeWhile (\<lambda>c. change_seq c \<le> cur) held) - 1) = last (takeWhile (\<lambda>c. change_seq c \<le> cur) held)"
    if "takeWhile (\<lambda>c. change_seq c \<le> cur) held \<noteq> []"
    using that by (simp add: last_conv_nth takeWhile_nth)
  moreover have "length (takeWhile (\<lambda>c. change_seq c \<le> cur) held) - 1 < length held"
    if "takeWhile (\<lambda>c. change_seq c \<le> cur) held \<noteq> []"
  proof -
    have "0 < length (takeWhile (\<lambda>c. change_seq c \<le> cur) held)"
      using that by simp
    moreover have "length (takeWhile (\<lambda>c. change_seq c \<le> cur) held) \<le> length held"
      by (rule length_takeWhile_le)
    ultimately show ?thesis
      by linarith
  qed
  ultimately show ?thesis
    unfolding version_at_def len by (simp add: Let_def)
qed

lemma row_version_at_history:
  "row_version_at s sc n i cur = Option.bind (bt_get (history_of s sc) (n, i)) (\<lambda>vs. version_at vs cur)"
  by (cases "srv_row_history s sc") (simp_all add: row_version_at_def history_of_def)

lemma row_version_at_position:
  assumes "srv_wf s" and "p \<le> length (scope_changes s sc)"
  shows "row_version_at s sc n i (pos_seq (scope_changes s sc) p) =
    latest_version (take p (scope_changes s sc)) (n, i)"
proof -
  let ?C = "scope_changes s sc" and ?P = "\<lambda>c. change_key c = (n, i)"
  have h: "bt_get (history_of s sc) (n, i) = history_for ?C (n, i)"
    using assms(1) by (simp add: srv_wf_def history_ok_def)
  note cut = takeWhile_position [OF scope_changes_ascending [OF assms(1)] assms(2), of ?P]
  show ?thesis
  proof (cases "filter ?P ?C = []")
    case True
    then have "filter ?P (take p ?C) = []"
      by (metis append_is_Nil_conv append_take_drop_id filter_append)
    with True show ?thesis
      by (simp add: row_version_at_history h history_for_def latest_version_def)
  next
    case False
    then show ?thesis
      by (simp add: row_version_at_history h history_for_def latest_version_def version_at_map cut Let_def)
  qed
qed

lemma rows_at_history:
  "rows_at s sc cur = List.map_filter
     (\<lambda>((n, i), vs). map_option (\<lambda>v. (n, i, v)) (version_at vs cur)) (history_of s sc)"
  by (cases "srv_row_history s sc") (simp_all add: rows_at_def history_of_def List.map_filter_simps)

lemma rows_at_version:
  assumes "srv_wf s"
  shows "(n, i, v) \<in> set (rows_at s sc cur) \<longleftrightarrow> row_version_at s sc n i cur = Some v"
proof -
  have wf: "bt_wf (history_of s sc)"
    using assms by (simp add: srv_wf_def history_ok_def)
  have "(n, i, v) \<in> set (rows_at s sc cur) \<longleftrightarrow>
      (\<exists>vs. ((n, i), vs) \<in> set (history_of s sc) \<and> version_at vs cur = Some v)"
    unfolding rows_at_history List.map_filter_def by (force simp: image_iff split: option.splits)
  then show ?thesis
    unfolding row_version_at_history by (simp add: bt_get_mem [OF wf] bind_eq_Some_conv)
qed

lemma rows_at_position:
  "srv_wf s \<Longrightarrow> p \<le> length (scope_changes s sc) \<Longrightarrow>
   (n, i, v) \<in> set (rows_at s sc (pos_seq (scope_changes s sc) p)) \<longleftrightarrow>
     latest_version (take p (scope_changes s sc)) (n, i) = Some v"
  by (simp add: rows_at_version row_version_at_position)

section \<open>A guarded pull\<close>

lemma visible_walk_guard:
  "visible_walk True log ix = map len_change (takeWhile len_visible (map ((!) log) ix))"
  by (induction ix) auto

lemma takeWhile_drop:
  "p \<le> length (takeWhile P xs) \<Longrightarrow> takeWhile P (drop p xs) = drop p (takeWhile P xs)"
proof (induction xs arbitrary: p)
  case (Cons x xs)
  then show ?case
    by (cases p) (auto split: if_splits)
qed simp

lemma takeWhile_take: "takeWhile P xs = take (length (takeWhile P xs)) xs"
  by (metis append_eq_conv_conj takeWhile_dropWhile_id)

lemma takeWhile_same_image:
  "map f xs = map g ys \<Longrightarrow>
   length (takeWhile (\<lambda>x. P (f x)) xs) = length (takeWhile (\<lambda>y. P (g y)) ys)"
  using takeWhile_map [of P f xs] takeWhile_map [of P g ys] unfolding comp_def by (metis length_map)

lemma index_position:
  assumes "srv_wf s" and "p \<le> length (scope_changes s sc)"
  shows "partition_point (\<lambda>i. seq_get (len_seq (srv_log s ! i)) \<le> pos_seq (scope_changes s sc) p) (index_of s sc) = p"
proof -
  let ?C = "scope_changes s sc"
  have "map len_seq (scope_log s sc) = map chg_seq ?C"
    unfolding scope_changes_def map_map comp_def by (intro map_cong refl scope_log_seq [OF assms(1)])
  then have "map (\<lambda>i. len_seq (srv_log s ! i)) (index_of s sc) = map chg_seq ?C"
    by (simp only: scope_log_def map_map comp_def)
  then have "length (takeWhile (\<lambda>i. seq_get (len_seq (srv_log s ! i)) \<le> pos_seq ?C p) (index_of s sc)) =
      length (takeWhile (\<lambda>c. change_seq c \<le> pos_seq ?C p) ?C)"
    by (rule takeWhile_same_image)
  also have "\<dots> = p"
    using takeWhile_position [OF scope_changes_ascending [OF assms(1)] assms(2), of "\<lambda>_. True"] assms(2)
    by simp
  finally show ?thesis
    by (simp add: partition_point_def)
qed

lemma candidates_position:
  assumes "srv_wf s" and "srv_guard s" and "p \<le> visible_count s sc"
  shows "visible_walk (srv_guard s) (srv_log s) (drop p (index_of s sc)) =
    take (visible_count s sc - p) (drop p (scope_changes s sc))"
proof -
  have "map ((!) (srv_log s)) (drop p (index_of s sc)) = drop p (scope_log s sc)"
    by (simp add: scope_log_def drop_map)
  then have "visible_walk (srv_guard s) (srv_log s) (drop p (index_of s sc)) =
      map len_change (drop p (takeWhile len_visible (scope_log s sc)))"
    using assms(2,3) by (simp add: visible_walk_guard takeWhile_drop visible_count_def)
  also have "\<dots> = map len_change (drop p (take (visible_count s sc) (scope_log s sc)))"
    unfolding visible_count_def by (subst takeWhile_take) (rule refl)
  finally show ?thesis
    by (simp add: scope_changes_def drop_map take_map drop_take)
qed

text \<open>
  What a guarded pull answers at a position within the visible part: the next changes, at least one
  when there is one, never past the visible part, and the cursor of where they end.
\<close>

lemma pull_scope_position:
  assumes wf: "srv_wf s" and guard: "srv_guard s" and enc: "encodes_all X"
    and p: "p \<le> visible_count s sc" and small: "unat (srv_next_seq s) \<le> 2 ^ 63" and limit: "0 < row_limit"
  shows "\<exists>n. bat_changes (pull_scope X s row_limit budget
        \<lparr>sc_scope = sc, sc_cursor = Cursor (pos_seq (scope_changes s sc) p)\<rparr>) =
      take n (drop p (scope_changes s sc)) \<and> p + n \<le> visible_count s sc \<and>
    (n = 0 \<longleftrightarrow> p = visible_count s sc) \<and>
    bat_scope (pull_scope X s row_limit budget
        \<lparr>sc_scope = sc, sc_cursor = Cursor (pos_seq (scope_changes s sc) p)\<rparr>) = sc \<and>
    bat_next_cursor (pull_scope X s row_limit budget
        \<lparr>sc_scope = sc, sc_cursor = Cursor (pos_seq (scope_changes s sc) p)\<rparr>) =
      Cursor (pos_seq (scope_changes s sc) (p + n))"
proof -
  let ?C = "scope_changes s sc" and ?m = "visible_count s sc"
  let ?after = "pos_seq ?C p"
  have pC: "p \<le> length ?C" and mC: "?m \<le> length ?C"
    using p visible_count_le [of s sc] by linarith+
  have seq_small: "change_seq c \<le> SEQ_MAX" if "c \<in> set ?C" for c
    using scope_changes_bounded [OF wf that] small by (simp add: word_less_nat_alt word_le_nat_alt SEQ_MAX_word)
  have pos_new: "cursor_new (pos_seq ?C q) = Inr (Cursor (pos_seq ?C q))" if "q \<le> length ?C" for q
    using that seq_small by (auto simp: cursor_new_def pos_seq_def not_less)
  define cands where "cands = take row_limit (take (?m - p) (drop p ?C))"
  define beyond where "beyond = (length (index_of s sc) - p > length cands)"
  obtain b where b: "fill_batch X sim_server_compressor sc (Cursor ?after) cands beyond budget
      (digest_to_hex (srv_digest X s sc)) = Inr b"
    using fill_batch_total [OF enc] by blast
  have pull: "pull_scope X s row_limit budget \<lparr>sc_scope = sc, sc_cursor = Cursor ?after\<rparr> = b"
    unfolding pull_scope_def Let_def scope_cursor.simps cursor.sel index_position [OF wf pC]
      candidates_position [OF wf guard p] cands_def [symmetric] beyond_def [symmetric]
      cursor_or_start_def pos_new [OF pC] sum.case b by (rule refl)
  obtain n where n: "n \<le> length cands" "bat_changes b = take n cands"
    "n < length cands \<longrightarrow> 0 < n" "bat_scope b = sc"
    "bat_next_cursor b = (if take n cands = [] then Cursor ?after
       else case cursor_new (change_seq (last (take n cands))) of Inl _ \<Rightarrow> Cursor ?after | Inr c \<Rightarrow> c)"
    using fill_batch_spec [OF b] by blast
  have len: "length cands = min row_limit (?m - p)"
    using mC by (simp add: cands_def)
  have taken: "take n cands = take n (drop p ?C)"
    using n(1) len by (simp add: cands_def min_def)
  have within: "p + n \<le> ?m"
    using n(1) len p by linarith
  have zero: "n = 0 \<longleftrightarrow> p = ?m"
    using n(1,3) len p limit by auto
  have "bat_next_cursor b = Cursor (pos_seq ?C (p + n))"
  proof (cases "n = 0")
    case True
    then show ?thesis
      using n(5) by simp
  next
    case False
    then have "last (take n (drop p ?C)) = ?C ! (p + n - 1)" "take n (drop p ?C) \<noteq> []"
      using within mC by (simp_all add: last_conv_nth)
    then have "change_seq (last (take n cands)) = pos_seq ?C (p + n)" "take n cands \<noteq> []"
      using False unfolding taken by (simp_all add: pos_seq_def)
    then show ?thesis
      using n(5) pos_new [of "p + n"] within mC by simp
  qed
  then show ?thesis
    unfolding pull using n(2,4) taken within zero by auto
qed

end
