(* ===== verification/Sim_Replica.thy ===== *)
theory Sim_Replica
  imports Sim_Server_Facts Device_System
begin

text \<open>
  A device's store as a replica of one scope of the simulated server: it stands at a position of the
  scope's list of changes and holds exactly the versions the changes up to there leave behind.
  Delivering a batch that was cut out of the list at any earlier position either leaves the replica
  where it is or, when it was cut at the very position of the replica, moves it to the end of the
  batch; a batch with a repeated change is refused.
\<close>

section \<open>Standing at a position\<close>

definition replica :: "change list \<Rightarrow> scope_id \<Rightarrow> nat \<Rightarrow> store_view \<Rightarrow> bool" where
  "replica cs sc p w \<longleftrightarrow>
     p \<le> length cs \<and> view_version w = latest_version (take p cs) \<and>
     (case sv_cursors w sc of None \<Rightarrow> p = 0 | Some c \<Rightarrow> c = Cursor (pos_seq cs p))"

lemma replica_append: "replica cs sc p w \<Longrightarrow> replica (cs @ ext) sc p w"
  by (auto simp: replica_def pos_seq_append split: option.splits)

lemma replica_cong:
  "sv_rows w' = sv_rows w \<Longrightarrow> sv_cursors w' = sv_cursors w \<Longrightarrow> replica cs sc p w' = replica cs sc p w"
proof -
  assume "sv_rows w' = sv_rows w" and c: "sv_cursors w' = sv_cursors w"
  moreover from this have "view_version w' = view_version w"
    by (simp add: fun_eq_iff view_version_def)
  ultimately show ?thesis
    by (simp add: replica_def)
qed

lemma replica_cursor:
  "replica cs sc p w \<Longrightarrow> cursor_get (ss_cursor (stored_state w sc)) = pos_seq cs p"
  by (auto simp: replica_def stored_state_def position_def ScopeState_NEW_def Cursor_START_def
      CURSOR_START_def pos_seq_def restored_scope_def scope_state_restored_def split: option.splits)

lemma plain_upsert_wf: "plain_upsert entity c \<Longrightarrow> change_wf c"
  by (auto simp: plain_upsert_def change_wf_def)

lemma plain_upsert_view:
  "plain_upsert entity c \<Longrightarrow> view_version (view_op (plain_op c) w) = (view_version w)(change_key c \<mapsto> chg_row_version c)"
  by (auto simp: plain_upsert_def plain_op_def view_version_upsert change_key_def simp del: view_op.simps)

lemma plain_upserts_view:
  "list_all (plain_upsert entity) ds \<Longrightarrow>
   view_version (view_ops (map plain_op ds) w) = fold (\<lambda>c m. m(change_key c \<mapsto> chg_row_version c)) ds (view_version w)"
  by (induction ds arbitrary: w) (simp_all add: plain_upsert_view [of entity])

lemma plain_ops_cursors: "sv_cursors (view_ops (map plain_op ds) w) = sv_cursors w"
proof (induction ds arbitrary: w)
  case (Cons c ds)
  have "sv_cursors (view_op (plain_op c) w) = sv_cursors w"
    by (auto simp: plain_op_def split: option.splits)
  with Cons show ?case
    by simp
qed simp

lemma plain_unmigrated:
  "plain_upsert entity c \<Longrightarrow> eng_registry e = sim_registry entity scope \<Longrightarrow>
   change_storage_op X (eng_registry e) m c = plain_op c"
  using own_change_unmigrated [of entity c e scope X m]
  by (simp add: plain_upsert_def own_change_def change_storage_op_def)

section \<open>Delivering a batch\<close>

context storage_contract
begin

text \<open>Whatever becomes of the transaction, the store is as before or as the whole batch leaves it.\<close>

lemma apply_changes_outcomes:
  assumes coh: "coherent view e" and run: "apply_changes X st b cmp rb e = (r, e')"
  shows "view (eng_storage e') = view (eng_storage e) \<or>
    validate_ordering b (cursor_get (ss_cursor (stored_state (view (eng_storage e)) (bat_scope b)))) = Inr () \<and>
    (\<exists>d h. view (eng_storage e') =
      view_ops (map (change_storage_op X (eng_registry e) (eng_migrations e)) (bat_changes b) @
        [SetCursor (bat_scope b) (bat_next_cursor b), SetScopeDigest (bat_scope b) (digest_to_hex d)] @
        health_ops cmp rb b h (engine_scope_health e (bat_scope b))) (view (eng_storage e)))"
proof -
  let ?w = "view (eng_storage e)" and ?sc = "bat_scope b"
  let ?state = "stored_state ?w ?sc"
  obtain r1 e1 where 1: "refresh_if_suspect st ?sc e = (r1, e1)"
    by fastforce
  have s1: "eng_storage e1 = eng_storage e"
    using 1 by (auto simp: refresh_if_suspect_def split: if_splits sum.splits)
  show ?thesis
  proof (cases r1)
    case (Inl err)
    then show ?thesis
      using run 1 s1 by (simp add: apply_changes_def)
  next
    case (Inr u)
    note rf = refresh_facts [OF 1 [unfolded Inr]]
    have "coherent view e1"
      using refresh_coherent [OF coh 1] .
    then have state: "(case eng_scopes e1 ?sc of Some s \<Rightarrow> s | None \<Rightarrow> ScopeState_NEW) = ?state"
      using rf by (auto simp: coherent_def stored_state_def split: option.splits)
    show ?thesis
    proof (cases "\<exists>g q. validate_ordering b (cursor_get (ss_cursor ?state)) = Inr () \<and>
        stage_all X st e1 (bat_changes b) (staging_start ?state) = Inr (g, q)")
      case False
      then have "e' = e1"
        using run 1 Inr unfolding apply_changes_def by (auto simp: Let_def state split: sum.splits)
      with s1 show ?thesis by simp
    next
      case True
      then obtain g q where val: "validate_ordering b (cursor_get (ss_cursor ?state)) = Inr ()"
        and stg: "stage_all X st e1 (bat_changes b) (staging_start ?state) = Inr (g, q)"
        by blast
      then have com: "commit_batch st b cmp rb g q e1 = (r, e')"
        using run 1 Inr unfolding apply_changes_def by (simp add: Let_def state)
      have ops: "stg_ops g = map (change_storage_op X (eng_registry e) (eng_migrations e)) (bat_changes b)"
        using stg val stage_all_spec [of X st e1 "bat_changes b" _ _ g q]
        by (simp add: staging_start_def validate_ordering_ok rf)
      have h: "engine_scope_health e1 ?sc = engine_scope_health e ?sc"
        by (simp add: engine_scope_health_def rf)
      let ?ops = "stg_ops g @ [SetCursor ?sc (bat_next_cursor b),
          SetScopeDigest ?sc (digest_to_hex (stg_digest g))] @
          health_ops cmp rb b (stg_digest g) (engine_scope_health e ?sc)"
      obtain r2 s' where t: "transact st (eng_storage e) ?ops = (r2, s')"
        by fastforce
      moreover have "eng_storage e' = s'"
        using com t unfolding commit_batch_def Let_def health_ops_def rf h
        by (auto simp: effect_fields split: sum.splits if_splits)
      ultimately show ?thesis
        using transact_view [OF t] val unfolding ops by blast
    qed
  qed
qed

end

text \<open>A batch the server may have sent: a stretch of the list, possibly with its last change repeated.\<close>

definition stretch :: "change list \<Rightarrow> nat \<Rightarrow> nat \<Rightarrow> batch \<Rightarrow> bool" where
  "stretch cs q n b \<longleftrightarrow>
     q + n \<le> length cs \<and> bat_changes b = take n (drop q cs) \<and> bat_next_cursor b = Cursor (pos_seq cs (q + n))"

definition repeats :: "batch \<Rightarrow> bool" where
  "repeats b \<longleftrightarrow> (\<exists>xs x. bat_changes b = xs @ [x, x])"

lemma stretch_append: "stretch cs q n b \<Longrightarrow> stretch (cs @ ext) q n b"
  by (auto simp: stretch_def pos_seq_append)

lemma repeats_refused: "repeats b \<Longrightarrow> validate_ordering b cur \<noteq> Inr ()"
  by (auto simp: repeats_def validate_ordering_ok sorted_wrt_append seq_lt_def)

text \<open>A stretch cut before the replica's position is refused: its first change is already applied.\<close>

lemma early_stretch_refused:
  assumes "ascending cs" and "stretch cs q n b" and "q < p" and "p \<le> length cs" and "0 < n"
  shows "validate_ordering b (pos_seq cs p) \<noteq> Inr ()"
proof
  assume v: "validate_ordering b (pos_seq cs p) = Inr ()"
  have "cs ! q \<in> set (bat_changes b)"
    using assms(2,5) by (auto simp: stretch_def in_set_conv_nth intro!: exI [of _ 0])
  then have "pos_seq cs p < change_seq (cs ! q)"
    using v by (simp add: validate_ordering_ok)
  moreover have "change_seq (cs ! q) \<le> pos_seq cs p"
    using pos_seq_mono [of cs "Suc q" p] assms by (simp add: pos_seq_def)
  ultimately show False
    by simp
qed

lemma replica_apply:
  assumes coh: "coherent db_view e" and reg: "eng_registry e = sim_registry entity scope"
    and asc: "ascending cs" and plain: "list_all (plain_upsert entity) cs"
    and rep: "replica cs scope p (db_view (eng_storage e))"
    and sc: "bat_scope b = scope"
    and b: "repeats b \<or> stretch cs q n b \<and> q \<le> p \<and> (n = 0 \<longrightarrow> q = p)"
    and run: "apply_changes X sim_storage b cmp rb e = (r, e')"
  shows "db_view (eng_storage e') = db_view (eng_storage e) \<or>
    stretch cs q n b \<and> q = p \<and> replica cs scope (p + n) (db_view (eng_storage e')) \<and>
    sv_cursors (db_view (eng_storage e')) scope = Some (Cursor (pos_seq cs (p + n)))"
proof (cases "db_view (eng_storage e') = db_view (eng_storage e)")
  case True
  then show ?thesis by simp
next
  case False
  let ?w = "db_view (eng_storage e)"
  from sim.apply_changes_outcomes [OF coh run] False rep sc obtain d h
    where val: "validate_ordering b (pos_seq cs p) = Inr ()"
      and view: "db_view (eng_storage e') =
        view_ops (map (change_storage_op X (eng_registry e) (eng_migrations e)) (bat_changes b) @
          [SetCursor scope (bat_next_cursor b), SetScopeDigest scope d] @
          health_ops cmp rb b h (engine_scope_health e scope)) ?w"
    by (auto simp: replica_cursor)
  have str: "stretch cs q n b" and qp: "q \<le> p" "n = 0 \<longrightarrow> q = p"
    using b val repeats_refused by blast+
  have "p \<le> length cs"
    using rep by (simp add: replica_def)
  then have q: "q = p"
    using early_stretch_refused [OF asc str, of p] val qp by (cases "n = 0") (auto simp: le_less)
  have len: "p + n \<le> length cs" and cut: "bat_changes b = take n (drop p cs)"
    and next': "bat_next_cursor b = Cursor (pos_seq cs (p + n))"
    using str by (simp_all add: stretch_def q)
  have pl: "list_all (plain_upsert entity) (bat_changes b)"
    using plain unfolding cut by (meson in_set_dropD in_set_takeD list_all_iff)
  then have ops: "map (change_storage_op X (eng_registry e) (eng_migrations e)) (bat_changes b) =
      map plain_op (bat_changes b)"
    using plain_unmigrated [OF _ reg] by (simp add: list_all_iff)
  have "view_version (db_view (eng_storage e')) = view_version (view_ops (map plain_op (bat_changes b)) ?w)"
    unfolding view ops by (simp add: fun_eq_iff view_version_def)
  also have "\<dots> = fold (\<lambda>c m. m(change_key c \<mapsto> chg_row_version c)) (bat_changes b) (latest_version (take p cs))"
    using rep by (simp add: plain_upserts_view [OF pl] replica_def)
  also have "\<dots> = latest_version (take p cs @ take n (drop p cs))"
    by (simp only: latest_version_append cut)
  also have "take p cs @ take n (drop p cs) = take (p + n) cs"
    by (simp add: take_add)
  finally have "view_version (db_view (eng_storage e')) = latest_version (take (p + n) cs)" .
  moreover have cur: "sv_cursors (db_view (eng_storage e')) scope = Some (Cursor (pos_seq cs (p + n)))"
    unfolding view ops by (simp add: plain_ops_cursors next')
  ultimately have "replica cs scope (p + n) (db_view (eng_storage e'))"
    using len by (simp add: replica_def)
  with str q cur show ?thesis by blast
qed

end
