(* ===== verification/Sim_Watch.thy ===== *)
theory Sim_Watch
  imports Sim_Invariant Sim_Replica
begin

text \<open>
  When the simulator's checker stays silent. \<open>watched\<close> relates what the checker remembers of a device
  to the device's database; it survives everything that only advances the database, and on a database
  that is accounted for, has single outcomes and is a replica of the server's scope, no check reports
  and the relation holds again.
\<close>

section \<open>Databases only advance\<close>

definition known :: "store_view \<Rightarrow> command_id set" where
  "known w = ids (sv_outbox w) \<union> fst ` set (sv_resolved w)"

definition advances :: "scope_id \<Rightarrow> store_view \<Rightarrow> store_view \<Rightarrow> bool" where
  "advances sc w w' \<longleftrightarrow>
     set (sv_resolved w) \<subseteq> set (sv_resolved w') \<and> known w \<subseteq> known w' \<and>
     (\<forall>c. sv_cursors w sc = Some c \<longrightarrow>
        (\<exists>c'. sv_cursors w' sc = Some c' \<and> cursor_get c \<le> cursor_get c'))"

lemma advances_refl [simp]: "advances sc w w"
  by (simp add: advances_def)

lemma advances_trans: "advances sc w w' \<Longrightarrow> advances sc w' w'' \<Longrightarrow> advances sc w w''"
  unfolding advances_def by (meson order_trans)

lemma outcome_op:
  "set (sv_resolved w) \<subseteq> set (sv_resolved (view_op x w)) \<and> known w \<subseteq> known (view_op x w)"
  by (cases x) (auto simp: known_def ids_def)

lemma outcome_ops:
  "set (sv_resolved w) \<subseteq> set (sv_resolved (view_ops ops w)) \<and> known w \<subseteq> known (view_ops ops w)"
proof (induction ops arbitrary: w)
  case (Cons x ops)
  then show ?case
    using outcome_op [of w x] unfolding view_ops_Cons by (meson order_trans)
qed simp

lemma store_step_outcome:
  "store_step sc g w w' \<Longrightarrow> set (sv_resolved w) \<subseteq> set (sv_resolved w') \<and> known w \<subseteq> known w'"
proof (induction rule: store_step.induct)
  case (queued c w v)
  then show ?case
    using outcome_op by blast
qed (simp_all add: outcome_ops)

section \<open>The checker's memory\<close>

definition watched :: "invariants \<Rightarrow> nat \<Rightarrow> scope_id \<Rightarrow> store_view \<Rightarrow> bool" where
  "watched v i sc w \<longleftrightarrow>
     (\<forall>h. inv_high_water v (i, sc) = Some h \<longrightarrow>
        (\<exists>c. sv_cursors w sc = Some c \<and> h \<le> cursor_get c)) \<and>
     (\<forall>seen. inv_resolved v i = Some seen \<longrightarrow>
        (\<forall>(k, verdict) \<in> set seen. \<exists>r. (k, r) \<in> set (sv_resolved w) \<and> verdict_of r = verdict)) \<and>
     (\<forall>ever. inv_ever_queued v i = Some ever \<longrightarrow> fst ` set ever \<subseteq> known w)"

lemma watched_new: "watched invariants_new i sc w"
  by (simp add: watched_def invariants_new_def)

lemma watched_advances: "watched v i sc w \<Longrightarrow> advances sc w w' \<Longrightarrow> watched v i sc w'"
  apply (unfold watched_def advances_def)
  apply (intro conjI allI impI)
  subgoal for h by (elim conjE) (blast intro: order_trans)
  subgoal for seen by (elim conjE) fast
  subgoal for ever by (elim conjE) (blast intro: order_trans)
  done

end
