(* ===== verification/Sim_Queue.thy ===== *)
theory Sim_Queue
  imports Sim_Watch
begin

text \<open>
  The batches on their way to one device, in the order they will arrive. Each is a stretch of the
  scope cut at a position the device has already reached, and an empty one is cut at the position the
  device will be at when it arrives. Applying the first keeps the device a replica and the rest of the
  queue well-formed, whatever the storage does with the transaction.
\<close>

abbreviation next_cursor :: "batch \<Rightarrow> u64" where
  "next_cursor b \<equiv> cursor_get (bat_next_cursor b)"

definition idle :: "batch \<Rightarrow> bool" where
  "idle b \<longleftrightarrow> bat_changes b = []"

text \<open>A batch corrupted on its way: its last change is repeated.\<close>

definition repeats_in :: "change list \<Rightarrow> batch \<Rightarrow> bool" where
  "repeats_in cs b \<longleftrightarrow> repeats b \<and> set (bat_changes b) \<subseteq> set cs"

definition batch_ok :: "change list \<Rightarrow> nat \<Rightarrow> scope_id \<Rightarrow> nat \<Rightarrow> batch \<Rightarrow> bool" where
  "batch_ok cs m sc p b \<longleftrightarrow>
     bat_scope b = sc \<and> (idle b \<longrightarrow> bat_next_cursor b = Cursor (pos_seq cs p)) \<and>
     (\<exists>q n. q \<le> p \<and> q + n \<le> m \<and> bat_next_cursor b = Cursor (pos_seq cs (q + n)) \<and>
        (bat_changes b = take n (drop q cs) \<or> repeats_in cs b))"

definition queue_ok :: "change list \<Rightarrow> nat \<Rightarrow> scope_id \<Rightarrow> nat \<Rightarrow> batch list \<Rightarrow> bool" where
  "queue_ok cs m sc p bs \<longleftrightarrow>
     list_all (batch_ok cs m sc p) bs \<and> sorted_wrt (\<lambda>a b. idle b \<longrightarrow> next_cursor a \<le> next_cursor b) bs"

lemma batch_okE:
  assumes "batch_ok cs m sc p b"
  obtains q n where "bat_scope b = sc" "idle b \<longrightarrow> bat_next_cursor b = Cursor (pos_seq cs p)"
    "q \<le> p" "q + n \<le> m" "bat_next_cursor b = Cursor (pos_seq cs (q + n))"
    "bat_changes b = take n (drop q cs) \<or> repeats_in cs b"
  using assms unfolding batch_ok_def by (elim conjE exE)

lemma batch_okI:
  assumes "bat_scope b = sc" and "idle b \<longrightarrow> bat_next_cursor b = Cursor (pos_seq cs p)"
    and "q \<le> p" and "q + n \<le> m" and "bat_next_cursor b = Cursor (pos_seq cs (q + n))"
    and "bat_changes b = take n (drop q cs) \<or> repeats_in cs b"
  shows "batch_ok cs m sc p b"
  unfolding batch_ok_def
  by (rule conjI [OF assms(1) conjI [OF assms(2)]], rule exI [of _ q], rule exI [of _ n])
    (intro conjI assms(3-6))

lemma set_stretch: "set (take n (drop q cs)) \<subseteq> set cs"
  using set_take_subset set_drop_subset by fast

lemma batch_ok_changes: "batch_ok cs m sc p b \<Longrightarrow> set (bat_changes b) \<subseteq> set cs"
  using set_stretch unfolding batch_ok_def repeats_in_def by metis

lemma repeats_in_append: "repeats_in cs b \<Longrightarrow> repeats_in (cs @ ext) b"
  by (auto simp: repeats_in_def)

lemma queue_ok_mem: "queue_ok cs m sc p bs \<Longrightarrow> b \<in> set bs \<Longrightarrow> batch_ok cs m sc p b"
  by (simp add: queue_ok_def list_all_iff)

lemma queue_ok_Nil [simp]: "queue_ok cs m sc p []"
  by (simp add: queue_ok_def)

lemma queue_ok_tl: "queue_ok cs m sc p (b # bs) \<Longrightarrow> queue_ok cs m sc p bs"
  by (simp add: queue_ok_def)

lemma repeats_not_idle: "repeats_in cs b \<Longrightarrow> \<not> idle b"
  by (auto simp: repeats_in_def repeats_def idle_def)

text \<open>The scope grows and more of it becomes visible.\<close>

lemma batch_ok_grows:
  assumes "batch_ok cs m sc p b" and "m \<le> m'" and "m \<le> length cs" and "p \<le> length cs"
  shows "batch_ok (cs @ ext) m' sc p b"
proof -
  obtain q n where q: "q \<le> p" "q + n \<le> m" "bat_next_cursor b = Cursor (pos_seq cs (q + n))"
    "bat_changes b = take n (drop q cs) \<or> repeats_in cs b" and sc: "bat_scope b = sc"
    "idle b \<longrightarrow> bat_next_cursor b = Cursor (pos_seq cs p)"
    using assms(1) by (rule batch_okE)
  have same: "take n (drop q (cs @ ext)) = take n (drop q cs)"
    "pos_seq (cs @ ext) (q + n) = pos_seq cs (q + n)" "pos_seq (cs @ ext) p = pos_seq cs p"
    using q(2) assms(3,4) by (simp_all add: pos_seq_append)
  show ?thesis
    by (rule batch_okI [of b sc _ p q n]) (use q sc assms(2) same repeats_in_append in \<open>auto simp del: drop_append take_append\<close>)
qed

lemma queue_ok_grows:
  "queue_ok cs m sc p bs \<Longrightarrow> m \<le> m' \<Longrightarrow> m \<le> length cs \<Longrightarrow> p \<le> length cs \<Longrightarrow>
   queue_ok (cs @ ext) m' sc p bs"
  using batch_ok_grows unfolding queue_ok_def list_all_iff by blast

text \<open>A batch served at the device's position joins the queue at its end.\<close>

lemma queue_ok_snoc:
  assumes bs: "queue_ok cs m sc p bs" and asc: "ascending cs" and m: "m \<le> length cs"
    and b: "bat_scope b = sc" "p + n \<le> m" "n = 0 \<longrightarrow> p = m"
      "bat_next_cursor b = Cursor (pos_seq cs (p + n))" "bat_changes b = take n (drop p cs) \<or> repeats_in cs b"
  shows "queue_ok cs m sc p (bs @ [b])"
proof -
  have zero: "n = 0" if "idle b"
  proof -
    have "take n (drop p cs) = []"
      using b(5) that repeats_not_idle by (auto simp: idle_def)
    then show ?thesis
      using b(2) m by auto
  qed
  then have idle: "idle b \<longrightarrow> bat_next_cursor b = Cursor (pos_seq cs p)"
    using b(4) by simp
  have "batch_ok cs m sc p b"
    using b(1) idle order_refl b(2,4,5) by (rule batch_okI)
  moreover have "next_cursor a \<le> next_cursor b" if a: "a \<in> set bs" "idle b" for a
  proof -
    obtain q k where "q + k \<le> m" "bat_next_cursor a = Cursor (pos_seq cs (q + k))"
      using queue_ok_mem [OF bs a(1)] by (rule batch_okE)
    moreover have "p = m" "n = 0"
      using zero [OF a(2)] b(3) by simp_all
    ultimately show ?thesis
      using pos_seq_mono [OF asc, of "q + k" m] m by (simp add: b(4))
  qed
  ultimately show ?thesis
    using bs by (auto simp: queue_ok_def sorted_wrt_append)
qed

text \<open>The head of the queue is applied, refused, or lost.\<close>

lemma queue_ok_apply:
  assumes queue: "queue_ok cs m scope p (b # bs)" and m: "m \<le> length cs" and p: "p \<le> m"
    and coh: "coherent db_view e" and reg: "eng_registry e = sim_registry entity scope"
    and asc: "ascending cs" and plain: "list_all (plain_upsert entity) cs"
    and rep: "replica cs scope p (db_view (eng_storage e))"
    and run: "apply_changes X sim_storage b cmp rb e = (r, e')"
  shows "\<exists>p'. p \<le> p' \<and> p' \<le> m \<and> replica cs scope p' (db_view (eng_storage e')) \<and> queue_ok cs m scope p' bs \<and>
    (sv_cursors (db_view (eng_storage e')) scope = sv_cursors (db_view (eng_storage e)) scope \<and> p' = p \<or>
     sv_cursors (db_view (eng_storage e')) scope = Some (Cursor (pos_seq cs p')))"
proof -
  obtain q n where q: "q \<le> p" "q + n \<le> m" "bat_next_cursor b = Cursor (pos_seq cs (q + n))"
    "bat_changes b = take n (drop q cs) \<or> repeats_in cs b" and sc: "bat_scope b = scope"
    and idle: "idle b \<longrightarrow> bat_next_cursor b = Cursor (pos_seq cs p)"
    using queue_ok_mem [OF queue] by (rule batch_okE) auto
  have "q = p" if "bat_changes b = take n (drop q cs)" "n = 0"
  proof -
    have "pos_seq cs q = pos_seq cs p"
      using idle that q(3) by (simp add: idle_def)
    then show ?thesis
      using pos_seq_inj [OF asc] q(1) p m by auto
  qed
  then have b: "repeats b \<or> stretch cs q n b \<and> q \<le> p \<and> (n = 0 \<longrightarrow> q = p)"
    using q m by (auto simp: stretch_def repeats_in_def)
  consider "db_view (eng_storage e') = db_view (eng_storage e)"
    | "stretch cs q n b" "q = p" "replica cs scope (p + n) (db_view (eng_storage e'))"
      "sv_cursors (db_view (eng_storage e')) scope = Some (Cursor (pos_seq cs (p + n)))"
    using replica_apply [OF coh reg asc plain rep sc b run] by blast
  then show ?thesis
  proof cases
    case 1
    then show ?thesis
      using rep queue_ok_tl [OF queue] p by (intro exI [of _ p]) simp
  next
    case 2
    have next_b: "next_cursor b = pos_seq cs (p + n)"
      using 2(1,2) by (simp add: stretch_def)
    have same: "pos_seq cs (p + n) = pos_seq cs p" if "a \<in> set bs" "idle a" for a
    proof -
      have "next_cursor b \<le> next_cursor a" "bat_next_cursor a = Cursor (pos_seq cs p)"
        using queue that by (auto simp: queue_ok_def list_all_iff batch_ok_def)
      then have "pos_seq cs (p + n) \<le> pos_seq cs p"
        using next_b by simp
      moreover have "pos_seq cs p \<le> pos_seq cs (p + n)"
        using 2(2) q(2) m by (intro pos_seq_mono [OF asc]) auto
      ultimately show ?thesis by simp
    qed
    have "batch_ok cs m scope (p + n) a" if "a \<in> set bs" for a
    proof -
      have a: "batch_ok cs m scope p a"
        using queue that by (simp add: queue_ok_def list_all_iff)
      then have moved: "idle a \<longrightarrow> bat_next_cursor a = Cursor (pos_seq cs (p + n))"
        using same [OF that] by (simp add: batch_ok_def)
      from a show ?thesis
        by (rule batch_okE) (rule batch_okI [OF _ moved], auto)
    qed
    then have "queue_ok cs m scope (p + n) bs"
      using queue by (simp add: queue_ok_def list_all_iff)
    with 2 q(2) show ?thesis
      by (intro exI [of _ "p + n"]) simp
  qed
qed

end
