(* ===== verification/Sim_Fakes.thy ===== *)
theory Sim_Fakes
  imports Sim_Fault Sim_Storage
begin

text \<open>
  The simulated clock, entropy source, transport and compressor (\<open>credsync-sim/src/fakes.rs\<close>); the
  simulated storage is in \<open>Sim_Storage\<close>. Times are the \<^typ>\<open>int\<close> of \<open>Sim_Fault\<close>, the saturating
  operations written out. The code shares each of these behind \<open>Rc<RefCell>\<close>; the engine never
  touches them, so a device simply owns its copy.
\<close>

section \<open>Clock\<close>

record clock_state =
  clk_now_ms :: int
  clk_skew_ms :: int
  clk_drift_ppm :: int
  clk_epoch_ms :: int

text \<open>\<open>i64::saturating_*\<close>, and the division that rounds towards zero.\<close>

definition saturate_i64 :: "int \<Rightarrow> int" where
  "saturate_i64 v = max (- (2 ^ 63)) (min (2 ^ 63 - 1) v)"

definition div_trunc :: "int \<Rightarrow> int \<Rightarrow> int" where
  "div_trunc a b = (if a < 0 then - ((- a) div b) else a div b)"

definition apparent_ms :: "clock_state \<Rightarrow> int" where
  "apparent_ms c =
     (let elapsed = clk_now_ms c - clk_epoch_ms c;
          drift = div_trunc (saturate_i64 (elapsed * clk_drift_ppm c)) 1000000
      in saturate_i64 (saturate_i64 (clk_now_ms c + clk_skew_ms c) + drift))"

definition sim_clock_new :: "int \<Rightarrow> int \<Rightarrow> int \<Rightarrow> clock_state" where
  "sim_clock_new now_ms skew_ms drift_ppm =
     \<lparr>clk_now_ms = now_ms, clk_skew_ms = skew_ms, clk_drift_ppm = drift_ppm, clk_epoch_ms = now_ms\<rparr>"

definition advance_to :: "int \<Rightarrow> clock_state \<Rightarrow> clock_state" where
  "advance_to now_ms c = c\<lparr>clk_now_ms := now_ms\<rparr>"

definition clock_now :: "clock_state \<Rightarrow> timestamp" where
  "clock_now c = timestamp_from_millis (word_of_int (apparent_ms c))"

section \<open>Entropy\<close>

definition sim_entropy_new :: "u64 \<Rightarrow> rng" where
  "sim_entropy_new seed = rng_new seed"

text \<open>\<open>fill\<close>, given the length of the buffer.\<close>

primrec entropy_fill :: "nat \<Rightarrow> rng \<Rightarrow> bytes \<times> rng" where
  "entropy_fill 0 r = ([], r)"
| "entropy_fill (Suc n) r =
     (let (v, r1) = next_u32 r;
          (bs, r2) = entropy_fill n r1
      in (ucast (v AND 0xff) # bs, r2))"

section \<open>Transport\<close>

record outbound =
  obd_id :: request_id
  obd_request :: wire_request

record sim_transport =
  tra_pending :: "outbound list"
  tra_next_id :: u64
  tra_online :: bool

definition transport_new :: sim_transport where
  "transport_new = \<lparr>tra_pending = [], tra_next_id = 0, tra_online = True\<rparr>"

definition transport_enqueue ::
  "wire_request \<Rightarrow> sim_transport \<Rightarrow> (transport_error + request_id) \<times> sim_transport" where
  "transport_enqueue req t =
     (if \<not> tra_online t then (Inl (Unreachable ''simulated connectivity flap''), t)
      else
        (let id' = RequestId (tra_next_id t + 1)
         in (Inr id',
             t\<lparr>tra_next_id := tra_next_id t + 1,
               tra_pending := tra_pending t @ [\<lparr>obd_id = id', obd_request = req\<rparr>]\<rparr>)))"

definition transport_drain :: "sim_transport \<Rightarrow> outbound list \<times> sim_transport" where
  "transport_drain t = (tra_pending t, t\<lparr>tra_pending := []\<rparr>)"

section \<open>Compressor\<close>

text \<open>The divisor of \<open>with_ratio\<close>, and \<open>compressed_len\<close> with \<open>div_ceil\<close>.\<close>

definition with_ratio :: "nat \<Rightarrow> nat" where
  "with_ratio divisor = (if divisor = 0 then 1 else divisor)"

definition default_ratio :: nat where "default_ratio = with_ratio 4"

definition sim_compressor :: "nat \<Rightarrow> compressor" where
  "sim_compressor divisor bs = (length bs + divisor - 1) div divisor"

lemmas fake_defs [run_defs] =
  saturate_i64_def div_trunc_def apparent_ms_def sim_clock_new_def advance_to_def clock_now_def
  sim_entropy_new_def transport_new_def transport_enqueue_def transport_drain_def with_ratio_def
  default_ratio_def sim_compressor_def

section \<open>Facts\<close>

lemma saturate_range: "- (2 ^ 63) \<le> saturate_i64 v" "saturate_i64 v < 2 ^ 63"
  by (simp_all add: saturate_i64_def)

lemma saturate_id: "\<bar>v\<bar> < 2 ^ 63 \<Longrightarrow> saturate_i64 v = v"
  by (simp add: saturate_i64_def)

lemma abs_div_trunc: "0 < b \<Longrightarrow> \<bar>div_trunc a b\<bar> = \<bar>a\<bar> div b"
  by (simp add: div_trunc_def pos_imp_zdiv_nonneg_iff)

text \<open>A clock lies by its skew, plus its drift over the time since it started.\<close>

lemma apparent_ms_offset:
  assumes skew: "\<bar>clk_skew_ms c\<bar> \<le> SKEW_MAGNITUDE_MS" and drift: "\<bar>clk_drift_ppm c\<bar> \<le> 200"
    and "clk_epoch_ms c \<le> clk_now_ms c" and "0 \<le> clk_epoch_ms c" and "clk_now_ms c < 2 ^ 52"
  shows "\<bar>apparent_ms c - clk_now_ms c\<bar> \<le>
    SKEW_MAGNITUDE_MS + (clk_now_ms c - clk_epoch_ms c) * 200 div 1000000"
proof -
  define elapsed where "elapsed = clk_now_ms c - clk_epoch_ms c"
  define d where "d = div_trunc (elapsed * clk_drift_ppm c) 1000000"
  have e: "0 \<le> elapsed" "elapsed < 2 ^ 52"
    using assms by (simp_all add: elapsed_def)
  have x: "\<bar>elapsed * clk_drift_ppm c\<bar> \<le> elapsed * 200"
    using e(1) drift by (simp add: abs_mult mult_left_mono)
  have "\<bar>d\<bar> = \<bar>elapsed * clk_drift_ppm c\<bar> div 1000000"
    unfolding d_def by (rule abs_div_trunc) simp
  then have d: "\<bar>d\<bar> \<le> elapsed * 200 div 1000000"
    using x by (simp add: zdiv_mono1)
  have "elapsed * 200 < 2 ^ 60"
    using e(2) by simp
  then have sx: "saturate_i64 (elapsed * clk_drift_ppm c) = elapsed * clk_drift_ppm c"
    using x by (intro saturate_id) simp
  have small: "elapsed * 200 div 1000000 \<le> elapsed"
    using e(1) by linarith
  have sn: "saturate_i64 (clk_now_ms c + clk_skew_ms c) = clk_now_ms c + clk_skew_ms c"
    using assms by (intro saturate_id) (simp add: SKEW_MAGNITUDE_MS_def)
  have "saturate_i64 (clk_now_ms c + clk_skew_ms c + d) = clk_now_ms c + clk_skew_ms c + d"
    using assms e d small by (intro saturate_id) (simp add: SKEW_MAGNITUDE_MS_def)
  then have "apparent_ms c = clk_now_ms c + clk_skew_ms c + d"
    unfolding apparent_ms_def Let_def elapsed_def [symmetric] sx d_def [symmetric] sn .
  then show ?thesis
    using skew d unfolding elapsed_def by linarith
qed

lemma transport_order:
  "transport_enqueue req t = (Inr i, t') \<Longrightarrow>
   map obd_request (tra_pending t') = map obd_request (tra_pending t) @ [req]"
  by (auto simp: transport_enqueue_def Let_def split: if_splits)

lemma entropy_fill_length: "length (fst (entropy_fill n r)) = n"
  by (induction n arbitrary: r) (simp_all add: case_prod_beta)

end
