(* ===== verification/Sim_World.thy ===== *)
theory Sim_World
  imports Sim_Invariant Sim_Fakes Device_System
begin

text \<open>
  The simulated world (\<open>credsync-sim/src/world.rs\<close>): devices running the engine, the simulated server,
  and the network between them, driven one minute a step from one seed. A \<open>&mut self\<close> method of
  \<open>World\<close> is a function on the record \<open>world\<close>, and draws from the generator in the order of the code.
  The parameter \<open>X\<close> is the encoder and the hash functions.
\<close>

section \<open>State\<close>

definition STEP_MS :: int where "STEP_MS = 60000"
definition PULL_LIMIT :: nat where "PULL_LIMIT = 4"
definition WORLD_START_MS :: int where "WORLD_START_MS = 1756137600000"

record flight =
  ifl_device :: nat
  ifl_deliver_at_ms :: int
  ifl_response :: "transport_error + wire_response"

text \<open>
  The engine owns the storage here, where the code shares one cell between the engine and the world.
\<close>

record sim_device =
  dv_engine :: "db engine"
  dv_clock :: clock_state
  dv_entropy :: rng
  dv_transport :: sim_transport
  dv_ratio :: nat
  dv_offline_until_ms :: int
  dv_requests_sent :: u64
  dv_commands_authored :: u32
  dv_pending_kill :: bool

record world =
  wld_devices :: "sim_device list"
  wld_server :: sim_server
  wld_rng :: rng
  wld_rates :: fault_rates
  wld_now_ms :: int
  wld_in_flight :: "flight list"
  wld_held :: "flight list"
  wld_scope :: scope_id
  wld_entity :: entity_name
  wld_quiet :: bool
  wld_trace :: trace
  wld_invariants :: invariants
  wld_registry :: registry
  wld_pressure :: pressure

definition world_scope :: scope_id where
  "world_scope = or_unreachable (scope_id_new ''inst:adl:enr:2026-cohort'')"

definition world_entity :: entity_name where
  "world_entity = or_unreachable (entity_name_new ''reflections'')"

text \<open>One device of \<open>World::new\<close>, its draws in order: skew, drift, entropy, compression ratio.\<close>

definition new_device :: "rng \<Rightarrow> sim_device \<times> rng" where
  "new_device r =
     (let (skew, r) = signed_offset (word_of_int SKEW_MAGNITUDE_MS) r;
          (drift, r) = rng_range 0 400 r;
          (seed, r) = next_u64 r;
          (ratio, r) = rng_range 1 8 r;
          e = engine_new db_default
      in (\<lparr>dv_engine = e\<lparr>eng_registry := sim_register world_entity world_scope (eng_registry e)\<rparr>,
           dv_clock = sim_clock_new WORLD_START_MS (sint skew) (int (unat drift) - 200),
           dv_entropy = sim_entropy_new seed, dv_transport = transport_new,
           dv_ratio = with_ratio (unat ratio), dv_offline_until_ms = 0, dv_requests_sent = 0,
           dv_commands_authored = 0, dv_pending_kill = False\<rparr>, r))"

primrec new_devices :: "nat \<Rightarrow> rng \<Rightarrow> sim_device list \<times> rng" where
  "new_devices 0 r = ([], r)"
| "new_devices (Suc n) r =
     (let (d, r) = new_device r;
          (ds, r) = new_devices n r
      in (d # ds, r))"

definition world_new :: "u64 \<Rightarrow> fault_rates \<Rightarrow> trace \<Rightarrow> world" where
  "world_new seed rates t =
     (let (count, r) = rng_range 2 4 (rng_new seed);
          (devices, r) = new_devices (unat count) r
      in \<lparr>wld_devices = devices,
          wld_server = srv_register_command ''submit_reflection'' world_entity world_scope server_new,
          wld_rng = r, wld_rates = rates, wld_now_ms = WORLD_START_MS, wld_in_flight = [],
          wld_held = [], wld_scope = world_scope, wld_entity = world_entity, wld_quiet = False,
          wld_trace = t, wld_invariants = invariants_new,
          wld_registry = sim_register world_entity world_scope registry_new,
          wld_pressure = pressure_new\<rparr>)"

definition elapsed_ms :: "world \<Rightarrow> int" where
  "elapsed_ms w = wld_now_ms w - WORLD_START_MS"

definition world_databases :: "world \<Rightarrow> db list" where
  "world_databases w = map (\<lambda>d. eng_storage (dv_engine d)) (wld_devices w)"

definition disable_commit_order_guard :: "world \<Rightarrow> world" where
  "disable_commit_order_guard w = w\<lparr>wld_server := (wld_server w)\<lparr>srv_guard := False\<rparr>\<rparr>"

definition apparent_times_ms :: "world \<Rightarrow> int \<times> u64 list" where
  "apparent_times_ms w =
     (wld_now_ms w, map (\<lambda>d. as_millis (clock_now (dv_clock d))) (wld_devices w))"

section \<open>Draws, records, single devices\<close>

definition draw_chance :: "u32 \<Rightarrow> world \<Rightarrow> bool \<times> world" where
  "draw_chance p w = (let (b, r) = chance p (wld_rng w) in (b, w\<lparr>wld_rng := r\<rparr>))"

definition draw_range :: "u32 \<Rightarrow> u32 \<Rightarrow> world \<Rightarrow> u32 \<times> world" where
  "draw_range low high w = (let (v, r) = rng_range low high (wld_rng w) in (v, w\<lparr>wld_rng := r\<rparr>))"

definition note_fault :: "nat \<Rightarrow> fault \<Rightarrow> world \<Rightarrow> world" where
  "note_fault i f w = w\<lparr>wld_trace := trace_fault (wld_now_ms w) i f (wld_trace w)\<rparr>"

definition note_event :: "nat \<Rightarrow> string \<Rightarrow> world \<Rightarrow> world" where
  "note_event i what w = w\<lparr>wld_trace := trace_event (wld_now_ms w) i what (wld_trace w)\<rparr>"

definition upd_device :: "nat \<Rightarrow> (sim_device \<Rightarrow> sim_device) \<Rightarrow> world \<Rightarrow> world" where
  "upd_device i f w = w\<lparr>wld_devices := (wld_devices w)[i := f (wld_devices w ! i)]\<rparr>"

definition set_engine :: "nat \<Rightarrow> db engine \<Rightarrow> world \<Rightarrow> world" where
  "set_engine i e = upd_device i (\<lambda>d. d\<lparr>dv_engine := e\<rparr>)"

definition send :: "nat \<Rightarrow> wire_request \<Rightarrow> world \<Rightarrow> world" where
  "send i req = upd_device i (\<lambda>d. d\<lparr>dv_transport := snd (transport_enqueue req (dv_transport d))\<rparr>)"

text \<open>\<open>restart_device\<close>: a fresh engine over the same storage, and a fresh transport.\<close>

definition world_restart :: "nat \<Rightarrow> world \<Rightarrow> world" where
  "world_restart i w0 =
     (let w = note_fault i DeviceRestarted w0;
          (seed, r) = next_u64 (wld_rng w);
          w = w\<lparr>wld_rng := r\<rparr>
      in upd_device i (\<lambda>d. d\<lparr>
           dv_engine := restart_device (wld_entity w) (wld_scope w) (eng_storage (dv_engine d)),
           dv_entropy := sim_entropy_new seed, dv_transport := transport_new,
           dv_ratio := default_ratio, dv_pending_kill := False\<rparr>) w)"

definition maybe_kill :: "nat \<Rightarrow> world \<Rightarrow> world" where
  "maybe_kill i w =
     (if dv_pending_kill (wld_devices w ! i)
      then world_restart i (upd_device i (\<lambda>d. d\<lparr>dv_pending_kill := False\<rparr>) w)
      else w)"

definition set_verdict :: "storage_verdict \<Rightarrow> sim_device \<Rightarrow> sim_device" where
  "set_verdict v d =
     d\<lparr>dv_engine := (dv_engine d)\<lparr>eng_storage := (eng_storage (dv_engine d))\<lparr>db_verdict := v\<rparr>\<rparr>\<rparr>"

definition arm_storage :: "nat \<Rightarrow> world \<Rightarrow> world" where
  "arm_storage i w0 =
     (let (decision, r) = decide_storage (wld_rates w0) (wld_rng w0);
          w = w0\<lparr>wld_rng := r\<rparr>
      in case decision of
           Some StorageFailed \<Rightarrow>
             upd_device i (set_verdict FailBeforeCommit) (note_fault i StorageFailed w)
         | Some StorageCommittedThenKilled \<Rightarrow>
             upd_device i (set_verdict CommitThenLoseAck)
               (upd_device i (\<lambda>d. d\<lparr>dv_pending_kill := True\<rparr>)
                  (note_fault i StorageCommittedThenKilled w))
         | Some StorageLiedAboutCommit \<Rightarrow>
             upd_device i (set_verdict CommitThenLoseAck) (note_fault i StorageLiedAboutCommit w)
         | _ \<Rightarrow> upd_device i (set_verdict Commit) w)"

section \<open>A device's turn\<close>

definition sim_command_id :: "u8 \<Rightarrow> u32 \<Rightarrow> command_id" where
  "sim_command_id device n =
     or_unreachable (command_id_from_bytes
       ([0x01, 0x91, 0, 0, 0, 0, 0x70, 0, 0, 0, 0, device] @
        map ucast [drop_bit 24 n, drop_bit 16 n, drop_bit 8 n, n]))"

definition authored_command :: "externs \<Rightarrow> scope_id \<Rightarrow> nat \<Rightarrow> u32 \<Rightarrow> u64 \<Rightarrow> command" where
  "authored_command X sc i n ts =
     \<lparr>cmd_id = sim_command_id (of_nat i) n,
      cmd_name = or_unreachable (command_name_new ''submit_reflection''), cmd_scope = sc,
      cmd_payload = or_unreachable (payload_new X
        (json_object [(''body'', JString (replicate 32 (CHR ''x'')))])),
      cmd_client_ts = ts, cmd_checksum = hex_placeholder\<rparr>"

definition author_command :: "externs \<Rightarrow> nat \<Rightarrow> world \<Rightarrow> world" where
  "author_command X i w0 =
     (let n = dv_commands_authored (wld_devices w0 ! i);
          w = upd_device i (\<lambda>d. d\<lparr>dv_commands_authored := n + 1\<rparr>) w0;
          command = authored_command X (wld_scope w) i n
            (as_millis (clock_now (dv_clock (wld_devices w ! i))));
          w = arm_storage i w;
          (result, e) = enqueue sim_storage
            (outbox_entry_new command (or_unreachable (schema_version_new 1)))
            (dv_engine (wld_devices w ! i));
          w = set_engine i e w;
          w = note_event i (if is_ok result then ''enqueued'' else ''enqueue-refused'') w
      in maybe_kill i w)"

definition push_step :: "externs \<Rightarrow> nat \<Rightarrow> world \<Rightarrow> world" where
  "push_step X i w0 =
     (let d = wld_devices w0 ! i;
          (result, e) = build_push X (sim_compressor (dv_ratio d)) sim_storage server_protocol 100000
            (dv_engine d);
          w = set_engine i e w0
      in case result of
           Inr (Some request) \<Rightarrow> if psq_commands request = [] then w else send i (ReqPush request) w
         | _ \<Rightarrow> w)"

definition pull_step :: "nat \<Rightarrow> world \<Rightarrow> world" where
  "pull_step i w0 =
     (let sc = wld_scope w0;
          e0 = dv_engine (wld_devices w0 ! i);
          (ready, w) =
            (if needs_reload e0 sc
             then (let (result, e) = reload_scope sim_storage sc e0
                   in (is_ok result, set_engine i e w0))
             else (True, w0))
      in if \<not> ready then w
         else
           (let cur = (case engine_scope_state (dv_engine (wld_devices w ! i)) sc of
                         None \<Rightarrow> Cursor_START | Some s \<Rightarrow> ss_cursor s)
            in send i (ReqPull \<lparr>plq_protocol = server_protocol,
                 plq_scopes = [\<lparr>sc_scope = sc, sc_cursor = cur\<rparr>], plq_limit_bytes = None\<rparr>) w))"

definition set_online :: "bool \<Rightarrow> int \<Rightarrow> sim_device \<Rightarrow> sim_device" where
  "set_online online offline_until d =
     d\<lparr>dv_offline_until_ms := offline_until,
       dv_transport := (dv_transport d)\<lparr>tra_online := online\<rparr>\<rparr>"

definition connectivity :: "nat \<Rightarrow> world \<Rightarrow> world" where
  "connectivity i w =
     (let until = dv_offline_until_ms (wld_devices w ! i)
      in if until > 0 \<and> wld_now_ms w \<ge> until then upd_device i (set_online True 0) w
         else if until = 0 then
           (let (flap, w) = draw_chance (fr_connectivity_flap (wld_rates w)) w
            in if flap
               then note_fault i Flap
                      (upd_device i (set_online False (wld_now_ms w + FLAP_DURATION_MS)) w)
               else w)
         else w)"

definition device_turn :: "externs \<Rightarrow> nat \<Rightarrow> world \<Rightarrow> world" where
  "device_turn X i w0 =
     (let w = connectivity i w0;
          (restart, w) = draw_chance (fr_device_restart (wld_rates w)) w;
          w = (if restart then world_restart i w else w);
          (author, w) = (if wld_quiet w then (False, w) else draw_chance 1 w);
          w = (if author then author_command X i w else w)
      in pull_step i (push_step X i w))"

section \<open>The network\<close>

text \<open>\<open>repeat_last_result\<close> and \<open>repeat_last_change\<close>: the flag says whether anything was repeated.\<close>

definition repeat_last_result :: "push_response \<Rightarrow> bool \<times> push_response" where
  "repeat_last_result response =
     (if psr_results response = [] then (False, response)
      else (True, response\<lparr>psr_results := psr_results response @ [last (psr_results response)]\<rparr>))"

fun repeat_in_batches :: "batch list \<Rightarrow> bool \<times> batch list" where
  "repeat_in_batches [] = (False, [])"
| "repeat_in_batches (b # bs) =
     (if bat_changes b = [] then (let (done, bs') = repeat_in_batches bs in (done, b # bs'))
      else (True, b\<lparr>bat_changes := bat_changes b @ [last (bat_changes b)]\<rparr> # bs))"

definition repeat_last_change :: "pull_response \<Rightarrow> bool \<times> pull_response" where
  "repeat_last_change response =
     (let (done, bs) = repeat_in_batches (plr_batches response)
      in (done, response\<lparr>plr_batches := bs\<rparr>))"

definition answer_pull ::
  "externs \<Rightarrow> nat \<Rightarrow> bool \<Rightarrow> pull_request \<Rightarrow> world \<Rightarrow> wire_response \<times> world" where
  "answer_pull X i hostile req w =
     (let pulled = srv_pull X req PULL_LIMIT (pressure_budget (wld_pressure w)) (wld_server w);
          (done, broken) = repeat_last_change pulled
      in if hostile \<and> done then (RespPull broken, note_fault i ProtocolViolation w)
         else (RespPull pulled, w))"

definition answer_push ::
  "externs \<Rightarrow> nat \<Rightarrow> bool \<Rightarrow> push_request \<Rightarrow> world \<Rightarrow> wire_response \<times> world" where
  "answer_push X i hostile req w0 =
     (let (accepted, p) = accept_count (length (psq_commands req)) (wld_pressure w0);
          (pushed, s, r) = push_prefix X req accepted (wld_server w0, wld_rng w0);
          w = w0\<lparr>wld_pressure := p, wld_server := s, wld_rng := r\<rparr>;
          (done, broken) = repeat_last_result pushed
      in if hostile \<and> done then (RespPush broken, note_fault i ProtocolViolation w)
         else (RespPush pushed, w))"

definition answer ::
  "externs \<Rightarrow> nat \<Rightarrow> bool \<Rightarrow> wire_request \<Rightarrow> world \<Rightarrow> wire_response option \<times> world" where
  "answer X i hostile req w =
     (case req of
        ReqPull r \<Rightarrow> (let (resp, w) = answer_pull X i hostile r w in (Some resp, w))
      | ReqPush r \<Rightarrow> (let (resp, w) = answer_push X i hostile r w in (Some resp, w))
      | ReqBootstrap _ \<Rightarrow> (None, w))"

definition queue_flight :: "flight \<Rightarrow> world \<Rightarrow> world" where
  "queue_flight f w = w\<lparr>wld_in_flight := wld_in_flight w @ [f]\<rparr>"

text \<open>The second half of the loop body: what the client will see, when, and how often.\<close>

definition dispatch :: "nat \<Rightarrow> fault option \<Rightarrow> wire_response \<Rightarrow> world \<Rightarrow> world" where
  "dispatch i fault response w0 =
     (let seen = (case fault of
                    Some Severed \<Rightarrow> Inl (TransportMalformed ''severed mid-batch'')
                  | Some MalformedBytes \<Rightarrow> Inl (TransportMalformed ''corrupted bytes'')
                  | _ \<Rightarrow> Inr response);
          (lo, hi) = fr_latency_ms (wld_rates w0);
          (latency, w) = draw_range lo hi w0;
          f = \<lparr>ifl_device = i, ifl_deliver_at_ms = wld_now_ms w + int (unat latency),
               ifl_response = seen\<rparr>
      in case fault of
           Some Duplicated \<Rightarrow>
             (let (later, w) = draw_range 1 500 w
              in queue_flight f (queue_flight
                   (f\<lparr>ifl_deliver_at_ms := ifl_deliver_at_ms f + int (unat later)\<rparr>) w))
         | Some Reordered \<Rightarrow> w\<lparr>wld_held := wld_held w @ [f]\<rparr>
         | _ \<Rightarrow> queue_flight f w)"

definition carry_one :: "externs \<Rightarrow> nat \<Rightarrow> wire_request \<Rightarrow> world \<Rightarrow> world" where
  "carry_one X i req w0 =
     (let w = upd_device i (\<lambda>d. d\<lparr>dv_requests_sent := dv_requests_sent d + 1\<rparr>) w0;
          (fault, r) = decide_response (wld_rates w) (dv_requests_sent (wld_devices w ! i)) (wld_rng w);
          w = w\<lparr>wld_rng := r\<rparr>;
          w = (case fault of None \<Rightarrow> w | Some f \<Rightarrow> note_fault i f w)
      in if fault = Some Dropped then w
         else
           (let (hostile, w) = draw_chance (fr_protocol_violation (wld_rates w)) w
            in case answer X i hostile req w of
                 (None, w) \<Rightarrow> w
               | (Some response, w) \<Rightarrow> dispatch i fault response w))"

definition carry_device :: "externs \<Rightarrow> nat \<Rightarrow> world \<Rightarrow> world" where
  "carry_device X i w =
     (let (outs, t) = transport_drain (dv_transport (wld_devices w ! i))
      in fold (\<lambda>out. carry_one X i (obd_request out)) outs
           (upd_device i (\<lambda>d. d\<lparr>dv_transport := t\<rparr>) w))"

text \<open>Held responses rejoin the queue.\<close>

definition release_one :: "flight \<Rightarrow> world \<Rightarrow> world" where
  "release_one h w0 =
     (let (later, w) = draw_range 1 900 w0
      in queue_flight
           (h\<lparr>ifl_deliver_at_ms := wld_now_ms w + STEP_MS + int (unat later)\<rparr>) w)"

definition release_held :: "world \<Rightarrow> world" where
  "release_held w = fold release_one (wld_held w) (w\<lparr>wld_held := []\<rparr>)"

definition carry_network :: "externs \<Rightarrow> world \<Rightarrow> world" where
  "carry_network X w = release_held (fold (carry_device X) [0..<length (wld_devices w)] w)"

definition deliver_batch :: "externs \<Rightarrow> nat \<Rightarrow> batch \<Rightarrow> world \<Rightarrow> world" where
  "deliver_batch X i b w0 =
     (let w = arm_storage i w0;
          (result, e) = apply_batch X sim_storage b (dv_engine (wld_devices w ! i));
          w = set_engine i e w;
          w = note_event i
                (case result of
                   Inr a \<Rightarrow> if apd_diverged a then ''applied-diverged'' else ''applied''
                 | Inl _ \<Rightarrow> ''apply-refused'') w
      in maybe_kill i w)"

definition deliver_results :: "nat \<Rightarrow> push_response \<Rightarrow> world \<Rightarrow> world" where
  "deliver_results i response w0 =
     (let w = arm_storage i w0;
          (result, e) = apply_results sim_storage response (dv_engine (wld_devices w ! i));
          w = set_engine i e w;
          w = note_event i (if is_ok result then ''results-applied'' else ''results-refused'') w
      in maybe_kill i w)"

definition deliver_one :: "externs \<Rightarrow> flight \<Rightarrow> world \<Rightarrow> world" where
  "deliver_one X f w =
     (let i = ifl_device f
      in case ifl_response f of
           Inl _ \<Rightarrow> note_event i ''response-failed'' w
         | Inr (RespPull response) \<Rightarrow> fold (deliver_batch X i) (plr_batches response) w
         | Inr (RespPush response) \<Rightarrow> deliver_results i response w
         | Inr _ \<Rightarrow> note_event i ''response-ignored'' w)"

definition deliver_due :: "externs \<Rightarrow> world \<Rightarrow> world" where
  "deliver_due X w =
     (let (ready, waiting) = partition (\<lambda>f. ifl_deliver_at_ms f \<le> wld_now_ms w) (wld_in_flight w)
      in fold (deliver_one X) ready (w\<lparr>wld_in_flight := waiting\<rparr>))"

section \<open>A step\<close>

definition slow_commit_step :: "world \<Rightarrow> world" where
  "slow_commit_step w =
     (if wld_quiet w then w
      else
        (let (slow, w) = draw_chance (fr_slow_commit (wld_rates w)) w
         in if slow
            then (let (delay, w) = draw_range 1 4 w
                  in note_fault 0 SlowCommit (w\<lparr>wld_server := hold_next_write delay (wld_server w)\<rparr>))
            else w))"

definition server_restart_step :: "world \<Rightarrow> world" where
  "server_restart_step w0 =
     (let (restart, w) = draw_chance (fr_server_restart (wld_rates w0)) w0
      in if restart
         then note_fault 0 ServerRestarted (w\<lparr>wld_server := restart_cold (wld_server w)\<rparr>) else w)"

definition pressure_step :: "world \<Rightarrow> world" where
  "pressure_step w0 =
     (let w = w0\<lparr>wld_pressure := pressure_tick (wld_pressure w0)\<rparr>
      in if wld_quiet w \<or> is_shedding (wld_pressure w) then w
         else
           (let (loaded, w) = draw_chance (fr_overload (wld_rates w)) w
            in if loaded
               then (let (p, r) = overload (wld_pressure w) (wld_rng w)
                     in note_fault 0 Overloaded (w\<lparr>wld_pressure := p, wld_rng := r\<rparr>))
               else w))"

definition external_step :: "externs \<Rightarrow> world \<Rightarrow> world" where
  "external_step X w0 =
     (if wld_quiet w0 then w0
      else
        (let (writes, w) = draw_chance 2 w0
         in if writes
            then (let (s, r) = external_change X (wld_scope w) (wld_entity w) (wld_server w, wld_rng w)
                  in w\<lparr>wld_server := s, wld_rng := r\<rparr>)
            else w))"

definition check_world :: "world \<Rightarrow> world" where
  "check_world w =
     (let dbs = world_databases w;
          v = check_step (wld_now_ms w) dbs (wld_scope w) (wld_invariants w);
          v = check_cursor_bounds (wld_now_ms w) dbs (wld_server w) (wld_scope w) v;
          v = check_durable_effects (wld_now_ms w) dbs (wld_server w) (wld_scope w) v;
          v = check_applied_state (wld_now_ms w) dbs (wld_server w) (wld_scope w) v
      in w\<lparr>wld_invariants := v\<rparr>)"

definition advance_time :: "world \<Rightarrow> world" where
  "advance_time w =
     (let now = wld_now_ms w + STEP_MS
      in w\<lparr>wld_now_ms := now,
           wld_devices := map (\<lambda>d. d\<lparr>dv_clock := advance_to now (dv_clock d)\<rparr>) (wld_devices w)\<rparr>)"

definition world_step :: "externs \<Rightarrow> world \<Rightarrow> world" where
  "world_step X w0 =
     (let w = advance_time w0;
          w = w\<lparr>wld_server := advance_commits (wld_server w)\<rparr>;
          w = external_step X (pressure_step (server_restart_step (slow_commit_step w)));
          w = fold (device_turn X) [0..<length (wld_devices w)] w;
          w = deliver_due X (carry_network X w)
      in check_world w)"

primrec world_steps :: "externs \<Rightarrow> nat \<Rightarrow> world \<Rightarrow> world" where
  "world_steps X 0 w = w"
| "world_steps X (Suc n) w = world_steps X n (world_step X w)"

definition SETTLE_STEPS :: nat where "SETTLE_STEPS = 600"

text \<open>\<open>settle\<close>: \<open>None\<close> is the panic of its assertion.\<close>

definition settle :: "externs \<Rightarrow> world \<Rightarrow> world option" where
  "settle X w0 =
     (let quiet = w0\<lparr>wld_rates := rates_none, wld_quiet := True,
            wld_devices := map (\<lambda>d. d\<lparr>dv_transport := (dv_transport d)\<lparr>tra_online := True\<rparr>\<rparr>)
              (wld_devices w0)\<rparr>;
          w = world_steps X SETTLE_STEPS quiet
      in if in_flight_writes (wld_server w) \<noteq> 0 then None
         else
           (let w = w\<lparr>wld_rates := wld_rates w0, wld_quiet := False\<rparr>;
                dbs = world_databases w;
                v = check_convergence X (wld_now_ms w) dbs (wld_server w) (wld_scope w) (wld_invariants w);
                v = check_policy (wld_now_ms w) dbs (wld_registry w) v
            in Some (w\<lparr>wld_invariants := v\<rparr>)))"

definition world_run :: "externs \<Rightarrow> nat \<Rightarrow> world \<Rightarrow> world option" where
  "world_run X steps w = settle X (world_steps X steps w)"

end
