(* ===== verification/Sim_Device.thy ===== *)
theory Sim_Device
  imports Sim_Queue Sim_World
begin

text \<open>
  What the operations a simulated device runs do to its database, and that each keeps the device
  sound: the engine's invariant, the ids it has authored, the checker's memory of it, and the
  entity of the drafts it recovered.
\<close>

section \<open>What the write side does to the store\<close>

context storage_contract
begin

lemma enqueue_view:
  assumes "enqueue st entry e = (r, e')"
  shows "view (eng_storage e') = view (eng_storage e) \<or>
    view (eng_storage e') = view_op (EnqueueCommand (oe_command entry) (oe_schema_version entry)) (view (eng_storage e))"
proof (cases "check_command (eng_registry e) (oe_command entry)")
  case (Inl err)
  with assms show ?thesis by (simp add: enqueue_def)
next
  case (Inr n)
  obtain r1 s' where t: "transact st (eng_storage e) [EnqueueCommand (oe_command entry) (oe_schema_version entry)] = (r1, s')"
    by fastforce
  then have "eng_storage e' = s'"
    using assms Inr by (auto simp: enqueue_def split: sum.splits)
  then show ?thesis
    using transact_view [OF t] by auto
qed

lemma results_view:
  assumes "coherent view e" and "apply_results st response e = (r, e')"
  shows "view (eng_storage e') = view (eng_storage e) \<or>
    view (eng_storage e') = view_ops (rs_ops (resolve_all (eng_registry e) (sv_outbox (view (eng_storage e)))
      (psr_results response))) (view (eng_storage e))"
proof -
  obtain r1 e1 where 1: "refresh_outbox_if_suspect st e = (r1, e1)"
    by fastforce
  have c1: "coherent view e1" and s1: "eng_storage e1 = eng_storage e"
    "eng_registry e1 = eng_registry e" "r1 = Inr () \<Longrightarrow> \<not> eng_outbox_suspect e1"
    using assms(1) 1 refresh_outbox_coherent
    by (auto simp: refresh_outbox_if_suspect_def split: if_splits sum.splits)
  let ?a = "resolve_all (eng_registry e) (eng_outbox e1) (psr_results response)"
  show ?thesis
  proof (cases "r1 = Inr () \<and> rs_ops ?a \<noteq> []")
    case True
    then have q: "eng_outbox e1 = sv_outbox (view (eng_storage e))"
      using c1 s1 by (simp add: coherent_def)
    obtain r2 s' where t: "transact st (eng_storage e) (rs_ops ?a) = (r2, s')"
      by fastforce
    then have "eng_storage e' = s'"
      using assms(2) 1 True s1 by (auto simp: apply_results_def Let_def split: sum.splits)
    then show ?thesis
      using transact_view [OF t] unfolding q by metis
  next
    case False
    then have "e' = e1"
      using assms(2) 1 s1 by (cases r1) (auto simp: apply_results_def Let_def)
    then show ?thesis
      using s1 by simp
  qed
qed

text \<open>A pull leaves the write side alone.\<close>

lemma change_op_scope: "Core_Contract.touches_row (change_storage_op X g m c)"
  by (simp add: change_storage_op_def plain_op_def split: sum.splits option.splits)

lemma apply_changes_write_side:
  assumes "coherent view e" and "apply_changes X st b cmp rb e = (r, e')"
  shows "sv_outbox (view (eng_storage e')) = sv_outbox (view (eng_storage e)) \<and>
    sv_resolved (view (eng_storage e')) = sv_resolved (view (eng_storage e)) \<and>
    sv_recovered (view (eng_storage e')) = sv_recovered (view (eng_storage e))"
proof (cases "view (eng_storage e') = view (eng_storage e)")
  case False
  then obtain d h where after: "view (eng_storage e') =
      view_ops (map (change_storage_op X (eng_registry e) (eng_migrations e)) (bat_changes b) @
        [SetCursor (bat_scope b) (bat_next_cursor b), SetScopeDigest (bat_scope b) (digest_to_hex d)] @
        health_ops cmp rb b h (engine_scope_health e (bat_scope b))) (view (eng_storage e))"
    (is "_ = view_ops ?ops _")
    using apply_changes_outcomes [OF assms] by blast
  have "list_all (scope_op (bat_scope b)) ?ops"
    by (auto simp: health_ops_def Let_def list_all_iff scope_op_row change_op_scope)
  from scope_ops_view [OF this, of "view (eng_storage e)"] show ?thesis
    unfolding after by blast
qed simp

end

text \<open>The same contents but for the queue and its records.\<close>

lemma queue_ops_cursors:
  "list_all queue_op ops \<Longrightarrow> sv_cursors (view_ops ops w) = sv_cursors w \<and> sv_digests (view_ops ops w) = sv_digests w"
  by (induction ops arbitrary: w) (auto simp: queue_op_view)

lemma results_known:
  "known (view_ops (rs_ops (resolve_all g (sv_outbox w) rs)) w) = known w"
proof -
  let ?a = "resolve_all g (sv_outbox w) rs"
  have "fst ` set (rs_resolutions ?a) \<subseteq> ids (sv_outbox w)"
    using resolve_all_ok [of "sv_outbox w" g rs] by (simp add: resolving_ok_def)
  then show ?thesis
    by (auto simp: known_def resolve_all_resolved resolve_all_queue_left ids_def image_Un)
qed

lemma draft_ops_recovered:
  "(\<And>n. target_of g (cmd_name (oe_command x)) = Some n \<Longrightarrow> n = entity) \<Longrightarrow>
   set (sv_recovered (view_ops (draft_ops g x r) w)) \<subseteq> set (sv_recovered w) \<union> {(i, n, p). n = entity}"
  by (auto simp: draft_ops_def split: option.splits)

lemma results_recovered:
  assumes "g = sim_registry entity scope"
  shows "set (sv_recovered (view_ops (rs_ops (resolve_all g q rs)) w)) \<subseteq> set (sv_recovered w) \<union> {(i, n, p). n = entity}"
proof -
  have only: "target_of g m = Some n \<Longrightarrow> n = entity" for m n
    by (simp add: assms sim_registry_lookup split: if_splits)
  have "set (sv_recovered (view_ops (rs_ops (fold (resolve_one g q) rs a)) w)) \<subseteq> set (sv_recovered w) \<union> {(i, n, p). n = entity}"
    if "set (sv_recovered (view_ops (rs_ops a) w)) \<subseteq> set (sv_recovered w) \<union> {(i, n, p). n = entity}" for a
    using that
  proof (induction rs arbitrary: a)
    case (Cons r rs)
    have "set (sv_recovered (view_ops (rs_ops (resolve_one g q r a)) w)) \<subseteq> set (sv_recovered w) \<union> {(i, n, p). n = entity}"
    proof (cases "find (\<lambda>x. oe_id x = res_id r) q")
      case (Some x)
      then show ?thesis
        using Cons.prems draft_ops_recovered [of g x entity r "view_ops (rs_ops a) w"] only
        by (auto simp: resolve_one_def)
    qed (use Cons.prems in \<open>simp add: resolve_one_def\<close>)
    with Cons.IH show ?case by simp
  qed simp
  then show ?thesis
    by (simp add: resolve_all_def resolving_start_def)
qed

section \<open>Command ids\<close>

lemma sim_command_id_bytes:
  "sim_command_id d n = CommandId ([0x01, 0x91, 0, 0, 0, 0, 0x70, 0, 0, 0, 0, d] @ be_bytes 4 n)"
  by (simp add: sim_command_id_def command_id_from_bytes_def or_unreachable_def be_bytes_def upt_rec
      flip: drop_bit_eq_div)

lemma sim_command_id_eq: "sim_command_id d n = sim_command_id d' n' \<longleftrightarrow> d = d' \<and> n = n'"
proof
  assume "sim_command_id d n = sim_command_id d' n'"
  then have "d = d'" "be_bytes 4 n = be_bytes 4 n'"
    by (simp_all add: sim_command_id_bytes)
  moreover from this(2) have "n = n'"
    by (rule be_bytes_inj) simp
  ultimately show "d = d' \<and> n = n'" by blast
qed simp

section \<open>A sound device\<close>

definition authored_ids :: "nat \<Rightarrow> u32 \<Rightarrow> command_id set" where
  "authored_ids i n = sim_command_id (of_nat i) ` {k. k < n}"

definition device_ok :: "externs \<Rightarrow> entity_name \<Rightarrow> scope_id \<Rightarrow> invariants \<Rightarrow> nat \<Rightarrow> u32 \<Rightarrow> db engine \<Rightarrow> bool" where
  "device_ok X entity scope v i n e \<longleftrightarrow>
     device_reachable X entity scope (own_change entity) e \<and>
     known (db_view (eng_storage e)) \<subseteq> authored_ids i n \<and>
     (\<forall>(_, x, _) \<in> set (sv_recovered (db_view (eng_storage e))). x = entity) \<and>
     watched v i scope (db_view (eng_storage e))"

lemma device_ok_inv:
  assumes "device_ok X entity scope v i n e"
  shows "device_inv entity scope e" and "bt_wf (db_rows (eng_storage e))"
  using assms device_reachable_inv device_reachable_rows by (auto simp: device_ok_def)

text \<open>A step of the device that leaves the contents alone.\<close>

lemma device_ok_same:
  assumes "device_ok X entity scope v i n e" and "device_step X entity scope (own_change entity) e e'"
    and "db_view (eng_storage e') = db_view (eng_storage e)"
  shows "device_ok X entity scope v i n e'"
  using assms stepped by (auto simp: device_ok_def)

lemma device_ok_armed:
  "device_ok X entity scope v i n e \<Longrightarrow>
   device_ok X entity scope v i n (e\<lparr>eng_storage := (eng_storage e)\<lparr>db_verdict := x\<rparr>\<rparr>)"
  by (erule device_ok_same [OF _ armed]) simp

lemma device_ok_restart:
  assumes "device_ok X entity scope v i n e"
  shows "device_ok X entity scope v i n (restart_device entity scope (eng_storage e))"
  by (rule device_ok_same [OF assms restarted]) (simp add: restart_fields)

lemma device_ok_push:
  assumes "device_ok X entity scope v i n e" and "build_push X z sim_storage protocol budget e = (r, e')"
  shows "device_ok X entity scope v i n e'" and "eng_storage e' = eng_storage e"
proof -
  show "eng_storage e' = eng_storage e"
    using sim.build_push_storage [OF assms(2)] .
  then show "device_ok X entity scope v i n e'"
    using device_ok_same [OF assms(1) pushed [OF assms(2)]] by simp
qed

lemma device_ok_reload:
  assumes "device_ok X entity scope v i n e" and "reload_scope sim_storage scope e = (r, e')"
  shows "device_ok X entity scope v i n e'" and "eng_storage e' = eng_storage e"
proof -
  show "eng_storage e' = eng_storage e"
    using sim.reload_storage [OF assms(2)] .
  then show "device_ok X entity scope v i n e'"
    using device_ok_same [OF assms(1) reloaded [OF assms(2)]] by simp
qed

lemma device_ok_apply:
  assumes ok: "device_ok X entity scope v i n e" and sc: "bat_scope b = scope"
    and own: "list_all (own_change entity) (bat_changes b)"
    and run: "apply_batch X sim_storage b e = (r, e')"
    and cur: "\<And>c. sv_cursors (db_view (eng_storage e)) scope = Some c \<Longrightarrow>
      \<exists>c'. sv_cursors (db_view (eng_storage e')) scope = Some c' \<and> cursor_get c \<le> cursor_get c'"
  shows "device_ok X entity scope v i n e'"
proof -
  have coh: "coherent db_view e"
    using device_ok_inv(1) [OF ok] by (simp add: device_inv_def)
  have ap: "apply_changes X sim_storage b (\<not> bat_has_more b) False e = (r, e')"
    using run by (simp add: apply_batch_def)
  note side = sim.apply_changes_write_side [OF coh ap]
  then have "known (db_view (eng_storage e')) = known (db_view (eng_storage e))"
    by (simp add: known_def)
  moreover from this have "advances scope (db_view (eng_storage e)) (db_view (eng_storage e'))"
    using cur side by (simp add: advances_def)
  moreover have "device_reachable X entity scope (own_change entity) e'"
    using ok stepped [OF _ pulled [OF sc own run]] by (simp add: device_ok_def)
  ultimately show ?thesis
    using ok side watched_advances by (auto simp: device_ok_def)
qed

lemma device_ok_results:
  assumes ok: "device_ok X entity scope v i n e" and run: "apply_results sim_storage response e = (r, e')"
  shows "device_ok X entity scope v i n e'"
    and "sv_rows (db_view (eng_storage e')) = sv_rows (db_view (eng_storage e))"
    and "sv_cursors (db_view (eng_storage e')) = sv_cursors (db_view (eng_storage e))"
proof -
  let ?w = "db_view (eng_storage e)" and ?w' = "db_view (eng_storage e')"
  have coh: "coherent db_view e" and reg: "eng_registry e = sim_registry entity scope"
    using device_ok_inv(1) [OF ok] by (simp_all add: device_inv_def)
  let ?ops = "rs_ops (resolve_all (eng_registry e) (sv_outbox ?w) (psr_results response))"
  have view: "?w' = ?w \<or> ?w' = view_ops ?ops ?w"
    using sim.results_view [OF coh run] .
  show reads: "sv_rows ?w' = sv_rows ?w" "sv_cursors ?w' = sv_cursors ?w"
    using view queue_ops_view [OF resolve_all_queue] queue_ops_cursors [OF resolve_all_queue] by metis+
  have "known ?w' = known ?w"
    using view results_known by metis
  moreover have "advances scope ?w ?w'"
    using view outcome_ops [of ?w ?ops] reads unfolding advances_def by auto
  moreover have "set (sv_recovered ?w') \<subseteq> set (sv_recovered ?w) \<union> {(i, n, p). n = entity}"
    using view results_recovered [OF reg, of "sv_outbox ?w" "psr_results response" ?w] by (elim disjE) simp_all
  moreover have "device_reachable X entity scope (own_change entity) e'"
    using ok stepped [OF _ answered [OF run]] by (simp add: device_ok_def)
  ultimately show "device_ok X entity scope v i n e'"
    using ok watched_advances unfolding device_ok_def by fastforce
qed

text \<open>A command with the next id is new to the device.\<close>

lemma device_ok_enqueue:
  assumes ok: "device_ok X entity scope v i n e" and run: "enqueue sim_storage entry e = (r, e')"
    and fresh: "oe_id entry \<notin> authored_ids i n" and grown: "insert (oe_id entry) (authored_ids i n) \<subseteq> authored_ids i n'"
  shows "device_ok X entity scope v i n' e'"
    and "sv_rows (db_view (eng_storage e')) = sv_rows (db_view (eng_storage e))"
    and "sv_cursors (db_view (eng_storage e')) = sv_cursors (db_view (eng_storage e))"
proof -
  let ?w = "db_view (eng_storage e)" and ?w' = "db_view (eng_storage e')"
  let ?op = "EnqueueCommand (oe_command entry) (oe_schema_version entry)"
  have view: "?w' = ?w \<or> ?w' = view_op ?op ?w"
    using sim.enqueue_view [OF run] .
  show reads: "sv_rows ?w' = sv_rows ?w" "sv_cursors ?w' = sv_cursors ?w"
    using view by auto
  have "known ?w' \<subseteq> insert (oe_id entry) (known ?w)"
    using view by (auto simp: known_def ids_def oe_id_def outbox_entry_new_def)
  moreover have "advances scope ?w ?w'"
    using view outcome_op [of ?w ?op] reads unfolding advances_def by auto
  moreover have "sv_recovered ?w' = sv_recovered ?w"
    using view by auto
  moreover have "oe_id entry \<notin> fst ` set (db_resolved (eng_storage e))"
    using ok fresh by (auto simp: device_ok_def known_def db_view_def)
  then have "device_reachable X entity scope (own_change entity) e'"
    using ok stepped [OF _ authored [OF _ run]] by (simp add: device_ok_def)
  ultimately show "device_ok X entity scope v i n' e'"
    using ok grown watched_advances unfolding device_ok_def by (metis insert_mono order_trans)
qed

end
