(* ===== verification/Sim_Answers.thy ===== *)
theory Sim_Answers
  imports Sim_Server_Facts
begin

text \<open>
  What the simulated server answers and remembers. Every answer is recorded under the command's id
  with the checksum of its body, so a command submitted again is answered from the record and nothing
  else moves. \<open>server_reachable\<close> are the states the simulator takes its server through.
\<close>

section \<open>The record of answers\<close>

definition body_checksum :: "externs \<Rightarrow> command \<Rightarrow> hex_string \<Rightarrow> bool" where
  "body_checksum X c h \<longleftrightarrow> payload_checksum X payload_to_value (cmd_payload c) = Inr h"

definition remembers :: "externs \<Rightarrow> sim_server \<Rightarrow> command \<Rightarrow> command_result \<Rightarrow> bool" where
  "remembers X s c res \<longleftrightarrow>
     (\<exists>e. bt_get (srv_dedupe s) (cmd_id c) = Some e \<and> sde_result e = res \<and> body_checksum X c (sde_checksum e))"

definition dedupe_ok :: "sim_server \<Rightarrow> bool" where
  "dedupe_ok s \<longleftrightarrow> (\<forall>i e. bt_get (srv_dedupe s) i = Some e \<longrightarrow> res_id (sde_result e) = i)"

lemma body_checksum_total:
  assumes "encodes_all X" obtains h where "body_checksum X c h"
proof -
  obtain bs where "json_to_vec X (payload_to_value (cmd_payload c)) = Inr bs"
    using assms unfolding encodes_all_def is_ok_iff by blast
  then show ?thesis
    using that by (simp add: body_checksum_def payload_checksum_def canonical_to_vec_def map_err_def map_ok_def)
qed

lemma record_answer_dedupe [simp]:
  "bt_get (srv_dedupe (record_answer i h res s)) = (bt_get (srv_dedupe s))(i \<mapsto> \<lparr>sde_checksum = h, sde_result = res\<rparr>)"
  by (simp add: record_answer_def fun_eq_iff)

lemma srv_write_dedupe [simp]: "srv_dedupe (srv_write X sc entity i s) = srv_dedupe s"
  by (simp add: srv_write_def take_seq_def write_row_def push_entry_def set_row_def add_to_index_def
      add_to_history_def Let_def)

lemma roll_verdict_memory:
  "roll_verdict X entity sc c (s, r) = (res, s', r') \<Longrightarrow> res_id res = cmd_id c \<and> srv_dedupe s' = srv_dedupe s"
  by (auto simp: roll_verdict_def srv_append_write rejected_with_def case_prod_beta Let_def split: if_splits)

lemma decide_known:
  "body_checksum X c h \<Longrightarrow>
   decide X c rcd =
     (case rcd of
        None \<Rightarrow> Inr Fresh
      | Some q \<Rightarrow> if rcd_checksum q \<noteq> hex_str h then Inr (MutatedBody (rcd_checksum q) (hex_str h))
                  else Inr (Replay (rcd_result q)))"
  unfolding decide_def body_checksum_def by (simp only: sum.case)

text \<open>A command that is remembered is answered from the record.\<close>

lemma apply_command_again: "remembers X s c res \<Longrightarrow> apply_command X c (s, r) = (res, s, r)"
proof -
  assume "remembers X s c res"
  then obtain e where "bt_get (srv_dedupe s) (cmd_id c) = Some e" "sde_result e = res"
    "body_checksum X c (sde_checksum e)"
    by (auto simp: remembers_def)
  then have "srv_decide X c s = Inr (Replay res)"
    by (simp add: srv_decide_def decide_known)
  then show ?thesis
    by (simp add: apply_command_def Let_def)
qed

lemma apply_command_memory:
  assumes enc: "encodes_all X" and ok: "dedupe_ok s"
    and ac: "apply_command X c (s, r) = (res, s', r')"
  shows "remembers X s' c res" and "dedupe_ok s'" and "res_id res = cmd_id c"
    and "i \<noteq> cmd_id c \<Longrightarrow> bt_get (srv_dedupe s') i = bt_get (srv_dedupe s) i"
proof -
  obtain h where h: "body_checksum X c h"
    using enc by (rule body_checksum_total)
  have "remembers X s' c res \<and> dedupe_ok s' \<and> res_id res = cmd_id c \<and>
      (\<forall>i. i \<noteq> cmd_id c \<longrightarrow> bt_get (srv_dedupe s') i = bt_get (srv_dedupe s) i)"
  proof (cases "remembers X s c (sde_result (the (bt_get (srv_dedupe s) (cmd_id c))))")
    case True
    then obtain e where e: "bt_get (srv_dedupe s) (cmd_id c) = Some e" "remembers X s c (sde_result e)"
      by (auto simp: remembers_def)
    have "res = sde_result e" "s' = s"
      using apply_command_again [OF e(2), of r] ac by simp_all
    moreover have "res_id (sde_result e) = cmd_id c"
      using ok e(1) unfolding dedupe_ok_def by blast
    ultimately show ?thesis
      using e(2) ok by simp
  next
    case False
    have rec: "remembers X (record_answer (cmd_id c) h q s1) c q \<and> dedupe_ok (record_answer (cmd_id c) h q s1) \<and>
        (\<forall>i. i \<noteq> cmd_id c \<longrightarrow> bt_get (srv_dedupe (record_answer (cmd_id c) h q s1)) i = bt_get (srv_dedupe s) i)"
      if "srv_dedupe s1 = srv_dedupe s" "res_id q = cmd_id c" for s1 q
      using that ok h by (simp add: remembers_def dedupe_ok_def)
    consider "bt_get (srv_dedupe s) (cmd_id c) = None"
      | e where "bt_get (srv_dedupe s) (cmd_id c) = Some e" "hex_str (sde_checksum e) \<noteq> hex_str h"
      using False h by (cases "bt_get (srv_dedupe s) (cmd_id c)")
        (auto simp: remembers_def body_checksum_def dest: hex_string.expand)
    then show ?thesis
    proof cases
      case 1
      then have fresh: "srv_decide X c s = Inr Fresh"
        using h by (simp add: srv_decide_def decide_known)
      have sum_hex: "payload_checksum X payload_to_value (cmd_payload c) = Inr h"
        using h by (simp add: body_checksum_def)
      show ?thesis
      proof (cases "srv_command_targets s (command_name_str (cmd_name c))")
        case None
        then have "res = rejected_with (cmd_id c) ''Unknown command.''"
          "s' = record_answer (cmd_id c) h res s"
          using ac by (auto simp: apply_command_def fresh sum_hex Let_def)
        then show ?thesis
          using rec [of s res] by (simp add: rejected_with_def)
      next
        case (Some t)
        obtain q s1 r1 where roll: "roll_verdict X (fst t) (snd t) c (s, r) = (q, s1, r1)"
          by (metis prod_cases3)
        then have "res = q" "s' = record_answer (cmd_id c) h q s1"
          using ac Some by (auto simp: apply_command_def fresh sum_hex Let_def case_prod_beta)
        then show ?thesis
          using rec [of s1 q] roll_verdict_memory [OF roll] by simp
      qed
    next
      case 2
      then have mutated: "srv_decide X c s = Inr (MutatedBody (hex_str (sde_checksum e)) (hex_str h))"
        using h by (simp add: srv_decide_def decide_known)
      have sum_hex: "payload_checksum X payload_to_value (cmd_payload c) = Inr h"
        using h by (simp add: body_checksum_def)
      have "res_id res = cmd_id c" "s' = record_answer (cmd_id c) h res s"
        using ac by (auto simp: apply_command_def mutated sum_hex Let_def)
      then show ?thesis
        using rec [of s res] by simp
    qed
  qed
  then show "remembers X s' c res" "dedupe_ok s'" "res_id res = cmd_id c"
    "i \<noteq> cmd_id c \<Longrightarrow> bt_get (srv_dedupe s') i = bt_get (srv_dedupe s) i"
    by blast+
qed

lemma remembers_other: "bt_get (srv_dedupe s') (cmd_id c) = bt_get (srv_dedupe s) (cmd_id c) \<Longrightarrow>
  remembers X s' c res = remembers X s c res"
  by (simp add: remembers_def)

lemma apply_commands_memory:
  assumes "encodes_all X"
  shows "dedupe_ok s \<Longrightarrow> distinct (map cmd_id cs) \<Longrightarrow> apply_commands X cs (s, r) = (out, s', r') \<Longrightarrow>
    list_all2 (remembers X s') cs out \<and> dedupe_ok s' \<and> map res_id out = map cmd_id cs \<and>
    (\<forall>i. i \<notin> cmd_id ` set cs \<longrightarrow> bt_get (srv_dedupe s') i = bt_get (srv_dedupe s) i)"
proof (induction cs arbitrary: s r out)
  case (Cons c cs)
  obtain res s1 r1 where one: "apply_command X c (s, r) = (res, s1, r1)"
    by (metis prod_cases3)
  obtain rest where rest: "apply_commands X cs (s1, r1) = (rest, s', r')" "out = res # rest"
    using Cons.prems(3) one by (auto split: prod.splits)
  note here = apply_command_memory [OF assms Cons.prems(1) one]
  have later: "list_all2 (remembers X s') cs rest \<and> dedupe_ok s' \<and> map res_id rest = map cmd_id cs \<and>
      (\<forall>i. i \<notin> cmd_id ` set cs \<longrightarrow> bt_get (srv_dedupe s') i = bt_get (srv_dedupe s1) i)"
    using Cons.IH [OF here(2) _ rest(1)] Cons.prems(2) by simp
  moreover have "cmd_id c \<notin> cmd_id ` set cs"
    using Cons.prems(2) by simp
  ultimately have "remembers X s' c res"
    using here(1) remembers_other by blast
  then show ?case
    using later here(3,4) rest(2) by simp
qed (auto simp: list_all2_Nil)

lemma apply_commands_again:
  "list_all2 (remembers X s) cs out \<Longrightarrow> apply_commands X cs (s, r) = (out, s, r)"
  by (induction rule: list_all2_induct) (simp_all add: apply_command_again)

section \<open>The states of the simulated server\<close>

inductive server_reachable :: "externs \<Rightarrow> entity_name \<Rightarrow> scope_id \<Rightarrow> sim_server \<Rightarrow> bool"
  for X entity scope where
  started: "server_reachable X entity scope (srv_register_command name entity scope server_new)"
| committed: "server_reachable X entity scope s \<Longrightarrow> server_reachable X entity scope (advance_commits s)"
| holding: "server_reachable X entity scope s \<Longrightarrow> server_reachable X entity scope (hold_next_write delay s)"
| restarted: "server_reachable X entity scope s \<Longrightarrow> server_reachable X entity scope (restart_cold s)"
| changed: "server_reachable X entity scope s \<Longrightarrow> unat (srv_next_seq s) < 2 ^ 63 \<Longrightarrow>
    server_reachable X entity scope (fst (external_change X scope entity (s, r)))"
| pushed: "server_reachable X entity scope s \<Longrightarrow>
    unat (srv_next_seq s) + min accepted (length (psq_commands request)) \<le> 2 ^ 63 \<Longrightarrow>
    push_prefix X request accepted (s, r) = (response, s', r') \<Longrightarrow> server_reachable X entity scope s'"

definition srv_ok :: "entity_name \<Rightarrow> sim_server \<Rightarrow> bool" where
  "srv_ok entity s \<longleftrightarrow>
     srv_wf s \<and> targets_only entity s \<and> srv_guard s \<and> unat (srv_next_seq s) \<le> 2 ^ 63 \<and>
     (\<forall>sc. list_all (plain_upsert entity) (scope_changes s sc))"

lemma srv_ok_evolves:
  assumes "srv_ok entity s" and "srv_evolves entity k s s'" and "unat (srv_next_seq s) + k \<le> 2 ^ 63"
  shows "srv_ok entity s'"
proof -
  have "srv_wf s'" "srv_guard s'" "unat (srv_next_seq s') \<le> 2 ^ 63" "targets_only entity s'"
    using assms by (simp_all add: srv_ok_def srv_evolves_def srv_grows_def targets_only_def)
  moreover have "plain_upsert entity c" if "c \<in> set (scope_changes s' sc)" for c sc
    using assms(1,2) that unfolding srv_ok_def srv_evolves_def list_all_iff by blast
  ultimately show ?thesis
    by (simp add: srv_ok_def list_all_iff)
qed

lemma srv_ok_wf: "srv_ok entity s \<Longrightarrow> srv_wf s" "srv_ok entity s \<Longrightarrow> unat (srv_next_seq s) \<le> 2 ^ 63"
  by (simp_all add: srv_ok_def)

lemma registered_evolves: "srv_ok entity (srv_register_command name entity scope server_new)"
proof -
  let ?s = "srv_register_command name entity scope server_new"
  have "srv_wf ?s"
    by (simp add: srv_wf_def log_ok_def index_ok_def history_ok_def server_new_def index_of_def
        srv_register_command_def history_of_def scope_changes_def scope_log_def ascending_def
        history_for_def fun_eq_iff)
  then show ?thesis
    by (simp add: srv_ok_def targets_only_def srv_register_command_def server_new_def scope_changes_def
        scope_log_def index_of_def)
qed

lemma push_prefix_evolves:
  assumes "push_prefix X request accepted (s, r) = (response, s', r')"
    and "srv_ok entity s" and "unat (srv_next_seq s) + min accepted (length (psq_commands request)) \<le> 2 ^ 63"
  shows "srv_evolves entity (min accepted (length (psq_commands request))) s s'"
  using apply_commands_evolves [of X "take accepted (psq_commands request)" s r] assms
  by (auto simp: push_prefix_def srv_ok_def min.commute split: prod.splits)

lemma server_reachable_ok: "server_reachable X entity scope s \<Longrightarrow> srv_ok entity s"
proof (induction rule: server_reachable.induct)
  case (started name)
  then show ?case
    by (rule registered_evolves)
next
  case (committed s)
  show ?case
    by (rule srv_ok_evolves [OF committed.IH advance_commits_evolves [OF srv_ok_wf(1) [OF committed.IH], of entity 0]])
      (use srv_ok_wf(2) [OF committed.IH] in simp)
next
  case (holding s delay)
  show ?case
    by (rule srv_ok_evolves [OF holding.IH hold_next_evolves [OF srv_ok_wf(1) [OF holding.IH], of entity 0]])
      (use srv_ok_wf(2) [OF holding.IH] in simp)
next
  case (restarted s)
  show ?case
    by (rule srv_ok_evolves [OF restarted.IH restart_cold_evolves [OF srv_ok_wf(1) [OF restarted.IH], of entity 0]])
      (use srv_ok_wf(2) [OF restarted.IH] in simp)
next
  case (changed s r)
  show ?case
    by (rule srv_ok_evolves [OF changed.IH external_change_evolves [OF srv_ok_wf(1) [OF changed.IH] changed.hyps(2)]])
      (use changed.hyps(2) in linarith)
next
  case (pushed s accepted request r response s' r')
  then show ?case
    using srv_ok_evolves [OF pushed.IH push_prefix_evolves [OF pushed.hyps(3) pushed.IH pushed.hyps(2)]
        pushed.hyps(2)] by blast
qed

end
