(* ===== verification/Props_Sim.thy ===== *)
theory Props_Sim
  imports Sim_Device Sim_Answers Samples
begin

text \<open>
  Properties of the simulator: the generator, the load of its server, the simulated server, and the
  devices of a simulated world.
\<close>

section \<open>Chance and load\<close>

text \<open>C26. Drawing below a bound returns and is unbiased. The rejection loop of \<open>below\<close> ends for every
  bound and every state of the generator, within the period of the generator; it returns the first
  output that reaches the threshold, reduced, and leaves the generator just after it; and of the
  outputs it accepts, every result below the bound is reached by equally many.\<close>

theorem below_returns_and_is_unbiased:
  assumes "n \<noteq> 0"
  shows "(\<exists>k < 2 ^ 64.
      (\<forall>j < k. rng_output ((rng_advance ^^ j) (rng_state r)) < (- n) mod n) \<and>
      (- n) mod n \<le> rng_output ((rng_advance ^^ k) (rng_state r)) \<and>
      below n r = (rng_output ((rng_advance ^^ k) (rng_state r)) mod n,
                   r\<lparr>rng_state := (rng_advance ^^ Suc k) (rng_state r)\<rparr>)) \<and>
    fst (below n r) < n \<and>
    (\<forall>i < n. card {v :: u32. (- n) mod n \<le> v \<and> v mod n = i} = 2 ^ 32 div unat n)"
proof -
  let ?k = "rejections ((- n) mod n) (rng_state r)"
  have "\<exists>k < 2 ^ 64.
      (\<forall>j < k. rng_output ((rng_advance ^^ j) (rng_state r)) < (- n) mod n) \<and>
      (- n) mod n \<le> rng_output ((rng_advance ^^ k) (rng_state r)) \<and>
      below n r = (rng_output ((rng_advance ^^ k) (rng_state r)) mod n,
                   r\<lparr>rng_state := (rng_advance ^^ Suc k) (rng_state r)\<rparr>)"
    using assms rejections_bound rejections_least rejections_accepts
    by (intro exI [of _ ?k]) (auto simp: below_def below_loop_result simp del: funpow.simps)
  then show ?thesis
    using below_less [OF assms] accepted_unbiased by blast
qed

theorem below_returns_and_is_unbiased_witness:
  "fst (below 100 (rng_new 7)) < 100 \<and> card {v :: u32. (- 100) mod 100 \<le> v \<and> v mod 100 = 3} = 42949672"
  using below_returns_and_is_unbiased [of 100 "rng_new 7"] by simp

text \<open>C27. Load is bounded and passes. In every state of the server's load the byte budget lies between
  the floor and the full budget, a push that offers commands has at least one of them taken and never
  more than it offers, and after at most thirty-one ticks without a new episode nothing is shed.\<close>

theorem load_is_bounded_and_passes:
  assumes "pressure_reachable p"
  shows "MIN_BUDGET_BYTES \<le> pressure_budget p \<and> pressure_budget p \<le> SIM_BUDGET_BYTES \<and>
    (offered \<noteq> 0 \<longrightarrow> 1 \<le> fst (accept_count offered p) \<and> fst (accept_count offered p) \<le> offered) \<and>
    (\<forall>n \<ge> 31. \<not> is_shedding ((pressure_tick ^^ n) p) \<and>
      pressure_budget ((pressure_tick ^^ n) p) = SIM_BUDGET_BYTES)"
proof -
  have wf: "pressure_wf p"
    using assms by (rule pressure_reachable_wf)
  have "\<forall>n \<ge> 31. \<not> is_shedding ((pressure_tick ^^ n) p) \<and>
      pressure_budget ((pressure_tick ^^ n) p) = SIM_BUDGET_BYTES"
  proof (intro allI impI)
    fix n :: nat
    assume "31 \<le> n"
    then obtain m where m: "n = Suc m" "30 \<le> m"
      by (cases n) auto
    have "case prs_load p of NormalLoad \<Rightarrow> True | Shedding k \<Rightarrow> unat k \<le> m"
      using wf m(2) by (auto simp: pressure_wf_def word_le_nat_alt split: load.splits)
    then have "prs_load ((pressure_tick ^^ n) p) = NormalLoad"
      unfolding m(1) by (rule ticks_end_load)
    then show "\<not> is_shedding ((pressure_tick ^^ n) p) \<and>
        pressure_budget ((pressure_tick ^^ n) p) = SIM_BUDGET_BYTES"
      by (simp add: is_shedding_def pressure_budget_def)
  qed
  then show ?thesis
    using wf by (simp add: budget_bounds accept_count_bounds del: One_nat_def)
qed

theorem load_is_bounded_and_passes_witness:
  "\<not> is_shedding ((pressure_tick ^^ 31) (fst (overload pressure_new (rng_new 7))))"
  using load_is_bounded_and_passes
    [OF pressure_reachable.intros(2) [OF pressure_reachable.intros(1)], of "rng_new 7"] by blast

section \<open>The simulated server\<close>

text \<open>C24. A guarded pull hands out the next stretch of the scope. On the servers the simulated world has,
  those reached from the empty one by registering, writing, pushing and settling writes, with the guard
  on commit order never switched off and no external deletion (neither is used by a run; without the
  guard a pull serves past an uncommitted write, and after a deletion the deleted row is still
  expected): at the position of a client within the
  committed part of a scope, the batch is the following changes, none of them behind an uncommitted
  write, at least one whenever there is one; its cursor is the position they end at; and the rows the
  server then expects of that client are those the changes up to there leave.\<close>

theorem guarded_pull_serves_the_next_stretch:
  assumes "server_reachable X entity scope s" and "encodes_all X" and "p \<le> visible_count s sc"
    and "0 < row_limit"
  shows "\<exists>n b. b = pull_scope X s row_limit budget
        \<lparr>sc_scope = sc, sc_cursor = Cursor (pos_seq (scope_changes s sc) p)\<rparr> \<and>
      bat_changes b = take n (drop p (scope_changes s sc)) \<and> p + n \<le> visible_count s sc \<and>
      (n = 0 \<longleftrightarrow> p = visible_count s sc) \<and>
      bat_next_cursor b = Cursor (pos_seq (scope_changes s sc) (p + n)) \<and>
      (\<forall>k v. (fst k, snd k, v) \<in> set (rows_at s sc (cursor_get (bat_next_cursor b))) \<longleftrightarrow>
         latest_version (take (p + n) (scope_changes s sc)) k = Some v)"
proof -
  have ok: "srv_wf s" "srv_guard s" "unat (srv_next_seq s) \<le> 2 ^ 63"
    using server_reachable_ok [OF assms(1)] by (simp_all add: srv_ok_def)
  let ?b = "pull_scope X s row_limit budget
      \<lparr>sc_scope = sc, sc_cursor = Cursor (pos_seq (scope_changes s sc) p)\<rparr>"
  obtain n where n: "bat_changes ?b = take n (drop p (scope_changes s sc))" "p + n \<le> visible_count s sc"
    "n = 0 \<longleftrightarrow> p = visible_count s sc" "bat_next_cursor ?b = Cursor (pos_seq (scope_changes s sc) (p + n))"
    using pull_scope_position [OF ok(1,2) assms(2,3) ok(3) assms(4)] by blast
  have "p + n \<le> length (scope_changes s sc)"
    using n(2) visible_count_le [of s sc] by linarith
  then have "(fst k, snd k, v) \<in> set (rows_at s sc (pos_seq (scope_changes s sc) (p + n))) \<longleftrightarrow>
      latest_version (take (p + n) (scope_changes s sc)) k = Some v" for k v
    using rows_at_position [OF ok(1), of "p + n" sc "fst k" "snd k" v] by simp
  with n show ?thesis
    by (intro exI [of _ n] exI [of _ ?b]) simp
qed

definition sample_sim_server :: sim_server where
  "sample_sim_server =
     fst (external_change sample_externs pupil lesson
       (srv_register_command ''submit_reflection'' lesson pupil server_new, rng_new 7))"

lemma sample_server_reachable: "server_reachable sample_externs lesson pupil sample_sim_server"
  unfolding sample_sim_server_def
  by (rule server_reachable.changed [OF server_reachable.started])
    (simp add: srv_register_command_def server_new_def)

theorem guarded_pull_serves_the_next_stretch_witness:
  "\<exists>n. bat_changes (pull_scope sample_externs sample_sim_server 4 2048 \<lparr>sc_scope = pupil, sc_cursor = Cursor 0\<rparr>) =
     take n (scope_changes sample_sim_server pupil) \<and> n \<le> visible_count sample_sim_server pupil"
  using guarded_pull_serves_the_next_stretch
    [OF sample_server_reachable, of 0 pupil 4 2048]
  by (auto simp: encodes_all_def sample_externs_def is_ok_def pos_seq_def)

text \<open>C25. Pushing again changes nothing. For a push whose taken commands have distinct ids, on a server that
  keeps every recorded answer under the id of its command, with an encoder that encodes (one id pushed
  with two bodies replaces the record, see \<open>refusal_replaces_the_record\<close>): a push answers exactly the commands the server takes, one result
  each in their order; every answer is recorded; and the same push sent again, whatever was drawn in
  between, gets the same answers and leaves log, record and generator as they are.\<close>

theorem simulated_push_is_idempotent:
  assumes "encodes_all X" and "dedupe_ok s" and "distinct (map cmd_id (take accepted (psq_commands request)))"
    and "push_prefix X request accepted (s, r) = (response, s', r')"
  shows "push_prefix X request accepted (s', r'') = (response, s', r'') \<and>
    map res_id (psr_results response) = map cmd_id (take accepted (psq_commands request)) \<and>
    (has_answered s' i \<longleftrightarrow> has_answered s i \<or> i \<in> cmd_id ` set (take accepted (psq_commands request)))"
proof -
  let ?cs = "take accepted (psq_commands request)"
  obtain out where run: "apply_commands X ?cs (s, r) = (out, s', r')"
    and resp: "response = \<lparr>psr_protocol = psq_protocol request, psr_results = out\<rparr>"
    using assms(4) by (auto simp: push_prefix_def split: prod.splits)
  note facts = apply_commands_memory [OF assms(1-3) run]
  have again: "apply_commands X ?cs (s', r'') = (out, s', r'')"
    using facts by (intro apply_commands_again) simp
  have "push_prefix X request accepted (s', r'') = (response, s', r'')"
    by (simp add: push_prefix_def again resp)
  moreover have "map res_id (psr_results response) = map cmd_id ?cs"
    using facts by (simp add: resp)
  moreover have "has_answered s' i \<longleftrightarrow> has_answered s i \<or> i \<in> cmd_id ` set ?cs"
  proof (cases "i \<in> cmd_id ` set ?cs")
    case True
    then obtain c where "c \<in> set ?cs" "i = cmd_id c"
      by blast
    then obtain res where "remembers X s' c res"
      using facts by (metis in_set_conv_nth list_all2_conv_all_nth)
    with True \<open>i = cmd_id c\<close> show ?thesis
      by (auto simp: has_answered_def remembers_def)
  next
    case False
    with facts show ?thesis
      by (simp add: has_answered_def)
  qed
  ultimately show ?thesis by blast
qed

definition sample_sim_push :: push_request where
  "sample_sim_push = \<lparr>psq_protocol = ProtocolVersion 1, psq_commands = [sample_command 1, sample_command 2]\<rparr>"

lemma sample_server_dedupe: "dedupe_ok sample_sim_server"
  by (simp add: dedupe_ok_def sample_sim_server_def external_change_write srv_register_command_def server_new_def)

theorem simulated_push_is_idempotent_witness:
  "\<exists>response s'. fst (push_prefix sample_externs sample_sim_push 2 (s', rng_new 9)) = response \<and>
     map res_id (psr_results response) = [sample_id 1, sample_id 2] \<and> has_answered s' (sample_id 2)"
proof -
  obtain response s' r' where run:
    "push_prefix sample_externs sample_sim_push 2 (sample_sim_server, rng_new 3) = (response, s', r')"
    by (metis prod_cases3)
  have "encodes_all sample_externs" "distinct (map cmd_id (take 2 (psq_commands sample_sim_push)))"
    by (simp_all add: encodes_all_def sample_externs_def is_ok_def sample_sim_push_def sample_command_def
        sample_id_def)
  from simulated_push_is_idempotent [OF this(1) sample_server_dedupe this(2) run, of "rng_new 9" "sample_id 2"]
  show ?thesis
    by (intro exI [of _ response] exI [of _ s'])
      (simp add: sample_sim_push_def sample_command_def)
qed

text \<open>A refused resubmission replaces the record. After a command was answered, one with the same id
  and another body is refused, as it must be, but the refusal is recorded over the first answer: the
  original command sent again is refused too.\<close>

theorem refusal_replaces_the_record:
  assumes "remembers X s c res" and "cmd_id c' = cmd_id c"
    and "body_checksum X c h" and "body_checksum X c' h'" and "h' \<noteq> h"
    and "apply_command X c' (s, r) = (res', s', r')"
  shows "res_status res' = Rejected \<and> remembers X s' c' res' \<and>
    (\<exists>res2 s2. apply_command X c (s', r'') = (res2, s2, r'') \<and>
       res_status res2 = Rejected \<and> res_reason res2 = Some mutated_reason)"
proof -
  have known: "\<exists>e. bt_get (srv_dedupe s) (cmd_id c) = Some e \<and> sde_checksum e = h"
    using assms(1,3) by (auto simp: remembers_def body_checksum_def)
  have refuse: "apply_command X d (t, q) =
      (\<lparr>res_id = cmd_id d, res_status = Rejected, res_reason = Some mutated_reason, res_server_seq = None\<rparr>,
       record_answer (cmd_id d) k \<lparr>res_id = cmd_id d, res_status = Rejected, res_reason = Some mutated_reason,
         res_server_seq = None\<rparr> t, q)"
    if "bt_get (srv_dedupe t) (cmd_id d) = Some e" "body_checksum X d k" "sde_checksum e \<noteq> k" for d t q k e
  proof -
    have "hex_str (sde_checksum e) \<noteq> hex_str k"
      using that(3) hex_string.expand by blast
    then have "srv_decide X d t = Inr (MutatedBody (hex_str (sde_checksum e)) (hex_str k))"
      using that(1,2) by (simp add: srv_decide_def decide_known)
    moreover have "payload_checksum X payload_to_value (cmd_payload d) = Inr k"
      using that(2) by (simp add: body_checksum_def)
    ultimately show ?thesis
      by (simp add: apply_command_def Let_def)
  qed
  obtain e where e: "bt_get (srv_dedupe s) (cmd_id c') = Some e" "sde_checksum e = h"
    using known assms(2) by auto
  have first: "res' = \<lparr>res_id = cmd_id c', res_status = Rejected, res_reason = Some mutated_reason, res_server_seq = None\<rparr>"
    "s' = record_answer (cmd_id c') h' res' s"
    using assms(6) refuse [OF e(1) assms(4), of r] e(2) assms(5) by auto
  have "bt_get (srv_dedupe s') (cmd_id c) = Some \<lparr>sde_checksum = h', sde_result = res'\<rparr>"
    by (simp add: first(2) assms(2))
  from refuse [OF this assms(3), of r''] assms(5) first assms(4)
  show ?thesis
    by (simp add: remembers_def)
qed

definition other_body :: command where
  "other_body = (sample_command 1)\<lparr>cmd_payload := Payload (JObject [(''body'', JString ''ho'')])\<rparr>"

text \<open>The sample hash with its varying bytes in front, where the payload checksum looks.\<close>

definition checksum_externs :: externs where
  "checksum_externs = sample_externs
     \<lparr>blake3 := (\<lambda>bs. be_bytes 8 (foldl (\<lambda>a b. a * 263 + ucast b + 7) (1 :: u64) bs) @ replicate 24 0)\<rparr>"

lemma checksum_externs_encode: "encodes_all checksum_externs"
  by (simp add: encodes_all_def checksum_externs_def sample_externs_def is_ok_def)

lemma sample_bodies_differ:
  "\<exists>h h'. body_checksum checksum_externs (sample_command 1) h \<and> body_checksum checksum_externs other_body h' \<and> h' \<noteq> h"
proof -
  have sum: "body_checksum checksum_externs c
      (payload_checksum_bytes checksum_externs (as_bytes (json_text (payload_value (cmd_payload c)))))" for c
    by (simp add: body_checksum_def payload_checksum_def canonical_to_vec_def checksum_externs_def
        sample_externs_def map_err_def map_ok_def payload_to_value_def)
  have "payload_checksum_bytes checksum_externs (as_bytes (json_text (payload_value (cmd_payload other_body)))) \<noteq>
      payload_checksum_bytes checksum_externs (as_bytes (json_text (payload_value (cmd_payload (sample_command 1)))))"
    by code_simp
  with sum show ?thesis
    by blast
qed

theorem refusal_replaces_the_record_witness:
  "\<exists>s. res_status (fst (apply_command checksum_externs other_body (s, rng_new 3))) = Rejected \<and>
     res_status (fst (apply_command checksum_externs (sample_command 1)
       (fst (snd (apply_command checksum_externs other_body (s, rng_new 3))), rng_new 3))) = Rejected"
proof -
  obtain res s r where run: "apply_command checksum_externs (sample_command 1) (sample_sim_server, rng_new 3) = (res, s, r)"
    by (metis prod_cases3)
  obtain res' s' r' where again: "apply_command checksum_externs other_body (s, rng_new 3) = (res', s', r')"
    by (metis prod_cases3)
  obtain h h' where h: "body_checksum checksum_externs (sample_command 1) h"
    "body_checksum checksum_externs other_body h'" "h' \<noteq> h"
    using sample_bodies_differ by blast
  have "cmd_id other_body = cmd_id (sample_command 1)"
    by (simp add: other_body_def)
  note refuse = refusal_replaces_the_record
    [OF apply_command_memory(1) [OF checksum_externs_encode sample_server_dedupe run] this h again, of "rng_new 3"]
  from refuse have "res_status (fst (apply_command checksum_externs (sample_command 1) (s', rng_new 3))) = Rejected"
    by fastforce
  with refuse again show ?thesis
    by (intro exI [of _ s]) simp
qed

text \<open>A deleted row stays in the history. \<open>external_delete\<close> takes the row out of the live set and
  writes a tombstone, and records a version for the row as a write would: the row is still among those
  the server expects of a client that has applied the tombstone, at the version of the tombstone.\<close>

theorem deleted_row_is_still_expected:
  assumes "server_reachable X entity scope s" and "entity_id_new name = Inr i" and "srv_next_seq s \<le> SEQ_MAX"
  shows "Option.bind (srv_rows (external_delete sc entity name s) sc) (\<lambda>rows. bt_get rows (entity, i)) = None \<and>
    (entity, i, RowVersion (srv_next_seq s)) \<in>
      set (rows_at (external_delete sc entity name s) sc (srv_head (external_delete sc entity name s)))"
proof -
  have wf: "srv_wf s"
    using server_reachable_ok [OF assms(1)] by (simp add: srv_ok_def)
  then have pos: "0 < srv_next_seq s" and hok: "bt_wf (history_of s sc)"
      "map_of (history_of s sc) = history_for (scope_changes s sc)"
    by (simp_all add: srv_wf_def history_ok_def)
  have seq: "or_unreachable (seq_new (srv_next_seq s)) = Seq (srv_next_seq s)"
    and version: "version_of_seq (Seq (srv_next_seq s)) = RowVersion (srv_next_seq s)"
    using pos assms(3) by (auto simp: or_unreachable_def seq_new_def row_version_new_def bounded_num_def
        version_of_seq_def SEQ_MIN_def not_less word_gt_0 split: sum.splits)
  let ?old = "case bt_get (history_of s sc) (entity, i) of None \<Rightarrow> [] | Some vs \<Rightarrow> vs"
  let ?new = "?old @ [(srv_next_seq s, RowVersion (srv_next_seq s))]"
  have del: "srv_next_seq (external_delete sc entity name s) = srv_next_seq s + 1"
    "history_of (external_delete sc entity name s) sc = bt_insert (entity, i) ?new (history_of s sc)"
    "Option.bind (srv_rows (external_delete sc entity name s) sc) (\<lambda>rows. bt_get rows (entity, i)) = None"
    using assms(2) by (simp_all add: external_delete_def take_seq_def drop_row_def add_to_index_def
        add_to_history_def history_of_def seq version Let_def split: option.splits)
  have "sq \<le> srv_next_seq s" if "(sq, v) \<in> set ?old" for sq v
  proof -
    have "\<exists>c \<in> set (scope_changes s sc). sq = change_seq c"
      using that unfolding hok(2) history_for_def by (auto simp: Let_def split: if_splits)
    then show ?thesis
      using scope_changes_bounded [OF wf] by fastforce
  qed
  then have "version_at ?new (srv_next_seq s) = Some (RowVersion (srv_next_seq s))"
    by (auto simp: version_at_def partition_point_def takeWhile_eq_all_conv [THEN iffD2] Let_def)
  moreover have "((entity, i), ?new) \<in> set (history_of (external_delete sc entity name s) sc)"
    using hok(1) by (simp add: del(2) bt_get_mem)
  ultimately have "(entity, i, RowVersion (srv_next_seq s)) \<in>
      set (rows_at (external_delete sc entity name s) sc (srv_next_seq s))"
    unfolding rows_at_history List.map_filter_def by (force simp: image_iff)
  with del show ?thesis
    by (simp add: srv_head_def)
qed

theorem deleted_row_is_still_expected_witness:
  "\<exists>s i. entity_id_new ''row:1'' = Inr i \<and>
     (lesson, i, RowVersion 2) \<in> set (rows_at (external_delete pupil lesson ''row:1'' s) pupil 2)"
proof -
  have i: "entity_id_new ''row:1'' = Inr (EntityId ''row:1'')"
    by code_simp
  have n: "srv_next_seq sample_sim_server = 2"
    by (simp add: sample_sim_server_def external_change_write srv_register_command_def server_new_def
        srv_write_def take_seq_def write_row_def push_entry_def set_row_def add_to_index_def
        add_to_history_def Let_def)
  have "srv_head (external_delete pupil lesson ''row:1'' sample_sim_server) = 2"
    by (simp add: srv_head_def external_delete_def i take_seq_def drop_row_def add_to_index_def
        add_to_history_def n Let_def)
  then show ?thesis
    using deleted_row_is_still_expected [OF sample_server_reachable i, of pupil]
    by (intro exI [of _ sample_sim_server] exI [of _ "EntityId ''row:1''"]) (simp add: i n SEQ_MAX_def)
qed

section \<open>The devices of the world\<close>

text \<open>Command ids are unique. The id a device gives its \<open>n\<close>th command is a version 7 UUID, and two
  ids are the same only for the same device and the same counter, over the whole range of both.\<close>

theorem command_ids_are_unique:
  "sim_command_id d n = sim_command_id d' n' \<longleftrightarrow> d = d' \<and> n = n'"
  by (rule sim_command_id_eq)

end
