(* ===== verification/Sim_Monitor.thy ===== *)
theory Sim_Monitor
  imports Sim_Watch
begin

text \<open>
  The checks of the simulator, one lemma each: on databases that are accounted for, have one outcome
  per command and are replicas of the server's scope, no check reports, and the checker's memory
  describes the databases again.
\<close>

section \<open>A device that satisfies the checks\<close>

text \<open>What the checks ask of a database, seen through its contents.\<close>

definition sound_db :: "sim_server \<Rightarrow> scope_id \<Rightarrow> db \<Rightarrow> bool" where
  "sound_db s sc d \<longleftrightarrow>
     single_outcome (db_view d) \<and> bt_wf (db_rows d) \<and>
     (\<exists>p \<le> length (scope_changes s sc). replica (scope_changes s sc) sc p (db_view d))"

definition quiet_watch :: "scope_id \<Rightarrow> db list \<Rightarrow> invariants \<Rightarrow> bool" where
  "quiet_watch sc dbs v \<longleftrightarrow>
     inv_violations v = [] \<and> (\<forall>i < length dbs. watched v i sc (db_view (dbs ! i)))"

lemma each_device_keeps:
  assumes "\<And>i v. i < length dbs \<Longrightarrow> P v \<Longrightarrow> P (f i (dbs ! i) v)" and "P v"
  shows "P (each_device f dbs v)"
proof -
  have "P (fold (\<lambda>(i, d). f i d) xs v)" if "set xs \<subseteq> set (enumerate 0 dbs)" for xs
    using that assms(2)
  proof (induction xs arbitrary: v)
    case (Cons x xs)
    obtain i d where x: "x = (i, d)" by fastforce
    then have "i < length dbs" "d = dbs ! i"
      using Cons.prems(1) by (auto simp: in_set_enumerate_eq)
    then have "P (f i d v)"
      using assms(1) Cons.prems(2) by simp
    then show ?case
      using Cons by (simp add: x)
  qed simp
  then show ?thesis
    by (simp add: each_device_def)
qed

section \<open>Cursor monotonicity\<close>

lemma cursor_check_quiet:
  assumes "quiet_watch sc dbs v" and "i < length dbs"
  shows "quiet_watch sc dbs (check_cursor_monotonic at_ms i (dbs ! i) sc v)"
proof -
  let ?d = "dbs ! i"
  have w: "watched v i sc (db_view ?d)"
    using assms by (simp add: quiet_watch_def)
  show ?thesis
  proof (cases "db_cursors ?d sc")
    case None
    then have "inv_high_water v (i, sc) = None"
      using w by (auto simp: watched_def db_view_def)
    then show ?thesis
      using assms(1) None by (simp add: check_cursor_monotonic_def)
  next
    case (Some c)
    define high where "high = (case inv_high_water v (i, sc) of None \<Rightarrow> 0 | Some h \<Rightarrow> h)"
    have high: "high \<le> cursor_get c"
      using w Some by (auto simp: high_def watched_def db_view_def split: option.splits)
    then have run: "check_cursor_monotonic at_ms i ?d sc v =
        v\<lparr>inv_high_water := (inv_high_water v)((i, sc) \<mapsto> cursor_get c)\<rparr>"
      by (simp add: check_cursor_monotonic_def Some Let_def not_less max_def flip: high_def)
    have "watched (v\<lparr>inv_high_water := (inv_high_water v)((i, sc) \<mapsto> cursor_get c)\<rparr>) j sc (db_view (dbs ! j))"
      if "j < length dbs" for j
      using assms(1) that Some by (auto simp: quiet_watch_def watched_def db_view_def)
    with assms(1) show ?thesis
      unfolding run by (simp add: quiet_watch_def)
  qed
qed

section \<open>Durability and idempotency\<close>

lemma recorded_loop_quiet:
  "distinct (map fst rs) \<Longrightarrow> fst ` set rs \<inter> fst ` set m = {} \<Longrightarrow>
   recorded_loop at_ms i rs m v = (fold (\<lambda>(k, r). bt_insert k (verdict_of r)) rs m, v)"
proof (induction rs arbitrary: m)
  case (Cons x rs)
  obtain k r where x: "x = (k, r)" by fastforce
  have new: "bt_get m k = None"
    using Cons.prems(2) by (auto simp: x map_of_eq_None_iff)
  have "fst ` set rs \<inter> fst ` set (bt_insert k (verdict_of r) m) = {}"
    using Cons.prems by (auto simp: x set_keys_bt_insert)
  with Cons.IH Cons.prems(1) new show ?case
    by (simp add: x Let_def)
qed simp

lemma fold_verdicts:
  "bt_wf m \<Longrightarrow> bt_wf (fold (\<lambda>(k, r). bt_insert k (verdict_of r)) rs m)"
  "distinct (map fst rs) \<Longrightarrow> fst ` set rs \<inter> dom (bt_get m) = {} \<Longrightarrow>
   bt_get (fold (\<lambda>(k, r). bt_insert k (verdict_of r)) rs m) = bt_get m ++ map_of (map (\<lambda>(k, r). (k, verdict_of r)) rs)"
proof -
  show "bt_wf m \<Longrightarrow> bt_wf (fold (\<lambda>(k, r). bt_insert k (verdict_of r)) rs m)"
    by (induction rs arbitrary: m) (auto simp: case_prod_beta)
  show "distinct (map fst rs) \<Longrightarrow> fst ` set rs \<inter> dom (bt_get m) = {} \<Longrightarrow>
   bt_get (fold (\<lambda>(k, r). bt_insert k (verdict_of r)) rs m) = bt_get m ++ map_of (map (\<lambda>(k, r). (k, verdict_of r)) rs)"
  proof (induction rs arbitrary: m)
    case (Cons x rs)
    obtain k r where x: "x = (k, r)" by fastforce
    have "bt_get (fold (\<lambda>(k, r). bt_insert k (verdict_of r)) rs (bt_insert k (verdict_of r) m)) =
        bt_get (bt_insert k (verdict_of r) m) ++ map_of (map (\<lambda>(k, r). (k, verdict_of r)) rs)"
    proof (rule Cons.IH)
      show "distinct (map fst rs)" and "fst ` set rs \<inter> dom (bt_get (bt_insert k (verdict_of r) m)) = {}"
        using Cons.prems unfolding x disjoint_iff dom_def by auto
    qed
    moreover have "map_of (map (\<lambda>(k, r). (k, verdict_of r)) rs) k = None"
      using Cons.prems(1) by (force simp: x map_of_eq_None_iff)
    ultimately show ?case
      by (auto simp: x fun_eq_iff map_add_def split: option.splits)
  qed simp
qed

lemma seen_loop_quiet:
  assumes "\<forall>(k, verdict) \<in> set seen. (k, verdict) \<in> set run" and "distinct (map fst run)" and "set rs \<subseteq> set run"
  shows "\<exists>seen'. seen_loop at_ms i rs seen v = (seen', v) \<and> (\<forall>(k, verdict) \<in> set seen'. (k, verdict) \<in> set run)"
  using assms(1,3)
proof (induction rs arbitrary: seen)
  case (Cons x rs)
  obtain k verdict where x: "x = (k, verdict)" by fastforce
  show ?case
  proof (cases "bt_get seen k")
    case None
    have "\<forall>(k, verdict) \<in> set (bt_insert k verdict seen). (k, verdict) \<in> set run"
    proof -
      have "set (bt_insert k verdict seen) \<subseteq> insert (k, verdict) (set seen)"
        by (induction k verdict seen rule: bt_insert.induct) auto
      with Cons.prems x show ?thesis by fastforce
    qed
    with Cons None x show ?thesis by simp
  next
    case (Some prior)
    then have "(k, prior) \<in> set run"
      using Cons.prems(1) by (meson case_prodD map_of_SomeD)
    moreover have "(k, verdict) \<in> set run"
      using Cons.prems(2) x by simp
    ultimately have "prior = verdict"
      using assms(2) by (meson eq_key_imp_eq_value)
    with Cons Some x show ?thesis by simp
  qed
qed simp

lemma outcome_check_quiet:
  assumes "quiet_watch sc dbs v" and "i < length dbs" and "single_outcome (db_view (dbs ! i))"
  shows "quiet_watch sc dbs (check_durability_and_idempotency at_ms i (dbs ! i) v)"
proof -
  let ?rs = "db_resolved (dbs ! i)"
  define run where "run = fold (\<lambda>(k, r). bt_insert k (verdict_of r)) ?rs []"
  define seen where "seen = (case inv_resolved v i of None \<Rightarrow> [] | Some m \<Rightarrow> m)"
  have dist: "distinct (map fst ?rs)"
    using assms(3) by (simp add: single_outcome_def db_view_def)
  have wf: "bt_wf run" and get: "bt_get run = map_of (map (\<lambda>(k, r). (k, verdict_of r)) ?rs)"
    unfolding run_def using fold_verdicts [where m = "[]" and rs = ?rs] dist by simp_all
  have run_mem: "(k, verdict) \<in> set run \<longleftrightarrow> (\<exists>r. (k, r) \<in> set ?rs \<and> verdict_of r = verdict)" for k verdict
  proof -
    have "distinct (map fst (map (\<lambda>(k, r). (k, verdict_of r)) ?rs))"
      using dist by (simp add: comp_def case_prod_beta)
    then show ?thesis
      using bt_get_mem [OF wf] by (auto simp: get)
  qed
  have seen_run: "\<forall>(k, verdict) \<in> set seen. (k, verdict) \<in> set run"
  proof (cases "inv_resolved v i")
    case (Some m)
    then have "\<forall>(k, verdict) \<in> set m. \<exists>r. (k, r) \<in> set (sv_resolved (db_view (dbs ! i))) \<and> verdict_of r = verdict"
      using assms(1,2) by (simp add: quiet_watch_def watched_def)
    then show ?thesis
      by (auto simp: seen_def Some run_mem db_view_def)
  qed (simp add: seen_def)
  obtain seen' where seen': "seen_loop at_ms i run seen v = (seen', v)"
    "\<forall>(k, verdict) \<in> set seen'. (k, verdict) \<in> set run"
    using seen_loop_quiet [OF seen_run bt_wf_distinct [OF wf] subset_refl] by blast
  have lost: "filter (\<lambda>k. bt_get run k = None) (map fst seen') = []"
    using seen'(2) by (auto simp: filter_empty_conv map_of_eq_None_iff image_iff)
  have "check_durability_and_idempotency at_ms i (dbs ! i) v =
      v\<lparr>inv_resolved := (inv_resolved v)(i \<mapsto> seen')\<rparr>"
    using seen'(1) lost recorded_loop_quiet [OF dist, of "[]" at_ms i v]
    unfolding check_durability_and_idempotency_def Let_def
    by (simp flip: seen_def run_def)
  moreover have "watched (v\<lparr>inv_resolved := (inv_resolved v)(i \<mapsto> seen')\<rparr>) j sc (db_view (dbs ! j))"
    if "j < length dbs" for j
  proof (cases "j = i")
    case True
    then show ?thesis
      using assms(1,2) seen'(2) unfolding run_mem
      by (auto simp: quiet_watch_def watched_def db_view_def)
  next
    case False
    with assms(1) that show ?thesis
      by (auto simp: quiet_watch_def watched_def)
  qed
  ultimately show ?thesis
    using assms(1) by (simp add: quiet_watch_def)
qed

section \<open>No loss\<close>

lemma bs_of_list_facts: "bt_wf (bs_of_list xs)" "fst ` set (bs_of_list xs) = set xs"
proof -
  have "bt_wf (fold (\<lambda>x. bt_insert x ()) xs m)" if "bt_wf m" for m
    using that by (induction xs arbitrary: m) auto
  then show "bt_wf (bs_of_list xs)"
    by (simp add: bs_of_list_def)
  have "fst ` set (fold (\<lambda>x. bt_insert x ()) xs m) = set xs \<union> fst ` set m" for m
    by (induction xs arbitrary: m) (auto simp: set_keys_bt_insert)
  then show "fst ` set (bs_of_list xs) = set xs"
    by (simp add: bs_of_list_def)
qed

lemma fold_insert_keys: "fst ` set (fold (\<lambda>i. bt_insert i ()) xs m) = set xs \<union> fst ` set m"
  by (induction xs arbitrary: m) (auto simp: set_keys_bt_insert)

lemma loss_check_quiet:
  assumes "quiet_watch sc dbs v" and "i < length dbs" and "single_outcome (db_view (dbs ! i))"
  shows "quiet_watch sc dbs (check_no_loss at_ms i (dbs ! i) v)"
proof -
  let ?d = "dbs ! i"
  let ?queued = "bs_of_list (map (\<lambda>(c, _). cmd_id c) (db_outbox ?d))"
  let ?resolved = "bs_of_list (map fst (db_resolved ?d))"
  define ever0 where "ever0 = (case inv_ever_queued v i of None \<Rightarrow> [] | Some s \<Rightarrow> s)"
  define ever where "ever = fold (\<lambda>i. bt_insert i ()) (map fst ?queued) ever0"
  have q: "fst ` set ?queued = ids (sv_outbox (db_view ?d))"
    by (force simp: bs_of_list_facts ids_def db_view_def oe_id_def outbox_entry_new_def image_iff)
  have r: "fst ` set ?resolved = fst ` set (sv_resolved (db_view ?d))"
    by (simp add: bs_of_list_facts db_view_def)
  have "filter (\<lambda>k. bt_get ?resolved k \<noteq> None) (map fst ?queued) = []"
  proof -
    have "k \<notin> fst ` set ?resolved" if "k \<in> fst ` set ?queued" for k
      using assms(3) that unfolding q r single_outcome_def by blast
    then show ?thesis
      by (auto simp: filter_empty_conv map_of_eq_None_iff)
  qed
  moreover have ever_known: "fst ` set ever \<subseteq> known (db_view ?d)"
  proof -
    have "fst ` set ever0 \<subseteq> known (db_view ?d)"
      using assms(1,2) by (cases "inv_ever_queued v i") (auto simp: ever0_def quiet_watch_def watched_def)
    moreover have "fst ` set ever = fst ` set ?queued \<union> fst ` set ever0"
      unfolding ever_def fold_insert_keys by simp
    ultimately show ?thesis
      unfolding q by (auto simp: known_def)
  qed
  moreover have "filter (\<lambda>k. bt_get ?queued k = None \<and> bt_get ?resolved k = None) (map fst ever) = []"
  proof -
    have "k \<in> fst ` set ?queued \<or> k \<in> fst ` set ?resolved" if "k \<in> fst ` set ever" for k
      using ever_known that unfolding q r known_def by blast
    then show ?thesis
      by (fastforce simp: filter_empty_conv map_of_eq_None_iff)
  qed
  ultimately have "check_no_loss at_ms i ?d v = v\<lparr>inv_ever_queued := (inv_ever_queued v)(i \<mapsto> ever)\<rparr>"
    unfolding check_no_loss_def Let_def by (simp flip: ever0_def ever_def)
  moreover have "watched (v\<lparr>inv_ever_queued := (inv_ever_queued v)(i \<mapsto> ever)\<rparr>) j sc (db_view (dbs ! j))"
    if "j < length dbs" for j
    using assms(1) that ever_known by (cases "j = i") (auto simp: quiet_watch_def watched_def)
  ultimately show ?thesis
    using assms(1) by (simp add: quiet_watch_def)
qed

section \<open>The rest of the server's claims\<close>

lemma fold_quiet: "(\<And>x. x \<in> set xs \<Longrightarrow> f x v = v) \<Longrightarrow> fold f xs v = v"
  by (induction xs) auto

lemma sound_cursor:
  assumes "srv_wf s" and "sound_db s sc d" and "db_cursors d sc = Some c"
  obtains p where "p \<le> length (scope_changes s sc)" and "c = Cursor (pos_seq (scope_changes s sc) p)"
    and "view_version (db_view d) = latest_version (take p (scope_changes s sc))"
proof -
  obtain p where "p \<le> length (scope_changes s sc)" "replica (scope_changes s sc) sc p (db_view d)"
    using assms(2) by (auto simp: sound_db_def)
  with assms(3) that show ?thesis
    by (auto simp: replica_def db_view_def)
qed

lemma pos_seq_head:
  assumes "srv_wf s" and "p \<le> length (scope_changes s sc)"
  shows "pos_seq (scope_changes s sc) p \<le> srv_head s"
proof -
  have pos: "0 < srv_next_seq s"
    using assms(1) by (simp add: srv_wf_def)
  have "pos_seq (scope_changes s sc) p < srv_next_seq s"
    using assms scope_changes_bounded [OF assms(1), of "scope_changes s sc ! (p - 1)" sc] pos
    by (auto simp: pos_seq_def)
  then show ?thesis
    unfolding srv_head_def using pos by (simp add: word_le_nat_alt word_less_nat_alt unat_sub)
qed

lemma bounds_check_quiet:
  assumes "srv_wf s" and "\<forall>d \<in> set dbs. sound_db s sc d"
  shows "check_cursor_bounds at_ms dbs s sc v = v"
proof -
  have "\<not> cursor_get c > srv_head s" if "i < length dbs" "db_cursors (dbs ! i) sc = Some c" for i c
    using sound_cursor [OF assms(1) _ that(2)] assms(2) that(1) pos_seq_head [OF assms(1)]
    by (metis cursor.sel not_less nth_mem)
  then have "each_device (\<lambda>i d v. case db_cursors d sc of None \<Rightarrow> v | Some c \<Rightarrow>
      if cursor_get c > srv_head s
      then violate ''cursor-bounds'' i
             (''cursor '' @ show_u64 (cursor_get c) @ '' is ahead of the server'' @ [CHR 0x27] @
              ''s log head '' @ show_u64 (srv_head s)) at_ms v
      else v) dbs v = v"
    by (intro each_device_keeps [where P = "\<lambda>u. u = v"]) (simp_all split: option.splits)
  then show ?thesis
    by (simp only: check_cursor_bounds_def)
qed

lemma stored_version:
  "bt_get (db_rows d) k = Some row \<Longrightarrow> view_version (db_view d) k = Some (sr_row_version row)"
  by (simp add: view_version_def db_view_def)

lemma version_stored:
  "view_version (db_view d) k = Some v \<Longrightarrow> \<exists>row. bt_get (db_rows d) k = Some row \<and> sr_row_version row = v"
  by (auto simp: view_version_def db_view_def)

lemma effects_check_quiet:
  assumes "srv_wf s" and "\<forall>d \<in> set dbs. sound_db s sc d"
  shows "check_durable_effects at_ms dbs s sc v = v"
  unfolding check_durable_effects_def
proof (rule each_device_keeps [where P = "\<lambda>u. u = v"])
  fix i u
  assume i: "i < length dbs" and u: "u = v"
  show "(case db_cursors (dbs ! i) sc of None \<Rightarrow> u | Some c \<Rightarrow>
      fold (\<lambda>(entity, entity_id, expected) v.
        case bt_get (db_rows (dbs ! i)) (entity, entity_id) of
          None \<Rightarrow> violate ''durable-effects'' i
            (row_name entity entity_id @ '' should exist at version '' @
             show_u64 (row_version_get expected) @ '' for cursor '' @ show_u64 (cursor_get c) @
             '', and is absent '' @ em_dash @ '' an applied effect was lost'') at_ms v
        | Some stored \<Rightarrow>
            if sr_row_version stored = expected then v
            else violate ''durable-effects'' i
                   (version_mismatch (entity, entity_id) (sr_row_version stored) (cursor_get c) expected) at_ms v)
        (rows_at s sc (cursor_get c)) u) = v"
  proof (cases "db_cursors (dbs ! i) sc")
    case None
    with u show ?thesis by simp
  next
    case (Some c)
    have "sound_db s sc (dbs ! i)"
      using assms(2) i by simp
    then obtain p where p: "p \<le> length (scope_changes s sc)" "c = Cursor (pos_seq (scope_changes s sc) p)"
      "view_version (db_view (dbs ! i)) = latest_version (take p (scope_changes s sc))"
      using sound_cursor [OF assms(1) _ Some] by blast
    have held: "\<exists>row. bt_get (db_rows (dbs ! i)) (n, k) = Some row \<and> sr_row_version row = x"
      if "(n, k, x) \<in> set (rows_at s sc (cursor_get c))" for n k x
      using that rows_at_position [OF assms(1) p(1), of n k x] version_stored [of "dbs ! i" "(n, k)" x]
      by (simp add: p(2,3))
    show ?thesis
      unfolding Some option.case u
    proof (rule fold_quiet)
      fix x
      assume "x \<in> set (rows_at s sc (cursor_get c))"
      moreover obtain n k r where x: "x = (n, k, r)" by (cases x)
      ultimately obtain row where "bt_get (db_rows (dbs ! i)) (n, k) = Some row" "sr_row_version row = r"
        using held by blast
      then show "(case x of (entity, entity_id, expected) \<Rightarrow> \<lambda>v.
        case bt_get (db_rows (dbs ! i)) (entity, entity_id) of
          None \<Rightarrow> violate ''durable-effects'' i
            (row_name entity entity_id @ '' should exist at version '' @
             show_u64 (row_version_get expected) @ '' for cursor '' @ show_u64 (cursor_get c) @
             '', and is absent '' @ em_dash @ '' an applied effect was lost'') at_ms v
        | Some stored \<Rightarrow>
            if sr_row_version stored = expected then v
            else violate ''durable-effects'' i
                   (version_mismatch (entity, entity_id) (sr_row_version stored) (cursor_get c) expected) at_ms v) v = v"
        by (simp only: x prod.case option.case simp_thms if_True)
    qed
  qed
qed simp

lemma state_check_quiet:
  assumes "srv_wf s" and "\<forall>d \<in> set dbs. sound_db s sc d"
  shows "check_applied_state at_ms dbs s sc v = v"
  unfolding check_applied_state_def
proof (rule each_device_keeps [where P = "\<lambda>u. u = v"])
  fix i u
  assume i: "i < length dbs" and u: "u = v"
  show "(case db_cursors (dbs ! i) sc of None \<Rightarrow> u | Some c \<Rightarrow>
      fold (\<lambda>((entity, entity_id), stored) v.
        case row_version_at s sc entity entity_id (cursor_get c) of
          None \<Rightarrow> violate ''applied-state'' i
            (row_name entity entity_id @ '' is stored at version '' @
             show_u64 (row_version_get (sr_row_version stored)) @
             '' but no change at or below the cursor '' @ show_u64 (cursor_get c) @
             '' ever created it'') at_ms v
        | Some expected \<Rightarrow>
            if expected = sr_row_version stored then v
            else violate ''applied-state'' i
                   (version_mismatch (entity, entity_id) (sr_row_version stored) (cursor_get c) expected) at_ms v)
        (db_rows (dbs ! i)) u) = v"
  proof (cases "db_cursors (dbs ! i) sc")
    case None
    with u show ?thesis by simp
  next
    case (Some c)
    have sound: "sound_db s sc (dbs ! i)"
      using assms(2) i by simp
    then obtain p where p: "p \<le> length (scope_changes s sc)" "c = Cursor (pos_seq (scope_changes s sc) p)"
      "view_version (db_view (dbs ! i)) = latest_version (take p (scope_changes s sc))"
      using sound_cursor [OF assms(1) _ Some] by blast
    have wf: "bt_wf (db_rows (dbs ! i))"
      using sound by (simp add: sound_db_def)
    have "row_version_at s sc n k (cursor_get c) = Some (sr_row_version row)"
      if "((n, k), row) \<in> set (db_rows (dbs ! i))" for n k row
      using row_version_at_position [OF assms(1) p(1), of n k] stored_version [of "dbs ! i" "(n, k)" row]
        that bt_get_mem [OF wf] by (simp add: p(2,3))
    then show ?thesis
      unfolding Some option.case u by (intro fold_quiet) (auto simp del: row_version_get_def)
  qed
qed simp

section \<open>A whole check\<close>

lemma check_step_quiet:
  assumes "quiet_watch sc dbs v" and "\<forall>d \<in> set dbs. single_outcome (db_view d)"
  shows "quiet_watch sc dbs (check_step at_ms dbs sc v)"
  unfolding check_step_def
  by (rule each_device_keeps)
    (use assms in \<open>auto intro!: cursor_check_quiet outcome_check_quiet loss_check_quiet\<close>)

end
