(* ===== verification/Sim_Run.thy ===== *)
theory Sim_Run
  imports Sim_Device Sim_Monitor Sim_Answers Core_Push
begin

text \<open>
  Runs of the simulated world. \<open>dev_ok\<close> is what holds of a device, of the batches in flight to it and
  of the requests it has handed to the network; each function of the world keeps it for every device.
  What a function of one device leaves alone is \<open>local\<close>.
\<close>

section \<open>A device in its world\<close>

fun is_pull :: "wire_request \<Rightarrow> bool" where
  "is_pull (ReqPull _) = True"
| "is_pull _ = False"

text \<open>The batches on their way to device \<open>i\<close>, and the requests it has handed to the network.\<close>

definition batches_in :: "transport_error + wire_response \<Rightarrow> batch list" where
  "batches_in r = (case r of Inr (RespPull p) \<Rightarrow> plr_batches p | _ \<Rightarrow> [])"

definition pulls_for :: "nat \<Rightarrow> flight list \<Rightarrow> batch list" where
  "pulls_for i fl = concat (map (\<lambda>f. if ifl_device f = i then batches_in (ifl_response f) else []) fl)"

definition handed :: "world \<Rightarrow> nat \<Rightarrow> wire_request list" where
  "handed w i = map obd_request (tra_pending (dv_transport (wld_devices w ! i)))"

definition request_ok :: "change list \<Rightarrow> scope_id \<Rightarrow> nat \<Rightarrow> wire_request \<Rightarrow> bool" where
  "request_ok cs sc p r =
     (case r of
        ReqPull q \<Rightarrow> plq_scopes q = [\<lparr>sc_scope = sc, sc_cursor = Cursor (pos_seq cs p)\<rparr>]
      | ReqPush q \<Rightarrow> length (psq_commands q) \<le> 256
      | ReqBootstrap _ \<Rightarrow> False)"

definition requests_ok :: "change list \<Rightarrow> scope_id \<Rightarrow> nat \<Rightarrow> wire_request list \<Rightarrow> bool" where
  "requests_ok cs sc p rs \<longleftrightarrow>
     list_all (request_ok cs sc p) rs \<and> length (filter is_pull rs) \<le> 1 \<and> length rs \<le> 2"

definition dev_ok ::
  "externs \<Rightarrow> world \<Rightarrow> batch list \<Rightarrow> wire_request list \<Rightarrow> nat \<Rightarrow> nat \<Rightarrow> sim_device \<Rightarrow> bool" where
  "dev_ok X w bs rs i p d \<longleftrightarrow>
     device_ok X (wld_entity w) (wld_scope w) (wld_invariants w) i (dv_commands_authored d) (dv_engine d) \<and>
     p \<le> visible_count (wld_server w) (wld_scope w) \<and>
     replica (scope_changes (wld_server w) (wld_scope w)) (wld_scope w) p (db_view (eng_storage (dv_engine d))) \<and>
     queue_ok (scope_changes (wld_server w) (wld_scope w)) (visible_count (wld_server w) (wld_scope w))
       (wld_scope w) p bs \<and>
     requests_ok (scope_changes (wld_server w) (wld_scope w)) (wld_scope w) p rs"

definition devices_ok :: "externs \<Rightarrow> (nat \<Rightarrow> batch list) \<Rightarrow> (nat \<Rightarrow> wire_request list) \<Rightarrow> world \<Rightarrow> bool" where
  "devices_ok X q r w \<longleftrightarrow> (\<forall>i < length (wld_devices w). \<exists>p. dev_ok X w (q i) (r i) i p (wld_devices w ! i))"

lemma pulls_for_simps [simp]:
  "pulls_for i [] = []"
  "pulls_for i (f # fl) = (if ifl_device f = i then batches_in (ifl_response f) else []) @ pulls_for i fl"
  "pulls_for i (fl @ fl') = pulls_for i fl @ pulls_for i fl'"
  by (simp_all add: pulls_for_def)

lemma requests_ok_simps [simp]:
  "requests_ok cs sc p []"
  "requests_ok cs sc p (r # rs) \<Longrightarrow> requests_ok cs sc p rs"
  by (auto simp: requests_ok_def split: if_splits)

section \<open>Functions of one device\<close>

definition frame :: "world \<Rightarrow> sim_server \<times> flight list \<times> flight list \<times> invariants \<times> int \<times> scope_id \<times> entity_name \<times> fault_rates \<times>
  registry \<times> bool \<times> nat" where
  "frame w = (wld_server w, wld_in_flight w, wld_held w, wld_invariants w, wld_now_ms w, wld_scope w,
     wld_entity w, wld_rates w, wld_registry w, wld_quiet w, length (wld_devices w))"

definition local :: "nat \<Rightarrow> world \<Rightarrow> world \<Rightarrow> bool" where
  "local i w w' \<longleftrightarrow> frame w' = frame w \<and> (\<forall>j. j \<noteq> i \<longrightarrow> wld_devices w' ! j = wld_devices w ! j)"

lemma local_refl [simp]: "local i w w"
  by (simp add: local_def)

lemma local_trans [trans]: "local i w w' \<Longrightarrow> local i w' w'' \<Longrightarrow> local i w w''"
  by (simp add: local_def)

lemma local_fields:
  assumes "local i w w'"
  shows "wld_server w' = wld_server w" "wld_in_flight w' = wld_in_flight w" "wld_held w' = wld_held w"
    "wld_invariants w' = wld_invariants w" "wld_now_ms w' = wld_now_ms w" "wld_scope w' = wld_scope w"
    "wld_entity w' = wld_entity w" "wld_rates w' = wld_rates w"
    "length (wld_devices w') = length (wld_devices w)" "wld_registry w' = wld_registry w"
    "wld_quiet w' = wld_quiet w"
  using assms by (simp_all add: local_def frame_def)

lemma dev_ok_local: "local i w w' \<Longrightarrow> dev_ok X w' bs rs j p d = dev_ok X w bs rs j p d"
  by (simp add: dev_ok_def local_fields)

lemma local_rng [simp]: "local i w (w\<lparr>wld_rng := r\<rparr>)"
  by (simp add: local_def frame_def)

lemma local_draws [simp]:
  "local i w (snd (draw_chance p w))" "local i w (snd (draw_range a b w))"
  "wld_devices (snd (draw_chance p w)) = wld_devices w" "wld_devices (snd (draw_range a b w)) = wld_devices w"
  by (simp_all add: local_def frame_def draw_chance_def draw_range_def case_prod_beta)

lemma local_notes [simp]:
  "local i w (note_fault j f w)" "local i w (note_event j s w)"
  "wld_devices (note_fault j f w) = wld_devices w" "wld_devices (note_event j s w) = wld_devices w"
  by (simp_all add: local_def frame_def note_fault_def note_event_def)

lemma local_upd_device [simp]: "local i w (upd_device i g w)"
  by (simp add: local_def frame_def upd_device_def)

lemma upd_device_here [simp]:
  "i < length (wld_devices w) \<Longrightarrow> wld_devices (upd_device i g w) ! i = g (wld_devices w ! i)"
  by (simp add: upd_device_def)

lemma devices_ok_local:
  assumes "devices_ok X q r w" and "local i w w'"
    and "i < length (wld_devices w) \<Longrightarrow> \<exists>p. dev_ok X w (q' i) (r' i) i p (wld_devices w' ! i)"
    and "\<And>j. j \<noteq> i \<Longrightarrow> q' j = q j \<and> r' j = r j"
  shows "devices_ok X q' r' w'"
  unfolding devices_ok_def
proof (intro allI impI)
  fix j
  assume j: "j < length (wld_devices w')"
  have "\<exists>p. dev_ok X w (q' j) (r' j) j p (wld_devices w' ! j)"
  proof (cases "j = i")
    case True
    then show ?thesis
      using assms(3) j local_fields(9) [OF assms(2)] by simp
  next
    case False
    then show ?thesis
      using assms(1,4) j assms(2) by (simp add: devices_ok_def local_def frame_def)
  qed
  then show "\<exists>p. dev_ok X w' (q' j) (r' j) j p (wld_devices w' ! j)"
    by (simp add: dev_ok_local [OF assms(2)])
qed

text \<open>A device whose engine, counter and transport are the same is as good.\<close>

lemma dev_ok_same:
  "dv_engine d' = dv_engine d \<Longrightarrow> dv_commands_authored d' = dv_commands_authored d \<Longrightarrow>
   dev_ok X w bs rs i p d' = dev_ok X w bs rs i p d"
  by (simp add: dev_ok_def)

lemma dev_ok_engine:
  assumes "dev_ok X w bs rs i p d"
    and "device_ok X (wld_entity w) (wld_scope w) (wld_invariants w) i (dv_commands_authored d') (dv_engine d')"
    and "sv_rows (db_view (eng_storage (dv_engine d'))) = sv_rows (db_view (eng_storage (dv_engine d)))"
    and "sv_cursors (db_view (eng_storage (dv_engine d'))) = sv_cursors (db_view (eng_storage (dv_engine d)))"
  shows "dev_ok X w bs rs i p d'"
  using assms(1,2) replica_cong [OF assms(3,4)] by (simp add: dev_ok_def)

lemma dev_ok_unhand: "dev_ok X w bs rs i p d \<Longrightarrow> dev_ok X w bs [] i p d"
  by (simp add: dev_ok_def)

section \<open>A device's turn\<close>

text \<open>Device \<open>i\<close> has come from the world \<open>w0\<close> with only its own steps, stands at position \<open>p\<close>, has handed
  \<open>rs\<close> to the network and authored \<open>n\<close> commands.\<close>

definition stands ::
  "externs \<Rightarrow> world \<Rightarrow> batch list \<Rightarrow> nat \<Rightarrow> nat \<Rightarrow> wire_request list \<Rightarrow> u32 \<Rightarrow> world \<Rightarrow> bool" where
  "stands X w0 bs i p rs n w \<longleftrightarrow>
     local i w0 w \<and> i < length (wld_devices w0) \<and> handed w i = rs \<and>
     dv_commands_authored (wld_devices w ! i) = n \<and> dev_ok X w0 bs rs i p (wld_devices w ! i)"

lemma stands_length: "stands X w0 bs i p rs n w \<Longrightarrow> i < length (wld_devices w)"
  using local_fields(9) [of i w0 w] by (simp add: stands_def)

lemma stands_fields:
  assumes "stands X w0 bs i p rs n w"
  shows "wld_server w = wld_server w0" "wld_scope w = wld_scope w0" "wld_entity w = wld_entity w0"
    "wld_invariants w = wld_invariants w0" "wld_now_ms w = wld_now_ms w0"
  using assms local_fields [of i w0 w] by (simp_all add: stands_def)

text \<open>What leaves all devices alone, and what changes the parts no one here looks at.\<close>

lemma stands_quiet:
  "stands X w0 bs i p rs n w \<Longrightarrow> local i w w' \<Longrightarrow> wld_devices w' ! i = wld_devices w ! i \<Longrightarrow>
   stands X w0 bs i p rs n w'"
  using local_trans [of i w0 w] by (simp add: stands_def handed_def)

lemma stands_draws [simp]:
  assumes "stands X w0 bs i p rs n w"
  shows "stands X w0 bs i p rs n (snd (draw_chance c w))" "stands X w0 bs i p rs n (snd (draw_range a b w))"
    "stands X w0 bs i p rs n (note_fault j f w)" "stands X w0 bs i p rs n (note_event j t w)"
    "stands X w0 bs i p rs n (w\<lparr>wld_rng := x\<rparr>)"
  by (rule stands_quiet [OF assms]; simp)+

lemma stands_upd:
  assumes "stands X w0 bs i p rs n w" and "dv_engine (g (wld_devices w ! i)) = dv_engine (wld_devices w ! i)"
    and "dv_commands_authored (g (wld_devices w ! i)) = dv_commands_authored (wld_devices w ! i)"
    and "tra_pending (dv_transport (g (wld_devices w ! i))) = tra_pending (dv_transport (wld_devices w ! i))"
  shows "stands X w0 bs i p rs n (upd_device i g w)"
  using assms stands_length [OF assms(1)] dev_ok_same [OF assms(2,3)] local_trans [of i w0 w]
  by (simp add: stands_def handed_def)

lemma stands_engine:
  assumes "stands X w0 bs i p rs n w"
    and "device_ok X (wld_entity w0) (wld_scope w0) (wld_invariants w0) i n e'"
    and "sv_rows (db_view (eng_storage e')) = sv_rows (db_view (eng_storage (dv_engine (wld_devices w ! i))))"
    and "sv_cursors (db_view (eng_storage e')) = sv_cursors (db_view (eng_storage (dv_engine (wld_devices w ! i))))"
  shows "stands X w0 bs i p rs n (set_engine i e' w)"
proof -
  have i: "i < length (wld_devices w)"
    using assms(1) by (rule stands_length)
  have d: "dev_ok X w0 bs rs i p (wld_devices w ! i)" "dv_commands_authored (wld_devices w ! i) = n"
    using assms(1) by (simp_all add: stands_def)
  have "dev_ok X w0 bs rs i p ((wld_devices w ! i)\<lparr>dv_engine := e'\<rparr>)"
    by (rule dev_ok_engine [OF d(1)]) (use assms(2-4) d(2) in simp_all)
  moreover have "local i w (set_engine i e' w)"
    "wld_devices (set_engine i e' w) ! i = (wld_devices w ! i)\<lparr>dv_engine := e'\<rparr>"
    using i by (simp_all add: set_engine_def)
  ultimately show ?thesis
    using assms(1) local_trans [of i w0 w] by (simp add: stands_def handed_def)
qed

lemma stands_device_ok:
  "stands X w0 bs i p rs n w \<Longrightarrow>
   device_ok X (wld_entity w0) (wld_scope w0) (wld_invariants w0) i n (dv_engine (wld_devices w ! i))"
  by (auto simp: stands_def dev_ok_def)

lemma stands_replica:
  "stands X w0 bs i p rs n w \<Longrightarrow>
   replica (scope_changes (wld_server w0) (wld_scope w0)) (wld_scope w0) p
     (db_view (eng_storage (dv_engine (wld_devices w ! i))))"
  by (simp add: stands_def dev_ok_def)

subsection \<open>Restarts and armed faults\<close>

lemma stands_restart:
  assumes "stands X w0 bs i p rs n w"
  shows "stands X w0 bs i p [] n (world_restart i w)"
proof -
  let ?d = "wld_devices w ! i"
  have i: "i < length (wld_devices w)"
    using assms by (rule stands_length)
  obtain s r where d: "wld_devices (world_restart i w) ! i =
      ?d\<lparr>dv_engine := restart_device (wld_entity w) (wld_scope w) (eng_storage (dv_engine ?d)),
         dv_entropy := s, dv_transport := transport_new, dv_ratio := r, dv_pending_kill := False\<rparr>"
    using i by (simp add: world_restart_def Let_def case_prod_beta note_fault_def)
  have "local i w (world_restart i w)"
    unfolding world_restart_def Let_def case_prod_beta
    by (intro local_trans [OF local_notes(1) local_trans [OF local_rng local_upd_device]])
  moreover have "dev_ok X w0 bs [] i p (wld_devices (world_restart i w) ! i)"
    using assms device_ok_restart [OF stands_device_ok [OF assms]] stands_fields [OF assms]
    by (intro dev_ok_engine [OF dev_ok_unhand, of X w0 bs rs i p ?d]) (simp_all add: stands_def d restart_fields)
  ultimately show ?thesis
    using assms local_trans [of i w0 w] by (simp add: stands_def handed_def d transport_new_def)
qed

lemma stands_kill: "stands X w0 bs i p [] n w \<Longrightarrow> stands X w0 bs i p [] n (maybe_kill i w)"
  unfolding maybe_kill_def by (simp add: stands_restart [OF stands_upd])

lemma stands_armed:
  assumes "stands X w0 bs i p rs n w"
  shows "stands X w0 bs i p rs n (upd_device i (set_verdict x) w)"
    and "db_view (eng_storage (dv_engine (wld_devices (upd_device i (set_verdict x) w) ! i))) =
      db_view (eng_storage (dv_engine (wld_devices w ! i)))"
proof -
  let ?e = "dv_engine (wld_devices w ! i)"
  have "upd_device i (set_verdict x) w = set_engine i (?e\<lparr>eng_storage := (eng_storage ?e)\<lparr>db_verdict := x\<rparr>\<rparr>) w"
    by (simp add: set_engine_def upd_device_def set_verdict_def)
  moreover have "stands X w0 bs i p rs n (set_engine i (?e\<lparr>eng_storage := (eng_storage ?e)\<lparr>db_verdict := x\<rparr>\<rparr>) w)"
    using assms device_ok_armed [OF stands_device_ok [OF assms]] by (intro stands_engine) simp_all
  ultimately show "stands X w0 bs i p rs n (upd_device i (set_verdict x) w)"
    by simp
  show "db_view (eng_storage (dv_engine (wld_devices (upd_device i (set_verdict x) w) ! i))) =
      db_view (eng_storage (dv_engine (wld_devices w ! i)))"
    using stands_length [OF assms] by (simp add: set_verdict_def)
qed

lemma stands_arm:
  assumes "stands X w0 bs i p rs n w"
  shows "stands X w0 bs i p rs n (arm_storage i w)"
    and "db_view (eng_storage (dv_engine (wld_devices (arm_storage i w) ! i))) =
      db_view (eng_storage (dv_engine (wld_devices w ! i)))"
proof -
  have i: "i < length (wld_devices w)"
    using assms by (rule stands_length)
  let ?P = "\<lambda>w'. stands X w0 bs i p rs n w' \<and>
    db_view (eng_storage (dv_engine (wld_devices w' ! i))) = db_view (eng_storage (dv_engine (wld_devices w ! i)))"
  have armed: "?P (upd_device i (set_verdict x) w')" if "?P w'" for x w'
    using that stands_armed [of X w0 bs i p rs n w' x] by metis
  have noted: "?P (note_fault i f w')" if "?P w'" for f w'
    using that by simp
  have killing: "?P (upd_device i (\<lambda>d. d\<lparr>dv_pending_kill := True\<rparr>) w')" if "?P w'" for w'
    using that stands_upd [of X w0 bs i p rs n w' "\<lambda>d. d\<lparr>dv_pending_kill := True\<rparr>"] stands_length [of X w0 bs i p rs n w']
    by simp
  have start: "?P (w\<lparr>wld_rng := x\<rparr>)" for x
    using assms by simp
  obtain decision r where "decide_storage (wld_rates w) (wld_rng w) = (decision, r)"
    by fastforce
  then have "?P (arm_storage i w)"
    unfolding arm_storage_def using armed [OF start] armed [OF noted [OF start]]
      armed [OF killing [OF noted [OF start]]]
    by (auto simp only: Let_def prod.case split: option.split fault.split)
  then show "stands X w0 bs i p rs n (arm_storage i w)"
    "db_view (eng_storage (dv_engine (wld_devices (arm_storage i w) ! i))) =
      db_view (eng_storage (dv_engine (wld_devices w ! i)))"
    by simp_all
qed

subsection \<open>Authoring\<close>

lemma authored_ids_next:
  assumes "unat n + 1 < 2 ^ 32"
  shows "authored_ids i (n + 1) = insert (sim_command_id (of_nat i) n) (authored_ids i n)"
    and "sim_command_id (of_nat i) n \<notin> authored_ids i n"
proof -
  have "unat (n + 1) = unat n + 1"
    using assms by (simp add: unat_word_ariths)
  then have "{k. k < n + 1} = insert n {k. k < n}"
    by (auto simp: word_less_nat_alt less_Suc_eq word_unat_eq_iff)
  then show "authored_ids i (n + 1) = insert (sim_command_id (of_nat i) n) (authored_ids i n)"
    by (simp add: authored_ids_def)
  show "sim_command_id (of_nat i) n \<notin> authored_ids i n"
    by (auto simp: authored_ids_def sim_command_id_eq)
qed

lemma device_ok_ids:
  "device_ok X entity sc v i n e \<Longrightarrow> authored_ids i n \<subseteq> authored_ids i n' \<Longrightarrow> device_ok X entity sc v i n' e"
  by (auto simp: device_ok_def)

lemma device_ok_known:
  "device_ok X entity sc v i n' e \<Longrightarrow> known (db_view (eng_storage e)) \<subseteq> authored_ids i n \<Longrightarrow> device_ok X entity sc v i n e"
  by (simp add: device_ok_def)

lemma stands_author:
  assumes "stands X w0 bs i p [] n w" and small: "unat n + 1 < 2 ^ 32"
  shows "stands X w0 bs i p [] (n + 1) (author_command X i w)"
proof -
  let ?count = "\<lambda>d. d\<lparr>dv_commands_authored := n + 1\<rparr>"
  let ?w1 = "upd_device i ?count w"
  have i: "i < length (wld_devices w)"
    using assms(1) by (rule stands_length)
  have n: "dv_commands_authored (wld_devices w ! i) = n"
    using assms(1) by (simp add: stands_def)
  note ok = stands_device_ok [OF assms(1)]
  have "dev_ok X w0 bs [] i p (?count (wld_devices w ! i))"
  proof (rule dev_ok_engine [of X w0 bs "[]" i p "wld_devices w ! i"])
    show "device_ok X (wld_entity w0) (wld_scope w0) (wld_invariants w0) i
        (dv_commands_authored (?count (wld_devices w ! i))) (dv_engine (?count (wld_devices w ! i)))"
      using device_ok_ids [OF ok, of "n + 1"] authored_ids_next [OF small, of i] by auto
  qed (use assms(1) in \<open>simp_all add: stands_def\<close>)
  then have w1: "stands X w0 bs i p [] (n + 1) ?w1"
    using assms(1) i local_trans [of i w0 w] by (simp add: stands_def handed_def)
  define ts where "ts = as_millis (clock_now (dv_clock (wld_devices ?w1 ! i)))"
  define entry where "entry = outbox_entry_new (authored_command X (wld_scope ?w1) i n ts) (or_unreachable (schema_version_new 1))"
  define w2 where "w2 = arm_storage i ?w1"
  have w2: "stands X w0 bs i p [] (n + 1) w2"
    unfolding w2_def by (rule stands_arm(1) [OF w1])
  have "db_view (eng_storage (dv_engine (wld_devices w2 ! i))) = db_view (eng_storage (dv_engine (wld_devices w ! i)))"
    unfolding w2_def using stands_arm(2) [OF w1] i by simp
  then have ok2: "device_ok X (wld_entity w0) (wld_scope w0) (wld_invariants w0) i n (dv_engine (wld_devices w2 ! i))"
    using ok by (intro device_ok_known [OF stands_device_ok [OF w2]]) (simp add: device_ok_def)
  obtain result e where run: "enqueue sim_storage entry (dv_engine (wld_devices w2 ! i)) = (result, e)"
    by fastforce
  have id: "oe_id entry = sim_command_id (of_nat i) n"
    by (simp add: entry_def oe_id_def outbox_entry_new_def authored_command_def)
  have w3: "stands X w0 bs i p [] (n + 1) (set_engine i e w2)"
    using w2
  proof (rule stands_engine)
    have fresh: "oe_id entry \<notin> authored_ids i n" "insert (oe_id entry) (authored_ids i n) \<subseteq> authored_ids i (n + 1)"
      using authored_ids_next [OF small, of i] id by simp_all
    show "device_ok X (wld_entity w0) (wld_scope w0) (wld_invariants w0) i (n + 1) e"
      "sv_rows (db_view (eng_storage e)) = sv_rows (db_view (eng_storage (dv_engine (wld_devices w2 ! i))))"
      "sv_cursors (db_view (eng_storage e)) = sv_cursors (db_view (eng_storage (dv_engine (wld_devices w2 ! i))))"
      using device_ok_enqueue [OF ok2 run fresh] by blast+
  qed
  have "author_command X i w =
      maybe_kill i (note_event i (if is_ok result then ''enqueued'' else ''enqueue-refused'') (set_engine i e w2))"
    unfolding author_command_def Let_def n w2_def [symmetric] ts_def [symmetric] entry_def [symmetric] run prod.case
    by (rule refl)
  then show ?thesis
    using stands_kill [OF stands_draws(4) [OF w3]] by simp
qed

subsection \<open>Handing requests to the network\<close>

lemma stands_send:
  assumes "stands X w0 bs i p rs n w"
    and "requests_ok (scope_changes (wld_server w0) (wld_scope w0)) (wld_scope w0) p (rs @ [req])"
  shows "stands X w0 bs i p rs n (send i req w) \<or> stands X w0 bs i p (rs @ [req]) n (send i req w)"
proof -
  let ?g = "\<lambda>d. d\<lparr>dv_transport := snd (transport_enqueue req (dv_transport d))\<rparr>"
  have i: "i < length (wld_devices w)"
    using assms(1) by (rule stands_length)
  have "dev_ok X w0 bs (rs @ [req]) i p (?g (wld_devices w ! i))" "dev_ok X w0 bs rs i p (?g (wld_devices w ! i))"
    using assms by (auto simp: stands_def dev_ok_def)
  moreover have "handed (send i req w) i = handed w i \<or> handed (send i req w) i = handed w i @ [req]"
    using i by (simp add: send_def handed_def transport_enqueue_def Let_def)
  moreover have "wld_devices (send i req w) ! i = ?g (wld_devices w ! i)" "local i w (send i req w)"
    using i by (simp_all add: send_def)
  ultimately show ?thesis
    using assms(1) local_trans [of i w0 w] by (auto simp: stands_def)
qed

lemma stands_push:
  assumes "stands X w0 bs i p [] n w"
  shows "\<exists>rs. length rs \<le> 1 \<and> filter is_pull rs = [] \<and> stands X w0 bs i p rs n (push_step X i w)"
proof -
  let ?d = "wld_devices w ! i"
  obtain result e where run: "build_push X (sim_compressor (dv_ratio ?d)) sim_storage server_protocol 100000 (dv_engine ?d) = (result, e)"
    by fastforce
  note ok = device_ok_push [OF stands_device_ok [OF assms] run]
  have w1: "stands X w0 bs i p [] n (set_engine i e w)"
    by (rule stands_engine [OF assms]) (use ok in simp_all)
  show ?thesis
  proof (cases "\<exists>request. result = Inr (Some request) \<and> psq_commands request \<noteq> []")
    case True
    then obtain request where req: "result = Inr (Some request)" "psq_commands request \<noteq> []"
      by blast
    have "length (psq_commands request) \<le> 256"
      using build_push_spec [OF run [unfolded req(1)]] by (auto simp: COMMANDS_MAX_COUNT_def)
    then have "requests_ok (scope_changes (wld_server w0) (wld_scope w0)) (wld_scope w0) p ([] @ [ReqPush request])"
      by (simp add: requests_ok_def request_ok_def)
    from stands_send [OF w1 this] consider "stands X w0 bs i p [] n (push_step X i w)"
      | "stands X w0 bs i p [ReqPush request] n (push_step X i w)"
      by (auto simp: push_step_def run req)
    then show ?thesis
    proof cases
      case 1
      then show ?thesis by (intro exI [of _ "[]"]) simp
    next
      case 2
      then show ?thesis by (intro exI [of _ "[ReqPush request]"]) simp
    qed
  next
    case False
    then have "push_step X i w = set_engine i e w"
      by (auto simp: push_step_def run Let_def split: sum.splits option.splits)
    with w1 show ?thesis
      by (intro exI [of _ "[]"]) simp
  qed
qed

lemma memory_cursor:
  assumes "coherent db_view e" and "\<not> needs_reload e sc" and "replica cs sc p (db_view (eng_storage e))"
  shows "(case engine_scope_state e sc of None \<Rightarrow> Cursor_START | Some s \<Rightarrow> ss_cursor s) = Cursor (pos_seq cs p)"
  using assms
  by (auto simp: coherent_def needs_reload_def engine_scope_state_def replica_def position_def
      restored_scope_def scope_state_restored_def pos_seq_def Cursor_START_def CURSOR_START_def
      split: option.splits)

lemma reload_clears:
  assumes "reload_scope st sc e = (r, e')" and "is_ok r"
  shows "\<not> needs_reload e' sc"
proof -
  obtain r1 e1 where 1: "refresh_if_suspect st sc e = (r1, e1)"
    by fastforce
  with assms obtain u where "r1 = Inr u"
    by (cases r1) (auto simp: reload_scope_def is_ok_def)
  with 1 have "sc \<notin> eng_suspect e1"
    using refresh_facts(1) by blast
  moreover have "eng_suspect e' = eng_suspect e1"
    using assms(1) 1 \<open>r1 = Inr u\<close>
    by (auto simp: reload_scope_def refresh_outbox_if_suspect_def split: if_splits sum.splits)
  ultimately show ?thesis
    by (simp add: needs_reload_def)
qed

lemma stands_pull:
  assumes "stands X w0 bs i p rs n w" and "length rs \<le> 1" and "filter is_pull rs = []"
  shows "\<exists>rs'. stands X w0 bs i p rs' n (pull_step i w)"
proof -
  let ?e = "dv_engine (wld_devices w ! i)" and ?sc = "wld_scope w0"
  have sc: "wld_scope w = ?sc"
    using stands_fields(2) [OF assms(1)] .
  have go: "\<exists>rs'. stands X w0 bs i p rs' n (send i (ReqPull \<lparr>plq_protocol = server_protocol,
      plq_scopes = [\<lparr>sc_scope = ?sc, sc_cursor = (case engine_scope_state (dv_engine (wld_devices w1 ! i)) ?sc of
         None \<Rightarrow> Cursor_START | Some s \<Rightarrow> ss_cursor s)\<rparr>], plq_limit_bytes = None\<rparr>) w1)"
    if w1: "stands X w0 bs i p rs n w1" and fresh: "\<not> needs_reload (dv_engine (wld_devices w1 ! i)) ?sc" for w1
  proof -
    have "coherent db_view (dv_engine (wld_devices w1 ! i))"
      using device_ok_inv(1) [OF stands_device_ok [OF w1]] by (simp add: device_inv_def)
    note cur = memory_cursor [OF this fresh stands_replica [OF w1]]
    have "requests_ok (scope_changes (wld_server w0) ?sc) ?sc p rs"
      using w1 by (simp add: stands_def dev_ok_def)
    then have "requests_ok (scope_changes (wld_server w0) ?sc) ?sc p (rs @ [ReqPull \<lparr>plq_protocol = server_protocol,
        plq_scopes = [\<lparr>sc_scope = ?sc, sc_cursor = Cursor (pos_seq (scope_changes (wld_server w0) ?sc) p)\<rparr>],
        plq_limit_bytes = None\<rparr>])"
      using assms(2,3) by (simp add: requests_ok_def request_ok_def)
    from stands_send [OF w1 this] show ?thesis
      unfolding cur by blast
  qed
  show ?thesis
  proof (cases "needs_reload ?e ?sc")
    case True
    obtain result e where run: "reload_scope sim_storage ?sc ?e = (result, e)"
      by fastforce
    note ok = device_ok_reload [OF stands_device_ok [OF assms(1)] run]
    have w1: "stands X w0 bs i p rs n (set_engine i e w)"
      by (rule stands_engine [OF assms(1)]) (use ok in simp_all)
    have "dv_engine (wld_devices (set_engine i e w) ! i) = e"
      using stands_length [OF assms(1)] by (simp add: set_engine_def)
    then show ?thesis
      using go [OF w1] reload_clears [OF run] w1 True
      by (cases "is_ok result") (auto simp: pull_step_def run sc Let_def simp del: not_None_eq)
  next
    case False
    then show ?thesis
      using go [OF assms(1)] by (simp add: pull_step_def sc Let_def)
  qed
qed

subsection \<open>The turn\<close>

lemma stands_connectivity:
  assumes "stands X w0 bs i p rs n w"
  shows "stands X w0 bs i p rs n (connectivity i w)"
proof -
  have online: "stands X w0 bs i p rs n (upd_device i (set_online b t) w')" if "stands X w0 bs i p rs n w'" for b t w'
    by (rule stands_upd [OF that]) (simp_all add: set_online_def)
  show ?thesis
    using assms online [OF assms] online [OF stands_draws(1) [OF assms]]
    by (simp add: connectivity_def Let_def case_prod_beta)
qed

lemma stands_turn:
  assumes "stands X w0 bs i p [] n w" and "unat n + 1 < 2 ^ 32"
  shows "\<exists>rs n'. (n' = n \<or> n' = n + 1) \<and> stands X w0 bs i p rs n' (device_turn X i w)"
proof -
  define w1 where "w1 = snd (draw_chance (fr_device_restart (wld_rates (connectivity i w))) (connectivity i w))"
  define restart where "restart = fst (draw_chance (fr_device_restart (wld_rates (connectivity i w))) (connectivity i w))"
  define w2 where "w2 = (if restart then world_restart i w1 else w1)"
  define author where "author = (if wld_quiet w2 then (False, w2) else draw_chance 1 w2)"
  define w3 where "w3 = (if fst author then author_command X i (snd author) else snd author)"
  have "stands X w0 bs i p [] n w1"
    unfolding w1_def by (rule stands_draws(1) [OF stands_connectivity [OF assms(1)]])
  then have "stands X w0 bs i p [] n w2"
    unfolding w2_def using stands_restart by simp
  then have "stands X w0 bs i p [] n (snd author)"
    by (simp add: author_def)
  then have "\<exists>n'. (n' = n \<or> n' = n + 1) \<and> stands X w0 bs i p [] n' w3"
    unfolding w3_def using stands_author assms(2) by auto
  then obtain n' where n': "n' = n \<or> n' = n + 1" and w3: "stands X w0 bs i p [] n' w3"
    by blast
  obtain rs where "length rs \<le> 1" "filter is_pull rs = []" "stands X w0 bs i p rs n' (push_step X i w3)"
    using stands_push [OF w3] by blast
  then obtain rs' where "stands X w0 bs i p rs' n' (pull_step i (push_step X i w3))"
    using stands_pull by blast
  moreover have "device_turn X i w = pull_step i (push_step X i w3)"
    by (simp add: device_turn_def w3_def author_def w2_def restart_def w1_def Let_def case_prod_beta)
  ultimately show ?thesis
    using n' by auto
qed

end
