(* ===== verification/Sim_Network.thy ===== *)
theory Sim_Network
  imports Sim_Run
begin

text \<open>
  The network of the simulated world: requests are answered from the server and the answers put in
  flight, in an order that keeps the pulls of one device in the order they were sent; then the answers
  that are due are delivered.
\<close>

section \<open>The server moves on\<close>

definition server_ok :: "world \<Rightarrow> bool" where
  "server_ok w \<longleftrightarrow> srv_ok (wld_entity w) (wld_server w)"

definition seq_room :: "nat \<Rightarrow> world \<Rightarrow> bool" where
  "seq_room k w \<longleftrightarrow> unat (srv_next_seq (wld_server w)) + k \<le> 2 ^ 63"

text \<open>What everything but the engines and the flights is: the same.\<close>

definition steady :: "world \<Rightarrow> world \<Rightarrow> bool" where
  "steady w w' \<longleftrightarrow>
     wld_scope w' = wld_scope w \<and> wld_entity w' = wld_entity w \<and> wld_invariants w' = wld_invariants w \<and>
     wld_now_ms w' = wld_now_ms w \<and> wld_rates w' = wld_rates w \<and>
     wld_registry w' = wld_registry w \<and> wld_quiet w' = wld_quiet w \<and> length (wld_devices w') = length (wld_devices w)"

lemma steady_refl [simp]: "steady w w"
  by (simp add: steady_def)

lemma steady_trans: "steady w w' \<Longrightarrow> steady w' w'' \<Longrightarrow> steady w w''"
  by (simp add: steady_def)

lemma local_steady: "local i w w' \<Longrightarrow> steady w w'"
  by (simp add: steady_def local_def frame_def)

lemma dev_ok_evolves:
  assumes "dev_ok X w bs rs i p d" and "steady w w'"
    and "srv_evolves (wld_entity w) k (wld_server w) (wld_server w')"
  shows "dev_ok X w' bs rs i p d"
proof -
  let ?sc = "wld_scope w"
  let ?C = "scope_changes (wld_server w) ?sc" and ?m = "visible_count (wld_server w) ?sc"
  obtain ext where C': "scope_changes (wld_server w') ?sc = ?C @ ext"
    and m': "?m \<le> visible_count (wld_server w') ?sc"
    using assms(3) unfolding srv_evolves_def srv_grows_def by blast
  have p: "p \<le> ?m" and m: "?m \<le> length ?C"
    using assms(1) visible_count_le by (simp_all add: dev_ok_def)
  have "request_ok (?C @ ext) ?sc p = request_ok ?C ?sc p"
    using p m by (simp add: fun_eq_iff request_ok_def pos_seq_append split: wire_request.splits)
  then have "requests_ok (?C @ ext) ?sc p rs = requests_ok ?C ?sc p rs"
    by (simp add: requests_ok_def)
  then show ?thesis
    using assms(1,2) p m m' replica_append [of ?C ?sc p] queue_ok_grows [of ?C ?m ?sc p bs _ ext]
    unfolding dev_ok_def steady_def by (auto simp: C')
qed

lemma devices_ok_evolves:
  assumes "devices_ok X q r w" and "steady w w'" and "wld_devices w' = wld_devices w"
    and "srv_evolves (wld_entity w) k (wld_server w) (wld_server w')"
  shows "devices_ok X q r w'"
  using assms(1,3) dev_ok_evolves [OF _ assms(2,4)] unfolding devices_ok_def by metis

section \<open>Time\<close>

text \<open>In flight are first the answers that are due, then those of this step.\<close>

definition due_first :: "world \<Rightarrow> bool" where
  "due_first w \<longleftrightarrow> (\<exists>due later. wld_in_flight w = due @ later \<and>
     (\<forall>f \<in> set due. ifl_deliver_at_ms f \<le> wld_now_ms w) \<and>
     (\<forall>f \<in> set later. wld_now_ms w < ifl_deliver_at_ms f \<and> ifl_deliver_at_ms f \<le> wld_now_ms w + STEP_MS))"

definition latency_ok :: "world \<Rightarrow> bool" where
  "latency_ok w \<longleftrightarrow>
     (let (lo, hi) = fr_latency_ms (wld_rates w) in 1 \<le> lo \<and> lo \<le> 59500 \<and> hi \<le> 59500)"

lemma due_first_append:
  assumes "due_first w" and "wld_now_ms w' = wld_now_ms w" and "wld_in_flight w' = wld_in_flight w @ fs"
    and "\<forall>f \<in> set fs. wld_now_ms w < ifl_deliver_at_ms f \<and> ifl_deliver_at_ms f \<le> wld_now_ms w + STEP_MS"
  shows "due_first w'"
proof -
  obtain due later where "wld_in_flight w = due @ later"
    "\<forall>f \<in> set due. ifl_deliver_at_ms f \<le> wld_now_ms w"
    "\<forall>f \<in> set later. wld_now_ms w < ifl_deliver_at_ms f \<and> ifl_deliver_at_ms f \<le> wld_now_ms w + STEP_MS"
    using assms(1) by (auto simp: due_first_def)
  with assms(2-4) show ?thesis
    unfolding due_first_def by (intro exI [of _ due] exI [of _ "later @ fs"]) auto
qed

lemma drawn_within:
  assumes "draw_range a b w = (v, w')"
  shows "a \<le> v" and "b \<le> c \<Longrightarrow> a \<le> c \<Longrightarrow> v \<le> c"
proof -
  have v: "v = fst (rng_range a b (wld_rng w))"
    using assms by (simp add: draw_range_def case_prod_beta)
  have low: "v = a" if "\<not> a \<le> b"
    using v that by (simp add: rng_range_def not_le less_imp_le)
  have inside: "a \<le> v" "v \<le> b" if "a \<le> b"
    using range_within [of a b "wld_rng w"] that by (simp_all add: v)
  show "a \<le> v"
    using low inside(1) by fastforce
  show "v \<le> c" if "b \<le> c" "a \<le> c"
    using low inside(2) that order_trans by blast
qed

lemma draw_range_world:
  assumes "draw_range a b w = (v, w')"
  obtains r where "w' = w\<lparr>wld_rng := r\<rparr>"
  using assms that by (auto simp: draw_range_def case_prod_beta)

section \<open>An answer is put in flight\<close>

lemma dispatch_facts:
  assumes "latency_ok w"
  obtains fs hs r where "dispatch i fault response w =
      w\<lparr>wld_rng := r, wld_in_flight := wld_in_flight w @ fs, wld_held := wld_held w @ hs\<rparr>"
    and "\<forall>f \<in> set (fs @ hs). ifl_device f = i \<and>
      (ifl_response f = Inr response \<or> (\<exists>e. ifl_response f = Inl e))"
    and "\<forall>f \<in> set fs. wld_now_ms w < ifl_deliver_at_ms f \<and> ifl_deliver_at_ms f \<le> wld_now_ms w + STEP_MS"
proof -
  define seen where "seen = (case fault of
      Some Severed \<Rightarrow> Inl (TransportMalformed ''severed mid-batch'')
    | Some MalformedBytes \<Rightarrow> Inl (TransportMalformed ''corrupted bytes'')
    | _ \<Rightarrow> Inr response)"
  have seen: "seen = Inr response \<or> (\<exists>e. seen = Inl e)"
    by (auto simp: seen_def split: option.splits fault.splits)
  obtain lo hi where rates: "fr_latency_ms (wld_rates w) = (lo, hi)"
    by fastforce
  obtain latency w1 where d: "draw_range lo hi w = (latency, w1)"
    by fastforce
  then obtain r1 where w1: "w1 = w\<lparr>wld_rng := r1\<rparr>"
    by (rule draw_range_world)
  have "1 \<le> lo" "lo \<le> 59500" "hi \<le> 59500"
    using assms rates by (simp_all add: latency_ok_def)
  then have "1 \<le> latency" "latency \<le> 59500"
    using drawn_within [OF d] order_trans by blast+
  then have "1 \<le> unat latency" "unat latency \<le> 59500"
    by (simp_all add: word_le_nat_alt)
  then have lat: "1 \<le> int (unat latency)" "int (unat latency) \<le> 59500"
    by linarith+
  define f where "f = \<lparr>ifl_device = i, ifl_deliver_at_ms = wld_now_ms w1 + int (unat latency), ifl_response = seen\<rparr>"
  have now: "wld_now_ms w1 = wld_now_ms w"
    by (simp add: w1)
  have f: "wld_now_ms w < ifl_deliver_at_ms f" "ifl_deliver_at_ms f \<le> wld_now_ms w + 59500"
    "ifl_device f = i" "ifl_response f = seen"
    using lat by (simp_all add: f_def now del: of_nat_unat int_nat_eq unat_of_nat uint_nat)
  obtain v w2 where d2: "draw_range 1 500 w1 = (v, w2)"
    by fastforce
  then obtain r2 where "w2 = w1\<lparr>wld_rng := r2\<rparr>"
    by (rule draw_range_world)
  then have w2: "w2 = w\<lparr>wld_rng := r2\<rparr>"
    by (simp add: w1)
  have "unat v \<le> 500"
    using drawn_within(2) [OF d2, of 500] by (simp add: word_le_nat_alt)
  then have v: "0 \<le> int (unat v)" "int (unat v) \<le> 500"
    by linarith+
  define f' where "f' = f\<lparr>ifl_deliver_at_ms := ifl_deliver_at_ms f + int (unat v)\<rparr>"
  have f': "wld_now_ms w < ifl_deliver_at_ms f'" "ifl_deliver_at_ms f' \<le> wld_now_ms w + 60000"
    "ifl_device f' = i" "ifl_response f' = seen"
    using f v by (simp_all add: f'_def del: of_nat_unat)
  have run: "dispatch i fault response w =
      (case fault of
         Some Duplicated \<Rightarrow> queue_flight f (queue_flight f' w2)
       | Some Reordered \<Rightarrow> w1\<lparr>wld_held := wld_held w1 @ [f]\<rparr>
       | _ \<Rightarrow> queue_flight f w1)"
    unfolding dispatch_def Let_def rates prod.case d seen_def [symmetric] f_def [symmetric] d2
      f'_def [symmetric] by (rule refl)
  consider "fault = Some Duplicated" | "fault = Some Reordered"
    | "dispatch i fault response w = queue_flight f w1"
    using run by (auto split: option.splits fault.splits)
  then show ?thesis
  proof cases
    case 1
    show ?thesis
    proof (rule that [where fs = "[f', f]" and hs = "[]" and r = r2])
      show "dispatch i fault response w = w
          \<lparr>wld_rng := r2, wld_in_flight := wld_in_flight w @ [f', f], wld_held := wld_held w @ []\<rparr>"
        using run by (simp add: 1 queue_flight_def w2)
    qed (use f f' seen in \<open>simp_all add: STEP_MS_def\<close>)
  next
    case 2
    show ?thesis
    proof (rule that [where fs = "[]" and hs = "[f]" and r = r1])
      show "dispatch i fault response w = w
          \<lparr>wld_rng := r1, wld_in_flight := wld_in_flight w @ [], wld_held := wld_held w @ [f]\<rparr>"
        using run by (simp add: 2 w1)
    qed (use f seen in \<open>simp_all add: STEP_MS_def\<close>)
  next
    case 3
    show ?thesis
    proof (rule that [where fs = "[f]" and hs = "[]" and r = r1])
      show "dispatch i fault response w = w
          \<lparr>wld_rng := r1, wld_in_flight := wld_in_flight w @ [f], wld_held := wld_held w @ []\<rparr>"
        by (simp add: 3 queue_flight_def w1)
    qed (use f seen in \<open>simp_all add: STEP_MS_def\<close>)
  qed
qed


section \<open>What leaves the world as it was\<close>

text \<open>Draws, notes, the load and the counts of requests.\<close>

definition uncounted :: "sim_device \<Rightarrow> sim_device" where
  "uncounted d = d\<lparr>dv_requests_sent := 0\<rparr>"

definition calm :: "world \<Rightarrow> world \<Rightarrow> bool" where
  "calm w w' \<longleftrightarrow> frame w' = frame w \<and> map uncounted (wld_devices w') = map uncounted (wld_devices w)"

lemma calm_refl [simp]: "calm w w"
  by (simp add: calm_def)

lemma calm_trans [trans]: "calm w w' \<Longrightarrow> calm w' w'' \<Longrightarrow> calm w w''"
  by (simp add: calm_def)

lemma calm_steps [simp]:
  "calm w (w\<lparr>wld_rng := r\<rparr>)" "calm w (w\<lparr>wld_pressure := p\<rparr>)" "calm w (note_fault i f w)"
  "calm w (note_event i t w)" "calm w (snd (draw_chance c w))" "calm w (snd (draw_range a b w))"
  by (simp_all add: calm_def frame_def note_fault_def note_event_def draw_chance_def draw_range_def case_prod_beta)

lemma calm_counted [simp]: "calm w (upd_device i (\<lambda>d. d\<lparr>dv_requests_sent := f d\<rparr>) w)"
proof (cases "i < length (wld_devices w)")
  case True
  have "(map uncounted (wld_devices w))[i := uncounted (wld_devices w ! i)] = map uncounted (wld_devices w)"
    using True by (simp add: list_update_same_conv)
  then show ?thesis
    by (simp add: calm_def frame_def upd_device_def map_update uncounted_def)
qed (simp add: calm_def frame_def upd_device_def list_update_beyond)

lemma calm_fields:
  assumes "calm w w'"
  shows "wld_server w' = wld_server w" "wld_in_flight w' = wld_in_flight w" "wld_held w' = wld_held w"
    "wld_invariants w' = wld_invariants w" "wld_now_ms w' = wld_now_ms w" "wld_scope w' = wld_scope w"
    "wld_entity w' = wld_entity w" "wld_rates w' = wld_rates w"
    "length (wld_devices w') = length (wld_devices w)" "wld_registry w' = wld_registry w"
    "wld_quiet w' = wld_quiet w"
  using assms by (simp_all add: calm_def frame_def)

lemma dev_ok_uncounted:
  assumes "uncounted d' = uncounted d"
  shows "dev_ok X w bs rs i p d' = dev_ok X w bs rs i p d"
proof -
  have "dv_engine (uncounted d') = dv_engine (uncounted d)"
    "dv_commands_authored (uncounted d') = dv_commands_authored (uncounted d)"
    using assms by simp_all
  then show ?thesis
    by (intro dev_ok_same) (simp_all add: uncounted_def)
qed

section \<open>Answers\<close>

text \<open>The batches queued for a device, and the state of the network.\<close>

definition queued :: "world \<Rightarrow> nat \<Rightarrow> batch list" where
  "queued w i = pulls_for i (wld_in_flight w @ wld_held w)"

definition net_ok :: "externs \<Rightarrow> (nat \<Rightarrow> wire_request list) \<Rightarrow> world \<Rightarrow> bool" where
  "net_ok X r w \<longleftrightarrow> devices_ok X (queued w) r w \<and> server_ok w \<and> due_first w \<and> latency_ok w"

lemma dev_ok_world:
  "wld_server w' = wld_server w \<Longrightarrow> wld_invariants w' = wld_invariants w \<Longrightarrow> wld_scope w' = wld_scope w \<Longrightarrow>
   wld_entity w' = wld_entity w \<Longrightarrow> dev_ok X w' bs rs i p d = dev_ok X w bs rs i p d"
  by (simp add: dev_ok_def)

lemma devices_ok_same:
  assumes "devices_ok X q r w" and "wld_server w' = wld_server w" and "wld_invariants w' = wld_invariants w"
    and "wld_scope w' = wld_scope w" and "wld_entity w' = wld_entity w"
    and "map uncounted (wld_devices w') = map uncounted (wld_devices w)"
  shows "devices_ok X q r w'"
proof -
  have len: "length (wld_devices w') = length (wld_devices w)"
    using assms(6) map_eq_imp_length_eq by blast
  show ?thesis
    unfolding devices_ok_def
  proof (intro allI impI)
    fix i
    assume i: "i < length (wld_devices w')"
    then have "map uncounted (wld_devices w') ! i = map uncounted (wld_devices w) ! i"
      using assms(6) by simp
    then have u: "uncounted (wld_devices w' ! i) = uncounted (wld_devices w ! i)"
      using i len by simp
    obtain p where "dev_ok X w (q i) (r i) i p (wld_devices w ! i)"
      using assms(1) i len by (auto simp: devices_ok_def)
    then have "dev_ok X w' (q i) (r i) i p (wld_devices w' ! i)"
      using dev_ok_uncounted [OF u] dev_ok_world [OF assms(2-5)] by simp
    then show "\<exists>p. dev_ok X w' (q i) (r i) i p (wld_devices w' ! i)" ..
  qed
qed

lemma net_ok_calm:
  assumes "net_ok X r w" and "calm w w'"
  shows "net_ok X r w'"
proof -
  have "queued w' = queued w"
    using assms(2) by (simp add: fun_eq_iff queued_def calm_fields)
  then have "devices_ok X (queued w') r w'"
    using assms(1) calm_fields [OF assms(2)] assms(2) devices_ok_same [of X "queued w" r w w']
    by (simp add: net_ok_def calm_def)
  then show ?thesis
    using assms(1) calm_fields [OF assms(2)] by (simp add: net_ok_def server_ok_def due_first_def latency_ok_def)
qed


text \<open>A pull is answered with the next stretch, possibly with its last change repeated.\<close>

lemma repeat_last_change_batch:
  assumes "repeat_last_change response = (rep, broken)" and "plr_batches response = [b]"
  shows "\<exists>b'. plr_batches broken = [b'] \<and> (b' = b \<or> repeats b' \<and> bat_scope b' = bat_scope b \<and>
    bat_next_cursor b' = bat_next_cursor b \<and> set (bat_changes b') = set (bat_changes b))"
proof (cases "bat_changes b = []")
  case False
  then have "bat_changes b @ [last (bat_changes b)] = butlast (bat_changes b) @ [last (bat_changes b), last (bat_changes b)]"
    by (metis append.assoc append_Cons append_Nil append_butlast_last_id)
  then have "repeats (b\<lparr>bat_changes := bat_changes b @ [last (bat_changes b)]\<rparr>)"
    unfolding repeats_def by auto
  then show ?thesis
    using assms False by (auto simp: repeat_last_change_def)
qed (use assms in \<open>auto simp: repeat_last_change_def\<close>)

lemma answer_pull_facts:
  assumes "answer X i hostile (ReqPull q) w = (a, w')" and "plq_scopes q = [sc]"
  obtains P b where "a = Some (RespPull P)" and "plr_batches P = [b]" and "calm w w'"
    and "b = pull_scope X (wld_server w) PULL_LIMIT (pressure_budget (wld_pressure w)) sc \<or>
      repeats b \<and> bat_scope b = bat_scope (pull_scope X (wld_server w) PULL_LIMIT (pressure_budget (wld_pressure w)) sc) \<and>
      bat_next_cursor b = bat_next_cursor (pull_scope X (wld_server w) PULL_LIMIT (pressure_budget (wld_pressure w)) sc) \<and>
      set (bat_changes b) = set (bat_changes (pull_scope X (wld_server w) PULL_LIMIT (pressure_budget (wld_pressure w)) sc))"
proof -
  let ?b = "pull_scope X (wld_server w) PULL_LIMIT (pressure_budget (wld_pressure w)) sc"
  define pulled where "pulled = srv_pull X q PULL_LIMIT (pressure_budget (wld_pressure w)) (wld_server w)"
  have one: "plr_batches pulled = [?b]"
    by (simp add: pulled_def srv_pull_def assms(2))
  obtain rep broken where rl: "repeat_last_change pulled = (rep, broken)"
    by fastforce
  obtain b' where b': "plr_batches broken = [b']" "b' = ?b \<or> repeats b' \<and> bat_scope b' = bat_scope ?b \<and>
      bat_next_cursor b' = bat_next_cursor ?b \<and> set (bat_changes b') = set (bat_changes ?b)"
    using repeat_last_change_batch [OF rl one] by blast
  have run: "answer X i hostile (ReqPull q) w =
      (if hostile \<and> rep then (Some (RespPull broken), note_fault i ProtocolViolation w)
       else (Some (RespPull pulled), w))"
    by (simp add: answer_def answer_pull_def Let_def rl flip: pulled_def)
  show ?thesis
    using that [OF _ b'(1) _ b'(2)] that [OF _ one] assms(1) run by (cases "hostile \<and> rep") auto
qed

lemma answer_push_facts:
  assumes "answer X i hostile (ReqPush q) w = (a, w')" and "length (psq_commands q) \<le> 256"
    and "server_ok w" and "seq_room 256 w"
  obtains P s where "a = Some (RespPush P)" and "calm (w\<lparr>wld_server := s\<rparr>) w'"
    and "srv_evolves (wld_entity w) 256 (wld_server w) s"
proof -
  obtain accepted p where ac: "accept_count (length (psq_commands q)) (wld_pressure w) = (accepted, p)"
    by fastforce
  obtain pushed s r where push: "push_prefix X q accepted (wld_server w, wld_rng w) = (pushed, s, r)"
    by (metis prod_cases3)
  obtain rep broken where rl: "repeat_last_result pushed = (rep, broken)"
    by fastforce
  have small: "min accepted (length (psq_commands q)) \<le> 256"
    using assms(2) by simp
  have "srv_evolves (wld_entity w) 256 (wld_server w) s"
    using push_prefix_evolves [OF push] assms(3,4) small srv_evolves_mono
    unfolding server_ok_def seq_room_def by (meson add_le_mono le_refl order_trans)
  note ev = this
  define w1 where "w1 = w\<lparr>wld_pressure := p, wld_server := s, wld_rng := r\<rparr>"
  have c: "calm (w\<lparr>wld_server := s\<rparr>) w1"
    by (simp add: calm_def frame_def w1_def)
  have "answer X i hostile (ReqPush q) w =
      (if hostile \<and> rep then (Some (RespPush broken), note_fault i ProtocolViolation w1)
       else (Some (RespPush pushed), w1))"
    by (simp add: answer_def answer_push_def Let_def ac push rl w1_def)
  then have "w' = w1 \<or> w' = note_fault i ProtocolViolation w1" and "\<exists>P. a = Some (RespPush P)"
    using assms(1) by (auto split: if_splits)
  then show ?thesis
    using that [OF _ _ ev] c calm_trans [OF c calm_steps(3)] by blast
qed

text \<open>What carrying one request comes to.\<close>

lemma carry_one_run:
  obtains "calm w (carry_one X i req w)"
  | hostile w1 w2 where "calm w w1" "answer X i hostile req w1 = (None, w2)" "carry_one X i req w = w2"
  | hostile fault w1 response w2 where "calm w w1" "answer X i hostile req w1 = (Some response, w2)"
      "carry_one X i req w = dispatch i fault response w2"
proof -
  define w1 where "w1 = upd_device i (\<lambda>d. d\<lparr>dv_requests_sent := dv_requests_sent d + 1\<rparr>) w"
  obtain fault r where f: "decide_response (wld_rates w1) (dv_requests_sent (wld_devices w1 ! i)) (wld_rng w1) = (fault, r)"
    by fastforce
  define w2 where "w2 = (case fault of None \<Rightarrow> w1\<lparr>wld_rng := r\<rparr> | Some f \<Rightarrow> note_fault i f (w1\<lparr>wld_rng := r\<rparr>))"
  have "calm w w1"
    by (simp add: w1_def)
  also have "calm w1 (w1\<lparr>wld_rng := r\<rparr>)"
    by simp
  also have "calm (w1\<lparr>wld_rng := r\<rparr>) w2"
    by (simp add: w2_def split: option.split)
  finally have w2: "calm w w2" .
  obtain hostile w3 where d: "draw_chance (fr_protocol_violation (wld_rates w2)) w2 = (hostile, w3)"
    by fastforce
  have w3: "calm w w3"
    using calm_trans [OF w2] calm_steps(5) d by (metis snd_conv)
  obtain a w4 where a: "answer X i hostile req w3 = (a, w4)"
    by fastforce
  have "carry_one X i req w = (if fault = Some Dropped then w2
      else case a of None \<Rightarrow> w4 | Some response \<Rightarrow> dispatch i fault response w4)"
    unfolding carry_one_def Let_def w1_def [symmetric] f prod.case w2_def [symmetric] d a
    by (simp split: option.split)
  then show ?thesis
    using that w2 w3 a by (cases "fault = Some Dropped"; cases a) auto
qed


section \<open>Carrying the requests of one device\<close>

lemma pulls_of_copies:
  assumes "\<forall>f \<in> set fl. ifl_device f = i \<and> (ifl_response f = Inr R \<or> (\<exists>e. ifl_response f = Inl e))"
  shows "j \<noteq> i \<Longrightarrow> pulls_for j fl = []" and "batches_in (Inr R) = [] \<Longrightarrow> pulls_for i fl = []"
    and "batches_in (Inr R) = [b] \<Longrightarrow> \<exists>n. pulls_for i fl = replicate n b"
proof -
  show "j \<noteq> i \<Longrightarrow> pulls_for j fl = []"
    using assms by (induction fl) auto
  have none: "batches_in (Inl e) = []" for e
    by (simp add: batches_in_def)
  show "batches_in (Inr R) = [] \<Longrightarrow> pulls_for i fl = []"
    using assms by (induction fl) (auto simp: none)
  show "\<exists>n. pulls_for i fl = replicate n b" if "batches_in (Inr R) = [b]"
    using assms
  proof (induction fl)
    case Nil
    then show ?case
      by (intro exI [of _ 0]) simp
  next
    case (Cons f fl)
    then obtain n where n: "pulls_for i fl = replicate n b"
      by auto
    have "batches_in (ifl_response f) = [b] \<or> batches_in (ifl_response f) = []" "ifl_device f = i"
      using Cons.prems that none by auto
    then show ?case
      using n by (auto intro: exI [of _ "Suc n"] exI [of _ n])
  qed
qed

lemma queue_ok_copies:
  assumes "queue_ok cs m sc p bs" and "ascending cs" and "m \<le> length cs"
    and "bat_scope b = sc" and "p + n \<le> m" and "n = 0 \<longrightarrow> p = m"
    and "bat_next_cursor b = Cursor (pos_seq cs (p + n))" and "bat_changes b = take n (drop p cs) \<or> repeats_in cs b"
  shows "queue_ok cs m sc p (bs @ replicate k b)"
proof (induction k)
  case (Suc k)
  then show ?case
    using queue_ok_snoc [OF Suc assms(2-8)] by (simp flip: replicate_append_same)
qed (simp add: assms(1))

definition carried :: "nat \<Rightarrow> nat \<Rightarrow> world \<Rightarrow> world \<Rightarrow> bool" where
  "carried k i w w' \<longleftrightarrow>
     steady w w' \<and> srv_evolves (wld_entity w) k (wld_server w) (wld_server w') \<and>
     map uncounted (wld_devices w') = map uncounted (wld_devices w) \<and>
     (\<forall>j. j \<noteq> i \<longrightarrow> pulls_for j (wld_held w') = pulls_for j (wld_held w))"

lemma carried_trans: "carried j i w w' \<Longrightarrow> carried k i w' w'' \<Longrightarrow> carried (j + k) i w w''"
  unfolding carried_def using steady_trans [of w w' w''] srv_evolves_trans by (auto simp: steady_def)

lemma net_ok_wf: "net_ok X r w \<Longrightarrow> srv_wf (wld_server w)"
  by (simp add: net_ok_def server_ok_def srv_ok_def)

lemma carried_calm: "net_ok X r w \<Longrightarrow> calm w w' \<Longrightarrow> carried k i w w'"
  using calm_fields [of w w'] srv_evolves_refl [OF net_ok_wf] by (simp add: carried_def steady_def calm_def)

lemma net_ok_answered:
  assumes "net_ok X r w" and "r i = req # rest"
  shows "net_ok X (r(i := rest)) w"
proof -
  have "dev_ok X w bs rest i p d" if "dev_ok X w bs (r i) i p d" for bs p d
    using that assms(2) requests_ok_simps(2) by (auto simp: dev_ok_def)
  then show ?thesis
    using assms(1) unfolding net_ok_def devices_ok_def by (metis fun_upd_apply)
qed

text \<open>The server evolves and the network notices nothing.\<close>

lemma net_ok_server:
  assumes ok: "net_ok X r w" and ev: "srv_evolves (wld_entity w) k (wld_server w) s" and room: "seq_room k w"
  shows "net_ok X r (w\<lparr>wld_server := s\<rparr>)"
proof -
  let ?w = "w\<lparr>wld_server := s\<rparr>"
  have "devices_ok X (queued w) r ?w"
  proof (rule devices_ok_evolves)
    show "devices_ok X (queued w) r w"
      using ok by (simp add: net_ok_def)
    show "srv_evolves (wld_entity w) k (wld_server w) (wld_server ?w)"
      using ev by simp
  qed (simp_all add: steady_def)
  moreover have "queued ?w = queued w"
    by (simp add: fun_eq_iff queued_def)
  moreover have "server_ok ?w"
    using srv_ok_evolves [OF _ ev] ok room by (simp add: net_ok_def server_ok_def seq_room_def)
  ultimately show ?thesis
    using ok by (simp add: net_ok_def due_first_def latency_ok_def)
qed

definition fits_client :: "externs \<Rightarrow> nat \<Rightarrow> wire_response \<Rightarrow> (nat \<Rightarrow> wire_request list) \<Rightarrow> world \<Rightarrow> bool" where
  "fits_client X i R r w \<longleftrightarrow>
     (\<exists>b p. batches_in (Inr R) = [b] \<and> pulls_for i (wld_held w) = [] \<and>
        dev_ok X w (queued w i) (r i) i p (wld_devices w ! i) \<and>
        (\<forall>k. queue_ok (scope_changes (wld_server w) (wld_scope w)) (visible_count (wld_server w) (wld_scope w))
           (wld_scope w) p (queued w i @ replicate k b)))"

lemma dispatch_ok:
  assumes ok: "net_ok X r w" and R: "batches_in (Inr R) = [] \<or> fits_client X i R r w"
  shows "net_ok X r (dispatch i fault R w)" and "carried k i w (dispatch i fault R w)"
    and "batches_in (Inr R) = [] \<Longrightarrow> pulls_for i (wld_held (dispatch i fault R w)) = pulls_for i (wld_held w)"
proof -
  have lat: "latency_ok w"
    using ok by (simp add: net_ok_def)
  obtain fs hs s where w': "dispatch i fault R w =
      w\<lparr>wld_rng := s, wld_in_flight := wld_in_flight w @ fs, wld_held := wld_held w @ hs\<rparr>"
    and copies: "\<forall>f \<in> set (fs @ hs). ifl_device f = i \<and> (ifl_response f = Inr R \<or> (\<exists>e. ifl_response f = Inl e))"
    and time: "\<forall>f \<in> set fs. wld_now_ms w < ifl_deliver_at_ms f \<and> ifl_deliver_at_ms f \<le> wld_now_ms w + STEP_MS"
    by (rule dispatch_facts [OF lat, of i fault R]) (rule that)
  let ?w' = "dispatch i fault R w"
  note pulls = pulls_of_copies [OF copies]
  have other: "pulls_for j fs = []" "pulls_for j hs = []" if "j \<noteq> i" for j
    using pulls(1) [OF that] by simp_all
  have quiet: "pulls_for i fs = []" "pulls_for i hs = []" if "batches_in (Inr R) = []"
    using pulls(2) that by simp_all
  show "batches_in (Inr R) = [] \<Longrightarrow> pulls_for i (wld_held ?w') = pulls_for i (wld_held w)"
    using quiet by (simp add: w')
  show "carried k i w ?w'"
    using other net_ok_wf [OF ok] by (simp add: carried_def w' steady_def srv_evolves_refl)
  have same: "dev_ok X ?w' bs rs j p d = dev_ok X w bs rs j p d" for bs rs j p d
    by (rule dev_ok_world) (simp_all add: w')
  have "\<exists>p. dev_ok X ?w' (queued ?w' j) (r j) j p (wld_devices ?w' ! j)" if j: "j < length (wld_devices ?w')" for j
  proof -
    obtain p where p: "dev_ok X w (queued w j) (r j) j p (wld_devices w ! j)"
      using ok j unfolding net_ok_def devices_ok_def w' by auto
    show ?thesis
    proof (cases "j = i \<and> batches_in (Inr R) \<noteq> []")
      case True
      then obtain b p where b: "batches_in (Inr R) = [b]" "pulls_for i (wld_held w) = []"
        and i: "dev_ok X w (queued w i) (r i) i p (wld_devices w ! i)"
        and room: "\<And>k. queue_ok (scope_changes (wld_server w) (wld_scope w)) (visible_count (wld_server w) (wld_scope w))
           (wld_scope w) p (queued w i @ replicate k b)"
        using R by (auto simp: fits_client_def)
      obtain n where "pulls_for i (fs @ hs) = replicate n b"
        using pulls(3) [OF b(1)] by blast
      then have "queued ?w' i = queued w i @ replicate n b"
        using b(2) by (simp add: queued_def w')
      then have "dev_ok X w (queued ?w' i) (r i) i p (wld_devices w ! i)"
        using i room by (simp add: dev_ok_def)
      then show ?thesis
        using True same by (auto simp: w')
    next
      case False
      then have "queued ?w' j = queued w j"
        using other quiet by (cases "j = i") (simp_all add: queued_def w')
      then show ?thesis
        using p same by (auto simp: w')
    qed
  qed
  moreover have "due_first ?w'"
  proof (rule due_first_append)
    show "due_first w"
      using ok by (simp add: net_ok_def)
    show "wld_in_flight ?w' = wld_in_flight w @ fs" "wld_now_ms ?w' = wld_now_ms w"
      by (simp_all add: w')
  qed (rule time)
  ultimately show "net_ok X r ?w'"
    using ok by (simp add: net_ok_def devices_ok_def server_ok_def latency_ok_def w')
qed


lemma pull_fits:
  assumes ok: "net_ok X r w" and enc: "encodes_all X" and i: "i < length (wld_devices w)"
    and req: "ReqPull q \<in> set (r i)" and free: "pulls_for i (wld_held w) = []"
    and a: "answer X i hostile (ReqPull q) w = (a, w')"
  shows "\<exists>R. a = Some R \<and> calm w w' \<and> fits_client X i R r w'"
proof -
  let ?sc = "wld_scope w" and ?s = "wld_server w"
  let ?C = "scope_changes ?s ?sc" and ?m = "visible_count ?s ?sc"
  obtain p where p: "dev_ok X w (queued w i) (r i) i p (wld_devices w ! i)"
    using ok i unfolding net_ok_def devices_ok_def by blast
  then have pm: "p \<le> ?m" and queue: "queue_ok ?C ?m ?sc p (queued w i)" and reqs: "requests_ok ?C ?sc p (r i)"
    by (simp_all add: dev_ok_def)
  have q: "plq_scopes q = [\<lparr>sc_scope = ?sc, sc_cursor = Cursor (pos_seq ?C p)\<rparr>]"
    using reqs req by (auto simp: requests_ok_def list_all_iff request_ok_def)
  obtain P b where P: "a = Some (RespPull P)" "plr_batches P = [b]" "calm w w'"
    and b: "b = pull_scope X ?s PULL_LIMIT (pressure_budget (wld_pressure w)) \<lparr>sc_scope = ?sc, sc_cursor = Cursor (pos_seq ?C p)\<rparr> \<or>
      repeats b \<and> bat_scope b = bat_scope (pull_scope X ?s PULL_LIMIT (pressure_budget (wld_pressure w)) \<lparr>sc_scope = ?sc, sc_cursor = Cursor (pos_seq ?C p)\<rparr>) \<and>
      bat_next_cursor b = bat_next_cursor (pull_scope X ?s PULL_LIMIT (pressure_budget (wld_pressure w)) \<lparr>sc_scope = ?sc, sc_cursor = Cursor (pos_seq ?C p)\<rparr>) \<and>
      set (bat_changes b) = set (bat_changes (pull_scope X ?s PULL_LIMIT (pressure_budget (wld_pressure w)) \<lparr>sc_scope = ?sc, sc_cursor = Cursor (pos_seq ?C p)\<rparr>))"
    by (rule answer_pull_facts [OF a q]) (rule that)
  have srv: "srv_wf ?s" "srv_guard ?s" "unat (srv_next_seq ?s) \<le> 2 ^ 63"
    using ok by (simp_all add: net_ok_def server_ok_def srv_ok_def)
  obtain n where n: "p + n \<le> ?m" "n = 0 \<longleftrightarrow> p = ?m" "bat_scope b = ?sc"
      "bat_next_cursor b = Cursor (pos_seq ?C (p + n))" "bat_changes b = take n (drop p ?C) \<or> repeats_in ?C b"
    using pull_scope_position [OF srv(1,2) enc pm srv(3), of PULL_LIMIT "pressure_budget (wld_pressure w)"] b
    by (auto simp: PULL_LIMIT_def repeats_in_def set_stretch)
  have copies: "queue_ok ?C ?m ?sc p (queued w i @ replicate k b)" for k
    by (rule queue_ok_copies [OF queue scope_changes_ascending [OF srv(1)] visible_count_le n(3,1) _ n(4,5)])
      (simp add: n(2))
  note f = calm_fields [OF P(3)]
  have "queued w' i = queued w i"
    by (simp add: queued_def f)
  moreover have "dev_ok X w' (queued w i) (r i) i p (wld_devices w' ! i)"
  proof -
    have "map uncounted (wld_devices w') ! i = map uncounted (wld_devices w) ! i"
      using P(3) by (simp add: calm_def)
    then have "uncounted (wld_devices w' ! i) = uncounted (wld_devices w ! i)"
      using i f(9) by simp
    from dev_ok_uncounted [OF this] show ?thesis
      using p by (simp add: dev_ok_world [OF f(1,4,6,7)])
  qed
  ultimately have "fits_client X i (RespPull P) r w'"
    using copies P(2) free by (auto simp: fits_client_def batches_in_def f)
  then show ?thesis
    using P(1,3) by blast
qed

text \<open>One request carried.\<close>

lemma carry_one_ok:
  assumes ok: "net_ok X r w" and reqs: "r i = req # rest" and i: "i < length (wld_devices w)"
    and enc: "encodes_all X" and room: "seq_room 256 w"
    and free: "is_pull req \<Longrightarrow> pulls_for i (wld_held w) = []"
  shows "net_ok X (r(i := rest)) (carry_one X i req w)" and "carried 256 i w (carry_one X i req w)"
    and "\<not> is_pull req \<Longrightarrow> pulls_for i (wld_held (carry_one X i req w)) = pulls_for i (wld_held w)"
proof -
  let ?w' = "carry_one X i req w"
  let ?P = "\<lambda>w'. net_ok X r w' \<and> carried 256 i w w' \<and>
    (\<not> is_pull req \<longrightarrow> pulls_for i (wld_held w') = pulls_for i (wld_held w))"
  have calm: "?P w'" if "calm w w'" for w'
    using net_ok_calm [OF ok that] carried_calm [OF ok that] calm_fields(3) [OF that] by simp
  have "?P ?w'"
  proof (rule carry_one_run [of w X i req])
    show "calm w ?w' \<Longrightarrow> ?P ?w'"
      by (rule calm)
  next
    fix hostile w1 w2
    assume "calm w w1" "answer X i hostile req w1 = (None, w2)" "?w' = w2"
    then show "?P ?w'"
      using calm [of w1] by (cases req) (auto simp: answer_def case_prod_beta Let_def)
  next
    fix hostile fault w1 response w2
    assume w1: "calm w w1" and a: "answer X i hostile req w1 = (Some response, w2)"
      and run: "?w' = dispatch i fault response w2"
    note f = calm_fields [OF w1]
    have ok1: "net_ok X r w1" and c1: "carried 0 i w w1"
      by (rule net_ok_calm [OF ok w1], rule carried_calm [OF ok w1])
    have through: "?P ?w'"
      if w2: "net_ok X r w2" "carried 256 i w1 w2" "batches_in (Inr response) = [] \<or> is_pull req \<and> fits_client X i response r w2"
        "\<not> is_pull req \<Longrightarrow> pulls_for i (wld_held w2) = pulls_for i (wld_held w)"
    proof -
      have R: "batches_in (Inr response) = [] \<or> fits_client X i response r w2"
        using w2(3) by blast
      have "carried 256 i w w2"
        using carried_trans [OF c1 w2(2)] by simp
      then have "carried 256 i w ?w'"
        using carried_trans [OF _ dispatch_ok(2) [OF w2(1) R, of 0]] unfolding run by fastforce
      moreover have "net_ok X r ?w'"
        unfolding run by (rule dispatch_ok(1) [OF w2(1) R])
      moreover have "pulls_for i (wld_held ?w') = pulls_for i (wld_held w)" if "\<not> is_pull req"
        using dispatch_ok(3) [OF w2(1) R] w2(3,4) that unfolding run by simp
      ultimately show ?thesis by blast
    qed
    show "?P ?w'"
    proof (cases req)
      case (ReqPull q)
      have "ReqPull q \<in> set (r i)" "pulls_for i (wld_held w1) = []"
        using reqs free ReqPull f(3) by simp_all
      then have c2: "calm w1 w2" "fits_client X i response r w2"
        using pull_fits [OF ok1 enc _ _ _ a [unfolded ReqPull]] i f(9) by auto
      then show ?thesis
        using through [OF net_ok_calm [OF ok1 c2(1)] carried_calm [OF ok1 c2(1)]] ReqPull by simp
    next
      case (ReqPush q)
      have "length (psq_commands q) \<le> 256"
      proof -
        obtain p where "requests_ok (scope_changes (wld_server w) (wld_scope w)) (wld_scope w) p (r i)"
          using ok i unfolding net_ok_def devices_ok_def dev_ok_def by blast
        then show ?thesis
          by (simp add: reqs ReqPush requests_ok_def request_ok_def)
      qed
      moreover have room1: "server_ok w1" "seq_room 256 w1"
        using ok1 room f(1) by (simp_all add: net_ok_def seq_room_def)
      ultimately obtain P s where P: "response = RespPush P" "calm (w1\<lparr>wld_server := s\<rparr>) w2"
        "srv_evolves (wld_entity w1) 256 (wld_server w1) s"
        using answer_push_facts [OF a [unfolded ReqPush]] by (metis option.inject)
      have ok2: "net_ok X r (w1\<lparr>wld_server := s\<rparr>)"
        by (rule net_ok_server [OF ok1 P(3) room1(2)])
      have "carried 256 i w1 (w1\<lparr>wld_server := s\<rparr>)"
        using P(3) by (simp add: carried_def steady_def)
      then have "carried 256 i w1 w2"
        using carried_trans [of 256 i w1 _ 0 w2] carried_calm [OF ok2 P(2)] by simp
      moreover have "pulls_for i (wld_held w2) = pulls_for i (wld_held w)"
        using calm_fields(3) [OF P(2)] f(3) by simp
      ultimately show ?thesis
        using through [OF net_ok_calm [OF ok2 P(2)]] by (simp add: P(1) batches_in_def)
    next
      case (ReqBootstrap q)
      then show ?thesis
        using a by (simp add: answer_def)
    qed
  qed
  then show "net_ok X (r(i := rest)) ?w'" "carried 256 i w ?w'"
    "\<not> is_pull req \<Longrightarrow> pulls_for i (wld_held ?w') = pulls_for i (wld_held w)"
    using net_ok_answered [of X r ?w' i req rest] reqs by blast+
qed

end
