(* ===== verification/Sim_Carry.thy ===== *)
theory Sim_Carry
  imports Sim_Network
begin

text \<open>
  A whole round of the network, and the delivery of what is due. Between the two the answers in flight
  are those that are due, then those of this minute, then those held back.
\<close>

section \<open>One device's requests\<close>

lemma carried_room: "carried j i w w' \<Longrightarrow> seq_room (j + k) w \<Longrightarrow> seq_room k w'"
  by (simp add: carried_def srv_evolves_def seq_room_def)

lemma carried_length: "carried k i w w' \<Longrightarrow> length (wld_devices w') = length (wld_devices w)"
  by (simp add: carried_def steady_def)

lemma carry_requests_ok:
  "net_ok X r w \<Longrightarrow> r i = map obd_request outs \<Longrightarrow> i < length (wld_devices w) \<Longrightarrow> encodes_all X \<Longrightarrow>
   seq_room (256 * length outs) w \<Longrightarrow> length (filter is_pull (r i)) \<le> 1 \<Longrightarrow>
   filter is_pull (r i) \<noteq> [] \<longrightarrow> pulls_for i (wld_held w) = [] \<Longrightarrow>
   net_ok X (r(i := [])) (fold (\<lambda>out. carry_one X i (obd_request out)) outs w) \<and>
   carried (256 * length outs) i w (fold (\<lambda>out. carry_one X i (obd_request out)) outs w)"
proof (induction outs arbitrary: r w)
  case Nil
  then have "r(i := []) = r"
    by (simp add: fun_eq_iff)
  then show ?case
    using Nil.prems carried_calm [OF Nil.prems(1) calm_refl] by simp
next
  case (Cons out outs)
  let ?w1 = "carry_one X i (obd_request out) w"
  let ?r1 = "r(i := map obd_request outs)"
  have reqs: "r i = obd_request out # map obd_request outs"
    using Cons.prems(2) by simp
  have free: "is_pull (obd_request out) \<Longrightarrow> pulls_for i (wld_held w) = []"
    using Cons.prems(7) reqs by simp
  have room: "seq_room 256 w"
    using Cons.prems(5) by (simp add: seq_room_def)
  note one = carry_one_ok [OF Cons.prems(1) reqs Cons.prems(3,4) room free]
  have rest: "filter is_pull (?r1 i) \<noteq> [] \<longrightarrow> pulls_for i (wld_held ?w1) = []"
    using Cons.prems(6,7) one(3) reqs by (cases "is_pull (obd_request out)") (auto simp: filter_map)
  have "net_ok X (?r1(i := [])) (fold (\<lambda>out. carry_one X i (obd_request out)) outs ?w1) \<and>
      carried (256 * length outs) i ?w1 (fold (\<lambda>out. carry_one X i (obd_request out)) outs ?w1)"
  proof (rule Cons.IH [OF one(1) _ _ Cons.prems(4) _ _ rest])
    show "seq_room (256 * length outs) ?w1"
      using carried_room [OF one(2)] Cons.prems(5) by simp
    show "i < length (wld_devices ?w1)"
      using carried_length [OF one(2)] Cons.prems(3) by simp
    show "length (filter is_pull (?r1 i)) \<le> 1"
      using Cons.prems(6) reqs by (simp split: if_splits)
  qed simp_all
  then have "net_ok X (r(i := [])) (fold (\<lambda>out. carry_one X i (obd_request out)) outs ?w1)"
    "carried (256 + 256 * length outs) i w (fold (\<lambda>out. carry_one X i (obd_request out)) outs ?w1)"
    using carried_trans [OF one(2)] unfolding fun_upd_upd by blast+
  then show ?case
    by (simp only: fold_simps length_Cons mult_Suc_right simp_thms)
qed

text \<open>The transport is drained, then its requests are carried.\<close>

definition drained :: "nat \<Rightarrow> world \<Rightarrow> world" where
  "drained i = upd_device i (\<lambda>d. d\<lparr>dv_transport := (dv_transport d)\<lparr>tra_pending := []\<rparr>\<rparr>)"

lemma carry_device_run:
  "carry_device X i w =
     fold (\<lambda>out. carry_one X i (obd_request out)) (tra_pending (dv_transport (wld_devices w ! i))) (drained i w)"
proof -
  have "upd_device i (\<lambda>d. d\<lparr>dv_transport := (dv_transport (wld_devices w ! i))\<lparr>tra_pending := []\<rparr>\<rparr>) w = drained i w"
    by (simp add: drained_def upd_device_def)
  then show ?thesis
    by (simp add: carry_device_def transport_drain_def)
qed

lemma drained_ok:
  assumes "net_ok X r w"
  shows "net_ok X r (drained i w)"
proof -
  let ?w' = "drained i w"
  have l: "local i w ?w'"
    by (simp add: drained_def)
  note f = local_fields [OF l]
  have "devices_ok X (queued w) r ?w'"
  proof (rule devices_ok_local [OF _ l])
    show "devices_ok X (queued w) r w"
      using assms by (simp add: net_ok_def)
    assume i: "i < length (wld_devices w)"
    then obtain p where "dev_ok X w (queued w i) (r i) i p (wld_devices w ! i)"
      using assms unfolding net_ok_def devices_ok_def by blast
    then show "\<exists>p. dev_ok X w (queued w i) (r i) i p (wld_devices ?w' ! i)"
      using i by (auto simp: drained_def dev_ok_def)
  qed simp
  moreover have "queued ?w' = queued w"
    by (simp add: fun_eq_iff queued_def f)
  ultimately show ?thesis
    using assms f by (simp add: net_ok_def server_ok_def due_first_def latency_ok_def)
qed

lemma carry_device_ok:
  assumes ok: "net_ok X r w" and i: "i < length (wld_devices w)" and here: "handed w i = r i"
    and enc: "encodes_all X" and room: "seq_room 512 w" and free: "pulls_for i (wld_held w) = []"
  shows "net_ok X (r(i := [])) (carry_device X i w)" and "carried 512 i (drained i w) (carry_device X i w)"
proof -
  let ?outs = "tra_pending (dv_transport (wld_devices w ! i))"
  let ?w1 = "drained i w"
  have l: "local i w ?w1"
    by (simp add: drained_def)
  note f = local_fields [OF l]
  obtain p where "requests_ok (scope_changes (wld_server w) (wld_scope w)) (wld_scope w) p (r i)"
    using ok i unfolding net_ok_def devices_ok_def dev_ok_def by blast
  moreover have "length ?outs = length (r i)"
    by (simp add: handed_def flip: here)
  ultimately have few: "length (filter is_pull (r i)) \<le> 1" "length ?outs \<le> 2"
    by (simp_all add: requests_ok_def)
  have ok1: "net_ok X r ?w1"
    by (rule drained_ok [OF ok])
  have "net_ok X (r(i := [])) (carry_device X i w) \<and> carried (256 * length ?outs) i ?w1 (carry_device X i w)"
    unfolding carry_device_run
    by (rule carry_requests_ok [OF ok1 _ _ enc]) (use here i f few room free in \<open>simp_all add: handed_def seq_room_def\<close>)
  moreover from this have "carried 512 i ?w1 (carry_device X i w)"
    using few(2) srv_evolves_mono [of "wld_entity ?w1" "256 * length ?outs" _ _ 512] by (auto simp: carried_def)
  ultimately show "net_ok X (r(i := [])) (carry_device X i w)" "carried 512 i ?w1 (carry_device X i w)"
    by blast+
qed


section \<open>The whole round\<close>

text \<open>The first \<open>n\<close> devices have been served.\<close>

definition authored_counts :: "world \<Rightarrow> u32 list" where
  "authored_counts w = map dv_commands_authored (wld_devices w)"

definition serving :: "externs \<Rightarrow> world \<Rightarrow> nat \<Rightarrow> world \<Rightarrow> bool" where
  "serving X w n w' \<longleftrightarrow>
     net_ok X (\<lambda>i. if i < n then [] else handed w i) w' \<and> steady w w' \<and>
     srv_evolves (wld_entity w) (512 * n) (wld_server w) (wld_server w') \<and>
     (\<forall>i \<ge> n. pulls_for i (wld_held w') = []) \<and>
     (\<forall>i < length (wld_devices w). handed w' i = (if i < n then [] else handed w i)) \<and>
     authored_counts w' = authored_counts w"

lemma uncounted_handed:
  assumes "map uncounted (wld_devices w') = map uncounted (wld_devices w)"
  shows "i < length (wld_devices w) \<Longrightarrow> handed w' i = handed w i" and "authored_counts w' = authored_counts w"
proof -
  have "map dv_commands_authored (map uncounted (wld_devices w')) = map dv_commands_authored (map uncounted (wld_devices w))"
    using assms by simp
  then show "authored_counts w' = authored_counts w"
    by (simp add: authored_counts_def uncounted_def comp_def)
  assume i: "i < length (wld_devices w)"
  have len: "length (wld_devices w') = length (wld_devices w)"
    using assms map_eq_imp_length_eq by blast
  have "map uncounted (wld_devices w') ! i = map uncounted (wld_devices w) ! i"
    using assms by simp
  then have "uncounted (wld_devices w' ! i) = uncounted (wld_devices w ! i)"
    using i len by simp
  then have "dv_transport (uncounted (wld_devices w' ! i)) = dv_transport (uncounted (wld_devices w ! i))"
    by simp
  then show "handed w' i = handed w i"
    by (simp add: handed_def uncounted_def)
qed

lemma drained_fields:
  "i < length (wld_devices w) \<Longrightarrow> j < length (wld_devices w) \<Longrightarrow>
   handed (drained i w) j = (if j = i then [] else handed w j)"
  "authored_counts (drained i w) = authored_counts w" "wld_held (drained i w) = wld_held w"
  "wld_entity (drained i w) = wld_entity w" "wld_server (drained i w) = wld_server w"
  "length (wld_devices (drained i w)) = length (wld_devices w)" "steady w (drained i w)"
proof -
  show "authored_counts (drained i w) = authored_counts w"
    by (cases "i < length (wld_devices w)")
      (simp_all add: authored_counts_def drained_def upd_device_def map_update list_update_same_conv list_update_beyond)
qed (auto simp: handed_def drained_def upd_device_def nth_list_update steady_def)

lemma serving_next:
  assumes s: "serving X w n w'" and n: "n < length (wld_devices w)" and enc: "encodes_all X"
    and room: "seq_room (512 * length (wld_devices w)) w"
  shows "serving X w (Suc n) (carry_device X n w')"
proof -
  let ?r = "\<lambda>i. if i < n then [] else handed w i" and ?w2 = "carry_device X n w'"
  have ok: "net_ok X ?r w'" and st: "steady w w'" and held: "\<forall>i \<ge> n. pulls_for i (wld_held w') = []"
    and ev: "srv_evolves (wld_entity w) (512 * n) (wld_server w) (wld_server w')"
    and handed: "\<And>i. i < length (wld_devices w) \<Longrightarrow> handed w' i = ?r i"
    and counts: "authored_counts w' = authored_counts w"
    using s by (simp_all add: serving_def)
  have len: "length (wld_devices w') = length (wld_devices w)" and ent: "wld_entity w' = wld_entity w"
    using st by (simp_all add: steady_def)
  have "512 * n + 512 \<le> 512 * length (wld_devices w)"
    using n by simp
  then have room': "seq_room 512 w'"
    using ev room unfolding srv_evolves_def seq_room_def by linarith
  have free: "pulls_for n (wld_held w') = []" and n': "n < length (wld_devices w')" and here: "handed w' n = ?r n"
    using held n len handed [OF n] by simp_all
  have step: "net_ok X (?r(n := [])) ?w2" and c: "carried 512 n (drained n w') ?w2"
    using carry_device_ok [where r = ?r, OF ok n' here enc room' free] by blast+
  note d = drained_fields [where i = n and w = w']
  have r: "?r(n := []) = (\<lambda>i. if i < Suc n then [] else handed w i)"
    by (auto simp: fun_eq_iff)
  have "steady w ?w2"
    using c d(7) st by (auto simp: carried_def intro: steady_trans)
  moreover have "srv_evolves (wld_entity w) (512 * Suc n) (wld_server w) (wld_server ?w2)"
    using srv_evolves_trans [OF ev, of 512 "wld_server ?w2"] c by (simp add: carried_def d ent add.commute)
  moreover have "\<forall>i \<ge> Suc n. pulls_for i (wld_held ?w2) = []"
    using c held by (simp add: carried_def d)
  moreover have "handed ?w2 i = (if i < Suc n then [] else handed w i)" if "i < length (wld_devices w)" for i
  proof -
    have "handed ?w2 i = handed (drained n w') i"
      using c uncounted_handed(1) [of ?w2 "drained n w'" i] that d(6) len by (simp add: carried_def)
    then show ?thesis
      using d(1) [where j = i] handed [OF that] that n len by auto
  qed
  moreover have "authored_counts ?w2 = authored_counts w"
    using c uncounted_handed(2) [of ?w2 "drained n w'"] counts d(2) by (simp add: carried_def)
  ultimately show ?thesis
    using step unfolding r serving_def by blast
qed

lemma serving_start: "net_ok X (handed w) w \<Longrightarrow> wld_held w = [] \<Longrightarrow> serving X w 0 w"
  using srv_evolves_refl [OF net_ok_wf] by (simp add: serving_def)

lemma serving_all:
  assumes "net_ok X (handed w) w" and "wld_held w = []" and "encodes_all X"
    and "seq_room (512 * length (wld_devices w)) w"
  shows "n \<le> length (wld_devices w) \<Longrightarrow> serving X w n (fold (carry_device X) [0..<n] w)"
proof (induction n)
  case 0
  then show ?case
    using serving_start [OF assms(1,2)] by simp
next
  case (Suc n)
  then show ?case
    using serving_next [OF _ _ assms(3,4), of n] by simp
qed


section \<open>What was held back rejoins\<close>

text \<open>Flights that come in one after another: those due at \<open>t\<close>, then those of the minute after.\<close>

definition arrives :: "int \<Rightarrow> flight list \<Rightarrow> bool" where
  "arrives t fl \<longleftrightarrow> (\<exists>due later. fl = due @ later \<and> (\<forall>f \<in> set due. ifl_deliver_at_ms f \<le> t) \<and>
     (\<forall>f \<in> set later. t < ifl_deliver_at_ms f \<and> ifl_deliver_at_ms f \<le> t + STEP_MS))"

lemma due_first_arrives: "due_first w = arrives (wld_now_ms w) (wld_in_flight w)"
  by (simp add: due_first_def arrives_def)

lemma arrivesI:
  "fl = due @ later \<Longrightarrow> \<forall>f \<in> set due. ifl_deliver_at_ms f \<le> t \<Longrightarrow>
   \<forall>f \<in> set later. t < ifl_deliver_at_ms f \<and> ifl_deliver_at_ms f \<le> t + STEP_MS \<Longrightarrow> arrives t fl"
  unfolding arrives_def by blast

lemma release_one_facts:
  obtains r h' where "release_one h w = w\<lparr>wld_rng := r, wld_in_flight := wld_in_flight w @ [h']\<rparr>"
    and "ifl_device h' = ifl_device h" and "ifl_response h' = ifl_response h"
    and "wld_now_ms w + STEP_MS < ifl_deliver_at_ms h'" and "ifl_deliver_at_ms h' \<le> wld_now_ms w + STEP_MS + STEP_MS"
proof -
  obtain v w1 where d: "draw_range 1 900 w = (v, w1)"
    by fastforce
  then obtain r where w1: "w1 = w\<lparr>wld_rng := r\<rparr>"
    by (rule draw_range_world)
  have "1 \<le> v" "v \<le> 900"
    using drawn_within [OF d] by simp_all
  then have "1 \<le> unat v" "unat v \<le> 900"
    by (simp_all add: word_le_nat_alt)
  then have v: "1 \<le> int (unat v)" "int (unat v) \<le> 900"
    by linarith+
  show ?thesis
    by (rule that [where r = r and h' = "h\<lparr>ifl_deliver_at_ms := wld_now_ms w + STEP_MS + int (unat v)\<rparr>"])
      (use v in \<open>simp_all add: release_one_def d w1 queue_flight_def STEP_MS_def del: of_nat_unat\<close>)
qed

lemma release_all_facts:
  obtains r hs' where "fold release_one hs w = w\<lparr>wld_rng := r, wld_in_flight := wld_in_flight w @ hs'\<rparr>"
    and "\<And>i. pulls_for i hs' = pulls_for i hs"
    and "\<forall>f \<in> set hs'. wld_now_ms w + STEP_MS < ifl_deliver_at_ms f \<and> ifl_deliver_at_ms f \<le> wld_now_ms w + STEP_MS + STEP_MS"
proof -
  have "\<exists>r hs'. fold release_one hs w = w\<lparr>wld_rng := r, wld_in_flight := wld_in_flight w @ hs'\<rparr> \<and>
      (\<forall>i. pulls_for i hs' = pulls_for i hs) \<and>
      (\<forall>f \<in> set hs'. wld_now_ms w + STEP_MS < ifl_deliver_at_ms f \<and> ifl_deliver_at_ms f \<le> wld_now_ms w + STEP_MS + STEP_MS)"
  proof (induction hs arbitrary: w)
    case Nil
    show ?case
      by (intro exI [of _ "wld_rng w"] exI [of _ "[]"]) simp
  next
    case (Cons h hs)
    obtain r h' where h': "release_one h w = w\<lparr>wld_rng := r, wld_in_flight := wld_in_flight w @ [h']\<rparr>"
      "ifl_device h' = ifl_device h" "ifl_response h' = ifl_response h"
      "wld_now_ms w + STEP_MS < ifl_deliver_at_ms h'" "ifl_deliver_at_ms h' \<le> wld_now_ms w + STEP_MS + STEP_MS"
      by (rule release_one_facts [of h w])
    obtain r2 hs' where hs': "fold release_one hs (release_one h w) =
        (release_one h w)\<lparr>wld_rng := r2, wld_in_flight := wld_in_flight (release_one h w) @ hs'\<rparr>"
      "\<forall>i. pulls_for i hs' = pulls_for i hs"
      "\<forall>f \<in> set hs'. wld_now_ms w + STEP_MS < ifl_deliver_at_ms f \<and> ifl_deliver_at_ms f \<le> wld_now_ms w + STEP_MS + STEP_MS"
      using Cons.IH [of "release_one h w"] by (auto simp: h'(1))
    show ?case
      by (intro exI [of _ r2] exI [of _ "h' # hs'"]) (use h' hs' in simp)
  qed
  then show ?thesis
    using that by blast
qed

text \<open>After the round every request has been answered or lost.\<close>

definition settled :: "externs \<Rightarrow> (nat \<Rightarrow> batch list) \<Rightarrow> world \<Rightarrow> bool" where
  "settled X q w \<longleftrightarrow> devices_ok X q (\<lambda>_. []) w \<and> (\<forall>i < length (wld_devices w). handed w i = [])"

lemma carry_network_ok:
  assumes ok: "net_ok X (handed w) w" and held: "wld_held w = []" and enc: "encodes_all X"
    and room: "seq_room (512 * length (wld_devices w)) w"
  defines "w' \<equiv> carry_network X w"
  shows "settled X (\<lambda>i. pulls_for i (wld_in_flight w')) w'" and "steady w w'" and "wld_held w' = []"
    and "srv_evolves (wld_entity w) (512 * length (wld_devices w)) (wld_server w) (wld_server w')"
    and "server_ok w'" and "authored_counts w' = authored_counts w"
    and "\<exists>due later. wld_in_flight w' = due @ later \<and> (\<forall>f \<in> set due. ifl_deliver_at_ms f \<le> wld_now_ms w) \<and>
      (\<forall>f \<in> set later. wld_now_ms w < ifl_deliver_at_ms f) \<and> arrives (wld_now_ms w + STEP_MS) later"
proof -
  let ?n = "length (wld_devices w)"
  define w1 where "w1 = fold (carry_device X) [0..<?n] w"
  have s: "serving X w ?n w1"
    unfolding w1_def by (rule serving_all [OF ok held enc room]) simp
  then have net: "net_ok X (\<lambda>i. if i < ?n then [] else handed w i) w1" and st: "steady w w1"
    and len: "length (wld_devices w1) = ?n" and now: "wld_now_ms w1 = wld_now_ms w"
    by (simp_all add: serving_def steady_def)
  obtain r hs where rel: "fold release_one (wld_held w1) (w1\<lparr>wld_held := []\<rparr>) =
      (w1\<lparr>wld_held := []\<rparr>)\<lparr>wld_rng := r, wld_in_flight := wld_in_flight (w1\<lparr>wld_held := []\<rparr>) @ hs\<rparr>"
    and pulls: "\<And>i. pulls_for i hs = pulls_for i (wld_held w1)"
    and time: "\<forall>f \<in> set hs. wld_now_ms (w1\<lparr>wld_held := []\<rparr>) + STEP_MS < ifl_deliver_at_ms f \<and>
      ifl_deliver_at_ms f \<le> wld_now_ms (w1\<lparr>wld_held := []\<rparr>) + STEP_MS + STEP_MS"
    by (rule release_all_facts [of "wld_held w1" "w1\<lparr>wld_held := []\<rparr>"]) (rule that)
  have w': "w' = w1\<lparr>wld_rng := r, wld_in_flight := wld_in_flight w1 @ hs, wld_held := []\<rparr>"
    by (simp add: w'_def carry_network_def release_held_def rel flip: w1_def)
  have q: "(\<lambda>i. pulls_for i (wld_in_flight w')) = queued w1" and len': "length (wld_devices w') = ?n"
    by (simp_all add: w' queued_def pulls len fun_eq_iff)
  have "devices_ok X (queued w1) (\<lambda>_. []) w1"
    using net len by (simp add: net_ok_def devices_ok_def)
  then have "devices_ok X (queued w1) (\<lambda>_. []) w'"
    by (rule devices_ok_same) (simp_all add: w')
  moreover have "handed w' i = []" if "i < ?n" for i
    using s that by (simp add: serving_def handed_def w')
  ultimately show "settled X (\<lambda>i. pulls_for i (wld_in_flight w')) w'"
    unfolding settled_def q len' by blast
  show "steady w w'" "wld_held w' = []" "server_ok w'" "authored_counts w' = authored_counts w"
    "srv_evolves (wld_entity w) (512 * ?n) (wld_server w) (wld_server w')"
    using st net s by (simp_all add: w' steady_def net_ok_def server_ok_def serving_def authored_counts_def)
  obtain due later where fl: "wld_in_flight w1 = due @ later" "\<forall>f \<in> set due. ifl_deliver_at_ms f \<le> wld_now_ms w"
    "\<forall>f \<in> set later. wld_now_ms w < ifl_deliver_at_ms f \<and> ifl_deliver_at_ms f \<le> wld_now_ms w + STEP_MS"
    using net now unfolding net_ok_def due_first_def by auto
  have "arrives (wld_now_ms w + STEP_MS) (later @ hs)"
    by (rule arrivesI [OF refl]) (use fl time now in auto)
  moreover have "\<forall>f \<in> set (later @ hs). wld_now_ms w < ifl_deliver_at_ms f"
    using fl time now by (auto simp: STEP_MS_def)
  ultimately show "\<exists>due later. wld_in_flight w' = due @ later \<and> (\<forall>f \<in> set due. ifl_deliver_at_ms f \<le> wld_now_ms w) \<and>
      (\<forall>f \<in> set later. wld_now_ms w < ifl_deliver_at_ms f) \<and> arrives (wld_now_ms w + STEP_MS) later"
    using fl by (intro exI [of _ due] exI [of _ "later @ hs"]) (simp add: w')
qed


section \<open>Delivery\<close>

text \<open>Delivering to one device leaves the others alone.\<close>

lemma local_engine [simp]: "local i w (set_engine i e w)"
  by (simp add: set_engine_def)

lemma local_arm [simp]: "local i w (arm_storage i w)"
  by (simp add: local_def frame_def arm_storage_def note_fault_def upd_device_def Let_def case_prod_beta
      split: option.split fault.split)

lemma local_kill [simp]: "local i w (maybe_kill i w)"
  by (simp add: local_def frame_def maybe_kill_def world_restart_def note_fault_def upd_device_def Let_def case_prod_beta)

lemma local_delivery: "local i w (maybe_kill i (note_event i t (set_engine i e (arm_storage i w))))"
proof -
  have "local i w (set_engine i e (arm_storage i w))"
    by (rule local_trans [OF local_arm local_engine])
  also have "local i (set_engine i e (arm_storage i w)) (note_event i t (set_engine i e (arm_storage i w)))"
    by (rule local_notes(2))
  also have "local i \<dots> (maybe_kill i \<dots>)"
    by (rule local_kill)
  finally show ?thesis .
qed

lemma deliver_batch_local: "local i w (deliver_batch X i b w)"
  using local_delivery by (simp add: deliver_batch_def Let_def case_prod_beta)

lemma deliver_results_local: "local i w (deliver_results i response w)"
  using local_delivery by (simp add: deliver_results_def Let_def case_prod_beta)

lemma deliver_one_local: "local (ifl_device f) w (deliver_one X f w)"
proof -
  have "local i w (fold (deliver_batch X i) bs w)" for i bs
  proof (induction bs arbitrary: w)
    case (Cons b bs)
    then show ?case
      using local_trans [OF deliver_batch_local Cons.IH] by simp
  qed simp
  then show ?thesis
    by (simp add: deliver_one_def Let_def deliver_results_local split: sum.split wire_response.split)
qed

text \<open>The head of the queue arrives.\<close>

lemma deliver_batch_ok:
  assumes "stands X w0 (b # bs) i p [] n w" and "srv_ok (wld_entity w0) (wld_server w0)"
  shows "\<exists>p' \<ge> p. stands X w0 bs i p' [] n (deliver_batch X i b w)"
proof -
  let ?sc = "wld_scope w0"
  let ?C = "scope_changes (wld_server w0) ?sc" and ?m = "visible_count (wld_server w0) ?sc"
  define w1 where "w1 = arm_storage i w"
  let ?e = "dv_engine (wld_devices w1 ! i)"
  have w1: "stands X w0 (b # bs) i p [] n w1"
    unfolding w1_def by (rule stands_arm(1) [OF assms(1)])
  then have dev: "dev_ok X w0 (b # bs) [] i p (wld_devices w1 ! i)" and n: "dv_commands_authored (wld_devices w1 ! i) = n"
    and i: "i < length (wld_devices w0)" and l: "local i w0 w1" and h: "handed w1 i = []"
    by (simp_all add: stands_def)
  note ok = stands_device_ok [OF w1]
  have pm: "p \<le> ?m" and queue: "queue_ok ?C ?m ?sc p (b # bs)" and rep: "replica ?C ?sc p (db_view (eng_storage ?e))"
    using dev by (simp_all add: dev_ok_def)
  have srv: "srv_wf (wld_server w0)" "list_all (plain_upsert (wld_entity w0)) ?C"
    using assms(2) by (simp_all add: srv_ok_def)
  note asc = scope_changes_ascending [OF srv(1), of ?sc]
  obtain result e where run: "apply_batch X sim_storage b ?e = (result, e)"
    by fastforce
  have ap: "apply_changes X sim_storage b (\<not> bat_has_more b) False ?e = (result, e)"
    using run by (simp add: apply_batch_def)
  have eng: "coherent db_view ?e" "eng_registry ?e = sim_registry (wld_entity w0) ?sc"
    using device_ok_inv(1) [OF ok] by (simp_all add: device_inv_def)
  obtain p' where p': "p \<le> p'" "p' \<le> ?m" "replica ?C ?sc p' (db_view (eng_storage e))" "queue_ok ?C ?m ?sc p' bs"
    and cur: "sv_cursors (db_view (eng_storage e)) ?sc = sv_cursors (db_view (eng_storage ?e)) ?sc \<or>
      sv_cursors (db_view (eng_storage e)) ?sc = Some (Cursor (pos_seq ?C p'))"
    using queue_ok_apply [OF queue visible_count_le pm eng asc srv(2) rep ap] by blast
  have "device_ok X (wld_entity w0) ?sc (wld_invariants w0) i n e"
  proof (rule device_ok_apply [OF ok _ _ run])
    have "batch_ok ?C ?m ?sc p b"
      using queue by (simp add: queue_ok_def)
    from this batch_ok_changes [OF this] srv(2)
    show "bat_scope b = ?sc" "list_all (own_change (wld_entity w0)) (bat_changes b)"
      by (auto simp: batch_ok_def own_change_def plain_upsert_def list_all_iff)
    fix c
    assume c: "sv_cursors (db_view (eng_storage ?e)) ?sc = Some c"
    have "cursor_get c \<le> pos_seq ?C p'"
      using rep c pos_seq_mono [OF asc p'(1)] p'(2) visible_count_le [of "wld_server w0" ?sc]
      by (auto simp: replica_def)
    then show "\<exists>c'. sv_cursors (db_view (eng_storage e)) ?sc = Some c' \<and> cursor_get c \<le> cursor_get c'"
      using cur c by auto
  qed
  then have "dev_ok X w0 bs [] i p' ((wld_devices w1 ! i)\<lparr>dv_engine := e\<rparr>)"
    using dev p' n by (simp add: dev_ok_def)
  then have "stands X w0 bs i p' [] n (set_engine i e w1)"
    using i l h n local_fields(9) [OF l] local_trans [OF l local_engine]
    by (simp add: stands_def handed_def set_engine_def)
  then have "stands X w0 bs i p' [] n (maybe_kill i (note_event i t (set_engine i e w1)))" for t
    by (rule stands_kill [OF stands_draws(4)])
  then show ?thesis
    using p'(1) unfolding deliver_batch_def Let_def w1_def [symmetric] run prod.case by blast
qed

lemma deliver_results_ok:
  assumes "stands X w0 bs i p [] n w"
  shows "stands X w0 bs i p [] n (deliver_results i response w)"
proof -
  define w1 where "w1 = arm_storage i w"
  have w1: "stands X w0 bs i p [] n w1"
    unfolding w1_def by (rule stands_arm(1) [OF assms])
  obtain result e where run: "apply_results sim_storage response (dv_engine (wld_devices w1 ! i)) = (result, e)"
    by fastforce
  have "stands X w0 bs i p [] n (set_engine i e w1)"
    using w1 by (rule stands_engine) (use device_ok_results [OF stands_device_ok [OF w1] run] in simp_all)
  then have "stands X w0 bs i p [] n (maybe_kill i (note_event i t (set_engine i e w1)))" for t
    by (rule stands_kill [OF stands_draws(4)])
  then show ?thesis
    unfolding deliver_results_def Let_def w1_def [symmetric] run prod.case by blast
qed

lemma deliver_batches_ok:
  "stands X w0 (bs @ rest) i p [] n w \<Longrightarrow> srv_ok (wld_entity w0) (wld_server w0) \<Longrightarrow>
   \<exists>p' \<ge> p. stands X w0 rest i p' [] n (fold (deliver_batch X i) bs w)"
proof (induction bs arbitrary: p w)
  case (Cons b bs)
  then obtain p' where p': "p \<le> p'" "stands X w0 (bs @ rest) i p' [] n (deliver_batch X i b w)"
    using deliver_batch_ok [of X w0 b "bs @ rest" i p n w] by auto
  then obtain p'' where "p' \<le> p''" "stands X w0 rest i p'' [] n (fold (deliver_batch X i) bs (deliver_batch X i b w))"
    using Cons.IH Cons.prems(2) by blast
  with p'(1) show ?case
    by (metis fold_simps(2) order_trans)
qed auto

lemma deliver_one_stands:
  assumes st: "stands X w0 (batches_in (ifl_response f) @ bs) (ifl_device f) p [] n w"
    and srv: "srv_ok (wld_entity w0) (wld_server w0)"
  shows "\<exists>p' \<ge> p. stands X w0 bs (ifl_device f) p' [] n (deliver_one X f w)"
proof (cases "ifl_response f")
  case (Inl e)
  then show ?thesis
    using stands_draws(4) [OF st] by (auto simp: deliver_one_def batches_in_def Let_def)
next
  case (Inr response)
  show ?thesis
  proof (cases response)
    case (RespPull P)
    then show ?thesis
      using deliver_batches_ok [of X w0 "plr_batches P" bs] st srv Inr
      by (simp add: deliver_one_def batches_in_def Let_def)
  next
    case (RespPush P)
    have "stands X w0 bs (ifl_device f) p [] n w"
      using st Inr RespPush by (simp add: batches_in_def)
    from deliver_results_ok [OF this, of P] show ?thesis
      using Inr RespPush by (auto simp: deliver_one_def Let_def)
  qed (use stands_draws(4) [OF st] Inr in \<open>auto simp: deliver_one_def batches_in_def Let_def\<close>)
qed

lemma deliver_one_ok:
  assumes s: "settled X (\<lambda>j. pulls_for j (f # fl)) w" and ok: "server_ok w"
  shows "settled X (\<lambda>j. pulls_for j fl) (deliver_one X f w)" and "authored_counts (deliver_one X f w) = authored_counts w"
proof -
  let ?w' = "deliver_one X f w"
  define i where "i = ifl_device f"
  have l: "local i w ?w'"
    unfolding i_def by (rule deliver_one_local)
  note len = local_fields(9) [OF l]
  have here: "\<exists>p'. stands X w (pulls_for i fl) i p' [] (dv_commands_authored (wld_devices w ! i)) ?w'"
    if i: "i < length (wld_devices w)"
  proof -
    obtain p where "dev_ok X w (pulls_for i (f # fl)) [] i p (wld_devices w ! i)" "handed w i = []"
      using s i unfolding settled_def devices_ok_def by blast
    then have "stands X w (batches_in (ifl_response f) @ pulls_for i fl) i p []
        (dv_commands_authored (wld_devices w ! i)) w"
      using i by (simp add: stands_def i_def)
    then show ?thesis
      using deliver_one_stands [of X w f "pulls_for i fl"] ok unfolding i_def server_ok_def by blast
  qed
  have "devices_ok X (\<lambda>j. pulls_for j fl) (\<lambda>_. []) ?w'"
  proof (rule devices_ok_local [OF _ l])
    show "devices_ok X (\<lambda>j. pulls_for j (f # fl)) (\<lambda>_. []) w"
      using s by (simp add: settled_def)
    show "\<exists>p. dev_ok X w (pulls_for i fl) [] i p (wld_devices ?w' ! i)" if "i < length (wld_devices w)"
      using here [OF that] by (auto simp: stands_def)
  qed (auto simp: i_def)
  moreover have "handed ?w' j = []" if "j < length (wld_devices w)" for j
  proof (cases "j = i")
    case True
    then show ?thesis
      using here that by (auto simp: stands_def)
  next
    case False
    then have "handed ?w' j = handed w j"
      using l by (simp add: local_def handed_def)
    then show ?thesis
      using s that by (simp add: settled_def)
  qed
  ultimately show "settled X (\<lambda>j. pulls_for j fl) ?w'"
    by (simp add: settled_def len)
  have "dv_commands_authored (wld_devices ?w' ! j) = dv_commands_authored (wld_devices w ! j)"
    if "j < length (wld_devices w)" for j
    using l here that by (cases "j = i") (auto simp: local_def stands_def)
  then show "authored_counts ?w' = authored_counts w"
    using len by (auto simp: authored_counts_def intro!: nth_equalityI)
qed


lemma deliver_all_ok:
  "settled X (\<lambda>j. pulls_for j (fs @ fl)) w \<Longrightarrow> server_ok w \<Longrightarrow>
   settled X (\<lambda>j. pulls_for j fl) (fold (deliver_one X) fs w) \<and> frame (fold (deliver_one X) fs w) = frame w \<and>
   authored_counts (fold (deliver_one X) fs w) = authored_counts w"
proof (induction fs arbitrary: w)
  case (Cons f fs)
  let ?w1 = "deliver_one X f w"
  have "settled X (\<lambda>j. pulls_for j (f # (fs @ fl))) w"
    using Cons.prems(1) by (simp only: append_Cons)
  note one = deliver_one_ok [OF this Cons.prems(2)]
  have fr: "frame ?w1 = frame w"
    using deliver_one_local [of f w X] by (simp add: local_def)
  then have "server_ok ?w1"
    using Cons.prems(2) by (simp add: server_ok_def frame_def)
  with Cons.IH [OF one(1)] fr one(2) show ?case
    by simp
qed simp

lemma deliver_due_ok:
  assumes s: "settled X (\<lambda>i. pulls_for i (wld_in_flight w)) w" and ok: "server_ok w"
    and fl: "wld_in_flight w = due @ later" "\<forall>f \<in> set due. ifl_deliver_at_ms f \<le> wld_now_ms w"
      "\<forall>f \<in> set later. wld_now_ms w < ifl_deliver_at_ms f"
    and w'_def: "w' = deliver_due X w"
  shows "settled X (\<lambda>i. pulls_for i (wld_in_flight w')) w'" and "frame w' = frame (w\<lparr>wld_in_flight := later\<rparr>)"
    and "authored_counts w' = authored_counts w"
proof -
  let ?w1 = "w\<lparr>wld_in_flight := later\<rparr>"
  have "filter (\<lambda>f. ifl_deliver_at_ms f \<le> wld_now_ms w) due = due"
    using fl(2) by simp
  moreover have "filter (\<lambda>f. ifl_deliver_at_ms f \<le> wld_now_ms w) later = []" "filter (\<lambda>f. \<not> ifl_deliver_at_ms f \<le> wld_now_ms w) later = later"
    using fl(3) by (auto simp: filter_empty_conv not_le)
  moreover have "filter (\<lambda>f. \<not> ifl_deliver_at_ms f \<le> wld_now_ms w) due = []"
    using fl(2) by (auto simp: filter_empty_conv)
  ultimately have run: "w' = fold (deliver_one X) due ?w1"
    by (simp add: w'_def deliver_due_def fl(1) comp_def)
  have "devices_ok X (\<lambda>j. pulls_for j (due @ later)) (\<lambda>_. []) ?w1"
    by (rule devices_ok_same [of _ _ _ w]) (use s fl(1) in \<open>simp_all add: settled_def\<close>)
  then have "settled X (\<lambda>j. pulls_for j (due @ later)) ?w1"
    using s by (simp add: settled_def handed_def)
  moreover have "server_ok ?w1"
    using ok by (simp add: server_ok_def)
  ultimately have "settled X (\<lambda>j. pulls_for j later) w' \<and> frame w' = frame ?w1 \<and> authored_counts w' = authored_counts ?w1"
    unfolding run by (rule deliver_all_ok)
  then show "settled X (\<lambda>i. pulls_for i (wld_in_flight w')) w'" "frame w' = frame ?w1"
    "authored_counts w' = authored_counts w"
    by (simp_all add: frame_def authored_counts_def)
qed

end
