(* ===== verification/Sim_Steps.thy ===== *)
theory Sim_Steps
  imports Sim_Carry
begin

text \<open>
  A step of the simulated world, part by part, and the invariant at its boundary: every device is a
  sound replica of some prefix of the scope, the batches in flight to it are in order, and no check has
  reported.
\<close>

section \<open>What only moves the server\<close>

definition serves :: "nat \<Rightarrow> world \<Rightarrow> world \<Rightarrow> bool" where
  "serves k w w' \<longleftrightarrow>
     wld_devices w' = wld_devices w \<and> frame (w'\<lparr>wld_server := wld_server w\<rparr>) = frame w \<and>
     srv_evolves (wld_entity w) k (wld_server w) (wld_server w')"

lemma serves_fields:
  assumes "serves k w w'"
  shows "wld_devices w' = wld_devices w" "wld_in_flight w' = wld_in_flight w" "wld_held w' = wld_held w"
    "wld_invariants w' = wld_invariants w" "wld_now_ms w' = wld_now_ms w" "wld_scope w' = wld_scope w"
    "wld_entity w' = wld_entity w" "wld_rates w' = wld_rates w" "wld_registry w' = wld_registry w"
    "wld_quiet w' = wld_quiet w"
  using assms by (simp_all add: serves_def frame_def)

lemma serves_trans:
  assumes "serves j w w'" and "serves k w' w''"
  shows "serves (j + k) w w''"
  using assms srv_evolves_trans [of "wld_entity w" j _ "wld_server w'" k]
  by (simp add: serves_def frame_def)

lemma serves_quiet:
  "srv_wf (wld_server w) \<Longrightarrow> wld_devices w' = wld_devices w \<Longrightarrow> frame w' = frame w \<Longrightarrow> serves k w w'"
  using srv_evolves_refl [of "wld_server w"] by (simp add: serves_def frame_def)

lemma serves_server:
  "srv_evolves (wld_entity w) k (wld_server w) s \<Longrightarrow> serves k w (w\<lparr>wld_server := s\<rparr>)"
  by (simp add: serves_def frame_def)

lemma serves_net_ok:
  assumes "net_ok X r w" and "serves k w w'" and "seq_room k w"
  shows "net_ok X r w'"
proof -
  have "net_ok X r (w\<lparr>wld_server := wld_server w'\<rparr>)"
    using net_ok_server [OF assms(1) _ assms(3)] assms(2) by (simp add: serves_def)
  moreover have "calm (w\<lparr>wld_server := wld_server w'\<rparr>) w'"
    using assms(2) by (simp add: calm_def serves_def frame_def)
  ultimately show ?thesis
    by (rule net_ok_calm)
qed

text \<open>The parts of a step that come before the devices' turns.\<close>

lemma draws_frame [simp]:
  "frame (snd (draw_chance c w)) = frame w" "frame (snd (draw_range a b w)) = frame w"
  "frame (note_fault i f w) = frame w"
  "wld_devices (note_fault i f w) = wld_devices w"
  by (simp_all add: frame_def draw_chance_def draw_range_def note_fault_def case_prod_beta)

lemma draws_server [simp]:
  "wld_server (snd (draw_chance c w)) = wld_server w" "wld_server (snd (draw_range a b w)) = wld_server w"
  "wld_entity (snd (draw_chance c w)) = wld_entity w" "wld_entity (snd (draw_range a b w)) = wld_entity w"
  by (simp_all add: draw_chance_def draw_range_def case_prod_beta)

lemma slow_commit_serves:
  assumes wf: "srv_wf (wld_server w)" shows "serves 0 w (slow_commit_step w)"
proof -
  let ?w1 = "snd (draw_chance (fr_slow_commit (wld_rates w)) w)"
  let ?d = "draw_range 1 4 ?w1"
  have 1: "serves 0 w ?w1" and 2: "serves 0 ?w1 (snd ?d)"
    using wf by (auto intro: serves_quiet)
  have "serves 0 (snd ?d) ((snd ?d)\<lparr>wld_server := hold_next_write (fst ?d) (wld_server (snd ?d))\<rparr>)"
    using hold_next_evolves wf by (intro serves_server) simp
  then have "serves 0 w ((snd ?d)\<lparr>wld_server := hold_next_write (fst ?d) (wld_server (snd ?d))\<rparr>)"
    using serves_trans [OF serves_trans [OF 1 2]] by simp
  moreover have "serves 0 w (note_fault 0 SlowCommit w')" if "serves 0 w w'" for w'
    using that by (simp add: serves_def frame_def note_fault_def)
  ultimately show ?thesis
    using 1 serves_quiet [OF wf refl refl, of 0] by (simp add: slow_commit_step_def Let_def case_prod_beta)
qed

lemma server_restart_serves:
  assumes wf: "srv_wf (wld_server w)" shows "serves 0 w (server_restart_step w)"
proof -
  let ?w1 = "snd (draw_chance (fr_server_restart (wld_rates w)) w)"
  have 1: "serves 0 w ?w1"
    using wf by (auto intro: serves_quiet)
  have "serves 0 ?w1 (?w1\<lparr>wld_server := restart_cold (wld_server ?w1)\<rparr>)"
    using restart_cold_evolves wf by (intro serves_server) simp
  then have "serves 0 w (?w1\<lparr>wld_server := restart_cold (wld_server ?w1)\<rparr>)"
    using serves_trans [OF 1] by simp
  then show ?thesis
    using 1 by (simp add: server_restart_step_def case_prod_beta serves_def frame_def note_fault_def)
qed

lemma pressure_serves:
  assumes "srv_wf (wld_server w)" shows "serves 0 w (pressure_step w)"
  by (rule serves_quiet [OF assms])
    (simp_all add: pressure_step_def Let_def case_prod_beta frame_def note_fault_def draw_chance_def)

lemma external_serves:
  assumes wf: "srv_wf (wld_server w)" and room: "seq_room 1 w"
  shows "serves 1 w (external_step X w)"
proof -
  let ?w1 = "snd (draw_chance 2 w)"
  obtain s r where ext: "external_change X (wld_scope ?w1) (wld_entity ?w1) (wld_server ?w1, wld_rng ?w1) = (s, r)"
    by fastforce
  have 1: "serves 0 w ?w1"
    using wf by (auto intro: serves_quiet)
  have "srv_evolves (wld_entity w) 1 (wld_server w) s"
    using external_change_evolves [OF wf, of "wld_entity w" X "wld_scope ?w1" "wld_rng ?w1"] room ext
    by (simp add: seq_room_def)
  then have "serves 1 w (?w1\<lparr>wld_server := s, wld_rng := r\<rparr>)"
    using 1 by (simp add: serves_def frame_def)
  moreover have "serves 1 w w" "serves 1 w ?w1"
    using wf by (auto intro: serves_quiet)
  ultimately show ?thesis
    using ext by (simp add: external_step_def case_prod_beta)
qed


section \<open>The devices' turns\<close>

text \<open>The first \<open>n\<close> devices have had their turn; the others have handed nothing over yet.\<close>

definition taking_turns :: "externs \<Rightarrow> world \<Rightarrow> nat \<Rightarrow> world \<Rightarrow> bool" where
  "taking_turns X w n w' \<longleftrightarrow>
     devices_ok X (queued w) (handed w') w' \<and> frame w' = frame w \<and>
     (\<forall>i < length (wld_devices w). n \<le> i \<longrightarrow> handed w' i = [] \<and>
        dv_commands_authored (wld_devices w' ! i) = dv_commands_authored (wld_devices w ! i)) \<and>
     (\<forall>i < length (wld_devices w). unat (dv_commands_authored (wld_devices w' ! i)) \<le>
        unat (dv_commands_authored (wld_devices w ! i)) + 1)"

lemma taking_turns_next:
  assumes t: "taking_turns X w n w'" and n: "n < length (wld_devices w)"
    and small: "\<forall>i < length (wld_devices w). unat (dv_commands_authored (wld_devices w ! i)) + 1 < 2 ^ 32"
  shows "taking_turns X w (Suc n) (device_turn X n w')"
proof -
  let ?w2 = "device_turn X n w'"
  have fr: "frame w' = frame w" and len: "length (wld_devices w') = length (wld_devices w)"
    using t by (simp_all add: taking_turns_def frame_def)
  have h: "handed w' n = []" and a: "dv_commands_authored (wld_devices w' ! n) = dv_commands_authored (wld_devices w ! n)"
    using t n by (simp_all add: taking_turns_def)
  obtain p where "dev_ok X w' (queued w n) (handed w' n) n p (wld_devices w' ! n)"
    using t n len unfolding taking_turns_def devices_ok_def by auto
  then have st0: "stands X w' (queued w n) n p [] (dv_commands_authored (wld_devices w ! n)) w'"
    using h a n len by (simp add: stands_def)
  have "unat (dv_commands_authored (wld_devices w ! n)) + 1 < 2 ^ 32"
    using small n by blast
  from stands_turn [OF st0 this] obtain rs c where c: "c = dv_commands_authored (wld_devices w ! n) \<or> c = dv_commands_authored (wld_devices w ! n) + 1"
    and st: "stands X w' (queued w n) n p rs c ?w2"
    by blast
  have l: "local n w' ?w2" and here: "handed ?w2 n = rs" "dv_commands_authored (wld_devices ?w2 ! n) = c"
    "dev_ok X w' (queued w n) rs n p (wld_devices ?w2 ! n)"
    using st by (simp_all add: stands_def)
  have other: "wld_devices ?w2 ! j = wld_devices w' ! j" "handed ?w2 j = handed w' j" if "j \<noteq> n" for j
    using l that by (simp_all add: local_def handed_def)
  have "devices_ok X (queued w) (handed ?w2) ?w2"
  proof (rule devices_ok_local [OF _ l])
    show "devices_ok X (queued w) (handed w') w'"
      using t by (simp add: taking_turns_def)
  qed (use here other in auto)
  moreover have "frame ?w2 = frame w"
    using l fr by (simp add: local_def)
  moreover have "handed ?w2 i = [] \<and> dv_commands_authored (wld_devices ?w2 ! i) = dv_commands_authored (wld_devices w ! i)"
    if "i < length (wld_devices w)" "Suc n \<le> i" for i
    using t that other [of i] by (simp add: taking_turns_def)
  moreover have "unat (dv_commands_authored (wld_devices ?w2 ! i)) \<le> unat (dv_commands_authored (wld_devices w ! i)) + 1"
    if "i < length (wld_devices w)" for i
    using t that other(1) [of i] here(2) c small by (cases "i = n") (auto simp: taking_turns_def unat_word_ariths)
  ultimately show ?thesis
    unfolding taking_turns_def by blast
qed

lemma turns_ok:
  assumes ok: "net_ok X (\<lambda>_. []) w" and idle: "\<forall>i < length (wld_devices w). handed w i = []"
    and small: "\<forall>i < length (wld_devices w). unat (dv_commands_authored (wld_devices w ! i)) + 1 < 2 ^ 32"
    and w'_def: "w' = fold (device_turn X) [0..<length (wld_devices w)] w"
  shows "net_ok X (handed w') w'" and "frame w' = frame w"
    and "\<forall>i < length (wld_devices w). unat (dv_commands_authored (wld_devices w' ! i)) \<le>
      unat (dv_commands_authored (wld_devices w ! i)) + 1"
proof -
  have "taking_turns X w n (fold (device_turn X) [0..<n] w)" if "n \<le> length (wld_devices w)" for n
    using that
  proof (induction n)
    case 0
    then show ?case
      using ok idle by (simp add: taking_turns_def net_ok_def devices_ok_def)
  next
    case (Suc n)
    then show ?case
      using taking_turns_next [OF _ _ small] by simp
  qed
  then have t: "taking_turns X w (length (wld_devices w)) w'"
    by (simp add: w'_def)
  then show "frame w' = frame w" and "\<forall>i < length (wld_devices w).
      unat (dv_commands_authored (wld_devices w' ! i)) \<le> unat (dv_commands_authored (wld_devices w ! i)) + 1"
    by (simp_all add: taking_turns_def)
  have "queued w' = queued w"
    using t by (simp add: taking_turns_def frame_def fun_eq_iff queued_def)
  then show "net_ok X (handed w') w'"
    using t ok by (simp add: taking_turns_def net_ok_def frame_def server_ok_def due_first_def latency_ok_def)
qed

section \<open>The checks\<close>

lemma dev_ok_sound:
  assumes "dev_ok X w bs rs i p d"
  shows "sound_db (wld_server w) (wld_scope w) (eng_storage (dv_engine d))"
    and "watched (wld_invariants w) i (wld_scope w) (db_view (eng_storage (dv_engine d)))"
proof -
  have ok: "device_ok X (wld_entity w) (wld_scope w) (wld_invariants w) i (dv_commands_authored d) (dv_engine d)"
    using assms by (simp add: dev_ok_def)
  then show "watched (wld_invariants w) i (wld_scope w) (db_view (eng_storage (dv_engine d)))"
    by (simp add: device_ok_def)
  show "sound_db (wld_server w) (wld_scope w) (eng_storage (dv_engine d))"
    using assms device_ok_inv [OF ok] visible_count_le [of "wld_server w" "wld_scope w"]
    by (auto simp: dev_ok_def device_inv_def store_inv_def sound_db_def intro: order_trans)
qed

lemma check_world_ok:
  assumes s: "settled X q w" and ok: "server_ok w" and quiet: "inv_violations (wld_invariants w) = []"
  shows "settled X q (check_world w)" and "inv_violations (wld_invariants (check_world w)) = []"
    and "\<exists>v. check_world w = w\<lparr>wld_invariants := v\<rparr>"
proof -
  let ?dbs = "world_databases w" and ?sc = "wld_scope w" and ?s = "wld_server w"
  define v where "v = check_step (wld_now_ms w) ?dbs ?sc (wld_invariants w)"
  have wf: "srv_wf ?s"
    using ok by (simp add: server_ok_def srv_ok_def)
  have dev: "\<exists>p. dev_ok X w (q i) [] i p (wld_devices w ! i)" if "i < length (wld_devices w)" for i
    using s that by (simp add: settled_def devices_ok_def)
  have nth: "?dbs ! i = eng_storage (dv_engine (wld_devices w ! i))" if "i < length (wld_devices w)" for i
    using that by (simp add: world_databases_def)
  have len: "length ?dbs = length (wld_devices w)"
    by (simp add: world_databases_def)
  have sound: "\<forall>d \<in> set ?dbs. sound_db ?s ?sc d"
    using dev dev_ok_sound(1) nth len by (metis in_set_conv_nth)
  have "quiet_watch ?sc ?dbs (wld_invariants w)"
    using dev dev_ok_sound(2) nth len quiet unfolding quiet_watch_def by metis
  then have v: "quiet_watch ?sc ?dbs v"
    unfolding v_def by (rule check_step_quiet) (use sound in \<open>simp add: sound_db_def\<close>)
  have run: "check_world w = w\<lparr>wld_invariants := v\<rparr>"
    by (simp add: check_world_def Let_def bounds_check_quiet [OF wf sound] effects_check_quiet [OF wf sound]
        state_check_quiet [OF wf sound] flip: v_def)
  then show "\<exists>v. check_world w = w\<lparr>wld_invariants := v\<rparr>"
    by blast
  show "inv_violations (wld_invariants (check_world w)) = []"
    using v by (simp add: run quiet_watch_def)
  have "\<exists>p. dev_ok X (check_world w) (q i) [] i p (wld_devices w ! i)" if i: "i < length (wld_devices w)" for i
  proof -
    obtain p where p: "dev_ok X w (q i) [] i p (wld_devices w ! i)"
      using dev [OF i] by blast
    have "watched v i ?sc (db_view (eng_storage (dv_engine (wld_devices w ! i))))"
      using v i len nth by (simp add: quiet_watch_def)
    then have "dev_ok X (check_world w) (q i) [] i p (wld_devices w ! i)"
      using p by (simp add: run dev_ok_def device_ok_def)
    then show ?thesis ..
  qed
  then show "settled X q (check_world w)"
    using s by (simp add: settled_def devices_ok_def run handed_def)
qed


section \<open>A whole step\<close>

text \<open>
  The world between two steps, \<open>k\<close> of them taken. A step writes at most one change of the server's
  own and, for each of the four devices, two requests of 256 commands.
\<close>

definition minute_ok :: "externs \<Rightarrow> nat \<Rightarrow> world \<Rightarrow> bool" where
  "minute_ok X k w \<longleftrightarrow>
     settled X (\<lambda>i. pulls_for i (wld_in_flight w)) w \<and> server_ok w \<and> wld_held w = [] \<and>
     arrives (wld_now_ms w + STEP_MS) (wld_in_flight w) \<and> latency_ok w \<and>
     length (wld_devices w) \<le> 4 \<and> inv_violations (wld_invariants w) = [] \<and>
     wld_registry w = sim_registry (wld_entity w) (wld_scope w) \<and>
     (\<forall>i < length (wld_devices w). unat (dv_commands_authored (wld_devices w ! i)) \<le> k) \<and>
     unat (srv_next_seq (wld_server w)) \<le> 1 + 2049 * k"

lemma advance_time_ok:
  assumes "minute_ok X k w"
  defines "w' \<equiv> advance_time w"
  shows "net_ok X (\<lambda>_. []) w'" and "\<And>i. i < length (wld_devices w) \<Longrightarrow> handed w' i = []"
    and "\<And>i. i < length (wld_devices w) \<Longrightarrow> dv_commands_authored (wld_devices w' ! i) = dv_commands_authored (wld_devices w ! i)"
    and "length (wld_devices w') = length (wld_devices w)" and "wld_held w' = []" and "wld_server w' = wld_server w"
    and "wld_invariants w' = wld_invariants w" and "wld_registry w' = sim_registry (wld_entity w') (wld_scope w')"
proof -
  have w': "w' = w\<lparr>wld_now_ms := wld_now_ms w + STEP_MS,
      wld_devices := map (\<lambda>d. d\<lparr>dv_clock := advance_to (wld_now_ms w + STEP_MS) (dv_clock d)\<rparr>) (wld_devices w)\<rparr>"
    by (simp add: w'_def advance_time_def Let_def)
  have s: "settled X (\<lambda>i. pulls_for i (wld_in_flight w)) w" and held: "wld_held w = []"
    using assms(1) by (simp_all add: minute_ok_def)
  show "length (wld_devices w') = length (wld_devices w)" "wld_held w' = []" "wld_server w' = wld_server w"
    "wld_invariants w' = wld_invariants w" "wld_registry w' = sim_registry (wld_entity w') (wld_scope w')"
    using held assms(1) by (simp_all add: w' minute_ok_def)
  show "handed w' i = []" "dv_commands_authored (wld_devices w' ! i) = dv_commands_authored (wld_devices w ! i)"
    if "i < length (wld_devices w)" for i
    using s that by (simp_all add: settled_def handed_def w')
  have "\<exists>p. dev_ok X w' (queued w' i) [] i p (wld_devices w' ! i)" if i: "i < length (wld_devices w)" for i
  proof -
    obtain p where p: "dev_ok X w (pulls_for i (wld_in_flight w)) [] i p (wld_devices w ! i)"
      using s i unfolding settled_def devices_ok_def by blast
    then have "dev_ok X w (queued w' i) [] i p (wld_devices w' ! i)"
      using i held dev_ok_same [of "wld_devices w' ! i" "wld_devices w ! i"] by (simp add: w' queued_def)
    then have "dev_ok X w' (queued w' i) [] i p (wld_devices w' ! i)"
      using dev_ok_world [of w' w] by (simp add: w')
    then show ?thesis ..
  qed
  then have "devices_ok X (queued w') (\<lambda>_. []) w'"
    by (simp add: devices_ok_def w')
  moreover have "due_first w'"
    using assms(1) by (simp add: minute_ok_def due_first_arrives w')
  ultimately show "net_ok X (\<lambda>_. []) w'"
    using assms(1) by (simp add: minute_ok_def net_ok_def server_ok_def latency_ok_def w')
qed

lemma serves_room: "serves j w w' \<Longrightarrow> seq_room (j + k) w \<Longrightarrow> seq_room k w'"
  by (simp add: serves_def srv_evolves_def seq_room_def)

lemma before_turns_serves:
  assumes ok: "net_ok X r w" and room: "seq_room 1 w"
  shows "serves 1 w (external_step X (pressure_step (server_restart_step (slow_commit_step
    (w\<lparr>wld_server := advance_commits (wld_server w)\<rparr>)))))"
proof -
  have wf: "srv_wf (wld_server u)" if "serves k w u" for k u
    using that by (simp add: serves_def srv_evolves_def)
  have 1: "serves 0 w (w\<lparr>wld_server := advance_commits (wld_server w)\<rparr>)" (is "serves 0 w ?a")
    using advance_commits_evolves [OF net_ok_wf [OF ok]] by (intro serves_server) simp
  have 2: "serves 0 w (slow_commit_step ?a)" (is "serves 0 w ?b")
    using serves_trans [OF 1 slow_commit_serves [OF wf [OF 1]]] by simp
  have 3: "serves 0 w (server_restart_step ?b)" (is "serves 0 w ?c")
    using serves_trans [OF 2 server_restart_serves [OF wf [OF 2]]] by simp
  have 4: "serves 0 w (pressure_step ?c)" (is "serves 0 w ?d")
    using serves_trans [OF 3 pressure_serves [OF wf [OF 3]]] by simp
  have "seq_room 1 ?d"
    using serves_room [OF 4] room by simp
  then show ?thesis
    using serves_trans [OF 4 external_serves [OF wf [OF 4]]] by simp
qed

text \<open>A step up to the network: every device has handed over its requests.\<close>

definition before_turns :: "externs \<Rightarrow> world \<Rightarrow> world" where
  "before_turns X w =
     (let w1 = advance_time w
      in external_step X (pressure_step (server_restart_step (slow_commit_step
           (w1\<lparr>wld_server := advance_commits (wld_server w1)\<rparr>)))))"

definition after_turns :: "externs \<Rightarrow> world \<Rightarrow> world" where
  "after_turns X w = fold (device_turn X) [0..<length (wld_devices (before_turns X w))] (before_turns X w)"

lemma world_step_parts: "world_step X w = check_world (deliver_due X (carry_network X (after_turns X w)))"
  by (simp add: world_step_def after_turns_def before_turns_def Let_def)

lemma minute_turns:
  assumes ok: "minute_ok X k w" and k: "Suc k < 2 ^ 32"
  defines "w3 \<equiv> before_turns X w" and "w4 \<equiv> after_turns X w"
  shows "net_ok X (\<lambda>_. []) w3" and "\<forall>i < length (wld_devices w3). handed w3 i = []"
    and "\<forall>i < length (wld_devices w3). unat (dv_commands_authored (wld_devices w3 ! i)) + 1 < 2 ^ 32"
    and "wld_devices w3 = wld_devices (advance_time w)"
    and "net_ok X (handed w4) w4" and "frame w4 = frame w3" and "wld_held w4 = []" and "wld_in_flight w4 = wld_in_flight w"
    and "wld_now_ms w4 = wld_now_ms w + STEP_MS" and "wld_invariants w4 = wld_invariants w"
    and "wld_scope w4 = wld_scope w" and "length (wld_devices w4) = length (wld_devices w)"
    and "wld_registry w4 = sim_registry (wld_entity w4) (wld_scope w4)"
    and "unat (srv_next_seq (wld_server w4)) \<le> 2 + 2049 * k" and "seq_room (512 * length (wld_devices w4)) w4"
    and "\<forall>i < length (wld_devices w). unat (dv_commands_authored (wld_devices w4 ! i)) \<le> Suc k"
proof -
  let ?N = "length (wld_devices w)"
  define w1 where "w1 = advance_time w"
  note t = advance_time_ok [OF ok, folded w1_def]
  have few: "?N \<le> 4" and next_w: "unat (srv_next_seq (wld_server w)) \<le> 1 + 2049 * k"
    and counts: "\<forall>i < ?N. unat (dv_commands_authored (wld_devices w ! i)) \<le> k" and now1: "wld_now_ms w1 = wld_now_ms w + STEP_MS"
    and fl1: "wld_in_flight w1 = wld_in_flight w" "wld_scope w1 = wld_scope w"
    using ok by (simp_all add: minute_ok_def w1_def advance_time_def Let_def)
  have w3: "w3 = external_step X (pressure_step (server_restart_step (slow_commit_step
    (w1\<lparr>wld_server := advance_commits (wld_server w1)\<rparr>))))"
    by (simp add: w3_def before_turns_def w1_def Let_def)
  have s3: "serves 1 w1 w3"
    unfolding w3 by (rule before_turns_serves [OF t(1)]) (use next_w k t(6) in \<open>simp add: seq_room_def\<close>)
  note f3 = serves_fields [OF s3]
  have w4: "w4 = fold (device_turn X) [0..<length (wld_devices w3)] w3"
    by (simp add: w4_def w3_def after_turns_def)
  show net3: "net_ok X (\<lambda>_. []) w3"
    by (rule serves_net_ok [OF t(1) s3]) (use next_w k t(6) in \<open>simp add: seq_room_def\<close>)
  have next3: "unat (srv_next_seq (wld_server w3)) \<le> 2 + 2049 * k"
    using s3 next_w t(6) by (simp add: serves_def srv_evolves_def)
  show idle3: "\<forall>i < length (wld_devices w3). handed w3 i = []"
    using t(2,4) f3(1) by (simp add: handed_def)
  show small3: "\<forall>i < length (wld_devices w3). unat (dv_commands_authored (wld_devices w3 ! i)) + 1 < 2 ^ 32"
    using t(3,4) f3(1) counts k by fastforce
  show "wld_devices w3 = wld_devices (advance_time w)"
    using f3(1) by (simp add: w1_def)
  note t4 = turns_ok [OF net3 idle3 small3 w4]
  show "net_ok X (handed w4) w4" "frame w4 = frame w3"
    by (rule t4(1), rule t4(2))
  show f4: "wld_held w4 = []" "wld_in_flight w4 = wld_in_flight w" "wld_now_ms w4 = wld_now_ms w + STEP_MS"
    "wld_invariants w4 = wld_invariants w" "wld_scope w4 = wld_scope w" "length (wld_devices w4) = ?N"
    "wld_registry w4 = sim_registry (wld_entity w4) (wld_scope w4)" "unat (srv_next_seq (wld_server w4)) \<le> 2 + 2049 * k"
    using t4(2) f3 t(4,5,7,8) next3 now1 fl1 by (simp_all add: frame_def)
  show "seq_room (512 * length (wld_devices w4)) w4"
    using f4(6,8) few k by (simp add: seq_room_def)
  show "\<forall>i < ?N. unat (dv_commands_authored (wld_devices w4 ! i)) \<le> Suc k"
    using t4(3) t(3,4) f3(1) counts by fastforce
qed

lemma minute_step:
  assumes ok: "minute_ok X k w" and enc: "encodes_all X" and k: "Suc k < 2 ^ 32"
  shows "minute_ok X (Suc k) (world_step X w)"
proof -
  let ?N = "length (wld_devices w)"
  define w4 where "w4 = after_turns X w"
  define w5 where "w5 = carry_network X w4"
  define w6 where "w6 = deliver_due X w5"
  note t4 = minute_turns [OF ok k, folded w4_def]
  have few: "?N \<le> 4" and quiet: "inv_violations (wld_invariants w) = []"
    using ok by (simp_all add: minute_ok_def)
  note n5 = carry_network_ok [OF t4(5,7) enc t4(15), folded w5_def]
  have f5: "wld_invariants w5 = wld_invariants w" "wld_now_ms w5 = wld_now_ms w4" "length (wld_devices w5) = ?N"
    "wld_rates w5 = wld_rates w4"
    using n5(2) t4(10,12) by (simp_all add: steady_def)
  obtain due later where fl: "wld_in_flight w5 = due @ later" "\<forall>f \<in> set due. ifl_deliver_at_ms f \<le> wld_now_ms w5"
    "\<forall>f \<in> set later. wld_now_ms w5 < ifl_deliver_at_ms f" and arr: "arrives (wld_now_ms w5 + STEP_MS) later"
    using n5(7) f5(2) by auto
  note n6 = deliver_due_ok [OF n5(1,5) fl w6_def]
  have f6: "wld_server w6 = wld_server w5" "wld_held w6 = []" "wld_now_ms w6 = wld_now_ms w5" "wld_in_flight w6 = later"
    "wld_invariants w6 = wld_invariants w" "length (wld_devices w6) = ?N" "wld_rates w6 = wld_rates w4" "wld_entity w6 = wld_entity w5"
    using n6(2) n5(3) f5 by (simp_all add: frame_def)
  have ok6: "server_ok w6"
    using n5(5) f6 by (simp add: server_ok_def)
  have lat: "latency_ok w6"
    using t4(5) f6(7) by (simp add: net_ok_def latency_ok_def)
  have reg: "wld_registry w6 = sim_registry (wld_entity w6) (wld_scope w6)"
    using n6(2) n5(2) t4(13) by (simp add: frame_def steady_def)
  have "authored_counts w6 = authored_counts w4"
    using n6(3) n5(6) by simp
  then have authored: "dv_commands_authored (wld_devices w6 ! i) = dv_commands_authored (wld_devices w4 ! i)" if "i < ?N" for i
    using that t4(12) f6(6) by (metis authored_counts_def nth_map)
  then have counts6: "unat (dv_commands_authored (wld_devices w6 ! i)) \<le> Suc k" if "i < ?N" for i
    using that t4(16) by simp
  have "512 * ?N \<le> 2048"
    using few by simp
  then have next6: "unat (srv_next_seq (wld_server w6)) \<le> 1 + 2049 * Suc k"
    using n5(4) t4(12,14) f6(1) by (simp add: srv_evolves_def)
  have q6: "inv_violations (wld_invariants w6) = []"
    using f6(5) quiet by simp
  note c = check_world_ok [OF n6(1) ok6 q6]
  obtain v where v: "check_world w6 = w6\<lparr>wld_invariants := v\<rparr>"
    using c(3) by blast
  have "minute_ok X (Suc k) (check_world w6)"
    using c(1,2) ok6 lat reg few counts6 next6 f6 arr unfolding v minute_ok_def
    by (simp add: server_ok_def latency_ok_def)
  moreover have "world_step X w = check_world w6"
    by (simp add: world_step_parts w6_def w5_def w4_def)
  ultimately show ?thesis
    by simp
qed

lemma minutes_ok:
  "minute_ok X k w \<Longrightarrow> encodes_all X \<Longrightarrow> k + n < 2 ^ 32 \<Longrightarrow> minute_ok X (k + n) (world_steps X n w)"
proof (induction n arbitrary: k w)
  case (Suc n)
  then show ?case
    using minute_step [of X k w] Suc.IH [of "Suc k" "world_step X w"] by simp
qed simp

section \<open>The first minute\<close>

lemma new_device_fields:
  "new_device r = (d, r') \<Longrightarrow> dv_engine d = restart_device world_entity world_scope db_default \<and>
     dv_commands_authored d = 0 \<and> dv_transport d = transport_new"
  by (auto simp: new_device_def Let_def case_prod_beta restart_device_def restore_outbox_def restore_scope_def
      engine_new_def db_default_def)

lemma new_devices_fields:
  "new_devices n r = (ds, r') \<Longrightarrow> length ds = n \<and> (\<forall>d \<in> set ds.
     dv_engine d = restart_device world_entity world_scope db_default \<and> dv_commands_authored d = 0 \<and>
     dv_transport d = transport_new)"
proof (induction n arbitrary: r ds)
  case (Suc n)
  obtain d r1 where d: "new_device r = (d, r1)" by fastforce
  obtain ds' where "new_devices n r1 = (ds', r')" "ds = d # ds'"
    using Suc.prems d by (auto split: prod.splits)
  then show ?case
    using Suc.IH new_device_fields [OF d] by simp
qed simp


lemma world_new_ok:
  assumes "case fr_latency_ms rates of (lo, hi) \<Rightarrow> 1 \<le> lo \<and> lo \<le> 59500 \<and> hi \<le> 59500"
  shows "minute_ok X 0 (world_new seed rates t)"
proof -
  let ?w = "world_new seed rates t"
  obtain count r where count: "rng_range 2 4 (rng_new seed) = (count, r)"
    by fastforce
  obtain ds r' where ds: "new_devices (unat count) r = (ds, r')"
    by fastforce
  note fresh = new_devices_fields [OF ds]
  have w: "wld_devices ?w = ds" "wld_in_flight ?w = []" "wld_held ?w = []" "wld_rates ?w = rates"
    "wld_server ?w = srv_register_command ''submit_reflection'' world_entity world_scope server_new"
    "wld_invariants ?w = invariants_new" "wld_entity ?w = world_entity" "wld_scope ?w = world_scope"
    "wld_registry ?w = sim_registry world_entity world_scope"
    by (simp_all add: world_new_def count ds sim_registry_def)
  have "count \<le> 4"
    using range_within(2) [of 2 4 "rng_new seed"] count by simp
  then have few: "length ds \<le> 4"
    using fresh by (simp add: word_le_nat_alt)
  have srv: "srv_ok world_entity (wld_server ?w)"
    unfolding w by (rule registered_evolves)
  have dev: "dev_ok X ?w [] [] i 0 (ds ! i)" if "i < length ds" for i
  proof -
    have e: "dv_engine (ds ! i) = restart_device world_entity world_scope db_default" "dv_commands_authored (ds ! i) = 0"
      using fresh that by simp_all
    have "device_ok X world_entity world_scope invariants_new i 0 (restart_device world_entity world_scope db_default)"
      using device_reachable.started watched_new
      by (simp add: device_ok_def restart_fields known_def ids_def db_view_def db_default_def)
    moreover have "replica cs world_scope 0 (db_view db_default)" for cs
      by (simp add: replica_def view_version_def db_view_def db_default_def fun_eq_iff pos_seq_def)
    ultimately show ?thesis
      using e by (simp add: dev_ok_def w restart_fields)
  qed
  then have "settled X (\<lambda>i. pulls_for i (wld_in_flight ?w)) ?w"
    using fresh by (auto simp: settled_def devices_ok_def w handed_def transport_new_def)
  moreover have "arrives x []" for x
    by (simp add: arrives_def)
  ultimately show ?thesis
    using srv few fresh assms
    by (simp add: minute_ok_def w server_ok_def latency_ok_def invariants_new_def srv_register_command_def server_new_def
        case_prod_beta)
qed

text \<open>A run of the simulator never reports before it settles.\<close>

lemma run_is_clean:
  assumes "encodes_all X" and "n < 2 ^ 32"
    and "case fr_latency_ms rates of (lo, hi) \<Rightarrow> 1 \<le> lo \<and> lo \<le> 59500 \<and> hi \<le> 59500"
  shows "minute_ok X n (world_steps X n (world_new seed rates t))"
  using minutes_ok [OF world_new_ok [OF assms(3)] assms(1), of n] assms(2) by simp


lemma minute_device:
  assumes "minute_ok X k w" and "d \<in> set (world_databases w)"
  obtains bs i p dv where "dev_ok X w bs [] i p dv" and "d = eng_storage (dv_engine dv)"
proof -
  obtain i where i: "i < length (wld_devices w)" "d = eng_storage (dv_engine (wld_devices w ! i))"
    using assms(2) unfolding world_databases_def by (metis (no_types, lifting) in_set_conv_nth length_map nth_map)
  obtain p where "dev_ok X w (pulls_for i (wld_in_flight w)) [] i p (wld_devices w ! i)"
    using assms(1) i(1) unfolding minute_ok_def settled_def devices_ok_def by blast
  then show ?thesis
    using that i(2) by blast
qed

lemma minute_replicas:
  assumes "minute_ok X k w" and "d \<in> set (world_databases w)"
  shows "\<exists>p \<le> visible_count (wld_server w) (wld_scope w).
    replica (scope_changes (wld_server w) (wld_scope w)) (wld_scope w) p (db_view d)"
  by (rule minute_device [OF assms]) (auto simp: dev_ok_def)

section \<open>Settling\<close>

text \<open>The policy check finds every recovered draft in place; convergence reports under its own name.\<close>

lemma policy_check_quiet:
  assumes "\<forall>d \<in> set dbs. drafts_recovered entity (db_view d) \<and> (\<forall>(_, x, _) \<in> set (sv_recovered (db_view d)). x = entity)"
  shows "check_policy at_ms dbs (sim_registry entity scope) v = v"
  unfolding check_policy_def
proof (rule each_device_keeps [where P = "\<lambda>u. u = v"])
  fix i u
  assume i: "i < length dbs" and u: "u = v"
  let ?d = "dbs ! i"
  have rec: "drafts_recovered entity (db_view ?d)" "\<And>cid x p. (cid, x, p) \<in> set (db_recovered ?d) \<Longrightarrow> x = entity"
    using assms i nth_mem [OF i] by (fastforce simp: db_view_def)+
  have first: "fold (\<lambda>(cid, x, _) v. if class_of (sim_registry entity scope) x = Some OwnerDraft then v
      else g cid x v) (db_recovered ?d) v = v" for g
    by (rule fold_quiet) (use rec(2) in \<open>auto simp: sim_registry_lookup\<close>)
  have "bt_get (bs_of_list (map fst (db_recovered ?d))) cid \<noteq> None" if res: "(cid, ResSuperseded) \<in> set (db_resolved ?d)" for cid
  proof -
    obtain p where "(cid, entity, p) \<in> set (db_recovered ?d)"
      using rec(1) res by (auto simp: drafts_recovered_def db_view_def)
    then have "cid \<in> fst ` set (bs_of_list (map fst (db_recovered ?d)))"
      unfolding bs_of_list_facts(2) by force
    then show ?thesis
      by (simp add: map_of_eq_None_iff)
  qed
  then have second: "fold (\<lambda>(cid, res) v. if res = ResSuperseded \<and>
      bt_get (bs_of_list (map fst (db_recovered ?d))) cid = None then g cid v else v) (db_resolved ?d) v = v" for g
    by (intro fold_quiet) auto
  show "(let v1 = fold (\<lambda>(cid, entity', _) v.
              if class_of (sim_registry entity scope) entity' = Some OwnerDraft then v
              else violate ''policy-conformance'' i
                     (''a draft was recovered for command '' @ command_id_to_string cid @
                      '' against entity '' @ entity_str entity' @ '', whose class is '' @
                      class_debug (class_of (sim_registry entity scope) entity') @ '' '' @ em_dash @
                      '' only owner drafts have drafts to recover'') at_ms v) (db_recovered ?d) u;
            recovered = bs_of_list (map fst (db_recovered ?d))
        in fold (\<lambda>(cid, res) v.
             if res = ResSuperseded \<and> bt_get recovered cid = None
             then violate ''policy-conformance'' i
                    (''command '' @ command_id_to_string cid @
                     '' was superseded but no draft was recovered; the user'' @ [CHR 0x27] @
                     ''s edit is gone'') at_ms v
             else v) (db_resolved ?d) v1) = v"
    unfolding u Let_def first second by (rule refl)
qed simp

lemma quiet_ok:
  assumes ok: "minute_ok X k w"
  shows "minute_ok X k (w\<lparr>wld_rates := rates_none, wld_quiet := True,
    wld_devices := map (\<lambda>d. d\<lparr>dv_transport := (dv_transport d)\<lparr>tra_online := True\<rparr>\<rparr>) (wld_devices w)\<rparr>)"
    (is "minute_ok X k ?w'")
proof -
  have "\<exists>p. dev_ok X ?w' (pulls_for i (wld_in_flight w)) [] i p (wld_devices ?w' ! i)" if i: "i < length (wld_devices w)" for i
  proof -
    obtain p where "dev_ok X w (pulls_for i (wld_in_flight w)) [] i p (wld_devices w ! i)"
      using ok i unfolding minute_ok_def settled_def devices_ok_def by blast
    then have "dev_ok X w (pulls_for i (wld_in_flight w)) [] i p (wld_devices ?w' ! i)"
      using i dev_ok_same [of "wld_devices ?w' ! i" "wld_devices w ! i"] by simp
    then have "dev_ok X ?w' (pulls_for i (wld_in_flight w)) [] i p (wld_devices ?w' ! i)"
      using dev_ok_world [of ?w' w] by simp
    then show ?thesis ..
  qed
  then have "settled X (\<lambda>i. pulls_for i (wld_in_flight ?w')) ?w'"
    using ok by (simp add: settled_def devices_ok_def minute_ok_def handed_def)
  then show ?thesis
    using ok by (simp add: minute_ok_def server_ok_def latency_ok_def rates_none_def)
qed

end
