(* ===== verification/Sim_Digest.thy ===== *)
theory Sim_Digest
  imports Sim_Steps
begin

text \<open>
  The digests of a run. Every device of a simulated world is a device in the sense of
  \<^const>\<open>device_reachable\<close>, so that what holds on every run of a device holds of it; its stored digest
  is that of a leading part of the log, written in the engine's own form, and is the server's as soon
  as the device has caught up. A settled run can therefore only report devices that are behind.
\<close>

section \<open>A position is stored with its digest\<close>

definition paired :: "scope_id \<Rightarrow> store_view \<Rightarrow> bool" where
  "paired sc w \<longleftrightarrow>
     (sv_cursors w sc = None \<longleftrightarrow> sv_digests w sc = None) \<and>
     (\<forall>h. sv_digests w sc = Some h \<longrightarrow> (\<exists>d. h = digest_to_hex d))"

lemma paired_cong:
  "sv_cursors w' = sv_cursors w \<Longrightarrow> sv_digests w' = sv_digests w \<Longrightarrow> paired sc w' = paired sc w"
  by (simp add: paired_def)

lemma paired_batch:
  "paired sc (view_ops (ops @ [SetCursor sc c, SetScopeDigest sc (digest_to_hex d)] @
     health_ops cmp rb b x h) w)"
  by (auto simp: paired_def)

lemma paired_rebuilt: "paired sc (view_ops (rebootstrap_ops g sc) w)"
  by (auto simp: paired_def rebootstrap_ops_def)

lemma apply_changes_paired:
  assumes "coherent db_view e" and "apply_changes X sim_storage b cmp rb e = (r, e')" and "bat_scope b = sc"
    and "paired sc (db_view (eng_storage e))"
  shows "paired sc (db_view (eng_storage e'))"
  using sim.apply_changes_outcomes [OF assms(1,2)] assms(3,4) paired_batch by metis

lemma device_step_paired:
  assumes "device_step X entity scope ok e e'" and inv: "device_inv entity scope e"
    and p: "paired scope (db_view (eng_storage e))"
  shows "paired scope (db_view (eng_storage e'))"
proof -
  have coh: "coherent db_view e"
    using inv by (simp add: device_inv_def)
  from assms(1) show ?thesis
  proof cases
    case (pulled b r)
    then show ?thesis
      using apply_changes_paired [OF coh _ _ p] by (auto simp: apply_batch_def)
  next
    case (bootstrapped q r)
    then show ?thesis
      using apply_changes_paired [OF coh _ _ p] by (auto simp: apply_bootstrap_def)
  next
    case (rebuilt r)
    obtain r1 s' where t: "transact sim_storage (eng_storage e) (rebootstrap_ops (eng_registry e) scope) = (r1, s')"
      by fastforce
    then have "eng_storage e' = s'"
      using rebuilt by (auto simp: begin_rebootstrap_def split: sum.splits)
    then show ?thesis
      using sim.transact_view [OF t] p paired_rebuilt by metis
  next
    case (reloaded r)
    then show ?thesis
      using sim.reload_storage p by simp
  next
    case (forgiven r)
    obtain r1 s' where t: "transact sim_storage (eng_storage e) [RecordDivergence scope 0 False] = (r1, s')"
      by fastforce
    then have "eng_storage e' = s'"
      using forgiven by (auto simp: clear_scope_health_def split: sum.splits)
    then show ?thesis
      using sim.transact_view [OF t] p by (auto simp: paired_def)
  next
    case (authored entry q)
    then show ?thesis
      using sim.enqueue_view [of entry e q e'] p by (auto simp: paired_def)
  next
    case (pushed z protocol budget pr)
    then show ?thesis
      using sim.build_push_storage p by simp
  next
    case (answered response rr)
    then show ?thesis
      using sim.results_view [OF coh] queue_ops_cursors [OF resolve_all_queue] p paired_cong by metis
  qed (use p in \<open>auto simp: db_view_def next_effect_def on_upgrade_required_def upgrade_completed_def
      restart_fields paired_def split: list.splits\<close>)
qed

lemma device_reachable_paired:
  "device_reachable X entity scope ok e \<Longrightarrow> paired scope (db_view (eng_storage e))"
proof (induction rule: device_reachable.induct)
  case started
  then show ?case
    by (simp add: paired_def restart_fields db_view_def db_default_def)
next
  case (stepped e e')
  then show ?case
    using device_step_paired device_reachable_inv by blast
qed

text \<open>What is stored, read back, is the digest of the rows.\<close>

lemma restored_digest_to_hex: "restored_digest (digest_to_hex d) = d"
  by (simp add: restored_digest_def digest_to_hex_def hex_u128_text from_hex_text digest_from_raw_def)

lemma reachable_digest:
  assumes "device_reachable X entity scope (own_change entity) e"
    and "sv_digests (db_view (eng_storage e)) scope = Some h"
  shows "h = digest_to_hex (view_digest X {entity} (db_view (eng_storage e)))"
proof -
  let ?w = "db_view (eng_storage e)"
  obtain d where d: "h = digest_to_hex d" and c: "sv_cursors ?w scope \<noteq> None"
    using device_reachable_paired [OF assms(1)] assms(2) by (auto simp: paired_def)
  have "digest_true X {entity} scope ?w"
    using device_reachable_digest [OF assms(1)] by (simp add: digest_inv_def)
  then have "d = view_digest X {entity} ?w"
    using c assms(2) d
    by (auto simp: digest_true_def stored_state_def position_def restored_scope_def scope_state_restored_def
        restored_digest_to_hex)
  with d show ?thesis by simp
qed

section \<open>The server's digest\<close>

lemma head_loop_position:
  "head_loop log ix h =
     (if takeWhile (\<lambda>i. len_visible (log ! i)) ix = [] then h
      else seq_get (len_seq (log ! last (takeWhile (\<lambda>i. len_visible (log ! i)) ix))))"
  by (induction ix arbitrary: h) auto

lemma visible_head_position:
  assumes "srv_wf s"
  shows "visible_head s sc = pos_seq (scope_changes s sc) (visible_count s sc)"
proof -
  let ?ix = "index_of s sc" and ?P = "\<lambda>i. len_visible (srv_log s ! i)"
  have count: "visible_count s sc = length (takeWhile ?P ?ix)"
    by (simp add: visible_count_def scope_log_def takeWhile_map comp_def)
  show ?thesis
  proof (cases "takeWhile ?P ?ix = []")
    case True
    then show ?thesis
      by (simp add: visible_head_def head_loop_position count pos_seq_def)
  next
    case False
    let ?n = "length (takeWhile ?P ?ix)"
    have n: "?n - 1 < length ?ix"
      using False length_takeWhile_le [of ?P ?ix] by (cases ?n) auto
    have "last (takeWhile ?P ?ix) = ?ix ! (?n - 1)"
      using False by (simp add: last_conv_nth takeWhile_nth)
    moreover have "len_seq (srv_log s ! (?ix ! (?n - 1))) = chg_seq (len_change (srv_log s ! (?ix ! (?n - 1))))"
      using n by (intro scope_log_seq [OF assms, of _ sc]) (auto simp: scope_log_def)
    ultimately show ?thesis
      using False n
      by (simp add: visible_head_def head_loop_position count pos_seq_def scope_changes_def scope_log_def)
  qed
qed

lemma rows_at_distinct:
  assumes "srv_wf s"
  shows "distinct (map (\<lambda>(n, i, v). (n, i)) (rows_at s sc cur))"
proof -
  let ?f = "\<lambda>((n, i), vs). map_option (\<lambda>v. (n, i, v)) (version_at vs cur)"
  have "map (\<lambda>(n, i, v). (n, i)) (List.map_filter ?f m) = map fst (filter (\<lambda>x. ?f x \<noteq> None) m)"
    for m :: "(row_key \<times> row_versions) list"
    by (induction m) (auto simp: List.map_filter_simps split: option.splits)
  moreover have "distinct (map fst (history_of s sc))"
    using assms bt_wf_distinct by (auto simp: srv_wf_def history_ok_def)
  ultimately show ?thesis
    by (simp add: rows_at_history distinct_map_filter)
qed

text \<open>The rows at a position, digested, are the digest of a replica at that position.\<close>

lemma latest_version_entity:
  assumes "list_all (plain_upsert entity) cs" and "latest_version cs (n, i) = Some v"
  shows "n = entity"
proof -
  have "filter (\<lambda>c. change_key c = (n, i)) cs \<noteq> []"
    using assms(2) by (auto simp: latest_version_def Let_def split: if_splits)
  then obtain c where "c \<in> set cs" "change_key c = (n, i)"
    by (auto simp: filter_empty_conv)
  with assms(1) show ?thesis
    by (auto simp: list_all_iff plain_upsert_def change_key_def)
qed

lemma replica_digest:
  assumes wf: "srv_wf s" and plain: "list_all (plain_upsert entity) (scope_changes s sc)"
    and rep: "replica (scope_changes s sc) sc p w"
  shows "digest_from_rows X (rows_at s sc (pos_seq (scope_changes s sc) p)) = view_digest X {entity} w"
proof -
  let ?C = "scope_changes s sc"
  define rows where "rows = rows_at s sc (pos_seq ?C p)"
  define m where "m = map (\<lambda>(n, i, v). ((n, i), v)) rows"
  have mem: "(n, i, v) \<in> set rows \<longleftrightarrow> latest_version (take p ?C) (n, i) = Some v" for n i v
    using rows_at_position [OF wf] rep by (simp add: rows_def replica_def)
  have dist: "distinct (map fst m)"
    using rows_at_distinct [OF wf, of sc "pos_seq ?C p"]
    by (simp add: m_def rows_def comp_def split_def)
  have "map_of m k = view_version w k" for k
  proof -
    have "map_of m k = Some v \<longleftrightarrow> view_version w k = Some v" for v
      using map_of_eq_Some_iff [OF dist, of k v] mem [of "fst k" "snd k" v] rep
      by (force simp: m_def replica_def)
    then show ?thesis
      by (metis not_Some_eq)
  qed
  then have "view_version w = map_of m"
    by (simp add: fun_eq_iff)
  moreover have "n = entity" if "(n, i, v) \<in> set rows" for n i v
  proof -
    have "list_all (plain_upsert entity) (take p ?C)"
      using plain by (auto simp: list_all_iff dest: in_set_takeD)
    from latest_version_entity [OF this] show ?thesis
      using that mem by blast
  qed
  then have "map (\<lambda>(k, v). scoped_hash X {entity} k v) m = map (live_hash X) rows"
    by (auto simp: m_def scoped_hash_def)
  ultimately show ?thesis
    by (simp add: view_digest_def row_sum_map_of [OF dist] digest_from_rows_sum flip: rows_def)
qed

section \<open>A device that has caught up\<close>

definition stored_cursor :: "db \<Rightarrow> scope_id \<Rightarrow> u64" where
  "stored_cursor d sc = (case db_cursors d sc of None \<Rightarrow> 0 | Some c \<Rightarrow> cursor_get c)"

lemma head_reached:
  assumes wf: "srv_wf s" and p: "p \<le> visible_count s sc" and "srv_head s \<le> pos_seq (scope_changes s sc) p"
  shows "p = visible_count s sc"
proof (rule ccontr)
  let ?C = "scope_changes s sc"
  assume "p \<noteq> visible_count s sc"
  then have "p < visible_count s sc" "p < length ?C"
    using p visible_count_le [of s sc] by simp_all
  then have "pos_seq ?C p < change_seq (?C ! p)"
    using pos_seq_less [OF scope_changes_ascending [OF wf], of p "Suc p" sc] by (simp add: pos_seq_def)
  moreover have "change_seq (?C ! p) < srv_next_seq s"
    using scope_changes_bounded [OF wf, of "?C ! p" sc] \<open>p < length ?C\<close> by simp
  moreover have "unat (srv_head s) = unat (srv_next_seq s) - 1"
    using wf by (simp add: srv_head_def srv_wf_def unat_minus_one word_neq_0_conv)
  ultimately show False
    using assms(3) by (simp add: word_less_nat_alt word_le_nat_alt)
qed

text \<open>In any state of a run: a device whose cursor has reached the server's head has the server's digest,
  and one without a digest has no cursor.\<close>

lemma caught_up_agrees:
  assumes ok: "dev_ok X w bs rs i p dv" and srv: "srv_ok (wld_entity w) (wld_server w)"
  defines "d \<equiv> eng_storage (dv_engine dv)"
  shows "case db_digests d (wld_scope w) of
      None \<Rightarrow> stored_cursor d (wld_scope w) = 0
    | Some h \<Rightarrow> srv_head (wld_server w) \<le> stored_cursor d (wld_scope w) \<longrightarrow>
        h = digest_to_hex (srv_digest X (wld_server w) (wld_scope w))"
proof -
  let ?sc = "wld_scope w" and ?s = "wld_server w"
  have re: "device_reachable X (wld_entity w) ?sc (own_change (wld_entity w)) (dv_engine dv)"
    and p: "p \<le> visible_count ?s ?sc" and rep: "replica (scope_changes ?s ?sc) ?sc p (db_view d)"
    using ok by (simp_all add: dev_ok_def device_ok_def d_def)
  have wf: "srv_wf ?s" and plain: "list_all (plain_upsert (wld_entity w)) (scope_changes ?s ?sc)"
    using srv by (simp_all add: srv_ok_def)
  have pair: "paired ?sc (db_view d)"
    using device_reachable_paired [OF re] by (simp add: d_def)
  show ?thesis
  proof (cases "db_digests d ?sc")
    case None
    then show ?thesis
      using pair by (simp add: paired_def db_view_def stored_cursor_def)
  next
    case (Some h)
    then obtain c where "db_cursors d ?sc = Some c"
      using pair by (auto simp: paired_def db_view_def)
    then have cur: "stored_cursor d ?sc = pos_seq (scope_changes ?s ?sc) p"
      using rep by (simp add: replica_def db_view_def stored_cursor_def)
    have h: "h = digest_to_hex (view_digest X {wld_entity w} (db_view d))"
      using reachable_digest [OF re] Some by (simp add: db_view_def d_def)
    show ?thesis
      using head_reached [OF wf p] replica_digest [OF wf plain rep, of X] visible_head_position [OF wf, of ?sc]
      by (auto simp: Some cur h srv_digest_def)
  qed
qed

section \<open>Settling\<close>

text \<open>Every violation is one of convergence, and names a device whose cursor is below the head.\<close>

definition only_behind :: "db list \<Rightarrow> sim_server \<Rightarrow> scope_id \<Rightarrow> invariants \<Rightarrow> bool" where
  "only_behind dbs s sc v \<longleftrightarrow>
     list_all (\<lambda>x. vio_invariant x = ''convergence'' \<and>
        list_ex (\<lambda>i. vio_device x = Some i \<and> stored_cursor (dbs ! i) sc < srv_head s) [0..<length dbs])
       (inv_violations v)"

lemma convergence_check_behind:
  assumes "\<forall>d \<in> set dbs. case db_digests d sc of None \<Rightarrow> stored_cursor d sc = 0
      | Some h \<Rightarrow> srv_head s \<le> stored_cursor d sc \<longrightarrow> h = digest_to_hex (srv_digest X s sc)"
    and "only_behind dbs s sc v"
  shows "only_behind dbs s sc (check_convergence X at_ms dbs s sc v)"
  unfolding check_convergence_def Let_def
proof (rule each_device_keeps [where P = "only_behind dbs s sc", OF _ assms(2)])
  fix i u
  assume i: "i < length dbs" and u: "only_behind dbs s sc u"
  have reported: "only_behind dbs s sc (violate ''convergence'' i t at_ms u)"
    if "stored_cursor (dbs ! i) sc < srv_head s" for t
    using u i that by (auto simp: only_behind_def violate_def list_ex_iff)
  have agrees: "case db_digests (dbs ! i) sc of None \<Rightarrow> stored_cursor (dbs ! i) sc = 0
      | Some h \<Rightarrow> srv_head s \<le> stored_cursor (dbs ! i) sc \<longrightarrow> h = digest_to_hex (srv_digest X s sc)"
    using assms(1) i by simp
  show "only_behind dbs s sc
      (case db_digests (dbs ! i) sc of
         None \<Rightarrow>
           if 0 < srv_head s
           then violate ''convergence'' i
                  (''no digest recorded after settling, while the server holds '' @ show_u64 (srv_head s) @
                   '' changes'') at_ms u
           else u
       | Some actual \<Rightarrow>
           if (case db_cursors (dbs ! i) sc of None \<Rightarrow> 0 | Some c \<Rightarrow> cursor_get c) < srv_head s
           then violate ''convergence'' i
                  (''still at cursor '' @ show_u64 (case db_cursors (dbs ! i) sc of None \<Rightarrow> 0 | Some c \<Rightarrow> cursor_get c) @
                   '' after settling, with the server at '' @ show_u64 (srv_head s) @
                   ''; the device never caught up'') at_ms u
           else if actual \<noteq> digest_to_hex (srv_digest X s sc)
           then violate ''convergence'' i
                  (''digest '' @ hex_str actual @ '' does not match the server'' @ [CHR 0x27] @
                   ''s '' @ hex_str (digest_to_hex (srv_digest X s sc)) @ '' after catching up'') at_ms u
           else u)"
    unfolding stored_cursor_def [symmetric]
    using agrees reported u by (auto simp: not_less split: option.splits)
qed

lemma settle_ok:
  assumes ok: "minute_ok X k w" and enc: "encodes_all X" and k: "k + SETTLE_STEPS < 2 ^ 32"
    and run: "settle X w = Some w'"
  shows "only_behind (world_databases w') (wld_server w') (wld_scope w') (wld_invariants w')"
proof -
  define quiet where "quiet = w\<lparr>wld_rates := rates_none, wld_quiet := True,
    wld_devices := map (\<lambda>d. d\<lparr>dv_transport := (dv_transport d)\<lparr>tra_online := True\<rparr>\<rparr>) (wld_devices w)\<rparr>"
  define w1 where "w1 = world_steps X SETTLE_STEPS quiet"
  have "minute_ok X k quiet"
    unfolding quiet_def by (rule quiet_ok [OF ok])
  then have w1: "minute_ok X (k + SETTLE_STEPS) w1"
    unfolding w1_def by (rule minutes_ok [OF _ enc k])
  let ?dbs = "world_databases w1" and ?s = "wld_server w1" and ?sc = "wld_scope w1"
  define v where "v = check_convergence X (wld_now_ms w1) ?dbs ?s ?sc (wld_invariants w1)"
  have w': "wld_invariants w' = check_policy (wld_now_ms w1) ?dbs (wld_registry w1) v"
    "world_databases w' = ?dbs" "wld_server w' = ?s" "wld_scope w' = ?sc"
    using run by (auto simp: settle_def Let_def v_def w1_def quiet_def world_databases_def split: if_splits)
  have "only_behind ?dbs ?s ?sc (wld_invariants w1)"
    using w1 by (simp add: minute_ok_def only_behind_def)
  moreover have srv: "srv_ok (wld_entity w1) ?s"
    using w1 by (simp add: minute_ok_def server_ok_def)
  then have "\<forall>d \<in> set ?dbs. case db_digests d ?sc of None \<Rightarrow> stored_cursor d ?sc = 0
      | Some h \<Rightarrow> srv_head ?s \<le> stored_cursor d ?sc \<longrightarrow> h = digest_to_hex (srv_digest X ?s ?sc)"
    using minute_device [OF w1] caught_up_agrees by metis
  ultimately have v: "only_behind ?dbs ?s ?sc v"
    unfolding v_def by (intro convergence_check_behind)
  have "drafts_recovered (wld_entity w1) (db_view d) \<and> (\<forall>(_, x, _) \<in> set (sv_recovered (db_view d)). x = wld_entity w1)"
    if d: "d \<in> set ?dbs" for d
    by (rule minute_device [OF w1 d])
      (use device_ok_inv(1) in \<open>force simp: dev_ok_def device_ok_def device_inv_def store_inv_def\<close>)
  moreover have "wld_registry w1 = sim_registry (wld_entity w1) (wld_scope w1)"
    using w1 by (simp add: minute_ok_def)
  ultimately show ?thesis
    using policy_check_quiet v by (simp add: w')
qed

text \<open>What the properties read off a state of a run.\<close>

lemma minute_reachable:
  assumes "minute_ok X k w" and "dv \<in> set (wld_devices w)"
  shows "device_reachable X (wld_entity w) (wld_scope w) (own_change (wld_entity w)) (dv_engine dv)"
proof -
  obtain i where i: "i < length (wld_devices w)" "dv = wld_devices w ! i"
    using assms(2) by (metis in_set_conv_nth)
  obtain p where "dev_ok X w (pulls_for i (wld_in_flight w)) [] i p (wld_devices w ! i)"
    using assms(1) i(1) unfolding minute_ok_def settled_def devices_ok_def by blast
  then show ?thesis
    by (simp add: i(2) dev_ok_def device_ok_def)
qed

lemma minute_agrees:
  assumes "minute_ok X k w" and "d \<in> set (world_databases w)" and "db_digests d (wld_scope w) = Some h"
    and "srv_head (wld_server w) \<le> stored_cursor d (wld_scope w)"
  shows "h = digest_to_hex (srv_digest X (wld_server w) (wld_scope w))"
proof (rule minute_device [OF assms(1,2)])
  fix bs i p dv
  assume "dev_ok X w bs [] i p dv" "d = eng_storage (dv_engine dv)"
  moreover have "srv_ok (wld_entity w) (wld_server w)"
    using assms(1) by (simp add: minute_ok_def server_ok_def)
  ultimately show ?thesis
    using caught_up_agrees [of X w bs "[]" i p dv] assms(3,4) by simp
qed

end
