(* ===== verification/Sim_Law.thy ===== *)
theory Sim_Law
  imports Sim_Digest
begin

text \<open>
  What every step of the simulated world keeps, whatever the network does: a law of the server is kept
  by a step when its commits, holds, restarts and writes keep it, a law of a device's engine when each
  of the engine's operations does. \<open>world_law\<close> walks through a step once; the laws it is interpreted at
  are that the log is the scope's, that what is not visible is in flight for at most four steps, and
  that every queued command can be sent.
\<close>

section \<open>Laws of the parts\<close>

locale server_law =
  fixes J :: "sim_server \<Rightarrow> bool" and X :: externs and sc :: scope_id and entity :: entity_name
  assumes committed: "J s \<Longrightarrow> J (advance_commits s)"
    and held: "J s \<Longrightarrow> 1 \<le> d \<Longrightarrow> d \<le> 4 \<Longrightarrow> J (hold_next_write d s)"
    and cold: "J s \<Longrightarrow> J (restart_cold s)"
    and written: "J s \<Longrightarrow> J (srv_write X sc entity i s)"
    and answered: "J s \<Longrightarrow> apply_command X c (s, r) = (res, s', r') \<Longrightarrow> J s'"
begin

lemma answered_all: "J s \<Longrightarrow> apply_commands X cs (s, r) = (out, s', r') \<Longrightarrow> J s'"
proof (induction cs arbitrary: s r out)
  case (Cons c cs)
  obtain res s1 r1 where one: "apply_command X c (s, r) = (res, s1, r1)"
    by (metis prod_cases3)
  then have "J s1"
    using Cons.prems(1) answered by blast
  moreover obtain rest where "apply_commands X cs (s1, r1) = (rest, s', r')"
    using Cons.prems(2) one by (auto split: prod.splits)
  ultimately show ?case
    using Cons.IH by blast
qed simp

lemma answered_push: "J s \<Longrightarrow> push_prefix X request n (s, r) = (response, s', r') \<Longrightarrow> J s'"
  using answered_all by (auto simp: push_prefix_def split: prod.splits)

end

locale device_law =
  fixes D :: "db engine \<Rightarrow> bool" and X :: externs and sc :: scope_id and entity :: entity_name
  assumes armed: "D e \<Longrightarrow> D (e\<lparr>eng_storage := (eng_storage e)\<lparr>db_verdict := v\<rparr>\<rparr>)"
    and restarted: "D e \<Longrightarrow> D (restart_device entity sc (eng_storage e))"
    and queued: "D e \<Longrightarrow> oe_schema_version entry = SchemaVersion 1 \<Longrightarrow>
      enqueue sim_storage entry e = (rq, e') \<Longrightarrow> D e'"
    and pushed: "D e \<Longrightarrow> build_push X z sim_storage protocol budget e = (rp, e') \<Longrightarrow> D e'"
    and reloaded: "D e \<Longrightarrow> reload_scope sim_storage sc e = (rl, e') \<Longrightarrow> D e'"
    and applied: "D e \<Longrightarrow> apply_batch X sim_storage b e = (ra, e') \<Longrightarrow> D e'"
    and resolved: "D e \<Longrightarrow> apply_results sim_storage response e = (rr, e') \<Longrightarrow> D e'"

section \<open>A step\<close>

locale world_law = server_law J X sc entity + device_law D X sc entity for J D X sc entity
begin

definition kept :: "world \<Rightarrow> bool" where
  "kept w \<longleftrightarrow> J (wld_server w) \<and> list_all (\<lambda>d. D (dv_engine d)) (wld_devices w) \<and>
     pressure_reachable (wld_pressure w) \<and> wld_scope w = sc \<and> wld_entity w = entity"

lemma kept_device: "kept w \<Longrightarrow> i < length (wld_devices w) \<Longrightarrow> D (dv_engine (wld_devices w ! i))"
  by (simp add: kept_def list_all_length)

lemma kept_upd:
  assumes "kept w" and "i < length (wld_devices w) \<Longrightarrow> D (dv_engine (f (wld_devices w ! i)))"
  shows "kept (upd_device i f w)"
proof -
  have "D (dv_engine ((wld_devices w)[i := f (wld_devices w ! i)] ! n))" if "n < length (wld_devices w)" for n
    using assms that by (cases "n = i") (simp_all add: kept_device)
  then show ?thesis
    using assms(1) by (simp add: kept_def upd_device_def list_all_length)
qed

lemma kept_same:
  "kept w \<Longrightarrow> dv_engine (f (wld_devices w ! i)) = dv_engine (wld_devices w ! i) \<Longrightarrow> kept (upd_device i f w)"
  by (rule kept_upd) (simp_all add: kept_device)

lemma kept_engine:
  "kept w \<Longrightarrow> (D (dv_engine (wld_devices w ! i)) \<Longrightarrow> D e) \<Longrightarrow> kept (set_engine i e w)"
  unfolding set_engine_def by (rule kept_upd) (simp_all add: kept_device)

lemma kept_draws:
  assumes "kept w"
  shows "kept (snd (draw_chance c w))" "kept (snd (draw_range a b w))" "kept (note_fault i f w)"
    "kept (note_event i t w)" "kept (w\<lparr>wld_rng := r\<rparr>)" "kept (queue_flight g w)"
  using assms by (simp_all add: kept_def draw_chance_def draw_range_def note_fault_def note_event_def
      queue_flight_def case_prod_beta)

lemma kept_restart: "kept w \<Longrightarrow> kept (world_restart i w)"
  unfolding world_restart_def Let_def case_prod_beta
  by (rule kept_upd [OF kept_draws(5) [OF kept_draws(3)]])
    (auto simp: note_fault_def kept_def list_all_length restarted)

lemma kept_kill: "kept w \<Longrightarrow> kept (maybe_kill i w)"
  by (simp add: maybe_kill_def kept_restart kept_same)

lemma kept_arm: "kept w \<Longrightarrow> kept (arm_storage i w)"
proof -
  assume w: "kept w"
  have v: "kept (upd_device i (set_verdict v) u)" if "kept u" for v u
    using that by (intro kept_upd) (auto simp: set_verdict_def dest: kept_device armed)
  have k: "kept (upd_device i (\<lambda>d. d\<lparr>dv_pending_kill := True\<rparr>) u)" if "kept u" for u
    by (rule kept_same [OF that]) simp
  show ?thesis
    unfolding arm_storage_def Let_def case_prod_beta
    using v k kept_draws(3,5) w by (simp split: option.split fault.split)
qed

lemma kept_author: "kept w \<Longrightarrow> kept (author_command X i w)"
proof -
  assume w: "kept w"
  have "oe_schema_version (outbox_entry_new c (or_unreachable (schema_version_new 1))) = SchemaVersion 1" for c
    by (simp add: outbox_entry_new_def or_unreachable_def schema_version_new_def bounded_num_def
        SCHEMA_VERSION_MIN_def)
  then have "kept (set_engine i (snd (enqueue sim_storage (outbox_entry_new c (or_unreachable (schema_version_new 1)))
      (dv_engine (wld_devices u ! i)))) u)" if "kept u" for u c
    using that by (intro kept_engine) (auto intro: queued surjective_pairing)
  then show ?thesis
    unfolding author_command_def Let_def case_prod_beta
    by (intro kept_kill kept_draws(4)) (simp add: kept_arm kept_same w)
qed

lemma kept_send: "kept w \<Longrightarrow> kept (send i req w)"
  unfolding send_def by (rule kept_same) simp_all

lemma kept_push: "kept w \<Longrightarrow> kept (push_step X i w)"
proof -
  assume w: "kept w"
  have "kept (set_engine i (snd (build_push X (sim_compressor (dv_ratio (wld_devices w ! i))) sim_storage server_protocol
      100000 (dv_engine (wld_devices w ! i)))) w)"
    using w by (intro kept_engine) (auto intro: pushed surjective_pairing)
  then show ?thesis
    unfolding push_step_def Let_def case_prod_beta by (auto simp: kept_send split: sum.split option.split)
qed

lemma kept_pull: "kept w \<Longrightarrow> kept (pull_step i w)"
proof -
  assume w: "kept w"
  have sc: "wld_scope w = sc"
    using w by (simp add: kept_def)
  have "kept (set_engine i (snd (reload_scope sim_storage sc (dv_engine (wld_devices w ! i)))) w)"
    using w by (intro kept_engine) (auto intro: reloaded surjective_pairing)
  then show ?thesis
    unfolding pull_step_def Let_def case_prod_beta sc using w by (auto simp: kept_send)
qed

lemma kept_turn: "kept w \<Longrightarrow> kept (device_turn X i w)"
proof -
  assume "kept w"
  then have "kept (connectivity i w)"
    by (simp add: connectivity_def Let_def case_prod_beta kept_same kept_draws set_online_def)
  then show ?thesis
    by (simp add: device_turn_def Let_def case_prod_beta kept_push kept_pull kept_author kept_restart kept_draws)
qed

lemma kept_fold: "(\<And>x u. kept u \<Longrightarrow> kept (f x u)) \<Longrightarrow> kept w \<Longrightarrow> kept (fold f xs w)"
  by (induction xs arbitrary: w) simp_all

lemma kept_pressure: "kept w \<Longrightarrow> pressure_reachable p \<Longrightarrow> kept (w\<lparr>wld_pressure := p\<rparr>)"
  by (simp add: kept_def)

lemma kept_server: "kept w \<Longrightarrow> J s \<Longrightarrow> kept (w\<lparr>wld_server := s\<rparr>)"
  by (simp add: kept_def)

subsection \<open>The network\<close>

lemma kept_answer: "kept w \<Longrightarrow> answer X i hostile req w = (a, w') \<Longrightarrow> kept w'"
proof -
  assume w: "kept w" and run: "answer X i hostile req w = (a, w')"
  show ?thesis
  proof (cases req)
    case (ReqPull q)
    then show ?thesis
      using run w by (auto simp: answer_def answer_pull_def Let_def case_prod_beta kept_draws split: if_splits)
  next
    case (ReqPush q)
    obtain accepted p where ac: "accept_count (length (psq_commands q)) (wld_pressure w) = (accepted, p)"
      by fastforce
    obtain pushed s r where push: "push_prefix X q accepted (wld_server w, wld_rng w) = (pushed, s, r)"
      by (metis prod_cases3)
    have "J s"
      using answered_push [OF _ push] w by (simp add: kept_def)
    moreover have "pressure_reachable p"
      using pressure_reachable.intros(4) [of "wld_pressure w" "length (psq_commands q)"] w ac by (simp add: kept_def)
    ultimately have "kept (w\<lparr>wld_pressure := p, wld_server := s, wld_rng := r\<rparr>)"
      using w by (simp add: kept_def)
    then show ?thesis
      using run ReqPush by (auto simp: answer_def answer_push_def Let_def case_prod_beta ac push kept_draws split: if_splits)
  next
    case (ReqBootstrap q)
    then show ?thesis
      using run w by (simp add: answer_def)
  qed
qed

lemma kept_held: "kept w \<Longrightarrow> kept (w\<lparr>wld_held := hs\<rparr>)"
  by (simp add: kept_def)

lemma kept_flights: "kept w \<Longrightarrow> kept (w\<lparr>wld_in_flight := fl\<rparr>)"
  by (simp add: kept_def)

lemma kept_dispatch: "kept w \<Longrightarrow> kept (dispatch i fault response w)"
  unfolding dispatch_def Let_def case_prod_beta
  by (auto simp: kept_draws kept_held split: option.split fault.split)

lemma kept_carry: "kept w \<Longrightarrow> kept (carry_one X i req w)"
proof -
  assume w: "kept w"
  define w1 where "w1 = upd_device i (\<lambda>d. d\<lparr>dv_requests_sent := dv_requests_sent d + 1\<rparr>) w"
  obtain fault r where f: "decide_response (wld_rates w1) (dv_requests_sent (wld_devices w1 ! i)) (wld_rng w1) = (fault, r)"
    by fastforce
  define w2 where "w2 = (case fault of None \<Rightarrow> w1\<lparr>wld_rng := r\<rparr> | Some f \<Rightarrow> note_fault i f (w1\<lparr>wld_rng := r\<rparr>))"
  obtain hostile w3 where d: "draw_chance (fr_protocol_violation (wld_rates w2)) w2 = (hostile, w3)"
    by fastforce
  obtain a w4 where a: "answer X i hostile req w3 = (a, w4)"
    by fastforce
  have "kept w1"
    unfolding w1_def by (rule kept_same [OF w]) simp
  then have w2: "kept w2"
    by (auto simp: w2_def kept_draws split: option.split)
  then have "kept w3"
    using kept_draws(1) d by (metis snd_conv)
  then have "kept w4"
    using kept_answer a by blast
  then show ?thesis
    unfolding carry_one_def Let_def w1_def [symmetric] f prod.case w2_def [symmetric] d a
    using w2 by (auto simp: kept_dispatch split: option.split)
qed

lemma kept_requests: "kept w \<Longrightarrow> kept (carry_device X i w)"
  unfolding carry_device_def transport_drain_def Let_def prod.case
  by (rule kept_fold [OF kept_carry kept_same]) (assumption | simp)+

lemma kept_network: "kept w \<Longrightarrow> kept (carry_network X w)"
proof -
  assume w: "kept w"
  have "kept (fold (carry_device X) [0..<length (wld_devices w)] w)"
    using kept_requests w by (rule kept_fold)
  moreover have "kept (release_one h u)" if "kept u" for h u
    using that by (simp add: release_one_def Let_def case_prod_beta kept_draws)
  ultimately show ?thesis
    unfolding carry_network_def release_held_def by (intro kept_fold [of release_one] kept_held)
qed

lemma kept_deliver_batch: "kept w \<Longrightarrow> kept (deliver_batch X i b w)"
proof -
  assume "kept w"
  then have w: "kept (arm_storage i w)"
    by (rule kept_arm)
  have "kept (set_engine i (snd (apply_batch X sim_storage b (dv_engine (wld_devices (arm_storage i w) ! i)))) (arm_storage i w))"
    using w by (intro kept_engine) (auto intro: applied surjective_pairing)
  then show ?thesis
    unfolding deliver_batch_def Let_def case_prod_beta by (intro kept_kill kept_draws(4))
qed

lemma kept_deliver_results: "kept w \<Longrightarrow> kept (deliver_results i response w)"
proof -
  assume "kept w"
  then have w: "kept (arm_storage i w)"
    by (rule kept_arm)
  have "kept (set_engine i (snd (apply_results sim_storage response (dv_engine (wld_devices (arm_storage i w) ! i)))) (arm_storage i w))"
    using w by (intro kept_engine) (auto intro: resolved surjective_pairing)
  then show ?thesis
    unfolding deliver_results_def Let_def case_prod_beta by (intro kept_kill kept_draws(4))
qed

lemma kept_due: "kept w \<Longrightarrow> kept (deliver_due X w)"
proof -
  assume w: "kept w"
  have one: "kept (deliver_one X f u)" if "kept u" for f u
    using that kept_fold [OF kept_deliver_batch]
    by (auto simp: deliver_one_def Let_def kept_draws kept_deliver_results split: sum.split wire_response.split)
  show ?thesis
    unfolding deliver_due_def Let_def case_prod_beta
    by (intro kept_fold [of "deliver_one X"] one kept_flights w)
qed

subsection \<open>The step\<close>

lemma kept_slow: "kept w \<Longrightarrow> kept (slow_commit_step w)"
proof -
  assume w: "kept w"
  let ?d = "draw_range 1 4 (snd (draw_chance (fr_slow_commit (wld_rates w)) w))"
  have "1 \<le> fst ?d" "fst ?d \<le> 4"
    using drawn_within(1) [OF prod.collapse [symmetric]] drawn_within(2) [OF prod.collapse [symmetric], where c = 4]
    by simp_all
  moreover have "kept (snd ?d)"
    by (intro kept_draws w)
  ultimately show ?thesis
    using w held unfolding slow_commit_step_def Let_def case_prod_beta
    by (auto simp: kept_draws kept_server kept_def [of "snd ?d"])
qed

lemma kept_load: "kept w \<Longrightarrow> kept (pressure_step w)"
proof -
  assume w: "kept w"
  have "pressure_reachable (pressure_tick (wld_pressure w))"
    using w pressure_reachable.intros(3) by (simp add: kept_def)
  moreover from this have "kept (w\<lparr>wld_pressure := pressure_tick (wld_pressure w)\<rparr>)"
    using w by (rule kept_pressure [rotated])
  ultimately show ?thesis
    using pressure_reachable.intros(2)
    by (auto simp: pressure_step_def Let_def case_prod_beta kept_draws kept_def draw_chance_def note_fault_def)
qed

lemma kept_external: "kept w \<Longrightarrow> kept (external_step X w)"
  using written unfolding external_step_def Let_def case_prod_beta
  by (auto simp: kept_def draw_chance_def case_prod_beta external_change_write)

theorem kept_step: "kept w \<Longrightarrow> kept (world_step X w)"
proof -
  assume w: "kept w"
  have "kept (advance_time w)"
    using w by (simp add: kept_def advance_time_def Let_def list_all_length)
  then have "kept ((advance_time w)\<lparr>wld_server := advance_commits (wld_server (advance_time w))\<rparr>)" (is "kept ?a")
    using committed by (intro kept_server) (simp_all add: kept_def)
  then have "kept (server_restart_step (slow_commit_step ?a))"
    using kept_slow [of ?a] cold unfolding server_restart_step_def Let_def case_prod_beta
    by (auto simp: kept_draws kept_def note_fault_def draw_chance_def case_prod_beta)
  then have "kept (fold (device_turn X) xs (external_step X (pressure_step (server_restart_step (slow_commit_step ?a)))))" for xs
    by (intro kept_fold kept_turn kept_external kept_load)
  then show ?thesis
    unfolding world_step_def Let_def check_world_def
    using kept_due [OF kept_network] by (simp add: kept_def)
qed

theorem kept_steps: "kept w \<Longrightarrow> kept (world_steps X n w)"
  by (induction n arbitrary: w) (simp_all add: kept_step)

end

end
