(* ===== verification/Sim_Laws.thy ===== *)
theory Sim_Laws
  imports Sim_Law
begin

text \<open>
  The laws the simulated world keeps: the log of the server is the log of the one scope, in order and
  without a gap; a change that is not visible is in flight and at most four steps from its commit; and
  every command in a queue is one that can be sent as it is.
\<close>

section \<open>Commits\<close>

lemma commit_loop_result:
  "commit_loop fl log waiting = (log', waiting') \<Longrightarrow>
   waiting' = waiting @ map (\<lambda>(i, r). (i, r - 1)) (filter (\<lambda>(i, r). 1 < r) fl) \<and>
   length log' = length log \<and>
   (\<forall>j < length log. len_visible (log' ! j) \<longleftrightarrow> len_visible (log ! j) \<or> (\<exists>r \<le> 1. (j, r) \<in> set fl))"
proof (induction fl log waiting rule: commit_loop.induct)
  case (1 log waiting)
  then show ?case
    by simp
next
  case (2 i remaining rest log waiting)
  have shown: "length (make_visible i log) = length log"
    "j < length log \<Longrightarrow> len_visible (make_visible i log ! j) \<longleftrightarrow> len_visible (log ! j) \<or> j = i" for j
    by (auto simp: make_visible_def nth_list_update)
  show ?case
  proof (cases "remaining \<le> 1")
    case True
    then have run: "commit_loop rest (make_visible i log) waiting = (log', waiting')"
      using 2(3) by simp
    show ?thesis
      using 2(1) [OF True run] shown True by auto
  next
    case False
    then have run: "commit_loop rest log (waiting @ [(i, remaining - 1)]) = (log', waiting')"
      using 2(3) by simp
    show ?thesis
      using 2(2) [OF False run] False by auto
  qed
qed

definition in_flight_within :: "u32 \<Rightarrow> sim_server \<Rightarrow> bool" where
  "in_flight_within k s \<longleftrightarrow> (\<forall>(j, r) \<in> set (srv_in_flight s). r \<le> k)"

definition hidden_in_flight :: "sim_server \<Rightarrow> bool" where
  "hidden_in_flight s \<longleftrightarrow>
     (\<forall>j < length (srv_log s). \<not> len_visible (srv_log s ! j) \<longrightarrow> j \<in> fst ` set (srv_in_flight s))"

lemma advance_commits_hidden: "hidden_in_flight s \<Longrightarrow> hidden_in_flight (advance_commits s)"
proof -
  assume h: "hidden_in_flight s"
  obtain log waiting where loop: "commit_loop (srv_in_flight s) (srv_log s) [] = (log, waiting)"
    by fastforce
  note res = commit_loop_result [OF loop]
  have "j \<in> fst ` set waiting" if j: "j < length (srv_log s)" "\<not> len_visible (log ! j)" for j
  proof -
    have "j \<in> fst ` set (srv_in_flight s)" "\<forall>r \<le> 1. (j, r) \<notin> set (srv_in_flight s)"
      using h j res by (auto simp: hidden_in_flight_def)
    then obtain r where "(j, r) \<in> set (srv_in_flight s)" "1 < r"
      by force
    then show ?thesis
      using res by force
  qed
  then show ?thesis
    using res by (simp add: hidden_in_flight_def advance_commits_def loop)
qed

lemma advance_commits_within:
  assumes "in_flight_within k s"
  shows "in_flight_within (k - 1) (advance_commits s)" and "k \<le> 1 \<Longrightarrow> srv_in_flight (advance_commits s) = []"
proof -
  obtain log waiting where loop: "commit_loop (srv_in_flight s) (srv_log s) [] = (log, waiting)"
    by fastforce
  have w: "srv_in_flight (advance_commits s) = map (\<lambda>(i, r). (i, r - 1)) (filter (\<lambda>(i, r). 1 < r) (srv_in_flight s))"
    using commit_loop_result [OF loop] by (simp add: advance_commits_def loop)
  have "r - 1 \<le> k - 1" if "1 < r" "r \<le> k" for r :: u32
  proof -
    have "1 < unat r" "unat r \<le> unat k"
      using that by (simp_all add: word_less_nat_alt word_le_nat_alt)
    then have "unat (r - 1) = unat r - 1" "unat (k - 1) = unat k - 1"
      using that by (simp_all add: unat_sub word_le_nat_alt word_less_nat_alt)
    then show ?thesis
      using \<open>unat r \<le> unat k\<close> by (simp add: word_le_nat_alt)
  qed
  then show "in_flight_within (k - 1) (advance_commits s)"
    using assms by (auto simp: in_flight_within_def w)
  assume "k \<le> 1"
  then show "srv_in_flight (advance_commits s) = []"
    using assms by (auto simp: in_flight_within_def w filter_empty_conv)
qed

lemma advance_commits_log:
  "length (srv_log (advance_commits s)) = length (srv_log s)" "srv_by_scope (advance_commits s) = srv_by_scope s"
  "srv_next_seq (advance_commits s) = srv_next_seq s" "srv_hold_next (advance_commits s) = srv_hold_next s"
  "srv_command_targets (advance_commits s) = srv_command_targets s" "srv_dedupe (advance_commits s) = srv_dedupe s"
proof -
  obtain log waiting where loop: "commit_loop (srv_in_flight s) (srv_log s) [] = (log, waiting)"
    by fastforce
  show "length (srv_log (advance_commits s)) = length (srv_log s)"
    using commit_loop_result [OF loop] by (simp add: advance_commits_def loop)
qed (simp_all add: advance_commits_def case_prod_beta)

section \<open>Writes\<close>

lemma srv_write_raw:
  "srv_log (srv_write X sc entity i s) = srv_log s @
     [\<lparr>len_seq = or_unreachable (seq_new (srv_next_seq s)),
       len_change = upsert_change X (or_unreachable (seq_new (srv_next_seq s))) entity i
         (version_of_seq (or_unreachable (seq_new (srv_next_seq s)))),
       len_visible = (srv_hold_next s = 0)\<rparr>]"
  "index_of (srv_write X sc entity i s) sc = index_of s sc @ [length (srv_log s)]"
  "srv_next_seq (srv_write X sc entity i s) = srv_next_seq s + 1"
  "srv_in_flight (srv_write X sc entity i s) = srv_in_flight s @
     (if srv_hold_next s = 0 then [] else [(length (srv_log s), srv_hold_next s)])"
  "srv_hold_next (srv_write X sc entity i s) = 0"
  "srv_command_targets (srv_write X sc entity i s) = srv_command_targets s"
  by (simp_all add: srv_write_def take_seq_def write_row_def push_entry_def set_row_def add_to_index_def
      add_to_history_def index_of_def Let_def word_gt_0)

text \<open>The server of a run.\<close>

definition run_server :: "scope_id \<Rightarrow> sim_server \<Rightarrow> bool" where
  "run_server sc s \<longleftrightarrow>
     index_of s sc = [0..<length (srv_log s)] \<and> srv_next_seq s = of_nat (length (srv_log s)) + 1 \<and>
     (\<forall>n e sc'. srv_command_targets s n = Some (e, sc') \<longrightarrow> sc' = sc) \<and>
     hidden_in_flight s \<and> in_flight_within 4 s \<and> srv_hold_next s \<le> 4 \<and> dedupe_ok s"

lemma dedupe_ok_same: "srv_dedupe s' = srv_dedupe s \<Longrightarrow> dedupe_ok s' = dedupe_ok s"
  by (simp add: dedupe_ok_def)

lemma in_flight_within_mono: "in_flight_within j s \<Longrightarrow> j \<le> k \<Longrightarrow> in_flight_within k s"
  by (force simp: in_flight_within_def)

lemma run_server_write: "run_server sc s \<Longrightarrow> run_server sc (srv_write X sc entity i s)"
  by (auto simp: run_server_def dedupe_ok_def srv_write_raw hidden_in_flight_def in_flight_within_def nth_append less_Suc_eq)

lemma run_server_same:
  assumes "run_server sc s" and "srv_log s' = srv_log s" and "srv_by_scope s' = srv_by_scope s"
    and "srv_next_seq s' = srv_next_seq s" and "srv_command_targets s' = srv_command_targets s"
    and "srv_in_flight s' = srv_in_flight s" and "srv_hold_next s' \<le> 4" and "dedupe_ok s'"
  shows "run_server sc s'"
  using assms by (simp add: run_server_def index_of_def hidden_in_flight_def in_flight_within_def)

lemma run_server_advance: "run_server sc s \<Longrightarrow> run_server sc (advance_commits s)"
  using advance_commits_hidden [of s] in_flight_within_mono [OF advance_commits_within(1), of 4 s 4]
  by (simp add: run_server_def advance_commits_log index_of_def dedupe_ok_def)

lemma record_answer_ok: "dedupe_ok s \<Longrightarrow> res_id res = i \<Longrightarrow> dedupe_ok (record_answer i h res s)"
  by (auto simp: dedupe_ok_def)

lemma run_server_record: "run_server sc s \<Longrightarrow> res_id res = i \<Longrightarrow> run_server sc (record_answer i h res s)"
  by (rule run_server_same [of sc s])
    (simp_all add: run_server_def record_answer_ok, simp_all add: record_answer_def)

lemma run_server_roll:
  assumes "run_server sc s" and "roll_verdict X entity sc c (s, r) = (res, s', r')"
  shows "run_server sc s' \<and> res_id res = cmd_id c"
  using assms run_server_write roll_verdict_memory [OF assms(2)]
  by (auto simp: roll_verdict_def srv_append_write case_prod_beta Let_def split: if_splits)

text \<open>A command is answered from the record, answered without a write, or rolled for the first time.\<close>

lemma apply_command_cases:
  assumes "apply_command X c (s, r) = (res, s', r')"
  obtains (replayed) "srv_decide X c s = Inr (Replay res)" "s' = s"
  | (noted) h where "res_id res = cmd_id c" "s' = record_answer (cmd_id c) h res s"
  | (rolled) n e sc s1 r1 h where "srv_command_targets s n = Some (e, sc)"
      "roll_verdict X e sc c (s, r) = (res, s1, r1)" "s' = record_answer (cmd_id c) h res s1"
      "\<And>q. srv_decide X c s \<noteq> Inr (Replay q)" "\<And>a b. srv_decide X c s \<noteq> Inr (MutatedBody a b)"
proof -
  define h where "h = (case payload_checksum X payload_to_value (cmd_payload c) of Inr h \<Rightarrow> h | Inl _ \<Rightarrow> hex_placeholder)"
  have "res_id (rejected_with (cmd_id c) t) = cmd_id c" for t
    by (simp add: rejected_with_def)
  then show thesis
    using assms replayed noted [of h] rolled [of _ _ _ _ _ h] unfolding apply_command_def Let_def prod.case h_def [symmetric]
    by (auto split: sum.splits decision.splits option.splits prod.splits)
qed

text \<open>An answer bears the id of its command, and every answer on record does.\<close>

lemma run_server_command:
  assumes s: "run_server sc s" and run: "apply_command X c (s, r) = (res, s', r')"
  shows "run_server sc s'" and "res_id res = cmd_id c"
proof -
  have "run_server sc s' \<and> res_id res = cmd_id c"
    using run
  proof (cases rule: apply_command_cases)
    case replayed
    then obtain e where "bt_get (srv_dedupe s) (cmd_id c) = Some e" "res = sde_result e"
      by (cases "bt_get (srv_dedupe s) (cmd_id c)") (auto simp: srv_decide_def decide_def Let_def split: sum.splits if_splits)
    then show ?thesis
      using s replayed by (simp add: run_server_def dedupe_ok_def)
  next
    case (noted h)
    then show ?thesis
      using run_server_record [OF s noted(1)] by simp
  next
    case (rolled n e sc' s1 r1 h)
    then have "sc' = sc"
      using s by (auto simp: run_server_def)
    then have "run_server sc s1 \<and> res_id res = cmd_id c"
      using run_server_roll [OF s] rolled(2) by blast
    then show ?thesis
      using run_server_record rolled(3) by blast
  qed
  then show "run_server sc s'" "res_id res = cmd_id c"
    by blast+
qed

text \<open>
  Every command of a finite set writes at most once: the changes in the log, and the commands still
  without an answer, together never grow.
\<close>

definition to_write :: "command_id set \<Rightarrow> sim_server \<Rightarrow> nat" where
  "to_write S s = length (srv_log s) + card (S - dom (bt_get (srv_dedupe s)))"

lemma to_write_record:
  "to_write S (record_answer i h res s) = length (srv_log s) + card (S - insert i (dom (bt_get (srv_dedupe s))))"
proof -
  have "dom (bt_get (srv_dedupe (record_answer i h res s))) = insert i (dom (bt_get (srv_dedupe s)))"
    unfolding record_answer_dedupe by (auto split: if_splits)
  moreover have "srv_log (record_answer i h res s) = srv_log s"
    by (simp add: record_answer_def)
  ultimately show ?thesis
    by (simp only: to_write_def)
qed

lemma to_write_command:
  assumes enc: "encodes_all X" and run: "apply_command X c (s, r) = (res, s', r')"
    and S: "finite S" "cmd_id c \<in> S"
  shows "to_write S s' \<le> to_write S s"
  using run
proof (cases rule: apply_command_cases)
  case (noted h)
  have "card (S - insert (cmd_id c) (dom (bt_get (srv_dedupe s)))) \<le> card (S - dom (bt_get (srv_dedupe s)))"
    using S(1) by (intro card_mono) auto
  then show ?thesis
    by (simp only: noted(2) to_write_record) (simp add: to_write_def)
next
  case (rolled n e sc s1 r1 h)
  obtain hx where "body_checksum X c hx"
    using enc by (rule body_checksum_total)
  note known = decide_known [OF this]
  have "bt_get (srv_dedupe s) (cmd_id c) = None"
  proof (rule ccontr)
    assume "bt_get (srv_dedupe s) (cmd_id c) \<noteq> None"
    then obtain e where "bt_get (srv_dedupe s) (cmd_id c) = Some e"
      by blast
    then show False
      using rolled(4) [of "sde_result e"] rolled(5) [of "hex_str (sde_checksum e)" "hex_str hx"]
      by (cases "hex_str (sde_checksum e) = hex_str hx") (simp_all add: srv_decide_def known)
  qed
  then have "card (S - dom (bt_get (srv_dedupe s))) = Suc (card (S - insert (cmd_id c) (dom (bt_get (srv_dedupe s)))))"
    using S by (subst card.remove [of _ "cmd_id c"]) (auto simp: domIff intro: arg_cong [of _ _ card])
  moreover have "length (srv_log s1) \<le> Suc (length (srv_log s))"
    using rolled(2) by (auto simp: roll_verdict_def srv_append_write case_prod_beta Let_def srv_write_raw split: if_splits)
  moreover have "srv_dedupe s1 = srv_dedupe s"
    using roll_verdict_memory [OF rolled(2)] by simp
  ultimately show ?thesis
    by (simp only: rolled(3) to_write_record) (simp add: to_write_def)
qed simp

lemma to_write_commands:
  "encodes_all X \<Longrightarrow> apply_commands X cs (s, r) = (out, s', r') \<Longrightarrow> finite S \<Longrightarrow> cmd_id ` set cs \<subseteq> S \<Longrightarrow>
   to_write S s' \<le> to_write S s"
proof (induction cs arbitrary: s r out)
  case (Cons c cs)
  obtain res s1 r1 where one: "apply_command X c (s, r) = (res, s1, r1)"
    by (metis prod_cases3)
  obtain rest where "apply_commands X cs (s1, r1) = (rest, s', r')"
    using Cons.prems(2) one by (auto split: prod.splits)
  then show ?case
    using Cons.IH [of s1 r1 rest] to_write_command [OF Cons.prems(1) one Cons.prems(3)] Cons.prems by fastforce
qed simp

lemma answers_ids:
  "run_server sc s \<Longrightarrow> apply_commands X cs (s, r) = (out, s', r') \<Longrightarrow> map res_id out = map cmd_id cs"
proof (induction cs arbitrary: s r out)
  case (Cons c cs)
  obtain res s1 r1 where one: "apply_command X c (s, r) = (res, s1, r1)"
    by (metis prod_cases3)
  obtain rest where "apply_commands X cs (s1, r1) = (rest, s', r')" "out = res # rest"
    using Cons.prems(2) one by (auto split: prod.splits)
  then show ?case
    using Cons.IH run_server_command [OF Cons.prems(1) one] by simp
qed simp

lemma run_server_new: "run_server sc (srv_register_command name entity sc server_new)"
  by (simp add: run_server_def srv_register_command_def server_new_def index_of_def hidden_in_flight_def
      in_flight_within_def dedupe_ok_def)

interpretation run: server_law "run_server sc" X sc entity for sc X entity
proof
  fix s d
  assume s: "run_server sc s" and d: "d \<le> (4 :: u32)"
  have ok: "dedupe_ok (hold_next_write d s)"
    using s by (subst dedupe_ok_same [of _ s]) (simp_all add: run_server_def hold_next_write_def)
  show "run_server sc (hold_next_write d s)"
    by (rule run_server_same [OF s _ _ _ _ _ _ ok]) (use d in \<open>simp_all add: hold_next_write_def\<close>)
next
  fix s
  assume s: "run_server sc s"
  have ok: "dedupe_ok (restart_cold s)"
    using s by (subst dedupe_ok_same [of _ s]) (simp_all add: run_server_def restart_cold_def)
  show "run_server sc (restart_cold s)"
    by (rule run_server_same [OF s _ _ _ _ _ _ ok]) (use s in \<open>simp_all add: restart_cold_def run_server_def\<close>)
qed (fact run_server_advance run_server_write run_server_command)+

text \<open>The scope is the whole log, and all of it is visible once nothing is in flight.\<close>

lemma run_server_changes:
  "run_server sc s \<Longrightarrow> scope_changes s sc = map len_change (srv_log s)"
  by (simp add: run_server_def scope_changes_def scope_log_def map_nth)

lemma run_server_visible:
  assumes "run_server sc s" and "srv_in_flight s = []"
  shows "visible_count s sc = length (srv_log s)"
proof -
  have "\<forall>j < length (srv_log s). len_visible (srv_log s ! j)"
    using assms by (auto simp: run_server_def hidden_in_flight_def)
  then have "takeWhile len_visible (srv_log s) = srv_log s"
    unfolding takeWhile_eq_all_conv by (simp add: all_set_conv_all_nth)
  moreover have "map ((!) (srv_log s)) [0..<length (srv_log s)] = srv_log s"
    by (rule map_nth)
  ultimately show ?thesis
    using assms(1) by (simp del: takeWhile_eq_all_conv add: run_server_def visible_count_def scope_log_def map_nth)
qed

section \<open>The commands in a queue\<close>

definition current_entry :: "outbox_entry \<Rightarrow> bool" where
  "current_entry x \<longleftrightarrow> oe_schema_version x = SchemaVersion 1"

definition sendable :: "db engine \<Rightarrow> bool" where
  "sendable e \<longleftrightarrow> eng_upgrade_required e = None \<and> list_all current_entry (eng_outbox e) \<and>
     list_all current_entry (sv_outbox (db_view (eng_storage e)))"

context storage_contract
begin

lemma apply_changes_queues:
  assumes "apply_changes X st b cmp rb e = (r, e')"
  shows "sv_outbox (view (eng_storage e')) = sv_outbox (view (eng_storage e))"
    and "eng_outbox e' = eng_outbox e" and "eng_upgrade_required e' = eng_upgrade_required e"
proof -
  obtain r1 e1 where 1: "refresh_if_suspect st (bat_scope b) e = (r1, e1)"
    by fastforce
  then have s1: "eng_storage e1 = eng_storage e" "eng_outbox e1 = eng_outbox e"
    "eng_upgrade_required e1 = eng_upgrade_required e"
    by (auto simp: refresh_if_suspect_def split: if_splits sum.splits)
  have "sv_outbox (view (eng_storage e')) = sv_outbox (view (eng_storage e)) \<and> eng_outbox e' = eng_outbox e \<and>
      eng_upgrade_required e' = eng_upgrade_required e"
  proof (cases "\<exists>g q state. stage_all X st e1 (bat_changes b) (staging_start state) = Inr (g, q) \<and>
      commit_batch st b cmp rb g q e1 = (r, e')")
    case True
    then obtain g q state where stg: "stage_all X st e1 (bat_changes b) (staging_start state) = Inr (g, q)"
      and com: "commit_batch st b cmp rb g q e1 = (r, e')"
      by blast
    let ?ops = "stg_ops g @ [SetCursor (bat_scope b) (bat_next_cursor b),
        SetScopeDigest (bat_scope b) (digest_to_hex (stg_digest g))] @
        health_ops cmp rb b (stg_digest g) (engine_scope_health e1 (bat_scope b))"
    have "list_all Core_Contract.touches_row (stg_ops g)"
      using stage_all_ops [OF stg] by auto
    then have "list_all (scope_op (bat_scope b)) ?ops"
      by (auto simp: health_ops_def Let_def list_all_iff scope_op_row)
    note out = scope_ops_view [OF this]
    obtain r2 s' where t: "transact st (eng_storage e1) ?ops = (r2, s')"
      by fastforce
    then have "eng_storage e' = s'" "eng_outbox e' = eng_outbox e1" "eng_upgrade_required e' = eng_upgrade_required e1"
      using com unfolding commit_batch_def Let_def health_ops_def
      by (auto simp: effect_fields split: sum.splits if_splits)
    then show ?thesis
      using transact_view [OF t] out s1 by metis
  next
    case False
    then have "e' = e1"
      using assms unfolding apply_changes_def 1 Let_def
      by (auto split: sum.splits prod.splits option.splits)
    then show ?thesis
      using s1 by simp
  qed
  then show "sv_outbox (view (eng_storage e')) = sv_outbox (view (eng_storage e))"
    "eng_outbox e' = eng_outbox e" "eng_upgrade_required e' = eng_upgrade_required e"
    by blast+
qed

lemma refresh_outbox_queues:
  assumes "refresh_outbox_if_suspect st e = (r, e')"
  shows "eng_storage e' = eng_storage e" "eng_upgrade_required e' = eng_upgrade_required e"
    "eng_registry e' = eng_registry e"
    "eng_outbox e' = eng_outbox e \<or> eng_outbox e' = sv_outbox (view (eng_storage e))"
  using assms outbox_law by (auto simp: refresh_outbox_if_suspect_def split: if_splits sum.splits)

lemma results_queues:
  assumes "apply_results st response e = (r, e')"
  shows "set (sv_outbox (view (eng_storage e'))) \<subseteq> set (sv_outbox (view (eng_storage e))) \<and>
    set (eng_outbox e') \<subseteq> set (eng_outbox e) \<union> set (sv_outbox (view (eng_storage e))) \<and>
    eng_upgrade_required e' = eng_upgrade_required e"
proof -
  obtain r1 e1 where 1: "refresh_outbox_if_suspect st e = (r1, e1)"
    by fastforce
  note f = refresh_outbox_queues [OF 1]
  let ?a = "resolve_all (eng_registry e1) (eng_outbox e1) (psr_results response)"
  obtain r2 s' where t: "transact st (eng_storage e1) (rs_ops ?a) = (r2, s')"
    by fastforce
  have "view s' = view (eng_storage e) \<or> view s' = view_ops (rs_ops ?a) (view (eng_storage e))"
    using transact_view [OF t] f(1) by simp
  then have "set (sv_outbox (view s')) \<subseteq> set (sv_outbox (view (eng_storage e)))"
    by (auto simp: resolve_all_queue_left)
  then show ?thesis
    using assms f t unfolding apply_results_def 1 Let_def
    by (auto simp: fold_filter_ids split: sum.splits if_splits)
qed

end

lemma reload_queues:
  "reload_scope sim_storage sc e = (r, e') \<Longrightarrow> eng_storage e' = eng_storage e \<and>
   eng_upgrade_required e' = eng_upgrade_required e \<and>
   (eng_outbox e' = eng_outbox e \<or> eng_outbox e' = sv_outbox (db_view (eng_storage e)))"
  using sim.refresh_outbox_queues
  by (fastforce simp: reload_scope_def refresh_if_suspect_def split: if_splits sum.splits prod.splits)

lemma push_queues:
  "build_push X z sim_storage protocol budget e = (r, e') \<Longrightarrow> eng_storage e' = eng_storage e \<and>
   eng_upgrade_required e' = eng_upgrade_required e \<and>
   (eng_outbox e' = eng_outbox e \<or> eng_outbox e' = sv_outbox (db_view (eng_storage e)))"
  using sim.refresh_outbox_queues
  by (fastforce simp: build_push_def effect_fields split: if_splits sum.splits prod.splits)

lemma restart_queues:
  "eng_upgrade_required (restart_device entity sc d) = None"
  "eng_outbox (restart_device entity sc d) = sv_outbox (db_view d)"
  by (auto simp: restart_device_def Let_def restore_outbox_def restore_scope_def engine_new_def db_view_def
      split: option.splits)

lemma sendable_cong:
  "sendable e \<Longrightarrow> eng_upgrade_required e' = None \<Longrightarrow>
   set (eng_outbox e') \<subseteq> set (eng_outbox e) \<union> set (sv_outbox (db_view (eng_storage e))) \<Longrightarrow>
   set (sv_outbox (db_view (eng_storage e'))) \<subseteq> set (sv_outbox (db_view (eng_storage e))) \<Longrightarrow> sendable e'"
  by (auto simp: sendable_def list_all_iff)

lemma sendable_enqueue:
  assumes e: "sendable e" and entry: "oe_schema_version entry = SchemaVersion 1"
    and run: "enqueue sim_storage entry e = (r, e')"
  shows "sendable e'"
proof (cases "check_command (eng_registry e) (oe_command entry)")
  case (Inl err)
  with run e show ?thesis by (simp add: enqueue_def)
next
  case (Inr n)
  let ?op = "EnqueueCommand (oe_command entry) (oe_schema_version entry)"
  obtain r1 s' where t: "transact sim_storage (eng_storage e) [?op] = (r1, s')"
    by fastforce
  have "set (sv_outbox (db_view s')) \<subseteq> insert entry (set (sv_outbox (db_view (eng_storage e))))"
    using sim.transact_view [OF t] by (auto simp: outbox_entry_new_def)
  moreover have "current_entry entry"
    using entry by (simp add: current_entry_def)
  ultimately have "list_all current_entry (sv_outbox (db_view s'))"
    using e by (auto simp: sendable_def list_all_iff)
  then show ?thesis
    using run t Inr e \<open>current_entry entry\<close> by (auto simp: enqueue_def sendable_def split: sum.splits)
qed

interpretation queues: device_law sendable X sc entity for X sc entity
proof
  fix e v
  assume "sendable e"
  then show "sendable (e\<lparr>eng_storage := (eng_storage e)\<lparr>db_verdict := v\<rparr>\<rparr>)"
    by (simp add: sendable_def)
next
  fix e sc entity
  assume e: "sendable e"
  then show "sendable (restart_device entity sc (eng_storage e))"
    by (rule sendable_cong) (simp_all add: restart_queues restart_fields)
next
  fix e entry rq e'
  assume "sendable e" "oe_schema_version entry = SchemaVersion 1" "enqueue sim_storage entry e = (rq, e')"
  then show "sendable e'"
    by (rule sendable_enqueue)
next
  fix X z protocol budget e rp e'
  assume e: "sendable e" and run: "build_push X z sim_storage protocol budget e = (rp, e')"
  show "sendable e'"
    using e by (rule sendable_cong) (use push_queues [OF run] e in \<open>auto simp: sendable_def\<close>)
next
  fix sc e rl e'
  assume e: "sendable e" and run: "reload_scope sim_storage sc e = (rl, e')"
  show "sendable e'"
    using e by (rule sendable_cong) (use reload_queues [OF run] e in \<open>auto simp: sendable_def\<close>)
next
  fix X b e ra e'
  assume e: "sendable e" and run: "apply_batch X sim_storage b e = (ra, e')"
  show "sendable e'"
    using e by (rule sendable_cong)
      (use sim.apply_changes_queues [OF run [unfolded apply_batch_def]] e in \<open>auto simp: sendable_def\<close>)
next
  fix response e rr e'
  assume e: "sendable e" and run: "apply_results sim_storage response e = (rr, e')"
  show "sendable e'"
    using e by (rule sendable_cong) (use sim.results_queues [OF run] e in \<open>auto simp: sendable_def\<close>)
qed

interpretation law: world_law "run_server sc" sendable X sc entity for X sc entity ..

text \<open>What a run keeps.\<close>

definition lawful :: "world \<Rightarrow> bool" where
  "lawful w \<longleftrightarrow> run_server (wld_scope w) (wld_server w) \<and> list_all (\<lambda>d. sendable (dv_engine d)) (wld_devices w) \<and>
     pressure_reachable (wld_pressure w)"

lemma lawful_kept: "lawful w \<longleftrightarrow> law.kept (wld_scope w) (wld_entity w) w"
  by (auto simp: lawful_def law.kept_def)

lemma lawful_steps:
  assumes "lawful w"
  shows "lawful (world_steps X n w)" and "wld_scope (world_steps X n w) = wld_scope w"
proof -
  have "law.kept (wld_scope w) (wld_entity w) (world_steps X n w)"
    by (rule law.kept_steps) (use assms in \<open>simp add: lawful_kept\<close>)
  then show "lawful (world_steps X n w)" "wld_scope (world_steps X n w) = wld_scope w"
    by (auto simp: law.kept_def lawful_def)
qed

lemma lawful_new: "lawful (world_new seed rates t)"
proof -
  obtain count r where count: "rng_range 2 4 (rng_new seed) = (count, r)"
    by fastforce
  obtain ds r' where ds: "new_devices (unat count) r = (ds, r')"
    by fastforce
  have "sendable (restart_device world_entity world_scope db_default)"
    by (simp add: sendable_def restart_queues restart_fields db_view_def db_default_def)
  then have "list_all (\<lambda>d. sendable (dv_engine d)) ds"
    using new_devices_fields [OF ds] by (auto simp: list_all_iff)
  then show ?thesis
    using run_server_new pressure_reachable.intros(1) by (simp add: lawful_def world_new_def count ds)
qed

end
