(* ===== verification/Sim_Quiet.thy ===== *)
theory Sim_Quiet
  imports Sim_Laws
begin

text \<open>
  The parts of a step while a run settles: nothing is drawn, no fault is armed, every device is online.
  Then each turn asks for what comes after the device's cursor and submits the head of its queue, and
  an answer that arrives does its work: a batch that starts at the device's position is applied, and a
  command that was answered leaves the queue.
\<close>

section \<open>Nothing is drawn\<close>

definition quiet_world :: "world \<Rightarrow> bool" where
  "quiet_world w \<longleftrightarrow> wld_rates w = rates_none \<and> wld_quiet w \<and>
     list_all (\<lambda>d. tra_online (dv_transport d)) (wld_devices w)"

lemma no_draw [simp]: "draw_chance 0 w = (False, w)"
  by (simp add: draw_chance_def chance_certain)

lemma no_rates [simp]:
  "fr_slow_commit rates_none = 0" "fr_server_restart rates_none = 0" "fr_device_restart rates_none = 0"
  "fr_connectivity_flap rates_none = 0" "fr_protocol_violation rates_none = 0"
  "fr_latency_ms rates_none = (10, 10)"
  by (simp_all add: rates_none_def)

lemma quiet_before_turns:
  assumes "quiet_world w"
  shows "external_step X (pressure_step (server_restart_step (slow_commit_step w))) =
    w\<lparr>wld_pressure := pressure_tick (wld_pressure w)\<rparr>"
  using assms
  by (simp add: quiet_world_def slow_commit_step_def server_restart_step_def pressure_step_def external_step_def)

lemma quiet_connectivity:
  assumes "quiet_world w"
  shows "connectivity i w = w \<or> connectivity i w = upd_device i (set_online True 0) w"
  using assms by (simp add: quiet_world_def connectivity_def Let_def)

lemma quiet_turn_run:
  assumes "quiet_world w"
  shows "device_turn X i w = pull_step i (push_step X i (connectivity i w))"
proof -
  have "wld_rates (connectivity i w) = rates_none" "wld_quiet (connectivity i w)"
    using quiet_connectivity [OF assms, of i] assms by (auto simp: quiet_world_def upd_device_def)
  then show ?thesis
    by (simp add: device_turn_def)
qed

lemma quiet_arm: "wld_rates w = rates_none \<Longrightarrow> arm_storage i w = upd_device i (set_verdict Commit) w"
  by (simp add: arm_storage_def quiet_decisions)

lemma latency_drawn: "draw_range 10 10 w = (v, w') \<Longrightarrow> v = 10"
  using drawn_within(1) [of 10 10 w v w'] drawn_within(2) [of 10 10 w v w', OF _ order_refl order_refl] by simp

section \<open>The queue is submitted\<close>

definition queue_at :: "world \<Rightarrow> nat \<Rightarrow> outbox_entry list" where
  "queue_at w i = sv_outbox (db_view (eng_storage (dv_engine (wld_devices w ! i))))"

text \<open>What a quiet turn pushes: nothing from an empty queue, otherwise its head and some of the rest.\<close>

definition pushes_head :: "outbox_entry list \<Rightarrow> wire_request list \<Rightarrow> bool" where
  "pushes_head q rs \<longleftrightarrow>
     (if q = [] then rs = []
      else \<exists>p n. rs = [ReqPush p] \<and> 0 < n \<and> psq_commands p = map oe_command (take n q))"

lemma sim_reads [simp]:
  "stored_outbox sim_storage s = Inr (sv_outbox (db_view s))"
  "stored_scope_state sim_storage s sc = Inr (position (db_view s) sc)"
  "stored_row_version sim_storage s n i = Inr (view_version (db_view s) (n, i))"
  by (auto simp: sim_storage_def sim_outbox_def db_view_def sim_scope_state_def sim_row_version_def position_def
      view_version_def option.map_comp comp_def)

lemma push_loop_encodes:
  assumes "encodes_all X"
  shows "\<exists>r. push_loop X z g m budget q chosen buf hld = Inr r"
proof -
  have "\<exists>one. canonical_to_vec X to c = Inr one" for to and c :: command
    using assms unfolding encodes_all_def canonical_to_vec_def map_err_def map_ok_def is_ok_iff
    by (metis sum.case(2))
  then have enc: "canonical_to_vec X to c \<noteq> Inl e" for to and c :: command and e
    by (metis sum.distinct(1))
  show ?thesis
    by (induction q arbitrary: chosen buf hld) (auto simp: enc Let_def split: sum.split)
qed

lemma current_sent:
  assumes "current_entry x" and "g = sim_registry entity sc"
  shows "sent_as X g m x = Some (oe_command x)"
  using assms by (auto simp: sent_as_def migrated_command_def current_entry_def sim_registry_def sim_register_def
      registry_defs)

lemma sendable_push:
  assumes e: "sendable e" and coh: "coherent db_view e" and reg: "eng_registry e = sim_registry entity sc"
    and enc: "encodes_all X"
    and run: "build_push X z sim_storage protocol budget e = (r, e')"
  defines "q \<equiv> sv_outbox (db_view (eng_storage e))"
  shows "if q = [] then r = Inr None
    else \<exists>p n. r = Inr (Some p) \<and> 0 < n \<and> psq_commands p = map oe_command (take n q)"
proof -
  obtain r1 e1 where 1: "refresh_outbox_if_suspect sim_storage e = (r1, e1)"
    by fastforce
  have r1: "r1 = Inr ()" "eng_outbox e1 = q"
    using 1 coh by (auto simp: refresh_outbox_if_suspect_def coherent_def q_def split: if_splits)
  note f = sim.refresh_outbox_queues [OF 1]
  have up: "eng_upgrade_required e1 = None"
    using e f by (simp add: sendable_def)
  show ?thesis
  proof (cases "q = []")
    case True
    then show ?thesis
      using run by (simp add: build_push_def 1 r1 up)
  next
    case False
    obtain chosen hld where "push_loop X z (eng_registry e1) (eng_migrations e1) budget q [] [byte_open, byte_close] [] = Inr (chosen, hld)"
      using push_loop_encodes [OF enc] by (metis surj_pair)
    then obtain p where p: "r = Inr (Some p)"
      using run False by (auto simp: build_push_def 1 r1 up)
    have "eng_outbox e' = q" "eng_registry e' = sim_registry entity sc"
      using run p f(3) reg by (auto simp: build_push_def 1 r1 effect_fields split: sum.splits if_splits)
    then obtain n where n: "psq_commands p = List.map_filter (sent_as X (sim_registry entity sc) (eng_migrations e')) (take n q)"
      "n < length q \<longrightarrow> length (psq_commands p) = COMMANDS_MAX_COUNT \<or> psq_commands p \<noteq> []"
      using build_push_spec [OF run [unfolded p]] by auto
    have "List.map_filter (sent_as X (sim_registry entity sc) m) xs = map oe_command xs" if "list_all current_entry xs" for xs m
      using that by (induction xs) (auto simp: map_filter_simps current_sent)
    moreover have "list_all current_entry (take n q)"
      using e by (auto simp: sendable_def q_def list_all_iff dest: in_set_takeD)
    ultimately have "psq_commands p = map oe_command (take n q)"
      using n(1) by simp
    moreover have "0 < n"
      using n(2) calculation False by (cases n) (auto simp: COMMANDS_MAX_COUNT_def)
    ultimately show ?thesis
      using p False by auto
  qed
qed

section \<open>A turn\<close>

lemma online_send:
  assumes "i < length (wld_devices w)" and "tra_online (dv_transport (wld_devices w ! i))"
  shows "handed (send i req w) i = handed w i @ [req]"
    and "tra_online (dv_transport (wld_devices (send i req w) ! i))"
    and "dv_engine (wld_devices (send i req w) ! i) = dv_engine (wld_devices w ! i)"
  using assms by (simp_all add: send_def handed_def transport_enqueue_def Let_def)

lemma engine_set:
  assumes "i < length (wld_devices w)"
  shows "handed (set_engine i e w) i = handed w i" and "dv_engine (wld_devices (set_engine i e w) ! i) = e"
    and "dv_transport (wld_devices (set_engine i e w) ! i) = dv_transport (wld_devices w ! i)"
    and "length (wld_devices (set_engine i e w)) = length (wld_devices w)"
  using assms by (simp_all add: set_engine_def handed_def) (simp add: upd_device_def)

lemma quiet_push_step:
  assumes i: "i < length (wld_devices w)" and on: "tra_online (dv_transport (wld_devices w ! i))"
    and idle: "handed w i = []" and e: "sendable (dv_engine (wld_devices w ! i))"
    and coh: "coherent db_view (dv_engine (wld_devices w ! i))"
    and reg: "eng_registry (dv_engine (wld_devices w ! i)) = sim_registry entity sc" and enc: "encodes_all X"
  defines "w' \<equiv> push_step X i w"
  shows "pushes_head (queue_at w i) (handed w' i)" and "tra_online (dv_transport (wld_devices w' ! i))"
    and "eng_storage (dv_engine (wld_devices w' ! i)) = eng_storage (dv_engine (wld_devices w ! i))"
proof -
  obtain r e' where run: "build_push X (sim_compressor (dv_ratio (wld_devices w ! i))) sim_storage server_protocol 100000
      (dv_engine (wld_devices w ! i)) = (r, e')"
    by fastforce
  note what = sendable_push [OF e coh reg enc run, folded queue_at_def]
  have store: "eng_storage e' = eng_storage (dv_engine (wld_devices w ! i))"
    using sim.build_push_storage [OF run] .
  let ?w1 = "set_engine i e' w"
  note s = engine_set [OF i, of e']
  have on1: "i < length (wld_devices ?w1)" "tra_online (dv_transport (wld_devices ?w1 ! i))"
    using i on s by simp_all
  show "pushes_head (queue_at w i) (handed w' i)" "tra_online (dv_transport (wld_devices w' ! i))"
    "eng_storage (dv_engine (wld_devices w' ! i)) = eng_storage (dv_engine (wld_devices w ! i))"
    using what on s store idle online_send [OF on1]
    by (auto simp: w'_def push_step_def run Let_def pushes_head_def take_Cons' split: if_splits option.split)
qed

lemma quiet_pull_step:
  assumes i: "i < length (wld_devices w)" and on: "tra_online (dv_transport (wld_devices w ! i))"
  defines "w' \<equiv> pull_step i w"
  shows "\<exists>q. handed w' i = handed w i @ [ReqPull q]" and "tra_online (dv_transport (wld_devices w' ! i))"
    and "eng_storage (dv_engine (wld_devices w' ! i)) = eng_storage (dv_engine (wld_devices w ! i))"
proof -
  obtain r e' where run: "reload_scope sim_storage (wld_scope w) (dv_engine (wld_devices w ! i)) = (r, e')"
    by fastforce
  have r: "is_ok r"
    using run
    by (auto simp: reload_scope_def refresh_if_suspect_def refresh_outbox_if_suspect_def map_err_def is_ok_def
        split: if_splits sum.splits)
  have store: "eng_storage e' = eng_storage (dv_engine (wld_devices w ! i))"
    using sim.reload_storage [OF run] .
  let ?w1 = "set_engine i e' w"
  note s = engine_set [OF i, of e']
  have on1: "i < length (wld_devices ?w1)" "tra_online (dv_transport (wld_devices ?w1 ! i))"
    using i on s by simp_all
  show "\<exists>q. handed w' i = handed w i @ [ReqPull q]" "tra_online (dv_transport (wld_devices w' ! i))"
    "eng_storage (dv_engine (wld_devices w' ! i)) = eng_storage (dv_engine (wld_devices w ! i))"
    using s store r on online_send [OF on1] online_send [OF i on]
    by (auto simp: w'_def pull_step_def run Let_def)
qed

lemma quiet_turn:
  assumes q: "quiet_world w" and i: "i < length (wld_devices w)" and idle: "handed w i = []"
    and e: "sendable (dv_engine (wld_devices w ! i))" and coh: "coherent db_view (dv_engine (wld_devices w ! i))"
    and reg: "eng_registry (dv_engine (wld_devices w ! i)) = sim_registry entity sc" and enc: "encodes_all X"
  defines "w' \<equiv> device_turn X i w"
  shows "\<exists>rs r. handed w' i = rs @ [ReqPull r] \<and> pushes_head (queue_at w i) rs"
    and "tra_online (dv_transport (wld_devices w' ! i))"
    and "eng_storage (dv_engine (wld_devices w' ! i)) = eng_storage (dv_engine (wld_devices w ! i))"
proof -
  define w1 where "w1 = connectivity i w"
  have on: "tra_online (dv_transport (wld_devices w ! i))"
    using q i by (simp add: quiet_world_def list_all_length)
  have w1: "i < length (wld_devices w1)" "tra_online (dv_transport (wld_devices w1 ! i))" "handed w1 i = []"
    "dv_engine (wld_devices w1 ! i) = dv_engine (wld_devices w ! i)"
    using quiet_connectivity [OF q, of i] on i idle
    by (auto simp: w1_def set_online_def handed_def) (auto simp: upd_device_def)
  note s = e [folded w1(4)] coh [folded w1(4)] reg [folded w1(4)]
  note p = quiet_push_step [OF w1(1-3) s enc]
  have "i < length (wld_devices (push_step X i w1))"
    using w1(1) by (simp add: push_step_def send_def set_engine_def upd_device_def case_prod_beta Let_def
        split: sum.split option.split)
  note l = quiet_pull_step [OF this p(2)]
  have "w' = pull_step i (push_step X i w1)" "queue_at w1 i = queue_at w i"
    by (simp_all add: w'_def w1_def quiet_turn_run [OF q]) (simp add: queue_at_def w1(4) flip: w1_def)
  with p l w1(4) show "\<exists>rs r. handed w' i = rs @ [ReqPull r] \<and> pushes_head (queue_at w i) rs"
    "tra_online (dv_transport (wld_devices w' ! i))"
    "eng_storage (dv_engine (wld_devices w' ! i)) = eng_storage (dv_engine (wld_devices w ! i))"
    by auto
qed

lemma lawful_turn:
  assumes "lawful w" shows "lawful (device_turn X i w)"
proof -
  have "law.kept (wld_scope w) (wld_entity w) (device_turn X i w)"
    by (rule law.kept_turn) (use assms in \<open>simp add: lawful_kept\<close>)
  then show ?thesis
    by (auto simp: law.kept_def lawful_def)
qed

lemma lawful_sendable: "lawful w \<Longrightarrow> i < length (wld_devices w) \<Longrightarrow> sendable (dv_engine (wld_devices w ! i))"
  by (simp add: lawful_def list_all_length)

lemma quiet_local:
  assumes "quiet_world w" and l: "local i w w'"
    and "i < length (wld_devices w) \<Longrightarrow> tra_online (dv_transport (wld_devices w' ! i))"
  shows "quiet_world w'"
proof -
  have "tra_online (dv_transport (wld_devices w' ! j))" if "j < length (wld_devices w)" for j
    using assms that by (cases "j = i") (auto simp: local_def quiet_world_def list_all_length)
  then show ?thesis
    using assms(1) local_fields [OF l] by (simp add: quiet_world_def list_all_length)
qed

text \<open>The first \<open>n\<close> devices have had their turn.\<close>

definition turned :: "world \<Rightarrow> nat \<Rightarrow> world \<Rightarrow> bool" where
  "turned w n w' \<longleftrightarrow> quiet_world w' \<and> lawful w' \<and>
     (\<forall>i < length (wld_devices w). eng_storage (dv_engine (wld_devices w' ! i)) = eng_storage (dv_engine (wld_devices w ! i)) \<and>
        (i < n \<longrightarrow> (\<exists>rs r. handed w' i = rs @ [ReqPull r] \<and> pushes_head (queue_at w i) rs)))"

lemma quiet_turns:
  assumes ok: "net_ok X (\<lambda>_. []) w" and idle: "\<forall>i < length (wld_devices w). handed w i = []"
    and small: "\<forall>i < length (wld_devices w). unat (dv_commands_authored (wld_devices w ! i)) + 1 < 2 ^ 32"
    and q: "quiet_world w" and lf: "lawful w" and enc: "encodes_all X"
  shows "turned w (length (wld_devices w)) (fold (device_turn X) [0..<length (wld_devices w)] w)"
proof -
  have "taking_turns X w n (fold (device_turn X) [0..<n] w) \<and> turned w n (fold (device_turn X) [0..<n] w)"
    if "n \<le> length (wld_devices w)" for n
    using that
  proof (induction n)
    case 0
    then show ?case
      using ok idle q lf by (simp add: taking_turns_def net_ok_def devices_ok_def turned_def)
  next
    case (Suc n)
    let ?w1 = "fold (device_turn X) [0..<n] w"
    let ?w2 = "device_turn X n ?w1"
    have n: "n < length (wld_devices w)" and t: "taking_turns X w n ?w1" and tu: "turned w n ?w1"
      using Suc by simp_all
    have len: "length (wld_devices ?w1) = length (wld_devices w)"
      using t by (simp add: taking_turns_def frame_def)
    note next_t = taking_turns_next [OF t n small]
    have h: "handed ?w1 n = []" and d: "devices_ok X (queued w) (handed ?w1) ?w1"
      using t n by (simp_all add: taking_turns_def)
    obtain p where p: "dev_ok X ?w1 (queued w n) (handed ?w1 n) n p (wld_devices ?w1 ! n)"
      using d n len unfolding devices_ok_def by auto
    then have "device_inv (wld_entity ?w1) (wld_scope ?w1) (dv_engine (wld_devices ?w1 ! n))"
      using device_ok_inv(1) by (auto simp: dev_ok_def)
    then have e: "coherent db_view (dv_engine (wld_devices ?w1 ! n))"
      "eng_registry (dv_engine (wld_devices ?w1 ! n)) = sim_registry (wld_entity ?w1) (wld_scope ?w1)"
      by (simp_all add: device_inv_def)
    have tq: "quiet_world ?w1" "lawful ?w1"
      using tu by (simp_all add: turned_def)
    have n1: "n < length (wld_devices ?w1)"
      using n len by simp
    note turn = quiet_turn [OF tq(1) n1 h lawful_sendable [OF tq(2) n1] e enc]
    have "stands X ?w1 (queued w n) n p [] (dv_commands_authored (wld_devices ?w1 ! n)) ?w1"
      using p h n1 by (simp add: stands_def)
    moreover have "unat (dv_commands_authored (wld_devices ?w1 ! n)) + 1 < 2 ^ 32"
      using t n small by (simp add: taking_turns_def)
    ultimately have l: "local n ?w1 ?w2"
      using stands_turn by (fastforce simp: stands_def)
    have other: "wld_devices ?w2 ! j = wld_devices ?w1 ! j" "handed ?w2 j = handed ?w1 j" if "j \<noteq> n" for j
      using l that by (simp_all add: local_def handed_def)
    have "quiet_world ?w2"
      using quiet_local [OF tq(1) l turn(2)] by simp
    moreover have "lawful ?w2"
      by (rule lawful_turn [OF tq(2)])
    moreover have same: "eng_storage (dv_engine (wld_devices ?w1 ! i)) = eng_storage (dv_engine (wld_devices w ! i))"
      if "i < length (wld_devices w)" for i
      using tu that by (simp add: turned_def)
    moreover have "queue_at ?w1 n = queue_at w n"
      using same [OF n] by (simp add: queue_at_def)
    ultimately have "turned w (Suc n) ?w2"
      using turn(1,3) tu other unfolding turned_def by (metis less_Suc_eq)
    with next_t show ?case
      by simp
  qed
  then show ?thesis
    by simp
qed

end
