(* ===== verification/Sim_Quiet_Net.thy ===== *)
theory Sim_Quiet_Net
  imports Sim_Quiet
begin

text \<open>
  The network while a run settles: every request is answered, every answer is put in flight and arrives
  in the next step. The batch that answers a device with changes ahead of it starts at the device's own
  position and is not empty; the answer to a device with a queue answers the head of the queue.
\<close>

section \<open>What is in flight\<close>

definition fresh_batch :: "change list \<Rightarrow> scope_id \<Rightarrow> nat \<Rightarrow> batch \<Rightarrow> bool" where
  "fresh_batch cs sc p b \<longleftrightarrow> bat_scope b = sc \<and>
     (\<exists>n > 0. p + n \<le> length cs \<and> bat_changes b = take n (drop p cs) \<and>
        bat_next_cursor b = Cursor (pos_seq cs (p + n)))"

lemma fresh_batch_append: "fresh_batch cs sc p b \<Longrightarrow> fresh_batch (cs @ ext) sc p b"
proof -
  assume "fresh_batch cs sc p b"
  then obtain n where "bat_scope b = sc" "0 < n" "p + n \<le> length cs" "bat_changes b = take n (drop p cs)"
    "bat_next_cursor b = Cursor (pos_seq cs (p + n))"
    by (auto simp: fresh_batch_def)
  then show ?thesis
    unfolding fresh_batch_def by (intro conjI exI [of _ n]) (simp_all add: pos_seq_append)
qed

definition brings :: "change list \<Rightarrow> scope_id \<Rightarrow> nat \<Rightarrow> nat \<Rightarrow> flight \<Rightarrow> bool" where
  "brings cs sc i p f \<longleftrightarrow> ifl_device f = i \<and>
     (\<exists>P b. ifl_response f = Inr (RespPull P) \<and> plr_batches P = [b] \<and> fresh_batch cs sc p b)"

definition answers :: "nat \<Rightarrow> command_id \<Rightarrow> flight \<Rightarrow> bool" where
  "answers i c f \<longleftrightarrow> ifl_device f = i \<and>
     (\<exists>P. ifl_response f = Inr (RespPush P) \<and> c \<in> res_id ` set (psr_results P))"

lemma brings_append: "brings cs sc i p f \<Longrightarrow> brings (cs @ ext) sc i p f"
  using fresh_batch_append unfolding brings_def by blast

lemma replica_unique:
  assumes "ascending cs" and "replica cs sc p w" and "replica cs sc q w"
  shows "p = q"
proof (cases "sv_cursors w sc")
  case None
  then show ?thesis
    using assms by (simp add: replica_def)
next
  case (Some c)
  then have "pos_seq cs p = pos_seq cs q" "p \<le> length cs" "q \<le> length cs"
    using assms by (simp_all add: replica_def)
  then show ?thesis
    using pos_seq_inj [OF assms(1)] by blast
qed

section \<open>One request\<close>

definition counted :: "nat \<Rightarrow> world \<Rightarrow> world" where
  "counted i = upd_device i (\<lambda>d. d\<lparr>dv_requests_sent := dv_requests_sent d + 1\<rparr>)"

definition put_in_flight :: "nat \<Rightarrow> wire_response \<Rightarrow> world \<Rightarrow> world" where
  "put_in_flight i response w = w\<lparr>wld_in_flight := wld_in_flight w @
     [\<lparr>ifl_device = i, ifl_deliver_at_ms = wld_now_ms w + 10, ifl_response = Inr response\<rparr>]\<rparr>"

lemma quiet_dispatch:
  assumes "wld_rates w = rates_none"
  shows "\<exists>r. dispatch i None response w = put_in_flight i response (w\<lparr>wld_rng := r\<rparr>)"
proof -
  obtain v w1 where d: "draw_range 10 10 w = (v, w1)"
    by fastforce
  then obtain r where w1: "w1 = w\<lparr>wld_rng := r\<rparr>"
    by (rule draw_range_world)
  have "v = 10"
    by (rule latency_drawn [OF d])
  then show ?thesis
    using assms d w1 by (intro exI [of _ r]) (simp add: dispatch_def put_in_flight_def queue_flight_def)
qed

lemma quiet_carry_pull:
  assumes "wld_rates w = rates_none"
  shows "\<exists>r. carry_one X i (ReqPull q) w = put_in_flight i
    (RespPull (srv_pull X q PULL_LIMIT (pressure_budget (wld_pressure w)) (wld_server w))) ((counted i w)\<lparr>wld_rng := r\<rparr>)"
proof -
  have c: "wld_rates (counted i w) = rates_none" "wld_pressure (counted i w) = wld_pressure w"
    "wld_server (counted i w) = wld_server w"
    using assms by (simp_all add: counted_def upd_device_def)
  have "carry_one X i (ReqPull q) w = dispatch i None
      (RespPull (srv_pull X q PULL_LIMIT (pressure_budget (wld_pressure w)) (wld_server w))) (counted i w)"
    unfolding carry_one_def Let_def counted_def [symmetric]
    by (simp add: c quiet_decisions answer_def answer_pull_def case_prod_beta Let_def)
  then show ?thesis
    using quiet_dispatch [OF c(1)] by simp
qed

lemma quiet_carry_push:
  assumes "wld_rates w = rates_none" and ac: "accept_count (length (psq_commands q)) (wld_pressure w) = (accepted, p)"
    and push: "push_prefix X q accepted (wld_server w, wld_rng w) = (pushed, s, r)"
  shows "\<exists>r. carry_one X i (ReqPush q) w = put_in_flight i (RespPush pushed)
    ((counted i w)\<lparr>wld_pressure := p, wld_server := s, wld_rng := r\<rparr>)"
proof -
  have c: "wld_rates (counted i w) = rates_none" "wld_pressure (counted i w) = wld_pressure w"
    "wld_server (counted i w) = wld_server w" "wld_rng (counted i w) = wld_rng w"
    using assms(1) by (simp_all add: counted_def upd_device_def)
  let ?w1 = "(counted i w)\<lparr>wld_pressure := p, wld_server := s, wld_rng := r\<rparr>"
  have "carry_one X i (ReqPush q) w = dispatch i None (RespPush pushed) ?w1"
    unfolding carry_one_def Let_def counted_def [symmetric]
    by (simp add: c quiet_decisions answer_def answer_push_def ac push case_prod_beta Let_def)
  moreover obtain r' where "dispatch i None (RespPush pushed) ?w1 = put_in_flight i (RespPush pushed) (?w1\<lparr>wld_rng := r'\<rparr>)"
    using quiet_dispatch [of ?w1] c(1) by auto
  ultimately show ?thesis
    by auto
qed

text \<open>What carrying requests keeps while nothing goes wrong, and what it puts in flight.\<close>

definition carried_quietly :: "flight list \<Rightarrow> world \<Rightarrow> world \<Rightarrow> bool" where
  "carried_quietly fs w w' \<longleftrightarrow>
     map dv_engine (wld_devices w') = map dv_engine (wld_devices w) \<and> wld_held w' = wld_held w \<and>
     wld_in_flight w' = wld_in_flight w @ fs \<and> wld_scope w' = wld_scope w \<and> wld_now_ms w' = wld_now_ms w \<and>
     (\<forall>f \<in> set fs. ifl_deliver_at_ms f = wld_now_ms w + 10) \<and>
     (quiet_world w \<longrightarrow> quiet_world w')"

lemma carried_quietly_trans:
  "carried_quietly fs w w' \<Longrightarrow> carried_quietly gs w' w'' \<Longrightarrow> carried_quietly (fs @ gs) w w''"
  by (auto simp: carried_quietly_def)

lemma counted_fields:
  "map dv_engine (wld_devices (counted i w)) = map dv_engine (wld_devices w)"
  "map dv_transport (wld_devices (counted i w)) = map dv_transport (wld_devices w)"
  by (cases "i < length (wld_devices w)";
      simp add: counted_def upd_device_def map_update list_update_same_conv list_update_beyond)+

lemma quiet_world_cong:
  assumes "wld_rates w' = wld_rates w" and "wld_quiet w' = wld_quiet w"
    and "map dv_transport (wld_devices w') = map dv_transport (wld_devices w)"
  shows "quiet_world w' = quiet_world w"
proof -
  have "list_all tra_online (map dv_transport (wld_devices w')) = list_all tra_online (map dv_transport (wld_devices w))"
    using assms(3) by simp
  then show ?thesis
    using assms(1,2) by (simp add: quiet_world_def list.pred_map comp_def)
qed

lemma carried_quietly_one:
  "carried_quietly [\<lparr>ifl_device = i, ifl_deliver_at_ms = wld_now_ms w + 10, ifl_response = Inr response\<rparr>] w
     (put_in_flight i response ((counted i w)\<lparr>wld_rng := r\<rparr>))"
  "carried_quietly [\<lparr>ifl_device = i, ifl_deliver_at_ms = wld_now_ms w + 10, ifl_response = Inr response\<rparr>] w
     (put_in_flight i response ((counted i w)\<lparr>wld_pressure := p, wld_server := s, wld_rng := r\<rparr>))"
proof -
  have c: "wld_rates (counted i w) = wld_rates w" "wld_quiet (counted i w) = wld_quiet w"
    "wld_held (counted i w) = wld_held w" "wld_in_flight (counted i w) = wld_in_flight w"
    "wld_scope (counted i w) = wld_scope w" "wld_now_ms (counted i w) = wld_now_ms w"
    by (simp_all add: counted_def upd_device_def)
  have q: "quiet_world w \<longrightarrow> quiet_world w'"
    if "wld_rates w' = wld_rates w" "wld_quiet w' = wld_quiet w"
      "map dv_transport (wld_devices w') = map dv_transport (wld_devices w)" for w'
    using quiet_world_cong [OF that] by simp
  show "carried_quietly [\<lparr>ifl_device = i, ifl_deliver_at_ms = wld_now_ms w + 10, ifl_response = Inr response\<rparr>] w
     (put_in_flight i response ((counted i w)\<lparr>wld_rng := r\<rparr>))"
    "carried_quietly [\<lparr>ifl_device = i, ifl_deliver_at_ms = wld_now_ms w + 10, ifl_response = Inr response\<rparr>] w
     (put_in_flight i response ((counted i w)\<lparr>wld_pressure := p, wld_server := s, wld_rng := r\<rparr>))"
    unfolding carried_quietly_def
    by (intro conjI q; simp add: put_in_flight_def c counted_fields)+
qed

lemma drained_quietly: "carried_quietly [] w (drained i w)"
proof -
  have "map dv_engine (wld_devices (drained i w)) = map dv_engine (wld_devices w)"
    by (cases "i < length (wld_devices w)")
      (simp_all add: drained_def upd_device_def map_update list_update_same_conv list_update_beyond)
  moreover have "tra_online (dv_transport (wld_devices (drained i w) ! j)) = tra_online (dv_transport (wld_devices w ! j))"
    if "j < length (wld_devices w)" for j
    using that by (cases "j = i") (simp_all add: drained_def upd_device_def)
  then have "quiet_world w \<longrightarrow> quiet_world (drained i w)"
    by (simp add: quiet_world_def list_all_length) (simp add: drained_def upd_device_def)
  ultimately show ?thesis
    by (simp add: carried_quietly_def) (simp add: drained_def upd_device_def)
qed

section \<open>The requests of one device\<close>

lemma engine_at:
  "map dv_engine (wld_devices w') = map dv_engine (wld_devices w) \<Longrightarrow> i < length (wld_devices w) \<Longrightarrow>
   dv_engine (wld_devices w' ! i) = dv_engine (wld_devices w ! i)"
  by (metis length_map nth_map)

lemma pull_is_fresh:
  assumes ok: "net_ok X r w" and enc: "encodes_all X" and i: "i < length (wld_devices w)" and req: "ReqPull q \<in> set (r i)"
    and at: "replica (scope_changes (wld_server w) (wld_scope w)) (wld_scope w) p (db_view (eng_storage (dv_engine (wld_devices w ! i))))"
    and behind: "p < visible_count (wld_server w) (wld_scope w)"
  shows "\<exists>b. plr_batches (srv_pull X q PULL_LIMIT budget (wld_server w)) = [b] \<and>
    fresh_batch (scope_changes (wld_server w) (wld_scope w)) (wld_scope w) p b"
proof -
  let ?sc = "wld_scope w" and ?s = "wld_server w"
  let ?C = "scope_changes ?s ?sc" and ?m = "visible_count ?s ?sc"
  have srv: "srv_wf ?s" "srv_guard ?s" "unat (srv_next_seq ?s) \<le> 2 ^ 63"
    using ok by (simp_all add: net_ok_def server_ok_def srv_ok_def)
  obtain p' where p': "dev_ok X w (queued w i) (r i) i p' (wld_devices w ! i)"
    using ok i unfolding net_ok_def devices_ok_def by blast
  then have "p' = p"
    using replica_unique [OF scope_changes_ascending [OF srv(1)] _ at] by (simp add: dev_ok_def)
  with p' have reqs: "requests_ok ?C ?sc p (r i)"
    by (simp add: dev_ok_def)
  then have q: "plq_scopes q = [\<lparr>sc_scope = ?sc, sc_cursor = Cursor (pos_seq ?C p)\<rparr>]"
    using req by (auto simp: requests_ok_def list_all_iff request_ok_def)
  let ?b = "pull_scope X ?s PULL_LIMIT budget \<lparr>sc_scope = ?sc, sc_cursor = Cursor (pos_seq ?C p)\<rparr>"
  have pm: "p \<le> ?m"
    using behind by simp
  obtain n where n: "bat_changes ?b = take n (drop p ?C)" "p + n \<le> ?m" "n = 0 \<longleftrightarrow> p = ?m" "bat_scope ?b = ?sc"
      "bat_next_cursor ?b = Cursor (pos_seq ?C (p + n))"
    using pull_scope_position [OF srv(1,2) enc pm srv(3), of PULL_LIMIT budget] by (auto simp: PULL_LIMIT_def)
  then have "fresh_batch ?C ?sc p ?b"
    using behind visible_count_le [of ?s ?sc] unfolding fresh_batch_def
    by (intro conjI exI [of _ n]) auto
  then show ?thesis
    by (simp add: srv_pull_def q)
qed

lemma push_is_answered:
  assumes s: "run_server sc s" and load: "pressure_reachable p0" and enc: "encodes_all X"
    and q: "psq_commands q = map oe_command (take n ob)" "0 < n" "ob \<noteq> []"
    and S: "finite S" "ids ob \<subseteq> S"
    and ac: "accept_count (length (psq_commands q)) p0 = (accepted, p)"
    and push: "push_prefix X q accepted (s, r) = (pushed, s', r')"
  shows "oe_id (hd ob) \<in> res_id ` set (psr_results pushed)" and "to_write S s' \<le> to_write S s"
proof -
  obtain x rest where ob: "ob = x # rest"
    using q(3) by (cases ob) auto
  obtain n' where n': "n = Suc n'"
    using q(2) by (cases n) auto
  have "1 \<le> accepted"
    using accept_count_bounds(1) [OF pressure_reachable_wf [OF load], of "length (psq_commands q)"] ac q(1)
    by (simp add: ob n')
  then obtain a where a: "accepted = Suc a"
    by (cases accepted) auto
  obtain out where out: "apply_commands X (take accepted (psq_commands q)) (s, r) = (out, s', r')" "psr_results pushed = out"
    using push by (auto simp: push_prefix_def split: prod.splits)
  have "map res_id out = map cmd_id (take accepted (psq_commands q))"
    by (rule answers_ids [OF s out(1)])
  then have "map res_id out = oe_id x # map cmd_id (take a (map oe_command (take n' rest)))"
    by (simp add: q(1) ob n' a oe_id_def)
  then have "oe_id x \<in> set (map res_id out)"
    by simp
  then show "oe_id (hd ob) \<in> res_id ` set (psr_results pushed)"
    by (simp add: ob out(2))
  have "cmd_id ` set (take accepted (psq_commands q)) \<subseteq> ids ob"
    by (auto simp: q(1) ids_def oe_id_def dest!: in_set_takeD)
  then show "to_write S s' \<le> to_write S s"
    using to_write_commands [OF enc out(1) S(1)] S(2) by simp
qed

lemma lawful_carry: "lawful w \<Longrightarrow> lawful (carry_one X i req w)"
proof -
  assume "lawful w"
  then have "law.kept (wld_scope w) (wld_entity w) (carry_one X i req w)"
    by (intro law.kept_carry) (simp add: lawful_kept)
  then show ?thesis
    by (auto simp: law.kept_def lawful_def)
qed

lemma lawful_drained: "lawful w \<Longrightarrow> lawful (drained i w)"
proof -
  assume "lawful w"
  then have "law.kept (wld_scope w) (wld_entity w) (drained i w)"
    unfolding drained_def by (intro law.kept_same) (simp_all add: lawful_kept)
  then show ?thesis
    by (auto simp: law.kept_def lawful_def)
qed

text \<open>What the requests of device \<open>i\<close> come to, seen from the world \<open>w\<close> before them.\<close>

definition served_quietly :: "command_id set \<Rightarrow> nat \<Rightarrow> flight list \<Rightarrow> world \<Rightarrow> world \<Rightarrow> bool" where
  "served_quietly S i fs w w' \<longleftrightarrow>
     carried_quietly fs w w' \<and> lawful w' \<and> srv_grows (wld_server w) (wld_server w') \<and>
     (queue_at w i = [] \<longrightarrow> wld_server w' = wld_server w) \<and>
     to_write S (wld_server w') \<le> to_write S (wld_server w) \<and>
     (queue_at w i \<noteq> [] \<longrightarrow> (\<exists>f \<in> set fs. answers i (oe_id (hd (queue_at w i))) f))"

lemma quiet_pushes:
  assumes ok: "net_ok X r w" and r: "r i = rs @ [ReqPull q]" and i: "i < length (wld_devices w)"
    and head: "pushes_head (queue_at w i) rs" and enc: "encodes_all X" and room: "seq_room 256 w"
    and held: "wld_held w = []" and quiet: "quiet_world w" and lf: "lawful w"
    and S: "finite S" "ids (queue_at w i) \<subseteq> S"
  defines "w' \<equiv> fold (carry_one X i) rs w"
  shows "\<exists>fs. served_quietly S i fs w w'" and "net_ok X (r(i := [ReqPull q])) w'"
proof -
  show "net_ok X (r(i := [ReqPull q])) w'"
  proof (cases "queue_at w i = []")
    case True
    then have "rs = []" "r(i := [ReqPull q]) = r"
      using head r by (auto simp: pushes_head_def fun_eq_iff)
    then show ?thesis
      using ok by (simp add: w'_def)
  next
    case False
    then obtain pq where "rs = [ReqPush pq]"
      using head by (auto simp: pushes_head_def)
    then show ?thesis
      using carry_one_ok(1) [OF ok _ i enc room, of "ReqPush pq" "[ReqPull q]"] r by (simp add: w'_def)
  qed
  show "\<exists>fs. served_quietly S i fs w w'"
  proof (cases "queue_at w i = []")
    case True
    then have "w' = w"
      using head by (simp add: pushes_head_def w'_def)
    then show ?thesis
      using True lf by (intro exI [of _ "[]"]) (simp add: served_quietly_def carried_quietly_def)
  next
    case False
    then obtain pq n where rs: "rs = [ReqPush pq]" and n: "0 < n" "psq_commands pq = map oe_command (take n (queue_at w i))"
      using head by (auto simp: pushes_head_def)
    obtain accepted p where ac: "accept_count (length (psq_commands pq)) (wld_pressure w) = (accepted, p)"
      by fastforce
    obtain pushed s rr where push: "push_prefix X pq accepted (wld_server w, wld_rng w) = (pushed, s, rr)"
      by (metis prod_cases3)
    have "run_server (wld_scope w) (wld_server w)" "pressure_reachable (wld_pressure w)"
      using lf by (simp_all add: lawful_def)
    note ans = push_is_answered [OF this enc n(2,1) False S ac push]
    have "wld_rates w = rates_none"
      using quiet by (simp add: quiet_world_def)
    then obtain rng where w': "w' = put_in_flight i (RespPush pushed) ((counted i w)\<lparr>wld_pressure := p, wld_server := s, wld_rng := rng\<rparr>)"
      using quiet_carry_push [OF _ ac push, of i] by (auto simp: w'_def rs)
    define f where "f = \<lparr>ifl_device = i, ifl_deliver_at_ms = wld_now_ms w + 10, ifl_response = Inr (RespPush pushed)\<rparr>"
    have "carried_quietly [f] w w'"
      unfolding w' f_def by (rule carried_quietly_one(2))
    moreover have "answers i (oe_id (hd (queue_at w i))) f"
      using ans(1) by (simp add: answers_def f_def)
    moreover have "lawful w'"
      unfolding w'_def rs by (simp add: lawful_carry [OF lf])
    moreover have "srv_grows (wld_server w) (wld_server w')"
      using carry_one_ok(2) [OF ok _ i enc room, of "ReqPush pq" "[ReqPull q]"] r
      by (simp add: w'_def rs carried_def srv_evolves_def)
    moreover have "wld_server w' = s"
      by (simp add: w' put_in_flight_def)
    ultimately show ?thesis
      using False ans(2) by (intro exI [of _ "[f]"]) (simp add: served_quietly_def)
  qed
qed

lemma quiet_carry_device:
  assumes ok: "net_ok X r w" and i: "i < length (wld_devices w)" and here: "handed w i = r i"
    and r: "r i = rs @ [ReqPull q]" and head: "pushes_head (queue_at w i) rs" and enc: "encodes_all X"
    and room: "seq_room 256 w" and held: "wld_held w = []" and quiet: "quiet_world w" and lf: "lawful w"
    and S: "finite S" "ids (queue_at w i) \<subseteq> S"
  defines "w' \<equiv> carry_device X i w"
  shows "\<exists>fs. served_quietly S i fs w w' \<and>
    (\<forall>p. replica (scope_changes (wld_server w) (wld_scope w)) (wld_scope w) p (db_view (eng_storage (dv_engine (wld_devices w ! i)))) \<longrightarrow>
       p < visible_count (wld_server w) (wld_scope w) \<longrightarrow>
       (\<exists>f \<in> set fs. brings (scope_changes (wld_server w') (wld_scope w)) (wld_scope w) i p f))"
proof -
  let ?w1 = "drained i w" and ?sc = "wld_scope w"
  define w2 where "w2 = fold (carry_one X i) rs ?w1"
  have out: "map obd_request (tra_pending (dv_transport (wld_devices w ! i))) = rs @ [ReqPull q]"
    using here r by (simp add: handed_def)
  have each: "fold (\<lambda>out. carry_one X i (obd_request out)) outs u = fold (carry_one X i) (map obd_request outs) u" for outs u
    by (simp add: fold_map comp_def)
  have w': "w' = carry_one X i (ReqPull q) w2"
    unfolding w'_def w2_def carry_device_run each out by simp
  note d = drained_quietly [of w i]
  have c1: "quiet_world ?w1" "wld_held ?w1 = []" "wld_server ?w1 = wld_server w" "wld_scope ?w1 = ?sc"
    using d quiet held by (simp_all add: carried_quietly_def drained_fields)
  have len1: "length (wld_devices ?w1) = length (wld_devices w)"
    by (simp add: drained_fields)
  have e1: "dv_engine (wld_devices ?w1 ! i) = dv_engine (wld_devices w ! i)"
    using d i by (intro engine_at) (simp_all add: carried_quietly_def)
  then have q1: "queue_at ?w1 i = queue_at w i"
    by (simp add: queue_at_def)
  have room1: "seq_room 256 ?w1"
    using room by (simp add: seq_room_def c1)
  have i1: "i < length (wld_devices ?w1)"
    using i len1 by simp
  obtain fs where sv: "served_quietly S i fs ?w1 w2"
    using quiet_pushes(1) [OF drained_ok [OF ok] r i1 head [folded q1] enc room1 c1(2,1) lawful_drained [OF lf] S(1)] S(2)
    unfolding w2_def q1 by blast
  have ok2: "net_ok X (r(i := [ReqPull q])) w2"
    unfolding w2_def
    by (rule quiet_pushes(2) [OF drained_ok [OF ok] r i1 head [folded q1] enc room1 c1(2,1) lawful_drained [OF lf] S(1)])
      (use S(2) q1 in simp)
  have c2: "carried_quietly fs ?w1 w2" and lf2: "lawful w2" and g2: "srv_grows (wld_server w) (wld_server w2)"
    using sv by (simp_all add: served_quietly_def c1)
  then have "quiet_world w2" "wld_scope w2 = ?sc" and now2: "wld_now_ms w2 = wld_now_ms w"
    using c1 d by (simp_all add: carried_quietly_def)
  then have sc2: "wld_scope w2 = ?sc" and rates2: "wld_rates w2 = rates_none"
    by (simp_all add: quiet_world_def)
  let ?P = "srv_pull X q PULL_LIMIT (pressure_budget (wld_pressure w2)) (wld_server w2)"
  obtain rng where w'': "w' = put_in_flight i (RespPull ?P) ((counted i w2)\<lparr>wld_rng := rng\<rparr>)"
    unfolding w' using quiet_carry_pull [OF rates2] by blast
  define f where "f = \<lparr>ifl_device = i, ifl_deliver_at_ms = wld_now_ms w2 + 10, ifl_response = Inr (RespPull ?P)\<rparr>"
  have "carried_quietly [f] w2 w'"
    unfolding w'' f_def by (rule carried_quietly_one(1))
  then have c3: "carried_quietly (fs @ [f]) w w'"
    using carried_quietly_trans [OF carried_quietly_trans [OF d c2]] by simp
  have s3: "wld_server w' = wld_server w2"
    by (simp add: w'' put_in_flight_def counted_def upd_device_def)
  have "lawful w'"
    unfolding w' by (rule lawful_carry [OF lf2])
  then have "served_quietly S i (fs @ [f]) w w'"
    using sv c3 s3 by (auto simp: served_quietly_def c1 q1)
  moreover have "brings (scope_changes (wld_server w') ?sc) ?sc i p f"
    if at: "replica (scope_changes (wld_server w) ?sc) ?sc p (db_view (eng_storage (dv_engine (wld_devices w ! i))))"
      and behind: "p < visible_count (wld_server w) ?sc" for p
  proof -
    have len2: "length (wld_devices w2) = length (wld_devices ?w1)"
      using c2 unfolding carried_quietly_def by (metis length_map)
    have e2: "dv_engine (wld_devices w2 ! i) = dv_engine (wld_devices w ! i)"
      using c2 i1 e1 engine_at [of w2 ?w1 i] by (simp add: carried_quietly_def)
    obtain ext where "scope_changes (wld_server w2) ?sc = scope_changes (wld_server w) ?sc @ ext"
      and vis: "visible_count (wld_server w) ?sc \<le> visible_count (wld_server w2) ?sc"
      using g2 unfolding srv_grows_def by blast
    then have at2: "replica (scope_changes (wld_server w2) (wld_scope w2)) (wld_scope w2) p (db_view (eng_storage (dv_engine (wld_devices w2 ! i))))"
      using replica_append [OF at] by (simp add: e2 sc2)
    have "i < length (wld_devices w2)" "ReqPull q \<in> set ((r(i := [ReqPull q])) i)"
      "p < visible_count (wld_server w2) (wld_scope w2)"
      using i1 len2 behind vis by (simp_all add: sc2)
    from pull_is_fresh [OF ok2 enc this(1,2) at2 this(3)] show ?thesis
      by (auto simp: brings_def f_def s3 sc2)
  qed
  ultimately show ?thesis
    by (intro exI [of _ "fs @ [f]"]) auto
qed

section \<open>The whole network\<close>

definition view_at :: "world \<Rightarrow> nat \<Rightarrow> store_view" where
  "view_at w i = db_view (eng_storage (dv_engine (wld_devices w ! i)))"

definition run_changes :: "world \<Rightarrow> change list" where
  "run_changes w = scope_changes (wld_server w) (wld_scope w)"

definition run_visible :: "world \<Rightarrow> nat" where
  "run_visible w = visible_count (wld_server w) (wld_scope w)"

text \<open>The first \<open>n\<close> devices have been served.\<close>

definition networked :: "command_id set \<Rightarrow> world \<Rightarrow> nat \<Rightarrow> flight list \<Rightarrow> world \<Rightarrow> bool" where
  "networked S w n fs w' \<longleftrightarrow>
     carried_quietly fs w w' \<and> lawful w' \<and> srv_grows (wld_server w) (wld_server w') \<and>
     ((\<forall>i < n. queue_at w i = []) \<longrightarrow> wld_server w' = wld_server w) \<and>
     to_write S (wld_server w') \<le> to_write S (wld_server w) \<and>
     (\<forall>i < n. queue_at w i \<noteq> [] \<longrightarrow> (\<exists>f \<in> set fs. answers i (oe_id (hd (queue_at w i))) f)) \<and>
     (\<forall>i < n. \<forall>p. replica (run_changes w) (wld_scope w) p (view_at w i) \<longrightarrow> p < run_visible w \<longrightarrow>
        (\<exists>f \<in> set fs. brings (run_changes w') (wld_scope w) i p f))"

lemma networked_next:
  assumes t: "networked S w n fs w1" and sv: "serving X w n w1" and n: "n < length (wld_devices w)"
    and turn: "handed w n = rs @ [ReqPull q]" "pushes_head (queue_at w n) rs" and held: "wld_held w = []"
    and enc: "encodes_all X" and room: "seq_room (512 * length (wld_devices w)) w" and quiet: "quiet_world w"
    and S: "finite S" "ids (queue_at w n) \<subseteq> S"
  shows "\<exists>gs. networked S w (Suc n) gs (carry_device X n w1)"
proof -
  let ?w2 = "carry_device X n w1" and ?sc = "wld_scope w"
  have c: "carried_quietly fs w w1" and lf: "lawful w1" and g: "srv_grows (wld_server w) (wld_server w1)"
    using t by (simp_all add: networked_def)
  have len: "length (wld_devices w1) = length (wld_devices w)"
    using c unfolding carried_quietly_def by (metis length_map)
  have e: "dv_engine (wld_devices w1 ! n) = dv_engine (wld_devices w ! n)"
    using c n by (intro engine_at) (simp_all add: carried_quietly_def)
  then have qn: "queue_at w1 n = queue_at w n"
    by (simp add: queue_at_def)
  have w1: "quiet_world w1" "wld_held w1 = []" and sc: "wld_scope w1 = ?sc"
    using c quiet held by (simp_all add: carried_quietly_def)
  have ok: "net_ok X (\<lambda>i. if i < n then [] else handed w i) w1" and here: "handed w1 n = handed w n"
    using sv n by (simp_all add: serving_def)
  have "512 * n + 256 \<le> 512 * length (wld_devices w)"
    using n by linarith
  then have room1: "seq_room 256 w1"
    using sv room unfolding serving_def srv_evolves_def seq_room_def by linarith
  have n1: "n < length (wld_devices w1)"
    using n len by simp
  obtain gs where sq: "served_quietly S n gs w1 ?w2"
    and br: "\<And>p. replica (scope_changes (wld_server w1) (wld_scope w1)) (wld_scope w1) p (db_view (eng_storage (dv_engine (wld_devices w1 ! n)))) \<Longrightarrow>
       p < visible_count (wld_server w1) (wld_scope w1) \<Longrightarrow>
       \<exists>f \<in> set gs. brings (scope_changes (wld_server ?w2) (wld_scope w1)) (wld_scope w1) n p f"
    using quiet_carry_device [OF ok n1 _ _ turn(2) [folded qn] enc room1 w1(2,1) lf S(1)] here turn(1) S(2) unfolding qn
    by auto
  have g2: "srv_grows (wld_server w1) (wld_server ?w2)"
    using sq by (simp add: served_quietly_def)
  have sc2: "wld_scope ?w2 = ?sc"
    using sq sc by (simp add: served_quietly_def carried_quietly_def)
  obtain ext where ext: "run_changes w1 = run_changes w @ ext" and vis: "run_visible w \<le> run_visible w1"
    using g unfolding srv_grows_def run_changes_def run_visible_def sc by blast
  obtain ext2 where ext2: "run_changes ?w2 = run_changes w1 @ ext2"
    using g2 unfolding srv_grows_def run_changes_def sc sc2 by blast
  have "\<exists>f \<in> set (fs @ gs). brings (run_changes ?w2) ?sc i p f"
    if i: "i < Suc n" and at: "replica (run_changes w) ?sc p (view_at w i)" and p: "p < run_visible w" for i p
  proof (cases "i = n")
    case True
    have "replica (run_changes w1) ?sc p (view_at w1 n)"
      using replica_append [OF at] by (simp add: ext view_at_def e True)
    then show ?thesis
      using br [of p] p vis by (auto simp: run_changes_def run_visible_def view_at_def sc sc2 True)
  next
    case False
    then have "i < n"
      using i by simp
    then obtain f where "f \<in> set fs" "brings (run_changes w1) ?sc i p f"
      using t at p unfolding networked_def by blast
    then show ?thesis
      using brings_append [of "run_changes w1" ?sc i p f ext2] by (auto simp: ext2)
  qed
  moreover have "\<exists>f \<in> set (fs @ gs). answers i (oe_id (hd (queue_at w i))) f" if "i < Suc n" "queue_at w i \<noteq> []" for i
    using that t sq qn by (cases "i = n") (auto simp: networked_def served_quietly_def less_Suc_eq)
  moreover have "carried_quietly (fs @ gs) w ?w2" "srv_grows (wld_server w) (wld_server ?w2)" "lawful ?w2"
    "to_write S (wld_server ?w2) \<le> to_write S (wld_server w)"
    using carried_quietly_trans [OF c] srv_grows_trans [OF g g2] sq t by (auto simp: served_quietly_def networked_def)
  moreover have "wld_server ?w2 = wld_server w" if "\<forall>i < Suc n. queue_at w i = []"
    using that t sq qn by (simp add: networked_def served_quietly_def)
  ultimately show ?thesis
    unfolding networked_def by (intro exI [of _ "fs @ gs"]) blast
qed

lemma quiet_network:
  assumes ok: "net_ok X (handed w) w" and held: "wld_held w = []"
    and turn: "\<forall>i < length (wld_devices w). \<exists>rs r. handed w i = rs @ [ReqPull r] \<and> pushes_head (queue_at w i) rs"
    and enc: "encodes_all X" and room: "seq_room (512 * length (wld_devices w)) w"
    and quiet: "quiet_world w" and lf: "lawful w"
    and S: "finite S" "\<forall>i < length (wld_devices w). ids (queue_at w i) \<subseteq> S"
  shows "\<exists>fs. networked S w (length (wld_devices w)) fs (carry_network X w)"
proof -
  have "\<exists>fs. networked S w n fs (fold (carry_device X) [0..<n] w)" if "n \<le> length (wld_devices w)" for n
    using that
  proof (induction n)
    case 0
    then show ?case
      using lf by (intro exI [of _ "[]"]) (simp add: networked_def carried_quietly_def)
  next
    case (Suc n)
    then obtain fs where "networked S w n fs (fold (carry_device X) [0..<n] w)"
      by auto
    moreover have "serving X w n (fold (carry_device X) [0..<n] w)"
      by (rule serving_all [OF ok held enc room]) (use Suc.prems in simp)
    moreover obtain rs r where "handed w n = rs @ [ReqPull r]" "pushes_head (queue_at w n) rs"
      using turn Suc.prems Suc_le_lessD by blast
    moreover have "n < length (wld_devices w)" "ids (queue_at w n) \<subseteq> S"
      using Suc.prems S(2) by simp_all
    ultimately show ?case
      using networked_next [OF _ _ _ _ _ held enc room quiet S(1), of n fs "fold (carry_device X) [0..<n] w" rs r] by simp
  qed
  then obtain fs where fs: "networked S w (length (wld_devices w)) fs (fold (carry_device X) [0..<length (wld_devices w)] w)"
    (is "networked _ _ _ _ ?w1")
    by blast
  have "wld_held ?w1 = []"
    using fs held by (simp add: networked_def carried_quietly_def)
  moreover have "u\<lparr>wld_held := []\<rparr> = u" if "wld_held u = []" for u :: world
    using that by simp
  ultimately have "carry_network X w = ?w1"
    by (simp add: carry_network_def release_held_def)
  then show ?thesis
    using fs by auto
qed

end
