(* ===== verification/Sim_Quiet_Delivery.thy ===== *)
theory Sim_Quiet_Delivery
  imports Sim_Quiet_Net
begin

text \<open>
  Deliveries while a run settles: with no fault armed a batch that starts at the device's position is
  applied and moves the device, and the commands an answer names leave the queue.
\<close>

section \<open>A batch that fits is applied\<close>

lemma fresh_batch_ordered:
  assumes "fresh_batch cs sc p b" and asc: "ascending cs" and plain: "list_all (plain_upsert entity) cs"
  shows "validate_ordering b (pos_seq cs p) = Inr ()"
proof -
  obtain n where n: "p + n \<le> length cs" "bat_changes b = take n (drop p cs)" "bat_next_cursor b = Cursor (pos_seq cs (p + n))"
    using assms(1) by (auto simp: fresh_batch_def)
  have part: "take n (drop p cs) = drop p (take (p + n) cs)"
    by (simp add: drop_take)
  have "change_wf c" if "c \<in> set (bat_changes b)" for c
    using that plain plain_upsert_wf n(2) set_stretch by (metis list_all_iff subsetD)
  moreover have "sorted_wrt seq_lt (bat_changes b)"
    using asc unfolding n(2) ascending_def seq_lt_def by (simp add: sorted_wrt_take sorted_wrt_drop)
  moreover have "pos_seq cs p < change_seq c \<and> change_seq c \<le> pos_seq cs (p + n)" if "c \<in> set (bat_changes b)" for c
    using that ascending_above [OF asc, of c p] ascending_below [OF asc n(1), of c]
    unfolding n(2) by (metis in_set_dropD in_set_takeD part)
  ultimately show ?thesis
    unfolding validate_ordering_ok by (simp add: list_all_iff n(3))
qed

lemma plain_staged:
  assumes "eng_registry e = sim_registry entity scope"
  shows "list_all (plain_upsert entity) cs \<Longrightarrow> \<exists>r. stage_all X sim_storage e cs gq = Inr r"
proof (induction cs arbitrary: gq)
  case (Cons c cs)
  have c: "plain_upsert entity c"
    using Cons.prems by simp
  then have "migrated_change X (eng_registry e) (eng_migrations e) c = Inr None"
    using own_change_unmigrated [OF _ assms] by (simp add: plain_upsert_def own_change_def)
  moreover have "class_of (eng_registry e) (chg_entity c) = Some OwnerDraft"
    using c by (simp add: plain_upsert_def assms sim_registry_lookup)
  ultimately have "\<exists>r. stage_one X sim_storage e c gq = Inr r"
    using c by (cases gq)
      (auto simp: stage_one_def stage_change_def staged_version_def plain_upsert_def map_ok_def Let_def split: option.splits)
  then show ?case
    using Cons.IH Cons.prems by auto
qed simp

lemma fresh_batch_applied:
  assumes coh: "coherent db_view e" and reg: "eng_registry e = sim_registry entity sc"
    and asc: "ascending cs" and plain: "list_all (plain_upsert entity) cs"
    and rep: "replica cs sc p (db_view (eng_storage e))" and b: "fresh_batch cs sc p b"
    and ready: "db_verdict (eng_storage e) = Commit" and run: "apply_changes X sim_storage b cmp rb e = (r, e')"
  shows "sv_cursors (db_view (eng_storage e')) sc = Some (bat_next_cursor b)"
proof -
  have sc: "bat_scope b = sc"
    using b by (simp add: fresh_batch_def)
  obtain r1 e1 where 1: "refresh_if_suspect sim_storage sc e = (r1, e1)"
    by fastforce
  have r1: "r1 = Inr ()" "eng_storage e1 = eng_storage e" "eng_registry e1 = eng_registry e"
    using 1 by (auto simp: refresh_if_suspect_def split: if_splits)
  have "coherent db_view e1" "sc \<notin> eng_suspect e1"
    using sim.refresh_coherent [OF coh 1] refresh_facts [OF 1 [unfolded r1(1)]] by simp_all
  then have state: "(case eng_scopes e1 sc of Some s \<Rightarrow> s | None \<Rightarrow> ScopeState_NEW) = stored_state (db_view (eng_storage e)) sc"
    using r1(2) by (auto simp: coherent_def stored_state_def split: option.splits)
  have val: "validate_ordering b (cursor_get (ss_cursor (stored_state (db_view (eng_storage e)) sc))) = Inr ()"
    using fresh_batch_ordered [OF b asc plain] replica_cursor [OF rep] by simp
  have own: "list_all (plain_upsert entity) (bat_changes b)"
    using b plain set_stretch unfolding fresh_batch_def list_all_iff by (metis subsetD)
  obtain g q where stg: "stage_all X sim_storage e1 (bat_changes b) (staging_start (stored_state (db_view (eng_storage e)) sc)) = Inr (g, q)"
    using plain_staged [OF _ own, of e1 sc] r1(3) reg by (metis surj_pair)
  have com: "commit_batch sim_storage b cmp rb g q e1 = (r, e')"
    using run unfolding apply_changes_def by (simp add: sc 1 r1(1) state val stg Let_def)
  let ?ops = "stg_ops g @ [SetCursor sc (bat_next_cursor b), SetScopeDigest sc (digest_to_hex (stg_digest g))] @
      health_ops cmp rb b (stg_digest g) (engine_scope_health e1 sc)"
  obtain r2 s' where t: "transact sim_storage (eng_storage e1) ?ops = (r2, s')"
    by fastforce
  then have "sim_transact (eng_storage e) ?ops = (r2, s')"
    using r1(2) by (simp add: sim_storage_def)
  then have view: "db_view s' = view_ops ?ops (db_view (eng_storage e))"
    using sim_transact_view ready by simp
  have "eng_storage e' = s'"
    using com t unfolding commit_batch_def Let_def health_ops_def sc
    by (auto simp: effect_fields split: sum.splits if_splits)
  then show ?thesis
    using view by (auto simp: health_ops_def Let_def)
qed

section \<open>One delivery\<close>

definition armed_engine :: "world \<Rightarrow> nat \<Rightarrow> db engine" where
  "armed_engine w i = (dv_engine (wld_devices w ! i))
     \<lparr>eng_storage := (eng_storage (dv_engine (wld_devices w ! i)))\<lparr>db_verdict := Commit\<rparr>\<rparr>"

lemma quiet_armed:
  assumes "wld_rates w = rates_none" and "i < length (wld_devices w)"
  shows "dv_engine (wld_devices (arm_storage i w) ! i) = armed_engine w i"
    and "length (wld_devices (arm_storage i w)) = length (wld_devices w)"
  using assms by (simp_all add: quiet_arm armed_engine_def set_verdict_def) (simp add: upd_device_def)

lemma killed_storage:
  assumes "i < length (wld_devices w)"
  shows "eng_storage (dv_engine (wld_devices (maybe_kill i w) ! i)) = eng_storage (dv_engine (wld_devices w ! i))"
  using assms
  by (simp add: maybe_kill_def world_restart_def Let_def case_prod_beta restart_fields note_fault_def upd_device_def)

lemma delivered_storage:
  assumes "wld_rates w = rates_none" and "i < length (wld_devices w)"
  shows "eng_storage (dv_engine (wld_devices (maybe_kill i (note_event i t (set_engine i e (arm_storage i w)))) ! i)) = eng_storage e"
proof -
  have "i < length (wld_devices (arm_storage i w))"
    using quiet_armed(2) [OF assms] assms(2) by simp
  note s = engine_set [OF this, of e]
  have "i < length (wld_devices (note_event i t (set_engine i e (arm_storage i w))))"
    using s(4) assms quiet_armed(2) [OF assms] by simp
  then show ?thesis
    using killed_storage s(2) by simp
qed

lemma deliver_batch_storage:
  assumes "wld_rates w = rates_none" and "i < length (wld_devices w)"
    and "apply_batch X sim_storage b (armed_engine w i) = (r, e)"
  shows "eng_storage (dv_engine (wld_devices (deliver_batch X i b w) ! i)) = eng_storage e"
  using delivered_storage [OF assms(1,2)] assms(3) by (simp add: deliver_batch_def Let_def quiet_armed [OF assms(1,2)])

lemma deliver_results_storage:
  assumes "wld_rates w = rates_none" and "i < length (wld_devices w)"
    and "apply_results sim_storage response (armed_engine w i) = (r, e)"
  shows "eng_storage (dv_engine (wld_devices (deliver_results i response w) ! i)) = eng_storage e"
  using delivered_storage [OF assms(1,2)] assms(3) by (simp add: deliver_results_def Let_def quiet_armed [OF assms(1,2)])

lemma armed_view: "db_view (eng_storage (armed_engine w i)) = view_at w i"
  by (simp add: armed_engine_def view_at_def)

lemma queue_view: "queue_at w i = sv_outbox (view_at w i)"
  by (simp add: queue_at_def view_at_def)

text \<open>A batch leaves the queue alone.\<close>

lemma deliver_batch_queue:
  assumes "wld_rates w = rates_none" and "i < length (wld_devices w)"
  shows "queue_at (deliver_batch X i b w) i = queue_at w i"
proof -
  obtain r e where run: "apply_batch X sim_storage b (armed_engine w i) = (r, e)"
    by fastforce
  show ?thesis
    using sim.apply_changes_queues(1) [OF run [unfolded apply_batch_def]] deliver_batch_storage [OF assms run]
    by (simp add: queue_view armed_view) (simp add: view_at_def)
qed

text \<open>The commands that are answered leave it.\<close>

lemma deliver_results_queue:
  assumes w: "wld_rates w = rates_none" "i < length (wld_devices w)" and coh: "coherent db_view (dv_engine (wld_devices w ! i))"
  shows "queue_at (deliver_results i response w) i = filter (\<lambda>x. oe_id x \<notin> res_id ` set (psr_results response)) (queue_at w i)"
proof -
  let ?e = "armed_engine w i"
  obtain r e where run: "apply_results sim_storage response ?e = (r, e)"
    by fastforce
  obtain r1 e1 where 1: "refresh_outbox_if_suspect sim_storage ?e = (r1, e1)"
    by fastforce
  have "coherent db_view ?e"
    using coh by (simp add: armed_engine_def coherent_def)
  then have e1: "r1 = Inr ()" "eng_outbox e1 = queue_at w i"
    using 1 armed_view [of w i] by (auto simp: refresh_outbox_if_suspect_def coherent_def queue_view split: if_splits)
  have s1: "eng_storage e1 = eng_storage ?e"
    using sim.refresh_outbox_queues(1) [OF 1] .
  let ?a = "resolve_all (eng_registry e1) (queue_at w i) (psr_results response)"
  obtain r2 s' where t: "transact sim_storage (eng_storage e1) (rs_ops ?a) = (r2, s')"
    by fastforce
  then have view: "db_view s' = view_ops (rs_ops ?a) (view_at w i)"
    using sim_transact_view [of "eng_storage e1" "rs_ops ?a" r2 s'] s1 armed_view [of w i]
    by (simp add: sim_storage_def) (simp add: armed_engine_def)
  have "eng_storage e = (if rs_ops ?a = [] then eng_storage e1 else s')"
    using run t by (auto simp: apply_results_def 1 e1 Let_def split: sum.splits if_splits)
  then have "db_view (eng_storage e) = view_ops (rs_ops ?a) (view_at w i)"
    using view s1 armed_view [of w i] by (auto split: if_splits)
  then have "queue_at (deliver_results i response w) i =
      filter (\<lambda>x. oe_id x \<notin> {c \<in> res_id ` set (psr_results response). c \<in> ids (queue_at w i)}) (queue_at w i)"
    using deliver_results_storage [OF w run]
    by (simp add: queue_view view_at_def resolve_all_queue_left resolve_all_answered)
  also have "\<dots> = filter (\<lambda>x. oe_id x \<notin> res_id ` set (psr_results response)) (queue_at w i)"
    by (intro filter_cong refl) (auto simp: ids_def)
  finally show ?thesis .
qed

text \<open>A batch that starts where the device stands moves it.\<close>

lemma deliver_batch_fresh:
  assumes st: "stands X w0 (b # bs) i p [] n w" and srv: "srv_ok (wld_entity w0) (wld_server w0)"
    and rates: "wld_rates w = rates_none" and b: "fresh_batch (scope_changes (wld_server w0) (wld_scope w0)) (wld_scope w0) p b"
  shows "\<exists>p' > p. stands X w0 bs i p' [] n (deliver_batch X i b w)"
proof -
  let ?sc = "wld_scope w0"
  let ?C = "scope_changes (wld_server w0) ?sc"
  obtain p' where p': "p \<le> p'" "stands X w0 bs i p' [] n (deliver_batch X i b w)"
    using deliver_batch_ok [OF st srv] by blast
  have i: "i < length (wld_devices w)"
    using st by (rule stands_length)
  have "device_inv (wld_entity w0) ?sc (dv_engine (wld_devices w ! i))"
    using device_ok_inv(1) [OF stands_device_ok [OF st]] .
  then have e: "coherent db_view (armed_engine w i)" "eng_registry (armed_engine w i) = sim_registry (wld_entity w0) ?sc"
    by (simp_all add: armed_engine_def device_inv_def coherent_def)
  have wf: "srv_wf (wld_server w0)" and plain: "list_all (plain_upsert (wld_entity w0)) ?C"
    using srv by (simp_all add: srv_ok_def)
  note asc = scope_changes_ascending [OF wf, of ?sc]
  obtain r e' where run: "apply_batch X sim_storage b (armed_engine w i) = (r, e')"
    by fastforce
  have "replica ?C ?sc p (db_view (eng_storage (armed_engine w i)))"
    using stands_replica [OF st] by (simp add: armed_engine_def)
  from fresh_batch_applied [OF e asc plain this b _ run [unfolded apply_batch_def]]
  have cur: "sv_cursors (view_at (deliver_batch X i b w) i) ?sc = Some (bat_next_cursor b)"
    using deliver_batch_storage [OF rates i run] by (simp add: view_at_def) (simp add: armed_engine_def)
  obtain k where k: "0 < k" "p + k \<le> length ?C" "bat_next_cursor b = Cursor (pos_seq ?C (p + k))"
    using b by (auto simp: fresh_batch_def)
  have "replica ?C ?sc p' (view_at (deliver_batch X i b w) i)"
    using stands_replica [OF p'(2)] by (simp add: view_at_def)
  then have "pos_seq ?C p' = pos_seq ?C (p + k)" "p' \<le> length ?C"
    using cur k(3) by (simp_all add: replica_def)
  then have "p' = p + k"
    using pos_seq_inj [OF asc] k(2) by blast
  with k(1) p'(2) show ?thesis
    by (intro exI [of _ "p + k"]) simp
qed

section \<open>All that is due\<close>

definition placed :: "externs \<Rightarrow> world \<Rightarrow> batch list \<Rightarrow> nat \<Rightarrow> nat \<Rightarrow> bool" where
  "placed X w bs i p \<longleftrightarrow> i < length (wld_devices w) \<and> handed w i = [] \<and> dev_ok X w bs [] i p (wld_devices w ! i)"

lemma placed_stands: "placed X w bs i p \<longleftrightarrow> stands X w bs i p [] (dv_commands_authored (wld_devices w ! i)) w"
  by (auto simp: placed_def stands_def)

lemma stands_placed: "stands X w0 bs i p [] n w \<Longrightarrow> placed X w bs i p"
  using stands_length [of X w0 bs i p "[]" n w] by (auto simp: placed_def stands_def dev_ok_local)

lemma placed_local:
  assumes "placed X w bs i p" and "local j w w'" and "j \<noteq> i"
  shows "placed X w' bs i p" and "queue_at w' i = queue_at w i"
  using assms local_fields(9) [OF assms(2)]
  by (auto simp: placed_def local_def handed_def queue_at_def dev_ok_local [OF assms(2)])

lemma deliver_batches_queue:
  "wld_rates w = rates_none \<Longrightarrow> i < length (wld_devices w) \<Longrightarrow>
   queue_at (fold (deliver_batch X i) bs w) i = queue_at w i"
proof (induction bs arbitrary: w)
  case (Cons b bs)
  have "wld_rates (deliver_batch X i b w) = rates_none" "i < length (wld_devices (deliver_batch X i b w))"
    using Cons.prems local_fields(8,9) [OF deliver_batch_local [of i w X b]] by simp_all
  then show ?case
    using Cons.IH deliver_batch_queue [OF Cons.prems] by simp
qed simp

lemma deliver_one_tracked:
  assumes at: "placed X w (pulls_for i (f # fl)) i p" and ok: "server_ok w" and rates: "wld_rates w = rates_none"
  defines "w' \<equiv> deliver_one X f w"
  shows "\<exists>p' \<ge> p. placed X w' (pulls_for i fl) i p' \<and> (brings (run_changes w) (wld_scope w) i p f \<longrightarrow> p < p')"
    and "(\<exists>P. queue_at w' i = filter P (queue_at w i)) \<and> (\<forall>c. answers i c f \<longrightarrow> c \<notin> ids (queue_at w' i))"
proof -
  have same: "\<exists>P. queue_at w i = filter P (queue_at w i)"
    by (intro exI [of _ "\<lambda>_. True"]) simp
  have "(\<exists>p' \<ge> p. placed X w' (pulls_for i fl) i p' \<and> (brings (run_changes w) (wld_scope w) i p f \<longrightarrow> p < p')) \<and>
    (\<exists>P. queue_at w' i = filter P (queue_at w i)) \<and> (\<forall>c. answers i c f \<longrightarrow> c \<notin> ids (queue_at w' i))"
  proof (cases "ifl_device f = i")
    case False
    have l: "local (ifl_device f) w w'"
      unfolding w'_def by (rule deliver_one_local)
    have "placed X w (pulls_for i fl) i p"
      using at False by simp
    from placed_local [OF this l False] show ?thesis
      using same False by (auto simp: brings_def answers_def)
  next
    case True
    have i: "i < length (wld_devices w)" and srv: "srv_ok (wld_entity w) (wld_server w)"
      using at ok by (simp_all add: placed_def server_ok_def)
    have st: "stands X w (batches_in (ifl_response f) @ pulls_for i fl) i p [] (dv_commands_authored (wld_devices w ! i)) w"
      using at True by (simp add: placed_stands)
    obtain p1 where p1: "p \<le> p1" "placed X w' (pulls_for i fl) i p1"
      using deliver_one_stands [of X w f "pulls_for i fl" p _ w] st srv stands_placed unfolding True w'_def by blast
    have other: ?thesis if "w' = note_event i t w" "\<And>P. ifl_response f \<noteq> Inr (RespPull P)"
      "\<And>P. ifl_response f \<noteq> Inr (RespPush P)" for t
    proof -
      have "queue_at w' i = queue_at w i"
        by (simp add: that(1) queue_at_def)
      then show ?thesis
        using p1 same that(2,3) by (auto simp: brings_def answers_def)
    qed
    show ?thesis
    proof (cases "ifl_response f")
      case (Inl e)
      then show ?thesis
        using other [of "''response-failed''"] True by (simp add: w'_def deliver_one_def Let_def)
    next
      case (Inr response)
      show ?thesis
      proof (cases response)
        case (RespPull P)
        have w': "w' = fold (deliver_batch X i) (plr_batches P) w"
          using Inr RespPull True by (simp add: w'_def deliver_one_def Let_def)
        have q: "queue_at w' i = queue_at w i"
          unfolding w' by (rule deliver_batches_queue [OF rates i])
        have "\<exists>p' > p. placed X w' (pulls_for i fl) i p'" if br: "brings (run_changes w) (wld_scope w) i p f"
        proof -
          obtain b where b: "plr_batches P = [b]" "fresh_batch (scope_changes (wld_server w) (wld_scope w)) (wld_scope w) p b"
            using br Inr RespPull by (auto simp: brings_def run_changes_def)
          then have "stands X w (b # pulls_for i fl) i p [] (dv_commands_authored (wld_devices w ! i)) w"
            using st Inr RespPull by (simp add: batches_in_def)
          from deliver_batch_fresh [OF this srv rates b(2)] show ?thesis
            using stands_placed unfolding w' b(1) by (auto simp del: not_less)
        qed
        moreover have "\<not> answers i c f" for c
          using Inr RespPull by (simp add: answers_def)
        ultimately show ?thesis
          using p1 q same by (metis less_imp_le)
      next
        case (RespPush P)
        have w': "w' = deliver_results i P w"
          using Inr RespPush True by (simp add: w'_def deliver_one_def Let_def)
        have "coherent db_view (dv_engine (wld_devices w ! i))"
          using device_ok_inv(1) [OF stands_device_ok [OF st]] by (simp add: device_inv_def)
        note q = deliver_results_queue [OF rates i this, of P]
        have "\<not> brings cs sc i p f" for cs sc
          using Inr RespPush by (simp add: brings_def)
        moreover have "c \<notin> ids (queue_at w' i)" if "answers i c f" for c
        proof -
          have "c \<in> res_id ` set (psr_results P)"
            using that Inr RespPush by (auto simp: answers_def)
          then show ?thesis
            unfolding w' q ids_def by (simp only: set_map set_filter) blast
        qed
        ultimately show ?thesis
          using p1 q w' by metis
      qed (use other [of "''response-ignored''"] Inr True in \<open>simp_all add: w'_def deliver_one_def Let_def\<close>)
    qed
  qed
  then show "\<exists>p' \<ge> p. placed X w' (pulls_for i fl) i p' \<and> (brings (run_changes w) (wld_scope w) i p f \<longrightarrow> p < p')"
    "(\<exists>P. queue_at w' i = filter P (queue_at w i)) \<and> (\<forall>c. answers i c f \<longrightarrow> c \<notin> ids (queue_at w' i))"
    by blast+
qed

lemma deliver_all_tracked:
  assumes "placed X w (pulls_for i (fs @ fl)) i p" and "server_ok w" and "wld_rates w = rates_none"
  defines "w' \<equiv> fold (deliver_one X) fs w"
  shows "(\<exists>p' \<ge> p. placed X w' (pulls_for i fl) i p' \<and>
       ((\<exists>f \<in> set fs. brings (run_changes w) (wld_scope w) i p f) \<longrightarrow> p < p')) \<and>
     (\<exists>P. queue_at w' i = filter P (queue_at w i)) \<and>
     (\<forall>f \<in> set fs. \<forall>c. answers i c f \<longrightarrow> c \<notin> ids (queue_at w' i))"
  unfolding w'_def using assms(1-3)
proof (induction fs arbitrary: w p)
  case Nil
  then show ?case
    by (auto intro: exI [of _ "\<lambda>_. True"])
next
  case (Cons f fs)
  let ?w1 = "deliver_one X f w"
  have "placed X w (pulls_for i (f # (fs @ fl))) i p"
    using Cons.prems(1) by (simp only: append_Cons)
  note one = deliver_one_tracked [OF this Cons.prems(2,3)]
  obtain p1 where p1: "p \<le> p1" "placed X ?w1 (pulls_for i (fs @ fl)) i p1"
    "brings (run_changes w) (wld_scope w) i p f \<longrightarrow> p < p1"
    using one(1) by blast
  obtain P where q1: "queue_at ?w1 i = filter P (queue_at w i)"
    using one(2) by blast
  note l = local_fields [OF deliver_one_local [of f w X]]
  have w1: "server_ok ?w1" "wld_rates ?w1 = rates_none" "run_changes ?w1 = run_changes w" "wld_scope ?w1 = wld_scope w"
    using Cons.prems(2,3) l by (simp_all add: server_ok_def run_changes_def)
  note rest = Cons.IH [OF p1(2) w1(1,2)]
  obtain p2 where p2: "p1 \<le> p2" "placed X (fold (deliver_one X) fs ?w1) (pulls_for i fl) i p2"
    "(\<exists>f \<in> set fs. brings (run_changes w) (wld_scope w) i p1 f) \<longrightarrow> p1 < p2"
    using rest unfolding w1(3,4) by blast
  obtain Q where q2: "queue_at (fold (deliver_one X) fs ?w1) i = filter Q (queue_at ?w1 i)"
    using rest by blast
  have "p < p2" if "\<exists>g \<in> set (f # fs). brings (run_changes w) (wld_scope w) i p g"
    using that p1(1,3) p2(1,3) by (cases "p1 = p") auto
  moreover have "c \<notin> ids (queue_at (fold (deliver_one X) fs ?w1) i)" if "g \<in> set (f # fs)" "answers i c g" for g c
    using that one(2) rest q2 by (auto simp: ids_def)
  moreover have "queue_at (fold (deliver_one X) fs ?w1) i = filter (\<lambda>x. P x \<and> Q x) (queue_at w i)"
    by (simp add: q1 q2 conj_commute)
  ultimately show ?case
    using p1(1) p2(1,2) order_trans [of p p1 p2] by (simp only: fold_simps) metis
qed

end
