(* ===== verification/Sim_Settle.thy ===== *)
theory Sim_Settle
  imports Sim_Quiet_Delivery
begin

text \<open>
  A step of a run that settles: it hands the head of every queue to the server and asks for what every
  device has not got; what is in flight arrives, moves the devices and empties their queues; and the
  server writes only what the queues hold.
\<close>

section \<open>Deliveries keep the world quiet\<close>

definition all_online :: "world \<Rightarrow> bool" where
  "all_online w \<longleftrightarrow> list_all (\<lambda>d. tra_online (dv_transport d)) (wld_devices w)"

lemma quiet_world_online: "quiet_world w \<longleftrightarrow> wld_rates w = rates_none \<and> wld_quiet w \<and> all_online w"
  by (simp add: quiet_world_def all_online_def)

lemma online_upd:
  assumes "all_online w" and "\<And>d. tra_online (dv_transport d) \<Longrightarrow> tra_online (dv_transport (f d))"
  shows "all_online (upd_device i f w)"
proof -
  have "tra_online (dv_transport ((wld_devices w)[i := f (wld_devices w ! i)] ! j))" if "j < length (wld_devices w)" for j
    using assms that by (cases "j = i") (simp_all add: all_online_def list_all_length)
  then show ?thesis
    by (simp add: all_online_def upd_device_def list_all_length)
qed

lemma online_simps [simp]:
  "all_online (note_event i t w) = all_online w" "all_online (note_fault i f w) = all_online w"
  "all_online (w\<lparr>wld_rng := r\<rparr>) = all_online w" "all_online (w\<lparr>wld_in_flight := fl\<rparr>) = all_online w"
  "all_online (w\<lparr>wld_invariants := v\<rparr>) = all_online w" "all_online (w\<lparr>wld_server := s\<rparr>) = all_online w"
  "all_online (w\<lparr>wld_pressure := p\<rparr>) = all_online w"
  by (simp_all add: all_online_def note_event_def note_fault_def)

lemma online_kill: "all_online w \<Longrightarrow> all_online (maybe_kill i w)"
  by (simp add: maybe_kill_def world_restart_def Let_def case_prod_beta transport_new_def online_upd)

lemma online_arm: "wld_rates w = rates_none \<Longrightarrow> all_online w \<Longrightarrow> all_online (arm_storage i w)"
  by (simp add: quiet_arm online_upd set_verdict_def)

lemma online_deliver_batch: "wld_rates w = rates_none \<Longrightarrow> all_online w \<Longrightarrow> all_online (deliver_batch X i b w)"
  unfolding deliver_batch_def Let_def case_prod_beta set_engine_def
  by (intro online_kill) (simp add: online_upd online_arm)

lemma online_deliver_results: "wld_rates w = rates_none \<Longrightarrow> all_online w \<Longrightarrow> all_online (deliver_results i r w)"
  unfolding deliver_results_def Let_def case_prod_beta set_engine_def
  by (intro online_kill) (simp add: online_upd online_arm)

lemma online_batches:
  "wld_rates w = rates_none \<Longrightarrow> all_online w \<Longrightarrow> all_online (fold (deliver_batch X i) bs w)"
  by (induction bs arbitrary: w)
    (simp_all add: online_deliver_batch local_fields(8) [OF deliver_batch_local])

lemma quiet_delivered: "quiet_world w \<Longrightarrow> quiet_world (deliver_one X f w)"
  using local_fields(8,10,11) [OF deliver_one_local [of f w X]]
  by (auto simp: quiet_world_online deliver_one_def Let_def online_batches online_deliver_results
      split: sum.split wire_response.split)

lemma quiet_delivered_all: "quiet_world w \<Longrightarrow> quiet_world (fold (deliver_one X) fs w)"
  by (induction fs arbitrary: w) (simp_all add: quiet_delivered)

section \<open>A step\<close>

definition settling :: "externs \<Rightarrow> command_id set \<Rightarrow> nat \<Rightarrow> world \<Rightarrow> bool" where
  "settling X S k w \<longleftrightarrow> minute_ok X k w \<and> quiet_world w \<and> lawful w \<and> finite S \<and>
     (\<forall>i < length (wld_devices w). ids (queue_at w i) \<subseteq> S)"

text \<open>Device \<open>i\<close> holds the first \<open>p\<close> changes of the run.\<close>

definition holds :: "world \<Rightarrow> nat \<Rightarrow> nat \<Rightarrow> bool" where
  "holds w i p \<longleftrightarrow> replica (run_changes w) (wld_scope w) p (view_at w i)"

definition due_next :: "world \<Rightarrow> flight \<Rightarrow> bool" where
  "due_next w f \<longleftrightarrow> ifl_deliver_at_ms f \<le> wld_now_ms w + STEP_MS"

definition idle_queues :: "world \<Rightarrow> bool" where
  "idle_queues w \<longleftrightarrow> (\<forall>i < length (wld_devices w). queue_at w i = [])"

lemma quiet_start:
  assumes q: "quiet_world w" and lf: "lawful w"
  shows "before_turns X w = (advance_time w)\<lparr>wld_server := advance_commits (wld_server w),
      wld_pressure := pressure_tick (wld_pressure w)\<rparr>" (is "_ = ?w'")
    and "quiet_world (before_turns X w)" and "lawful (before_turns X w)"
proof -
  have a: "wld_server (advance_time w) = wld_server w" "wld_pressure (advance_time w) = wld_pressure w"
    "map dv_transport (wld_devices (advance_time w)) = map dv_transport (wld_devices w)"
    "map dv_engine (wld_devices (advance_time w)) = map dv_engine (wld_devices w)" "wld_scope (advance_time w) = wld_scope w"
    "wld_rates (advance_time w) = wld_rates w" "wld_quiet (advance_time w) = wld_quiet w"
    by (simp_all add: advance_time_def Let_def)
  have q': "quiet_world u" if "wld_rates u = wld_rates w" "wld_quiet u = wld_quiet w"
      "map dv_transport (wld_devices u) = map dv_transport (wld_devices w)" for u
    using quiet_world_cong [OF that] q by simp
  have "quiet_world ((advance_time w)\<lparr>wld_server := advance_commits (wld_server (advance_time w))\<rparr>)"
    by (rule q') (simp_all add: a)
  from quiet_before_turns [OF this] show run: "before_turns X w = ?w'"
    by (simp add: before_turns_def Let_def a)
  show "quiet_world (before_turns X w)"
    unfolding run by (rule q') (simp_all add: a)
  have "list_all sendable (map dv_engine (wld_devices w))"
    using lf by (simp add: lawful_def list.pred_map comp_def)
  then have "list_all (\<lambda>d. sendable (dv_engine d)) (wld_devices (advance_time w))"
    unfolding a(4) [symmetric] by (simp add: list.pred_map comp_def)
  then show "lawful (before_turns X w)"
    using lf run_server_advance pressure_reachable.intros(3) unfolding run by (simp add: lawful_def a)
qed

lemma advance_queue: "queue_at (before_turns X w) i = queue_at w i" "view_at (before_turns X w) i = view_at w i"
  if "quiet_world w" "lawful w" "i < length (wld_devices w)"
  using that by (simp_all add: quiet_start queue_at_def view_at_def advance_time_def Let_def)

lemma quiet_after_turns:
  assumes st: "settling X S k w" and enc: "encodes_all X" and k: "Suc k < 2 ^ 32"
  defines "w4 \<equiv> after_turns X w"
  shows "quiet_world w4" and "lawful w4" and "wld_server w4 = advance_commits (wld_server w)"
    and "\<And>i. i < length (wld_devices w) \<Longrightarrow> queue_at w4 i = queue_at w i \<and> view_at w4 i = view_at w i"
    and "\<exists>fs. networked S w4 (length (wld_devices w)) fs (carry_network X w4)"
proof -
  let ?w3 = "before_turns X w"
  have ok: "minute_ok X k w" and q: "quiet_world w" and lf: "lawful w"
    using st by (simp_all add: settling_def)
  note m = minute_turns [OF ok k, folded w4_def]
  note q3 = quiet_start [OF q lf, of X]
  have len: "length (wld_devices ?w3) = length (wld_devices w)" and s3: "wld_server ?w3 = advance_commits (wld_server w)"
    by (simp_all add: q3(1) advance_time_def Let_def)
  have tu: "turned ?w3 (length (wld_devices w)) w4"
    using quiet_turns [OF m(1-3) q3(2,3) enc] unfolding w4_def after_turns_def len by simp
  then show w4: "quiet_world w4" "lawful w4"
    by (simp_all add: turned_def)
  show "wld_server w4 = advance_commits (wld_server w)"
    using m(6) s3 by (simp add: frame_def)
  show same: "queue_at w4 i = queue_at w i \<and> view_at w4 i = view_at w i" if "i < length (wld_devices w)" for i
    using tu advance_queue [OF q lf that, of X] that len by (simp add: turned_def queue_at_def view_at_def)
  have "\<exists>rs r. handed w4 i = rs @ [ReqPull r] \<and> pushes_head (queue_at w4 i) rs" if "i < length (wld_devices w4)" for i
  proof -
    have i: "i < length (wld_devices w)"
      using that m(12) by simp
    then have "queue_at w4 i = queue_at ?w3 i"
      using same advance_queue(1) [OF q lf] by simp
    then show ?thesis
      using tu i len by (auto simp: turned_def)
  qed
  moreover have "finite S" "\<forall>i < length (wld_devices w4). ids (queue_at w4 i) \<subseteq> S"
    using st same m(12) by (auto simp: settling_def)
  ultimately show "\<exists>fs. networked S w4 (length (wld_devices w)) fs (carry_network X w4)"
    using quiet_network [OF m(5,7) _ enc m(15) w4] m(12) by simp
qed

lemma srv_grows_changes:
  "srv_grows (wld_server w) (wld_server w') \<Longrightarrow> wld_scope w' = wld_scope w \<Longrightarrow>
   \<exists>ext. run_changes w' = run_changes w @ ext"
  by (simp add: srv_grows_def run_changes_def)

lemma to_write_advance: "to_write S (advance_commits s) = to_write S s"
  by (simp add: to_write_def advance_commits_log)

text \<open>
  What a step does while a run settles. The answers it gets and the changes it asks for are under way
  when it ends and arrive in the next; what was under way when it began has arrived.
\<close>

definition stepped :: "command_id set \<Rightarrow> world \<Rightarrow> world \<Rightarrow> bool" where
  "stepped S w w' \<longleftrightarrow>
     length (wld_devices w') = length (wld_devices w) \<and> wld_scope w' = wld_scope w \<and>
     srv_grows (advance_commits (wld_server w)) (wld_server w') \<and>
     (idle_queues w \<longrightarrow> wld_server w' = advance_commits (wld_server w)) \<and>
     to_write S (wld_server w') \<le> to_write S (wld_server w) \<and>
     (\<forall>i < length (wld_devices w).
        (queue_at w i \<noteq> [] \<longrightarrow> (\<exists>f \<in> set (wld_in_flight w'). due_next w' f \<and> answers i (oe_id (hd (queue_at w i))) f)) \<and>
        (\<forall>p. holds w i p \<longrightarrow> p < visible_count (advance_commits (wld_server w)) (wld_scope w) \<longrightarrow>
           (\<exists>f \<in> set (wld_in_flight w'). due_next w' f \<and> brings (run_changes w') (wld_scope w) i p f)) \<and>
        (\<forall>p. holds w i p \<longrightarrow> (\<exists>p' \<ge> p. holds w' i p' \<and>
           ((\<exists>f \<in> set (wld_in_flight w). due_next w f \<and> brings (run_changes w) (wld_scope w) i p f) \<longrightarrow> p < p'))) \<and>
        (\<exists>P. queue_at w' i = filter P (queue_at w i)) \<and>
        (\<forall>f \<in> set (wld_in_flight w). due_next w f \<longrightarrow> (\<forall>c. answers i c f \<longrightarrow> c \<notin> ids (queue_at w' i))))"

lemma minute_holds:
  assumes "minute_ok X k w" and "i < length (wld_devices w)"
  obtains p where "holds w i p" and "p \<le> visible_count (wld_server w) (wld_scope w)"
proof -
  obtain p where "dev_ok X w (pulls_for i (wld_in_flight w)) [] i p (wld_devices w ! i)"
    using assms unfolding minute_ok_def settled_def devices_ok_def by blast
  then show thesis
    using that [of p] by (simp add: dev_ok_def holds_def run_changes_def view_at_def)
qed

lemma settling_step:
  assumes st: "settling X S k w" and enc: "encodes_all X" and k: "Suc k < 2 ^ 32"
  defines "w' \<equiv> world_step X w"
  shows "stepped S w w'" and "settling X S (Suc k) w'"
proof -
  let ?N = "length (wld_devices w)" and ?sc = "wld_scope w" and ?s = "advance_commits (wld_server w)"
  define w4 where "w4 = after_turns X w"
  define w5 where "w5 = carry_network X w4"
  define w6 where "w6 = deliver_due X w5"
  have ok: "minute_ok X k w" and q: "quiet_world w" and lf: "lawful w"
    using st by (simp_all add: settling_def)
  note m = minute_turns [OF ok k, folded w4_def]
  note t = quiet_after_turns [OF st enc k, folded w4_def]
  obtain fs where net: "networked S w4 ?N fs w5"
    using t(5) by (auto simp: w5_def)
  then have c: "carried_quietly fs w4 w5" and g: "srv_grows ?s (wld_server w5)"
    by (simp_all add: networked_def t(3))
  have e5: "map dv_engine (wld_devices w5) = map dv_engine (wld_devices w4)" and fl5: "wld_in_flight w5 = wld_in_flight w @ fs"
    and sc5: "wld_scope w5 = ?sc" and now5: "wld_now_ms w5 = wld_now_ms w + STEP_MS" and q5: "quiet_world w5"
    and soon: "\<forall>f \<in> set fs. ifl_deliver_at_ms f = wld_now_ms w5 + 10"
    using c t(1) m(8,9,11) by (simp_all add: carried_quietly_def)
  then have len5: "length (wld_devices w5) = ?N"
    using m(12) by (metis length_map)
  note n5 = carry_network_ok [OF m(5,7) enc m(15), folded w5_def]
  obtain due later where fl: "wld_in_flight w5 = due @ later" "\<forall>f \<in> set due. ifl_deliver_at_ms f \<le> wld_now_ms w5"
    "\<forall>f \<in> set later. wld_now_ms w5 < ifl_deliver_at_ms f"
    using n5(7) m(9) now5 by auto
  define u where "u = w5\<lparr>wld_in_flight := later\<rparr>"
  have w6: "w6 = fold (deliver_one X) due u"
  proof -
    have "filter (\<lambda>f. ifl_deliver_at_ms f \<le> wld_now_ms w5) (due @ later) = due"
      "filter (\<lambda>f. \<not> ifl_deliver_at_ms f \<le> wld_now_ms w5) (due @ later) = later"
      using fl(2,3) by (fastforce simp: filter_id_conv filter_empty_conv)+
    then show ?thesis
      by (simp add: w6_def deliver_due_def fl(1) u_def comp_def)
  qed
  note n6 = deliver_due_ok [OF n5(1,5) fl w6_def]
  have f6: "wld_server w6 = wld_server w5" "wld_scope w6 = ?sc" "length (wld_devices w6) = ?N" "wld_in_flight w6 = later"
    "wld_now_ms w6 = wld_now_ms w5" "wld_invariants w6 = wld_invariants w"
    using n6(2) sc5 len5 n5(2) m(10) by (simp_all add: frame_def steady_def)
  have "server_ok w6"
    using n5(5) n6(2) by (simp add: server_ok_def frame_def)
  then obtain v where w': "w' = w6\<lparr>wld_invariants := v\<rparr>"
    using check_world_ok(3) [OF n6(1)] ok f6(6)
    by (auto simp: w'_def world_step_parts w6_def w5_def w4_def minute_ok_def)
  have view': "view_at w' i = view_at w6 i" "queue_at w' i = queue_at w6 i" for i
    by (simp_all add: w' view_at_def queue_at_def)
  have s': "wld_server w' = wld_server w5" "wld_scope w' = ?sc" "length (wld_devices w') = ?N" "wld_in_flight w' = later"
    "wld_now_ms w' = wld_now_ms w5"
    by (simp_all add: w' f6)
  have cs': "run_changes w' = run_changes w5"
    by (simp add: run_changes_def s' sc5)
  have "srv_grows (wld_server w) ?s"
    using advance_commits_evolves ok by (simp add: minute_ok_def server_ok_def srv_ok_def srv_evolves_def)
  then have "srv_grows (wld_server w) (wld_server w5)"
    using g by (rule srv_grows_trans)
  then obtain ext where ext: "run_changes w5 = run_changes w @ ext"
    using srv_grows_changes sc5 by blast
  have new: "f \<in> set later" if "f \<in> set fs" for f
    using that soon fl by (metis Un_iff add_le_same_cancel1 fl5 not_numeral_le_zero set_append)
  have run4: "run_changes w4 = scope_changes ?s ?sc" "run_visible w4 = visible_count ?s ?sc" "wld_scope w4 = ?sc"
    by (simp_all add: run_changes_def run_visible_def t(3) m(11))
  obtain ext4 where ext4: "scope_changes ?s ?sc = run_changes w @ ext4"
    using \<open>srv_grows (wld_server w) ?s\<close> by (auto simp: srv_grows_def run_changes_def)
  have u: "run_changes u = run_changes w5" "wld_scope u = ?sc" "server_ok u" "wld_rates u = rates_none" "quiet_world u"
    using sc5 n5(5) q5 by (simp_all add: u_def run_changes_def server_ok_def quiet_world_def)
  have asc: "ascending (run_changes w5)"
    using scope_changes_ascending n5(5) by (simp add: server_ok_def srv_ok_def run_changes_def)
  have device: "\<exists>p. placed X u (pulls_for i (due @ later)) i p \<and> replica (run_changes w5) ?sc p (view_at w i)"
    "queue_at u i = queue_at w i" if i: "i < ?N" for i
  proof -
    have v: "view_at u i = view_at w i"
      using engine_at [OF e5, of i] t(4) [OF i] i m(12) by (simp add: u_def view_at_def)
    then show "queue_at u i = queue_at w i"
      by (simp add: queue_view)
    obtain p where p: "dev_ok X w5 (pulls_for i (due @ later)) [] i p (wld_devices w5 ! i)"
      using n5(1) i unfolding settled_def devices_ok_def fl(1) len5 by blast
    moreover have "handed w5 i = []"
      using n5(1) i len5 by (simp add: settled_def)
    ultimately have "placed X u (pulls_for i (due @ later)) i p"
      using i len5 by (simp add: placed_def u_def handed_def dev_ok_def)
    moreover have "replica (run_changes w5) ?sc p (view_at w i)"
      using p v by (simp add: dev_ok_def run_changes_def sc5 u_def view_at_def)
    ultimately show "\<exists>p. placed X u (pulls_for i (due @ later)) i p \<and> replica (run_changes w5) ?sc p (view_at w i)"
      by blast
  qed
  have moved: "\<exists>p' \<ge> p. holds w' i p' \<and> ((\<exists>f \<in> set due. brings (run_changes w5) ?sc i p f) \<longrightarrow> p < p')"
    and left: "\<exists>P. queue_at w' i = filter P (queue_at w i)"
    and gone: "\<And>f c. f \<in> set due \<Longrightarrow> answers i c f \<Longrightarrow> c \<notin> ids (queue_at w' i)"
    if i: "i < ?N" and at: "holds w i p" for i p
  proof -
    obtain p1 where p1: "placed X u (pulls_for i (due @ later)) i p1" "replica (run_changes w5) ?sc p1 (view_at w i)"
      using device(1) [OF i] by blast
    have "replica (run_changes w5) ?sc p (view_at w i)"
      using replica_append at by (simp add: holds_def ext)
    then have "p1 = p"
      using replica_unique [OF asc p1(2)] by blast
    note d = deliver_all_tracked [OF p1(1) u(3,4), folded w6, unfolded u(1,2) this]
    obtain p' where p': "p \<le> p'" "placed X w6 (pulls_for i later) i p'"
      "(\<exists>f \<in> set due. brings (run_changes w5) ?sc i p f) \<longrightarrow> p < p'"
      using d by blast
    then have "holds w' i p'"
      by (simp add: holds_def placed_def dev_ok_def cs' s'(2) view' f6(1,2)) (simp add: run_changes_def view_at_def sc5 f6(1,2))
    with p' show "\<exists>p' \<ge> p. holds w' i p' \<and> ((\<exists>f \<in> set due. brings (run_changes w5) ?sc i p f) \<longrightarrow> p < p')"
      by blast
    show "\<exists>P. queue_at w' i = filter P (queue_at w i)"
      using d unfolding view' device(2) [OF i] by blast
    show "c \<notin> ids (queue_at w' i)" if "f \<in> set due" "answers i c f" for f c
      using d that unfolding view' by blast
  qed
  have arrived: "f \<in> set due" if "f \<in> set (wld_in_flight w)" "due_next w f" for f
    using that fl(1,3) now5 fl5 by (metis Un_iff due_next_def not_less set_append)
  have coming: "f \<in> set (wld_in_flight w') \<and> due_next w' f" if "f \<in> set fs" for f
    using that new soon by (simp add: s' due_next_def STEP_MS_def)
  have "(queue_at w i \<noteq> [] \<longrightarrow> (\<exists>f \<in> set (wld_in_flight w'). due_next w' f \<and> answers i (oe_id (hd (queue_at w i))) f)) \<and>
        (\<forall>p. holds w i p \<longrightarrow> p < visible_count ?s ?sc \<longrightarrow>
           (\<exists>f \<in> set (wld_in_flight w'). due_next w' f \<and> brings (run_changes w') ?sc i p f)) \<and>
        (\<forall>p. holds w i p \<longrightarrow> (\<exists>p' \<ge> p. holds w' i p' \<and>
           ((\<exists>f \<in> set (wld_in_flight w). due_next w f \<and> brings (run_changes w) ?sc i p f) \<longrightarrow> p < p'))) \<and>
        (\<exists>P. queue_at w' i = filter P (queue_at w i)) \<and>
        (\<forall>f \<in> set (wld_in_flight w). due_next w f \<longrightarrow> (\<forall>c. answers i c f \<longrightarrow> c \<notin> ids (queue_at w' i)))"
    if i: "i < ?N" for i
  proof (intro conjI allI impI ballI)
    obtain p0 where p0: "holds w i p0"
      using minute_holds [OF ok i] .
    show "\<exists>P. queue_at w' i = filter P (queue_at w i)"
      by (rule left [OF i p0])
    show "c \<notin> ids (queue_at w' i)" if "f \<in> set (wld_in_flight w)" "due_next w f" "answers i c f" for f c
      using gone [OF i p0] arrived that by blast
    show "\<exists>f \<in> set (wld_in_flight w'). due_next w' f \<and> answers i (oe_id (hd (queue_at w i))) f" if "queue_at w i \<noteq> []"
      using net that t(4) [OF i] i coming unfolding networked_def by metis
    show "\<exists>f \<in> set (wld_in_flight w'). due_next w' f \<and> brings (run_changes w') ?sc i p f"
      if at: "holds w i p" and behind: "p < visible_count ?s ?sc" for p
    proof -
      have "replica (run_changes w4) (wld_scope w4) p (view_at w4 i)"
        using at replica_append t(4) [OF i] by (simp add: holds_def run4 ext4)
      then obtain f where "f \<in> set fs" "brings (run_changes w5) ?sc i p f"
        using net i behind unfolding networked_def run4 by blast
      then show ?thesis
        using coming cs' by auto
    qed
    show "\<exists>p' \<ge> p. holds w' i p' \<and>
        ((\<exists>f \<in> set (wld_in_flight w). due_next w f \<and> brings (run_changes w) ?sc i p f) \<longrightarrow> p < p')"
      if "holds w i p" for p
    proof -
      have "\<exists>f \<in> set due. brings (run_changes w5) ?sc i p f"
        if "\<exists>f \<in> set (wld_in_flight w). due_next w f \<and> brings (run_changes w) ?sc i p f"
        using that arrived brings_append unfolding ext by blast
      then show ?thesis
        using moved [OF i that] by blast
    qed
  qed
  moreover have "wld_server w' = ?s" if "idle_queues w"
    using net that t(4) by (simp add: networked_def idle_queues_def s' t(3))
  moreover have "to_write S (wld_server w') \<le> to_write S (wld_server w)"
    using net by (simp add: networked_def s' t(3) to_write_advance)
  ultimately show "stepped S w w'"
    using g unfolding stepped_def by (simp add: s')
  have "quiet_world w'"
    using quiet_delivered_all [OF u(5), of X due] by (simp add: w' w6 quiet_world_def)
  moreover have "lawful w'"
    using lawful_steps(1) [OF lf, of X 1] by (simp add: w'_def)
  moreover have "minute_ok X (Suc k) w'"
    unfolding w'_def by (rule minute_step [OF ok enc k])
  moreover have "ids (queue_at w' i) \<subseteq> S" if i: "i < ?N" for i
  proof -
    obtain p0 where "holds w i p0"
      using minute_holds [OF ok i] .
    then obtain P where "queue_at w' i = filter P (queue_at w i)"
      using left [OF i] by blast
    then have "ids (queue_at w' i) \<subseteq> ids (queue_at w i)"
      by (auto simp: ids_def)
    then show ?thesis
      using st i by (auto simp: settling_def)
  qed
  ultimately show "settling X S (Suc k) w'"
    using st by (simp add: settling_def s')
qed

end
