(* ===== verification/Sim_Converge.thy ===== *)
theory Sim_Converge
  imports Sim_Settle
begin

text \<open>
  A run that settles converges: two steps shorten every queue, four steps commit what was written when
  the queues are empty, and two steps bring every device that is behind at least one change further.
\<close>

section \<open>Any number of steps\<close>

lemma world_steps_add: "world_steps X (m + n) w = world_steps X n (world_steps X m w)"
  by (induction m arbitrary: w) simp_all

lemma settling_steps:
  "settling X S k w \<Longrightarrow> encodes_all X \<Longrightarrow> k + n < 2 ^ 32 \<Longrightarrow> settling X S (k + n) (world_steps X n w)"
proof (induction n arbitrary: k w)
  case (Suc n)
  then show ?case
    using settling_step(2) [of X S k w] Suc.IH [of "Suc k" "world_step X w"] by simp
qed simp

text \<open>Something a step keeps is kept by all.\<close>

lemma settling_keeps:
  assumes st: "settling X S k w" and enc: "encodes_all X" and k: "k + n < 2 ^ 32" and start: "P w"
    and step: "\<And>k v. settling X S k v \<Longrightarrow> P v \<Longrightarrow> stepped S v (world_step X v) \<Longrightarrow> P (world_step X v)"
  shows "P (world_steps X n w)"
  using st k start
proof (induction n arbitrary: k w)
  case (Suc n)
  note s = settling_step [OF Suc.prems(1) enc]
  have "P (world_step X w)"
    using step [OF Suc.prems(1,3) s(1)] Suc.prems(2) by simp
  then show ?case
    using Suc.IH [OF s(2)] Suc.prems(2) by simp
qed simp

section \<open>The queues\<close>

definition queues_within :: "nat \<Rightarrow> world \<Rightarrow> bool" where
  "queues_within q w \<longleftrightarrow> (\<forall>i < length (wld_devices w). length (queue_at w i) \<le> q)"

lemma idle_within: "idle_queues w \<longleftrightarrow> queues_within 0 w"
  by (simp add: idle_queues_def queues_within_def)

lemma filter_shorter: "oe_id (hd q) \<notin> ids (filter P q) \<Longrightarrow> length (filter P q) \<le> length q - 1"
  by (cases q) (auto simp: ids_def)

lemma stepped_queues: "stepped S w w' \<Longrightarrow> queues_within q w \<Longrightarrow> queues_within q w'"
  unfolding stepped_def queues_within_def by (metis length_filter_le order_trans)

lemma two_steps_queues:
  assumes 1: "stepped S w w'" and 2: "stepped S w' w''" and q: "queues_within (Suc q) w"
  shows "queues_within q w''"
proof -
  have "length (queue_at w'' i) \<le> q" if i: "i < length (wld_devices w)" for i
  proof -
    obtain P1 where P1: "queue_at w' i = filter P1 (queue_at w i)"
      using 1 i unfolding stepped_def by blast
    have i': "i < length (wld_devices w')"
      using 1 i by (simp add: stepped_def)
    then obtain P2 where P2: "queue_at w'' i = filter P2 (queue_at w' i)"
      using 2 unfolding stepped_def by blast
    have both: "queue_at w'' i = filter (\<lambda>x. P1 x \<and> P2 x) (queue_at w i)"
      by (simp add: P1 P2)
    show ?thesis
    proof (cases "queue_at w i = []")
      case True
      then show ?thesis
        by (simp add: both)
    next
      case False
      then obtain f where "f \<in> set (wld_in_flight w')" "due_next w' f" "answers i (oe_id (hd (queue_at w i))) f"
        using 1 i unfolding stepped_def by blast
      then have "oe_id (hd (queue_at w i)) \<notin> ids (queue_at w'' i)"
        using 2 i' unfolding stepped_def by blast
      then have "length (queue_at w'' i) \<le> length (queue_at w i) - 1"
        unfolding both by (rule filter_shorter)
      then show ?thesis
        using q i unfolding queues_within_def by fastforce
    qed
  qed
  then show ?thesis
    using 1 2 by (simp add: queues_within_def stepped_def)
qed

lemma queues_empty:
  "settling X S k w \<Longrightarrow> encodes_all X \<Longrightarrow> k + 2 * q < 2 ^ 32 \<Longrightarrow> queues_within q w \<Longrightarrow>
   idle_queues (world_steps X (2 * q) w)"
proof (induction q arbitrary: k w)
  case 0
  then show ?case by (simp add: idle_within)
next
  case (Suc q)
  note 1 = settling_step [OF Suc.prems(1,2)]
  have k: "Suc k < 2 ^ 32" "Suc (Suc k) < 2 ^ 32" "Suc (Suc k) + 2 * q < 2 ^ 32"
    using Suc.prems(3) by simp_all
  note 2 = settling_step [OF 1(2) [OF k(1)] Suc.prems(2) k(2)]
  have "queues_within q (world_step X (world_step X w))"
    by (rule two_steps_queues [OF 1(1) [OF k(1)] 2(1) Suc.prems(4)])
  from Suc.IH [OF 2(2) Suc.prems(2) k(3) this] show ?case
    by simp
qed

section \<open>The writes\<close>

lemma stepped_idle: "stepped S w w' \<Longrightarrow> idle_queues w \<Longrightarrow> idle_queues w'"
  using stepped_queues idle_within by blast

lemma idle_commits:
  assumes "stepped S w w'" and "idle_queues w" and "in_flight_within j (wld_server w)"
  shows "in_flight_within (j - 1) (wld_server w')" and "j \<le> 1 \<Longrightarrow> srv_in_flight (wld_server w') = []"
    and "length (srv_log (wld_server w')) = length (srv_log (wld_server w))"
  using assms advance_commits_within [OF assms(3)] by (simp_all add: stepped_def advance_commits_log)

definition at_rest :: "world \<Rightarrow> bool" where
  "at_rest w \<longleftrightarrow> idle_queues w \<and> srv_in_flight (wld_server w) = []"

lemma four_steps_commit:
  assumes st: "settling X S k w" and enc: "encodes_all X" and k: "k + 4 < 2 ^ 32" and idle: "idle_queues w"
  shows "at_rest (world_steps X 4 w)"
proof -
  define v where "v n = world_steps X n w" for n
  have step: "stepped S (v n) (v (Suc n))" if "n < 4" for n
  proof -
    have "settling X S (k + n) (v n)"
      unfolding v_def using settling_steps [OF st enc] k that by simp
    moreover have "v (Suc n) = world_step X (v n)"
      using world_steps_add [of X n 1 w] by (simp add: v_def)
    ultimately show ?thesis
      using settling_step(1) [OF _ enc] k that by simp
  qed
  have i: "idle_queues (v n)" if "n \<le> 4" for n
    using that
  proof (induction n)
    case 0
    then show ?case by (simp add: v_def idle)
  next
    case (Suc n)
    then show ?case
      using stepped_idle [OF step] by simp
  qed
  have less: "in_flight_within (j - 1) (wld_server (v (Suc n)))" if "in_flight_within j (wld_server (v n))" "n < 4" for j n
    using idle_commits(1) [OF step i that(1)] that(2) by simp
  have "in_flight_within 4 (wld_server (v 0))"
    using st by (simp add: v_def settling_def lawful_def run_server_def)
  then have "in_flight_within 1 (wld_server (v 3))"
    using less [OF less [OF less, of 4 0]] by (simp add: numeral_3_eq_3)
  then have "srv_in_flight (wld_server (v (Suc 3))) = []"
    using idle_commits(2) [OF step [of 3] i [of 3], of 1] by simp
  then show ?thesis
    using i [of 4] by (simp add: at_rest_def v_def)
qed

lemma stepped_rest:
  assumes "stepped S w w'" and "at_rest w"
  shows "at_rest w'" and "length (srv_log (wld_server w')) = length (srv_log (wld_server w))"
proof -
  have "in_flight_within 0 (wld_server w)"
    using assms(2) by (simp add: at_rest_def in_flight_within_def)
  note c = idle_commits [OF assms(1) _ this]
  show "at_rest w'" "length (srv_log (wld_server w')) = length (srv_log (wld_server w))"
    using assms stepped_idle [OF assms(1)] c by (simp_all add: at_rest_def)
qed

section \<open>The positions\<close>

text \<open>Every device has at least \<open>t - g\<close> changes.\<close>

definition within_of :: "nat \<Rightarrow> nat \<Rightarrow> world \<Rightarrow> bool" where
  "within_of t g w \<longleftrightarrow> (\<forall>i < length (wld_devices w). \<exists>p. holds w i p \<and> t \<le> p + g)"

lemma stepped_within: "stepped S w w' \<Longrightarrow> within_of t g w \<Longrightarrow> within_of t g w'"
  unfolding stepped_def within_of_def by (metis add_le_mono1 order_trans)

lemma stepped_to_write: "stepped S w w' \<Longrightarrow> to_write S (wld_server w') \<le> to_write S (wld_server w)"
  by (simp add: stepped_def)

lemma two_steps_within:
  assumes 1: "stepped S w w'" and 2: "stepped S w' w''" and t: "within_of t (Suc g) w"
    and seen: "t \<le> visible_count (advance_commits (wld_server w)) (wld_scope w)"
  shows "within_of t g w''"
proof -
  have "\<exists>p. holds w'' i p \<and> t \<le> p + g" if i: "i < length (wld_devices w)" for i
  proof -
    obtain p where p: "holds w i p" "t \<le> p + Suc g"
      using t i unfolding within_of_def by blast
    have i': "i < length (wld_devices w')" and sc: "wld_scope w' = wld_scope w"
      using 1 i by (simp_all add: stepped_def)
    obtain p1 where p1: "p \<le> p1" "holds w' i p1"
      using 1 i p(1) unfolding stepped_def by blast
    obtain p2 where p2: "p1 \<le> p2" "holds w'' i p2"
      "(\<exists>f \<in> set (wld_in_flight w'). due_next w' f \<and> brings (run_changes w') (wld_scope w') i p1 f) \<longrightarrow> p1 < p2"
      using 2 i' p1(2) unfolding stepped_def by blast
    have "t \<le> p2 + g"
    proof (cases "p < t \<and> p1 = p")
      case True
      then have "\<exists>f \<in> set (wld_in_flight w'). due_next w' f \<and> brings (run_changes w') (wld_scope w') i p1 f"
        using 1 i p(1) seen unfolding stepped_def sc by (metis less_le_trans)
      with p2(3) p(2) True show ?thesis
        by simp
    qed (use p(2) p1(1) p2(1) in auto)
    with p2(2) show ?thesis
      by blast
  qed
  then show ?thesis
    using 1 2 by (simp add: within_of_def stepped_def)
qed

lemma rest_visible:
  assumes "settling X S k w" and "at_rest w"
  shows "visible_count (advance_commits (wld_server w)) (wld_scope w) = length (srv_log (wld_server w))"
proof -
  have s: "run_server (wld_scope w) (advance_commits (wld_server w))"
    using assms(1) run_server_advance by (simp add: settling_def lawful_def)
  have "srv_in_flight (advance_commits (wld_server w)) = []"
    using assms(2) advance_commits_within(2) [of 0 "wld_server w"] by (simp add: at_rest_def in_flight_within_def)
  then show ?thesis
    using run_server_visible [OF s] by (simp add: advance_commits_log)
qed

lemma devices_catch_up:
  "settling X S k w \<Longrightarrow> encodes_all X \<Longrightarrow> k + 2 * g < 2 ^ 32 \<Longrightarrow> at_rest w \<Longrightarrow>
   within_of (length (srv_log (wld_server w))) g w \<Longrightarrow>
   within_of (length (srv_log (wld_server w))) 0 (world_steps X (2 * g) w)"
proof (induction g arbitrary: k w)
  case (Suc g)
  have k: "Suc k < 2 ^ 32" "Suc (Suc k) < 2 ^ 32" "Suc (Suc k) + 2 * g < 2 ^ 32"
    using Suc.prems(3) by simp_all
  let ?w1 = "world_step X w" and ?w2 = "world_step X (world_step X w)"
  note 1 = settling_step [OF Suc.prems(1,2) k(1)]
  note 2 = settling_step [OF 1(2) Suc.prems(2) k(2)]
  note r1 = stepped_rest [OF 1(1) Suc.prems(4)]
  note r2 = stepped_rest [OF 2(1) r1(1)]
  have "within_of (length (srv_log (wld_server w))) g ?w2"
    by (rule two_steps_within [OF 1(1) 2(1) Suc.prems(5)])
      (simp add: rest_visible [OF Suc.prems(1,4)])
  then show ?case
    using Suc.IH [OF 2(2) Suc.prems(2) k(3) r2(1)] by (simp add: r1(2) r2(2))
qed simp

section \<open>Settled\<close>

text \<open>Nothing is queued, nothing is in flight to the log, every device has the whole log.\<close>

definition converged :: "world \<Rightarrow> bool" where
  "converged w \<longleftrightarrow> at_rest w \<and> within_of (length (srv_log (wld_server w))) 0 w"

lemma stepped_converged: "stepped S w w' \<Longrightarrow> converged w \<Longrightarrow> converged w'"
  using stepped_rest stepped_within unfolding converged_def by metis

theorem settling_converges:
  assumes st: "settling X S k w" and enc: "encodes_all X" and k: "k + n < 2 ^ 32"
    and q: "queues_within q w" and g: "within_of (to_write S (wld_server w)) g w" and n: "2 * q + 4 + 2 * g \<le> n"
  shows "converged (world_steps X n w)" and "settling X S (k + n) (world_steps X n w)"
proof -
  show all: "settling X S (k + n) (world_steps X n w)"
    by (rule settling_steps [OF st enc k])
  define w1 where "w1 = world_steps X (2 * q) w"
  define w2 where "w2 = world_steps X 4 w1"
  define w3 where "w3 = world_steps X (2 * g) w2"
  have s1: "settling X S (k + 2 * q) w1"
    unfolding w1_def by (rule settling_steps [OF st enc]) (use k n in simp)
  have s2: "settling X S (k + 2 * q + 4) w2"
    unfolding w2_def by (rule settling_steps [OF s1 enc]) (use k n in simp)
  have s3: "settling X S (k + 2 * q + 4 + 2 * g) w3"
    unfolding w3_def by (rule settling_steps [OF s2 enc]) (use k n in simp)
  have "idle_queues w1"
    unfolding w1_def by (rule queues_empty [OF st enc _ q]) (use k n in simp)
  then have r2: "at_rest w2"
    unfolding w2_def by (intro four_steps_commit [OF s1 enc]) (use k n in simp_all)
  have keep: "to_write S (wld_server w2) \<le> to_write S (wld_server w) \<and> within_of (to_write S (wld_server w)) g w2"
  proof -
    let ?P = "\<lambda>v. to_write S (wld_server v) \<le> to_write S (wld_server w) \<and> within_of (to_write S (wld_server w)) g v"
    have "?P (world_steps X (2 * q + 4) w)"
    proof (rule settling_keeps [OF st enc, where P = ?P])
      show "?P (world_step X v)" if "?P v" "stepped S v (world_step X v)" for v
        using that stepped_within [OF that(2)] stepped_to_write [OF that(2)] order_trans by blast
    qed (use k n g in simp_all)
    then show ?thesis
      by (simp add: w2_def w1_def world_steps_add)
  qed
  then have "length (srv_log (wld_server w2)) \<le> to_write S (wld_server w)"
    by (simp add: to_write_def)
  then have "within_of (length (srv_log (wld_server w2))) g w2"
    using keep unfolding within_of_def by (metis order_trans)
  then have "within_of (length (srv_log (wld_server w2))) 0 w3"
    unfolding w3_def by (intro devices_catch_up [OF s2 enc _ r2]) (use k n in simp_all)
  moreover have rest: "at_rest w3 \<and> length (srv_log (wld_server w3)) = length (srv_log (wld_server w2))"
    unfolding w3_def
    by (rule settling_keeps [OF s2 enc, where P = "\<lambda>v. at_rest v \<and> length (srv_log (wld_server v)) = length (srv_log (wld_server w2))"])
      (use k n r2 stepped_rest in auto)
  ultimately have "converged w3"
    by (simp add: converged_def)
  then have "converged (world_steps X (n - (2 * q + 4 + 2 * g)) w3)"
  proof (intro settling_keeps [OF s3 enc, where P = converged])
    show "k + 2 * q + 4 + 2 * g + (n - (2 * q + 4 + 2 * g)) < 2 ^ 32"
      using k n by simp
    show "converged (world_step X v)" if "converged v" "stepped S v (world_step X v)" for v
      by (rule stepped_converged [OF that(2,1)])
  qed
  moreover have "world_steps X (n - (2 * q + 4 + 2 * g)) w3 = world_steps X n w"
    using n unfolding w3_def w2_def w1_def world_steps_add [symmetric] by simp
  ultimately show "converged (world_steps X n w)"
    by simp
qed

section \<open>What a run is behind\<close>

text \<open>The changes of the scope above a device's cursor.\<close>

definition changes_missing :: "world \<Rightarrow> db \<Rightarrow> change list" where
  "changes_missing w d =
     filter (\<lambda>c. stored_cursor d (wld_scope w) < change_seq c) (scope_changes (wld_server w) (wld_scope w))"

definition commands_queued :: "world \<Rightarrow> nat" where
  "commands_queued w = sum_list (map (\<lambda>d. length (db_outbox d)) (world_databases w))"

lemma replica_stored: "replica cs sc p (db_view d) \<Longrightarrow> stored_cursor d sc = pos_seq cs p"
  by (auto simp: replica_def stored_cursor_def db_view_def pos_seq_def split: option.splits)

lemma replica_missing:
  assumes asc: "ascending cs" and rep: "replica cs sc p (db_view d)"
  shows "length (filter (\<lambda>c. stored_cursor d sc < change_seq c) cs) = length cs - p"
proof -
  have p: "p \<le> length cs"
    using rep by (simp add: replica_def)
  have "filter (\<lambda>c. pos_seq cs p < change_seq c) (take p cs) = []"
    using ascending_below [OF asc p] by (fastforce simp: filter_empty_conv)
  moreover have "filter (\<lambda>c. pos_seq cs p < change_seq c) (drop p cs) = drop p cs"
    using ascending_above [OF asc] by (fastforce simp: filter_id_conv)
  ultimately have "filter (\<lambda>c. pos_seq cs p < change_seq c) (take p cs @ drop p cs) = drop p cs"
    by (simp only: filter_append append_Nil)
  then show ?thesis
    by (simp add: replica_stored [OF rep])
qed

lemma ascending_at_least:
  assumes "ascending cs"
  shows "j < length cs \<Longrightarrow> Suc j \<le> unat (change_seq (cs ! j))"
proof (induction j)
  case 0
  then have "0 < change_seq (cs ! 0)"
    using assms by (simp add: ascending_def)
  then show ?case
    by (simp add: word_less_nat_alt)
next
  case (Suc j)
  then have "change_seq (cs ! j) < change_seq (cs ! Suc j)"
    using ascending_nth [OF assms, of j "Suc j"] by simp
  then show ?case
    using Suc by (simp add: word_less_nat_alt)
qed

text \<open>The whole log ends at the head.\<close>

lemma run_server_head:
  assumes s: "run_server sc s" and wf: "srv_wf s"
  shows "srv_head s \<le> pos_seq (scope_changes s sc) (length (srv_log s))"
proof -
  let ?L = "length (srv_log s)"
  have head: "srv_head s = of_nat ?L"
    using s by (simp add: srv_head_def run_server_def)
  have len: "length (scope_changes s sc) = ?L"
    using run_server_changes [OF s] by simp
  show ?thesis
  proof (cases "?L = 0")
    case False
    then have "?L \<le> unat (change_seq (scope_changes s sc ! (?L - 1)))"
      using ascending_at_least [OF scope_changes_ascending [OF wf], of "?L - 1" sc] len by simp
    moreover have "unat (of_nat ?L :: u64) \<le> ?L"
      by (simp add: unat_of_nat)
    ultimately show ?thesis
      using False by (simp add: head pos_seq_def word_le_nat_alt)
  qed (simp add: head)
qed

lemma queue_length: "i < length (wld_devices w) \<Longrightarrow> length (queue_at w i) = length (db_outbox (world_databases w ! i))"
  by (simp add: queue_at_def db_view_def world_databases_def)

lemma converged_devices:
  assumes c: "converged w" and st: "settling X S k w" and d: "d \<in> set (world_databases w)"
  shows "db_outbox d = []" and "stored_cursor d (wld_scope w) = srv_head (wld_server w)"
    and "view_version (db_view d) = latest_version (scope_changes (wld_server w) (wld_scope w))"
proof -
  let ?s = "wld_server w" and ?sc = "wld_scope w"
  obtain i where i: "i < length (wld_devices w)" "d = world_databases w ! i"
    using d by (metis in_set_conv_nth length_map world_databases_def)
  have s: "run_server ?sc ?s" and wf: "srv_wf ?s"
    using st by (simp_all add: settling_def lawful_def minute_ok_def server_ok_def srv_ok_def)
  have len: "length (scope_changes ?s ?sc) = length (srv_log ?s)"
    using run_server_changes [OF s] by simp
  show "db_outbox d = []"
    using c i queue_length [OF i(1)] by (simp add: converged_def at_rest_def idle_queues_def)
  obtain p where p: "holds w i p" "length (srv_log ?s) \<le> p"
    using c i(1) by (auto simp: converged_def within_of_def)
  then have rep: "replica (scope_changes ?s ?sc) ?sc p (db_view d)"
    using i by (simp add: holds_def run_changes_def view_at_def world_databases_def)
  then have at: "p = length (srv_log ?s)"
    using p(2) len by (simp add: replica_def)
  show "view_version (db_view d) = latest_version (scope_changes ?s ?sc)"
    using rep at len by (simp add: replica_def)
  show "stored_cursor d ?sc = srv_head ?s"
    using run_server_head [OF s wf] pos_seq_head [OF wf, of p ?sc] replica_stored [OF rep] at len by simp
qed

section \<open>The end of a run\<close>

definition quieted :: "world \<Rightarrow> world" where
  "quieted w = w\<lparr>wld_rates := rates_none, wld_quiet := True,
     wld_devices := map (\<lambda>d. d\<lparr>dv_transport := (dv_transport d)\<lparr>tra_online := True\<rparr>\<rparr>) (wld_devices w)\<rparr>"

lemma quieted_settling:
  assumes ok: "minute_ok X k w" and lf: "lawful w"
  defines "S \<equiv> \<Union>i < length (wld_devices w). ids (queue_at w i)"
  shows "settling X S k (quieted w)"
    and "to_write S (wld_server (quieted w)) \<le> length (srv_log (wld_server w)) + commands_queued w"
proof -
  have same: "queue_at (quieted w) i = queue_at w i" if "i < length (wld_devices w)" for i
    using that by (simp add: quieted_def queue_at_def)
  have len: "length (wld_devices (quieted w)) = length (wld_devices w)"
    by (simp add: quieted_def)
  have "finite (ids q)" for q
    by (simp add: ids_def)
  moreover have "lawful (quieted w)"
    using lf by (simp add: lawful_def quieted_def list_all_iff)
  moreover have "quiet_world (quieted w)"
    by (simp add: quieted_def quiet_world_def list_all_iff)
  moreover have "ids (queue_at (quieted w) i) \<subseteq> S" if "i < length (wld_devices (quieted w))" for i
    using that same len by (auto simp: S_def)
  ultimately show "settling X S k (quieted w)"
    using quiet_ok [OF ok] by (simp add: settling_def S_def flip: quieted_def)
  have "card (ids q) \<le> length q" for q
    by (simp add: ids_def order_trans [OF card_image_le card_length])
  then have "card S \<le> (\<Sum>i < length (wld_devices w). length (queue_at w i))"
    unfolding S_def by (intro order_trans [OF card_UN_le] sum_mono) simp_all
  also have "\<dots> = commands_queued w"
    by (simp add: commands_queued_def sum_list_sum_nth world_databases_def queue_at_def db_view_def
        atLeast0LessThan)
  finally have "card (S - D) \<le> commands_queued w" for D
    using \<open>\<And>q. finite (ids q)\<close> by (metis (no_types, lifting) S_def card_Diff1_le card_mono Diff_subset finite_UN_I finite_lessThan order_trans)
  then show "to_write S (wld_server (quieted w)) \<le> length (srv_log (wld_server w)) + commands_queued w"
    by (simp add: to_write_def quieted_def)
qed

lemma quieted_within:
  assumes ok: "minute_ok X k w" and lf: "lawful w"
    and q: "\<forall>d \<in> set (world_databases w). length (db_outbox d) \<le> q"
    and g: "\<forall>d \<in> set (world_databases w). length (changes_missing w d) + commands_queued w \<le> g"
  defines "S \<equiv> \<Union>i < length (wld_devices w). ids (queue_at w i)"
  shows "queues_within q (quieted w)" and "within_of (to_write S (wld_server (quieted w))) g (quieted w)"
proof -
  have len: "length (wld_devices (quieted w)) = length (wld_devices w)"
    by (simp add: quieted_def)
  have mem: "world_databases w ! i \<in> set (world_databases w)" if "i < length (wld_devices w)" for i
    using that by (simp add: world_databases_def)
  have "queue_at (quieted w) i = queue_at w i" if "i < length (wld_devices w)" for i
    using that by (simp add: quieted_def queue_at_def)
  then show "queues_within q (quieted w)"
    using q mem by (simp add: queues_within_def len queue_length)
  have s: "run_server (wld_scope w) (wld_server w)" and wf: "srv_wf (wld_server w)"
    using ok lf by (simp_all add: lawful_def minute_ok_def server_ok_def srv_ok_def)
  have "\<exists>p. holds (quieted w) i p \<and> to_write S (wld_server (quieted w)) \<le> p + g" if i: "i < length (wld_devices w)" for i
  proof -
    obtain p where p: "holds w i p"
      using minute_holds [OF ok i] .
    then have "replica (scope_changes (wld_server w) (wld_scope w)) (wld_scope w) p (db_view (world_databases w ! i))"
      using i by (simp add: holds_def run_changes_def view_at_def world_databases_def)
    from replica_missing [OF scope_changes_ascending [OF wf] this]
    have "length (changes_missing w (world_databases w ! i)) = length (srv_log (wld_server w)) - p"
      using run_server_changes [OF s] by (simp add: changes_missing_def)
    then have "length (srv_log (wld_server w)) + commands_queued w \<le> p + g"
      using g mem [OF i] by fastforce
    moreover have "holds (quieted w) i p"
      using p i by (simp add: holds_def quieted_def run_changes_def view_at_def)
    ultimately show ?thesis
      using quieted_settling(2) [OF ok lf] order_trans unfolding S_def by blast
  qed
  then show "within_of (to_write S (wld_server (quieted w))) g (quieted w)"
    by (simp add: within_of_def len)
qed

theorem settle_converges:
  assumes ok: "minute_ok X k w" and lf: "lawful w" and enc: "encodes_all X" and k: "k + SETTLE_STEPS < 2 ^ 32"
    and q: "\<forall>d \<in> set (world_databases w). length (db_outbox d) \<le> q"
    and g: "\<forall>d \<in> set (world_databases w). length (changes_missing w d) + commands_queued w \<le> g"
    and small: "2 * q + 2 * g + 4 \<le> SETTLE_STEPS"
  obtains w' where "settle X w = Some w'" and "inv_violations (wld_invariants w') = []"
    and "in_flight_writes (wld_server w') = 0"
    and "\<And>d. d \<in> set (world_databases w') \<Longrightarrow> db_outbox d = [] \<and>
      stored_cursor d (wld_scope w') = srv_head (wld_server w') \<and>
      view_version (db_view d) = latest_version (scope_changes (wld_server w') (wld_scope w')) \<and>
      (case db_digests d (wld_scope w') of None \<Rightarrow> srv_head (wld_server w') = 0
        | Some h \<Rightarrow> h = digest_to_hex (srv_digest X (wld_server w') (wld_scope w')))"
proof -
  define w1 where "w1 = world_steps X SETTLE_STEPS (quieted w)"
  note st = quieted_settling(1) [OF ok lf]
  note within = quieted_within [OF ok lf q g]
  have c: "converged w1"
    unfolding w1_def by (rule settling_converges(1) [OF st enc k within]) (use small in simp)
  obtain S where s1: "settling X S (k + SETTLE_STEPS) w1"
    using settling_steps [OF st enc k] unfolding w1_def by blast
  have none: "in_flight_writes (wld_server w1) = 0"
    using c by (simp add: converged_def at_rest_def in_flight_writes_def)
  then obtain w' where run: "settle X w = Some w'" and w': "world_databases w' = world_databases w1"
    "wld_server w' = wld_server w1" "wld_scope w' = wld_scope w1"
    by (auto simp: settle_def Let_def w1_def quieted_def world_databases_def)
  have "only_behind (world_databases w1) (wld_server w1) (wld_scope w1) (wld_invariants w')"
    using settle_ok [OF ok enc k run] by (simp add: w')
  then have quiet: "inv_violations (wld_invariants w') = []"
    using converged_devices(2) [OF c s1] nth_mem
    by (cases "inv_violations (wld_invariants w')") (fastforce simp: only_behind_def list_ex_iff)+
  have digest: "case db_digests d (wld_scope w1) of None \<Rightarrow> srv_head (wld_server w1) = 0
      | Some h \<Rightarrow> h = digest_to_hex (srv_digest X (wld_server w1) (wld_scope w1))"
    if d: "d \<in> set (world_databases w1)" for d
  proof -
    have "minute_ok X (k + SETTLE_STEPS) w1"
      using s1 by (simp add: settling_def)
    from minute_device [OF this d] obtain bs i p dv where "dev_ok X w1 bs [] i p dv" "d = eng_storage (dv_engine dv)" .
    moreover have "srv_ok (wld_entity w1) (wld_server w1)"
      using s1 by (simp add: settling_def minute_ok_def server_ok_def)
    ultimately show ?thesis
      using caught_up_agrees [of X w1 bs "[]" i p dv] converged_devices(2) [OF c s1 d] by (simp split: option.splits)
  qed
  have all: "db_outbox d = [] \<and> stored_cursor d (wld_scope w1) = srv_head (wld_server w1) \<and>
      view_version (db_view d) = latest_version (scope_changes (wld_server w1) (wld_scope w1)) \<and>
      (case db_digests d (wld_scope w1) of None \<Rightarrow> srv_head (wld_server w1) = 0
        | Some h \<Rightarrow> h = digest_to_hex (srv_digest X (wld_server w1) (wld_scope w1)))"
    if d: "d \<in> set (world_databases w1)" for d
    by (intro conjI converged_devices [OF c s1 d] digest [OF d])
  show thesis
    by (rule that [OF run quiet]) (unfold w', fact none, erule all)
qed

lemma run_is_lawful: "lawful (world_steps X n (world_new seed rates t))"
  using lawful_steps(1) [OF lawful_new] .

end
