(* ===== verification/Props_World.thy ===== *)
theory Props_World
  imports Sim_Converge Samples
begin

text \<open>
  Properties of whole runs of the simulated world: what holds after any number of steps, from any seed,
  under any mix of faults.
\<close>

text \<open>C5. A simulated world never breaks. From any seed, under any mix of faults and over any number of
  steps below the range of the command counter, the checks at the end of every step report nothing;
  every device holds exactly the rows, at exactly the versions, that a leading part of the server's
  visible changes leaves, with its cursor at the end of that part; and a digest stored by a device
  whose cursor has reached the server's head is the server's digest. The hypotheses are that the
  encoder encodes and that an answer takes at least a millisecond and less than a step to arrive.\<close>

theorem world_never_reports:
  assumes "encodes_all X" and "n < 2 ^ 32" and "1 \<le> fst (fr_latency_ms rates)"
    and "fst (fr_latency_ms rates) \<le> 59500" and "snd (fr_latency_ms rates) \<le> 59500"
  shows "let w = world_steps X n (world_new seed rates t);
             s = wld_server w; cs = scope_changes s (wld_scope w)
    in inv_violations (wld_invariants w) = [] \<and>
       (\<forall>d \<in> set (world_databases w). \<exists>p \<le> visible_count s (wld_scope w).
          view_version (db_view d) = latest_version (take p cs) \<and>
          (case db_cursors d (wld_scope w) of None \<Rightarrow> p = 0 | Some c \<Rightarrow> cursor_get c = pos_seq cs p)) \<and>
       (\<forall>d \<in> set (world_databases w). \<forall>h. db_digests d (wld_scope w) = Some h \<and>
          srv_head s \<le> stored_cursor d (wld_scope w) \<longrightarrow> h = digest_to_hex (srv_digest X s (wld_scope w)))"
proof -
  have "case fr_latency_ms rates of (lo, hi) \<Rightarrow> 1 \<le> lo \<and> lo \<le> 59500 \<and> hi \<le> 59500"
    using assms(3-5) by (simp add: case_prod_beta)
  note ok = run_is_clean [OF assms(1,2) this, of seed t]
  show ?thesis
    unfolding Let_def
  proof (intro conjI ballI)
    show "inv_violations (wld_invariants (world_steps X n (world_new seed rates t))) = []"
      using ok by (simp add: minute_ok_def)
  qed (use minute_agrees [OF ok] minute_replicas [OF ok] in
      \<open>fastforce simp: replica_def db_view_def split: option.splits\<close>)+
qed

theorem world_never_reports_witness:
  "inv_violations (wld_invariants (world_steps sample_externs 1000 (world_new 7 rates_default trace_counting))) = []"
proof -
  have "encodes_all sample_externs" "fr_latency_ms rates_default = (20, 2000)"
    by (simp_all add: encodes_all_def sample_externs_def is_ok_def rates_default_def)
  from world_never_reports [OF this(1), of 1000 rates_default 7 trace_counting] this(2) show ?thesis
    by (simp add: Let_def)
qed

text \<open>C6. The devices of the simulated world are devices. In every state of a run, each engine is one that
  \<^const>\<open>device_reachable\<close> reaches from an empty database by steps of its own, with storage that may
  fail or lie and a network that may deliver anything, and it was only ever given changes of the
  world's entity. What is proved of every run of a device is proved of every device of every run.\<close>

theorem world_devices_are_devices:
  assumes "encodes_all X" and "n < 2 ^ 32" and "1 \<le> fst (fr_latency_ms rates)"
    and "fst (fr_latency_ms rates) \<le> 59500" and "snd (fr_latency_ms rates) \<le> 59500"
  shows "let w = world_steps X n (world_new seed rates t)
    in list_all (\<lambda>dv. device_reachable X (wld_entity w) (wld_scope w) (own_change (wld_entity w)) (dv_engine dv))
         (wld_devices w)"
proof -
  have "case fr_latency_ms rates of (lo, hi) \<Rightarrow> 1 \<le> lo \<and> lo \<le> 59500 \<and> hi \<le> 59500"
    using assms(3-5) by (simp add: case_prod_beta)
  from minute_reachable [OF run_is_clean [OF assms(1,2) this, of seed t]] show ?thesis
    by (simp add: Let_def list_all_iff)
qed

theorem world_devices_are_devices_witness:
  "let w = world_steps sample_externs 1000 (world_new 7 rates_default trace_counting)
   in list_all (\<lambda>dv. device_reachable sample_externs (wld_entity w) (wld_scope w) (own_change (wld_entity w))
        (dv_engine dv)) (wld_devices w)"
proof -
  have "encodes_all sample_externs" "fr_latency_ms rates_default = (20, 2000)"
    by (simp_all add: encodes_all_def sample_externs_def is_ok_def rates_default_def)
  then show ?thesis
    by (intro world_devices_are_devices) simp_all
qed

text \<open>C23. A whole run can only report that a device has not caught up. After the steps and the settling
  of a run, every violation is one of convergence and names a device whose stored cursor is below the
  server's head: the cursor, durability, idempotency, loss, bounds, effect and policy checks report
  nothing, in the settling as in the run, and no device that has caught up is found to have diverged.
  A run has no result when its own assertion finds a write still in flight.\<close>

theorem run_reports_only_devices_behind:
  assumes "encodes_all X" and "n + SETTLE_STEPS < 2 ^ 32" and "1 \<le> fst (fr_latency_ms rates)"
    and "fst (fr_latency_ms rates) \<le> 59500" and "snd (fr_latency_ms rates) \<le> 59500"
  shows "case world_run X n (world_new seed rates t) of
      None \<Rightarrow> True
    | Some w \<Rightarrow> list_all (\<lambda>v. vio_invariant v = ''convergence'' \<and>
        list_ex (\<lambda>i. vio_device v = Some i \<and>
            stored_cursor (world_databases w ! i) (wld_scope w) < srv_head (wld_server w))
          [0..<length (world_databases w)]) (inv_violations (wld_invariants w))"
proof -
  have "case fr_latency_ms rates of (lo, hi) \<Rightarrow> 1 \<le> lo \<and> lo \<le> 59500 \<and> hi \<le> 59500"
    using assms(3-5) by (simp add: case_prod_beta)
  then have "minute_ok X n (world_steps X n (world_new seed rates t))"
    using run_is_clean [OF assms(1)] assms(2) by simp
  from settle_ok [OF this assms(1,2)] show ?thesis
    by (simp add: world_run_def only_behind_def split: option.split)
qed

theorem run_reports_only_devices_behind_witness:
  "case world_run sample_externs 1000 (world_new 7 rates_default trace_counting) of
      None \<Rightarrow> True
    | Some w \<Rightarrow> list_all (\<lambda>v. vio_invariant v = ''convergence'') (inv_violations (wld_invariants w))"
proof -
  have "encodes_all sample_externs" "fr_latency_ms rates_default = (20, 2000)"
    by (simp_all add: encodes_all_def sample_externs_def is_ok_def rates_default_def)
  from run_reports_only_devices_behind [OF this(1), of 1000 rates_default 7 trace_counting] this(2) show ?thesis
    by (auto simp: SETTLE_STEPS_def list_all_iff split: option.splits)
qed

text \<open>C40. A run that is not too far behind converges, and its assertion holds. Take any state a run
  reaches, from any seed and under any mix of faults. If no queue is longer than \<open>q\<close>, no device misses
  more than \<open>g\<close> changes counted together with all the commands still queued, and \<open>2 * q + 2 * g + 4\<close>
  is at most the 600 steps of the settling, then the run returns: no write is in flight, nothing is
  reported, and every device has an empty queue, the cursor of the server's head, exactly the rows at
  exactly the versions of the whole log, and the server's digest (none only where the log is empty).
  Every two steps of the settling answer the first command of each queue and bring a device that is
  behind at least one change further. The encoder encodes, an answer takes at least a millisecond and
  less than a step to arrive, and the step count keeps the command counter in its range.\<close>

theorem small_backlogs_converge:
  assumes "encodes_all X" and "n + SETTLE_STEPS < 2 ^ 32" and "1 \<le> fst (fr_latency_ms rates)"
    and "fst (fr_latency_ms rates) \<le> 59500" and "snd (fr_latency_ms rates) \<le> 59500"
    and "let w = world_steps X n (world_new seed rates t)
      in list_all (\<lambda>d. length (db_outbox d) \<le> q \<and> length (changes_missing w d) + commands_queued w \<le> g)
           (world_databases w)"
    and "2 * q + 2 * g + 4 \<le> SETTLE_STEPS"
  shows "case world_run X n (world_new seed rates t) of
      None \<Rightarrow> False
    | Some w \<Rightarrow> inv_violations (wld_invariants w) = [] \<and> in_flight_writes (wld_server w) = 0 \<and>
        list_all (\<lambda>d. db_outbox d = [] \<and> stored_cursor d (wld_scope w) = srv_head (wld_server w) \<and>
            view_version (db_view d) = latest_version (scope_changes (wld_server w) (wld_scope w)) \<and>
            (case db_digests d (wld_scope w) of None \<Rightarrow> srv_head (wld_server w) = 0
              | Some h \<Rightarrow> h = digest_to_hex (srv_digest X (wld_server w) (wld_scope w))))
          (world_databases w)"
proof -
  have "case fr_latency_ms rates of (lo, hi) \<Rightarrow> 1 \<le> lo \<and> lo \<le> 59500 \<and> hi \<le> 59500"
    using assms(3-5) by (simp add: case_prod_beta)
  then have ok: "minute_ok X n (world_steps X n (world_new seed rates t))"
    using run_is_clean [OF assms(1)] assms(2) by simp
  have small: "\<forall>d \<in> set (world_databases (world_steps X n (world_new seed rates t))).
      length (db_outbox d) \<le> q"
    "\<forall>d \<in> set (world_databases (world_steps X n (world_new seed rates t))).
      length (changes_missing (world_steps X n (world_new seed rates t)) d) +
      commands_queued (world_steps X n (world_new seed rates t)) \<le> g"
    using assms(6) by (simp_all add: Let_def list_all_iff)
  show ?thesis
    by (rule settle_converges [OF ok run_is_lawful assms(1,2) small assms(7)])
      (simp add: world_run_def list_all_iff)
qed

theorem small_backlogs_converge_witness:
  "case world_run sample_externs 0 (world_new 7 rates_default trace_counting) of
      None \<Rightarrow> False
    | Some w \<Rightarrow> inv_violations (wld_invariants w) = [] \<and> in_flight_writes (wld_server w) = 0"
proof -
  let ?w = "world_new 7 rates_default trace_counting"
  have ex: "encodes_all sample_externs" "fr_latency_ms rates_default = (20, 2000)"
    by (simp_all add: encodes_all_def sample_externs_def is_ok_def rates_default_def)
  obtain count r where count: "rng_range 2 4 (rng_new 7) = (count, r)"
    by fastforce
  obtain ds r' where ds: "new_devices (unat count) r = (ds, r')"
    by fastforce
  have "list_all (\<lambda>d. db_outbox d = []) (world_databases ?w)"
    using new_devices_fields [OF ds]
    by (auto simp: world_new_def world_databases_def count ds list_all_iff restart_fields db_default_def)
  moreover from this have "commands_queued ?w = 0"
    by (simp add: commands_queued_def list_all_iff)
  moreover have "changes_missing ?w d = []" for d
    by (simp add: changes_missing_def world_new_def count ds srv_register_command_def server_new_def
        scope_changes_def scope_log_def index_of_def)
  ultimately show ?thesis
    using small_backlogs_converge [OF ex(1), of 0 rates_default 7 trace_counting 0 0] ex(2)
    by (auto simp: Let_def list_all_iff SETTLE_STEPS_def split: option.splits)
qed

end
