(* ===== verification/Sim_Main.thy ===== *)
theory Sim_Main
  imports Sim_World
begin

text \<open>
  The command line of the simulator (\<open>credsync-sim/src/main.rs\<close>, \<open>lib.rs\<close>): reading the flags, running
  one seed, and sweeping a range of seeds in stripes, one thread each. A run is its exit code and the
  lines it prints; the line with the elapsed time is left out. A panic is \<open>None\<close>, caught where the code
  joins its threads (a build with unwinding).
\<close>

section \<open>Printing and parsing\<close>

datatype cli_line =
    Out string
  | Err string
  | ErrDebug string string  \<comment> \<open>a line that ends in the \<open>{:?}\<close> form of a string\<close>

datatype exit_code = ExitSuccess | ExitFailure | ExitPanicked

fun show_hex :: "nat \<Rightarrow> string" where
  "show_hex n = (if n < 16 then [hex_digit n] else show_hex (n div 16) @ [hex_digit (n mod 16)])"

declare show_hex.simps [simp del]

definition show_hex_padded :: "nat \<Rightarrow> nat \<Rightarrow> string" where
  "show_hex_padded w n = replicate (w - length (show_hex n)) (CHR ''0'') @ show_hex n"

definition pad_right :: "nat \<Rightarrow> string \<Rightarrow> string" where
  "pad_right w s = s @ replicate (w - length s) (CHR '' '')"

fun join_with :: "string \<Rightarrow> string list \<Rightarrow> string" where
  "join_with sep [] = []"
| "join_with sep [l] = l"
| "join_with sep (l # ls) = l @ sep @ join_with sep ls"

definition dec_value :: "char \<Rightarrow> nat option" where
  "dec_value c = (if CHR ''0'' \<le> c \<and> c \<le> CHR ''9'' then Some (of_char c - 48) else None)"

text \<open>\<open>u64::from_str_radix\<close>: an optional plus sign, then at least one digit, without overflow.\<close>

fun radix_loop :: "nat \<Rightarrow> (char \<Rightarrow> nat option) \<Rightarrow> nat \<Rightarrow> string \<Rightarrow> nat option" where
  "radix_loop r digit acc [] = Some acc"
| "radix_loop r digit acc (c # cs) =
     (case digit c of
        None \<Rightarrow> None
      | Some d \<Rightarrow> if acc * r + d < 2 ^ 64 then radix_loop r digit (acc * r + d) cs else None)"

definition u64_from_str_radix :: "nat \<Rightarrow> (char \<Rightarrow> nat option) \<Rightarrow> string \<Rightarrow> u64 option" where
  "u64_from_str_radix r digit s =
     (let t = (case s of c # cs \<Rightarrow> if c = CHR ''+'' then cs else s | [] \<Rightarrow> [])
      in if t = [] then None else map_option of_nat (radix_loop r digit 0 t))"

definition parse_u64 :: "string \<Rightarrow> u64 option" where
  "parse_u64 = u64_from_str_radix 10 dec_value"

definition parse_seed :: "string \<Rightarrow> u64 option" where
  "parse_seed v =
     (if take 2 v = ''0x'' then u64_from_str_radix 16 radix16_digit (drop 2 v) else parse_u64 v)"

text \<open>\<open>positive_seeds\<close> and \<open>positive_jobs\<close>: a \<open>usize\<close> is 64 bits wide.\<close>

definition positive_seeds :: "string \<Rightarrow> u64 option" where
  "positive_seeds v = (case parse_u64 v of Some n \<Rightarrow> if n > 0 then Some n else None | None \<Rightarrow> None)"

definition positive_jobs :: "string \<Rightarrow> u64 option" where
  "positive_jobs v = (case parse_u64 v of Some n \<Rightarrow> if n > 0 then Some n else None | None \<Rightarrow> None)"

fun flag_value :: "string list \<Rightarrow> string \<Rightarrow> string option" where
  "flag_value [] f = None"
| "flag_value (a # as) f =
     (if a = f then (case as of [] \<Rightarrow> None | v # _ \<Rightarrow> Some v) else flag_value as f)"

definition flag_option ::
  "string list \<Rightarrow> string \<Rightarrow> 'a \<Rightarrow> (string \<Rightarrow> 'a option) \<Rightarrow> cli_line list + 'a" where
  "flag_option args f def parse =
     (if f \<notin> set args then Inr def
      else case flag_value args f of
             None \<Rightarrow> Inl [Err (''error: '' @ f @ '' expects a value'')]
           | Some raw \<Rightarrow>
               (case parse raw of
                  None \<Rightarrow> Inl [ErrDebug (''error: '' @ f @ '' does not accept '') raw]
                | Some v \<Rightarrow> Inr v))"

definition human_duration :: "int \<Rightarrow> string" where
  "human_duration ms =
     (let days = div_trunc ms (24 * 60 * 60 * 1000)
      in if days > 0 then show_int days @ ''d'' else show_int (div_trunc ms (60 * 60 * 1000)) @ ''h'')"

section \<open>One seed\<close>

definition STEPS_PER_RUN :: nat where "STEPS_PER_RUN = 20160"
definition SIM_VERSION :: nat where "SIM_VERSION = 2"

definition run_seed :: "externs \<Rightarrow> u64 \<Rightarrow> fault_rates \<Rightarrow> trace \<Rightarrow> world option" where
  "run_seed X seed rates t = world_run X STEPS_PER_RUN (world_new seed rates t)"

definition report :: "u64 \<Rightarrow> violation list \<Rightarrow> cli_line list" where
  "report seed violations =
     [Err (''  simulator v'' @ show_nat SIM_VERSION), Err [],
      Err (''FAILED at seed 0x'' @ show_hex_padded 16 (unat seed))] @
     map (\<lambda>v. Err (''  '' @ violation_display v)) (take 20 violations) @
     (if length violations > 20
      then [Err (''  ... and '' @ show_nat (length violations - 20) @ '' more'')] else []) @
     [Err [], Err ''replay it exactly:'',
      Err (''  cargo run --release -p credsync-sim -- --seed 0x'' @ show_hex (unat seed) @ '' --trace'')]"

definition run_one :: "externs \<Rightarrow> u64 \<Rightarrow> bool \<Rightarrow> exit_code \<times> cli_line list" where
  "run_one X seed trace_wanted =
     (case run_seed X seed rates_default (if trace_wanted then trace_recording else trace_counting) of
        None \<Rightarrow> (ExitPanicked, [])
      | Some w \<Rightarrow>
          (let shown =
             (if trace_wanted then [Out (trace_render (wld_trace w))] else []) @
             [Out (''seed 0x'' @ show_hex_padded 16 (unat seed) @ ''  devices='' @
                show_nat (length (wld_devices w)) @ ''  simulated='' @ human_duration (elapsed_ms w) @
                ''  '' @ trace_coverage (wld_trace w))]
           in if invariants_hold (wld_invariants w) then (ExitSuccess, shown)
              else (ExitFailure, shown @ report seed (inv_violations (wld_invariants w)))))"

section \<open>A batch\<close>

definition keep_lowest ::
  "(u64 \<times> violation list) option \<Rightarrow> (u64 \<times> violation list) option \<Rightarrow> (u64 \<times> violation list) option" where
  "keep_lowest current candidate =
     (case (current, candidate) of
        (None, other) \<Rightarrow> other
      | (other, None) \<Rightarrow> other
      | (Some a, Some b) \<Rightarrow> Some (if fst b < fst a then b else a))"

record stripe =
  strp_simulated_ms :: int
  strp_faults :: "(string, u64) btree"
  strp_failure :: "(u64 \<times> violation list) option"

definition stripe_empty :: stripe where
  "stripe_empty = \<lparr>strp_simulated_ms = 0, strp_faults = [], strp_failure = None\<rparr>"

text \<open>\<open>trace.faults()\<close> in the order of the map, and \<open>*totals.entry(name).or_insert(0) += n\<close>.\<close>

definition trace_faults :: "trace \<Rightarrow> (string, u64) btree" where
  "trace_faults t =
     fold (\<lambda>f m. case tr_faults t (fault_name f) of None \<Rightarrow> m | Some n \<Rightarrow> bt_insert (fault_name f) n m)
       ALL_FAULTS []"

definition add_count :: "string \<times> u64 \<Rightarrow> (string, u64) btree \<Rightarrow> (string, u64) btree" where
  "add_count x totals =
     bt_insert (fst x) ((case bt_get totals (fst x) of None \<Rightarrow> 0 | Some k \<Rightarrow> k) + snd x) totals"

definition seed_range :: "u64 \<Rightarrow> u64 \<Rightarrow> u64 list" where
  "seed_range lo hi = map of_nat [unat lo..<unat hi]"

fun stripe_loop :: "externs \<Rightarrow> u64 list \<Rightarrow> stripe \<Rightarrow> stripe option" where
  "stripe_loop X [] acc = Some acc"
| "stripe_loop X (seed # seeds) acc =
     (case run_seed X seed rates_default trace_counting of
        None \<Rightarrow> None
      | Some w \<Rightarrow>
          (let acc = acc\<lparr>strp_simulated_ms := strp_simulated_ms acc + elapsed_ms w,
                 strp_faults := fold add_count (trace_faults (wld_trace w)) (strp_faults acc)\<rparr>
           in if invariants_hold (wld_invariants w) then stripe_loop X seeds acc
              else Some (acc\<lparr>strp_failure := Some (seed, inv_violations (wld_invariants w))\<rparr>)))"

definition run_stripe :: "externs \<Rightarrow> u64 \<Rightarrow> u64 \<Rightarrow> stripe option" where
  "run_stripe X lo hi = stripe_loop X (seed_range lo hi) stripe_empty"

definition saturating_add :: "u64 \<Rightarrow> u64 \<Rightarrow> u64" where
  "saturating_add a b = (if unat a + unat b < 2 ^ 64 then a + b else - 1)"

definition saturating_mul :: "u64 \<Rightarrow> u64 \<Rightarrow> u64" where
  "saturating_mul a b = (if unat a * unat b < 2 ^ 64 then a * b else - 1)"

definition div_ceil :: "u64 \<Rightarrow> u64 \<Rightarrow> u64" where
  "div_ceil a b = a div b + (if a mod b > 0 then 1 else 0)"

text \<open>The loop that spawns the threads: the bounds of each stripe.\<close>

function stripe_bounds :: "u64 \<Rightarrow> u64 \<Rightarrow> u64 \<Rightarrow> u64 \<Rightarrow> u64 \<Rightarrow> (u64 \<times> u64) list" where
  "stripe_bounds start seeds width jobs k =
     (if k < jobs then
        (let lo = saturating_add start (saturating_mul k width);
             hi = min (saturating_add start seeds) (saturating_add lo width)
         in if lo \<ge> hi then [] else (lo, hi) # stripe_bounds start seeds width jobs (k + 1))
      else [])"
  by pat_completeness auto
termination
  by (relation "measure (\<lambda>(_, _, _, jobs, k). unat jobs - unat k)")
    (auto simp: unat_Suc_less word_less_nat_alt)

declare stripe_bounds.simps [simp del]

text \<open>The loop that joins them.\<close>

fun join_stripes :: "stripe option list \<Rightarrow> stripe \<Rightarrow> stripe option" where
  "join_stripes [] acc = Some acc"
| "join_stripes (None # hs) acc = None"
| "join_stripes (Some s # hs) acc =
     join_stripes hs \<lparr>strp_simulated_ms = strp_simulated_ms acc + strp_simulated_ms s,
       strp_faults = fold add_count (strp_faults s) (strp_faults acc),
       strp_failure = keep_lowest (strp_failure acc) (strp_failure s)\<rparr>"

definition sweep :: "externs \<Rightarrow> u64 \<Rightarrow> u64 \<Rightarrow> u64 \<Rightarrow> stripe option" where
  "sweep X start seeds jobs =
     (let width = max (div_ceil seeds jobs) 1
      in join_stripes (map (\<lambda>(lo, hi). run_stripe X lo hi) (stripe_bounds start seeds width jobs 0))
           stripe_empty)"

definition saturating_sub :: "u64 \<Rightarrow> u64 \<Rightarrow> u64" where
  "saturating_sub a b = (if b \<le> a then a - b else 0)"

text \<open>The coverage table, of how often each fault fired.\<close>

definition coverage_lines :: "(fault \<Rightarrow> u64) \<Rightarrow> cli_line list" where
  "coverage_lines fired =
     (let silent = map fault_name (filter (\<lambda>f. fired f = 0) ALL_FAULTS)
      in [Out ''fault coverage:''] @
         map (\<lambda>f. Out (''  '' @ pad_right 32 (fault_name f) @ '' '' @ show_nat (unat (fired f)))) ALL_FAULTS @
         (if silent = [] then []
          else [Err [], Err (''warning: '' @ show_nat (length silent) @ '' fault(s) never fired: '' @
                  join_with '', '' silent),
                Err ''a fault that never fires is a fault this simulator does not have.'']))"

definition run_batch :: "externs \<Rightarrow> u64 \<Rightarrow> u64 \<Rightarrow> u64 \<Rightarrow> exit_code \<times> cli_line list" where
  "run_batch X start seeds jobs =
     (case sweep X start seeds jobs of
        None \<Rightarrow>
          (ExitFailure,
           [Err ''error: a simulator thread panicked; this is a bug in the simulator itself''])
      | Some t \<Rightarrow>
          (case strp_failure t of
             Some (seed, violations) \<Rightarrow>
               (ExitFailure,
                Out (show_nat (unat (saturating_sub seed start)) @ ''/'' @ show_nat (unat seeds) @
                  '' seeds green, then:'') # report seed violations)
           | None \<Rightarrow>
               (ExitSuccess,
                [Out (show_nat (unat seeds) @ ''/'' @ show_nat (unat seeds) @ '' seeds green  (0x'' @
                   show_hex_padded 16 (unat start) @ ''..=0x'' @
                   show_hex_padded 16 (unat (saturating_sub (saturating_add start seeds) 1)) @ '')''),
                 Out (''simulated '' @ human_duration (strp_simulated_ms t) @
                   '' of device life across the batch'')] @
                coverage_lines (\<lambda>f. case bt_get (strp_faults t) (fault_name f) of None \<Rightarrow> 0 | Some n \<Rightarrow> n))))"

section \<open>The command line\<close>

definition help_lines :: "cli_line list" where
  "help_lines = map Out
     [''credsync-sim '' @ em_dash @ '' deterministic simulation'',
      [],
      ''    --seeds N        run a batch of N seeds (default 1000)'',
      ''    --from S         start the batch at seed S (default 0); accepts 0x-prefixed hex'',
      ''    --jobs N         seeds to run at once (default: available cores)'',
      ''    --seed S         run one seed; accepts 0x-prefixed hex'',
      ''    --trace          print the run'' @ [CHR 0x27] @ ''s trace (with --seed)'',
      ''    -h, --help       this'',
      [],
      ''Seeds are independent, so a batch spreads across cores. Which core ran a seed'',
      ''cannot change what that seed does: each run owns its world and its generator,'',
      ''and the failure reported is always the LOWEST failing seed in the range, never'',
      ''whichever thread happened to finish first.'',
      [],
      ''A bug report is one integer. If a batch fails, replay its seed:'',
      [],
      ''    cargo run -p credsync-sim -- --seed 0x4f21a9c3 --trace'']"

definition batch_command :: "externs \<Rightarrow> u64 \<Rightarrow> string list \<Rightarrow> exit_code \<times> cli_line list" where
  "batch_command X default_jobs args =
     (case flag_option args ''--seeds'' 1000 positive_seeds of
        Inl ls \<Rightarrow> (ExitFailure, ls)
      | Inr seeds \<Rightarrow>
          (case flag_option args ''--from'' 0 parse_seed of
             Inl ls \<Rightarrow> (ExitFailure, ls)
           | Inr start \<Rightarrow>
               (case flag_option args ''--jobs'' default_jobs positive_jobs of
                  Inl ls \<Rightarrow> (ExitFailure, ls)
                | Inr jobs \<Rightarrow>
                    if unat start + unat seeds \<ge> 2 ^ 64
                    then (ExitFailure,
                          [Err (''error: --from 0x'' @ show_hex (unat start) @ '' plus --seeds '' @
                             show_nat (unat seeds) @ '' runs past the end of the seed space'')])
                    else run_batch X start seeds jobs)))"

definition sim_main :: "externs \<Rightarrow> u64 \<Rightarrow> string list \<Rightarrow> exit_code \<times> cli_line list" where
  "sim_main X default_jobs args =
     (if ''--help'' \<in> set args \<or> ''-h'' \<in> set args then (ExitSuccess, help_lines)
      else
        (case map_option parse_seed (flag_value args ''--seed'') of
           Some None \<Rightarrow> (ExitFailure, [Err ''error: --seed expects a number, optionally 0x-prefixed''])
         | Some (Some seed) \<Rightarrow> run_one X seed (''--trace'' \<in> set args)
         | None \<Rightarrow> batch_command X default_jobs args))"

lemmas sim_main_defs [run_defs] =
  show_hex_padded_def pad_right_def dec_value_def u64_from_str_radix_def parse_u64_def parse_seed_def
  positive_seeds_def positive_jobs_def flag_option_def human_duration_def STEPS_PER_RUN_def
  SIM_VERSION_def run_seed_def report_def run_one_def keep_lowest_def stripe_empty_def trace_faults_def
  add_count_def seed_range_def run_stripe_def saturating_add_def saturating_mul_def div_ceil_def
  sweep_def saturating_sub_def coverage_lines_def run_batch_def help_lines_def batch_command_def
  sim_main_def

section \<open>The stripes cover the range\<close>

lemma unat_div_ceil: "0 < b \<Longrightarrow> unat a \<le> unat (div_ceil a b) * unat b"
proof -
  assume b: "0 < b"
  have small: "unat a div unat b + (if 0 < unat a mod unat b then 1 else 0) < 2 ^ 64"
  proof (cases "unat b = 1")
    case False
    then have "2 \<le> unat b"
      using b by (metis One_nat_def Suc_leI le_neq_implies_less numeral_2_eq_2 unat_gt_0 word_neq_0_conv)
    then have "unat a div unat b \<le> unat a div 2"
      by (intro div_le_mono2) auto
    moreover have "unat a div 2 < 2 ^ 63"
      using unsigned_less [of a, where 'a = nat] by (simp add: div_less_iff_less_mult)
    ultimately show ?thesis by (simp split: if_split)
  qed (use unsigned_less [of a, where 'a = nat] in simp)
  have "unat (div_ceil a b) = unat a div unat b + (if 0 < unat a mod unat b then 1 else 0)"
    using small by (auto simp: div_ceil_def unat_div unat_mod word_less_nat_alt unat_word_ariths)
  moreover have "a' \<le> (q + (if 0 < r then 1 else 0)) * b'" if "a' = b' * q + r" "r < b'" for a' b' q r :: nat
    using that by (cases "0 < r") (simp_all add: algebra_simps)
  moreover have "unat a = unat b * (unat a div unat b) + unat a mod unat b" "unat a mod unat b < unat b"
    using b by (simp_all add: word_less_nat_alt)
  ultimately show ?thesis
    by metis
qed

lemma unat_saturating:
  "unat (saturating_add a b) = min (unat a + unat b) (2 ^ 64 - 1)"
  "unat (saturating_mul a b) = min (unat a * unat b) (2 ^ 64 - 1)"
  by (auto simp: saturating_add_def saturating_mul_def unat_word_ariths unsigned_minus_1_eq_mask
      mask_eq_exp_minus_1)

lemma unat_min: "unat (min a b) = min (unat a) (unat b)"
  by (simp add: min_def word_le_nat_alt)

text \<open>One turn of the loop: the next stripe, as long as seeds are left.\<close>

lemma stripe_bounds_step:
  assumes "unat start + unat seeds < 2 ^ 64" and "0 < width" and "k < jobs"
  shows "unat seeds \<le> unat k * unat width \<Longrightarrow> stripe_bounds start seeds width jobs k = []"
    and "unat k * unat width < unat seeds \<Longrightarrow> \<exists>lo hi.
      stripe_bounds start seeds width jobs k = (lo, hi) # stripe_bounds start seeds width jobs (k + 1) \<and>
      unat lo = unat start + unat k * unat width \<and>
      unat hi = min (unat start + unat seeds) (unat start + (unat k + 1) * unat width)"
proof -
  define lo where "lo = saturating_add start (saturating_mul k width)"
  define hi where "hi = min (saturating_add start seeds) (saturating_add lo width)"
  define m where "m = unat k * unat width"
  have run: "stripe_bounds start seeds width jobs k =
      (if hi \<le> lo then [] else (lo, hi) # stripe_bounds start seeds width jobs (k + 1))"
    using assms(3) by (subst stripe_bounds.simps) (simp add: Let_def lo_def hi_def)
  have lo: "unat lo = min (unat start + min m (2 ^ 64 - 1)) (2 ^ 64 - 1)"
    by (simp add: lo_def unat_saturating m_def)
  have hi: "unat hi = min (unat start + unat seeds) (min (unat lo + unat width) (2 ^ 64 - 1))"
    using assms(1) by (simp add: hi_def unat_saturating unat_min)
  have w: "0 < unat width"
    using assms(2) by (simp add: word_less_nat_alt)
  show "stripe_bounds start seeds width jobs k = []" if "unat seeds \<le> unat k * unat width"
  proof -
    have "unat hi \<le> unat lo"
      using that assms(1) unfolding hi lo m_def by (auto simp: min_def)
    then show ?thesis
      by (simp add: run word_le_nat_alt)
  qed
  show "\<exists>lo hi. stripe_bounds start seeds width jobs k = (lo, hi) # stripe_bounds start seeds width jobs (k + 1) \<and>
      unat lo = unat start + unat k * unat width \<and>
      unat hi = min (unat start + unat seeds) (unat start + (unat k + 1) * unat width)"
    if "unat k * unat width < unat seeds"
  proof -
    have m: "m < unat seeds"
      using that by (simp add: m_def)
    then have l: "unat lo = unat start + m"
      using assms(1) by (auto simp: lo min_def)
    moreover from this have h: "unat hi = min (unat start + unat seeds) (unat start + m + unat width)"
      using assms(1) by (auto simp: hi min_def)
    moreover have "\<not> hi \<le> lo"
      using l h m w by (simp add: word_le_nat_alt)
    ultimately show ?thesis
      by (simp add: run m_def algebra_simps)
  qed
qed

lemma seed_range_nats: "unat lo = a \<Longrightarrow> unat hi = b \<Longrightarrow> seed_range lo hi = map of_nat [a..<b]"
  by (simp add: seed_range_def)

text \<open>The stripes, end to end, are the range.\<close>

lemma stripes_cover:
  assumes fits: "unat start + unat seeds < 2 ^ 64" and w: "0 < width" and enough: "unat seeds \<le> unat jobs * unat width"
  shows "k \<le> jobs \<Longrightarrow>
    concat (map (\<lambda>(lo, hi). seed_range lo hi) (stripe_bounds start seeds width jobs k)) =
      map of_nat [unat start + unat k * unat width..<unat start + unat seeds]"
proof (induction "unat jobs - unat k" arbitrary: k)
  case 0
  then have "unat k = unat jobs"
    by (simp add: word_le_nat_alt)
  then have "\<not> k < jobs" "unat seeds \<le> unat k * unat width"
    using enough by (simp_all add: word_less_nat_alt)
  then show ?case
    by (subst stripe_bounds.simps) simp
next
  case (Suc n)
  then have k: "k < jobs"
    by (simp add: word_less_nat_alt)
  show ?case
  proof (cases "unat seeds \<le> unat k * unat width")
    case True
    then show ?thesis
      using stripe_bounds_step(1) [OF fits w k] by simp
  next
    case False
    then obtain lo hi where step: "stripe_bounds start seeds width jobs k = (lo, hi) # stripe_bounds start seeds width jobs (k + 1)"
      and lo: "unat lo = unat start + unat k * unat width"
      and hi: "unat hi = min (unat start + unat seeds) (unat start + (unat k + 1) * unat width)"
      using stripe_bounds_step(2) [OF fits w k] by auto
    have k1: "unat (k + 1) = unat k + 1" "k + 1 \<le> jobs"
      using k by (simp_all add: unat_Suc_less word_less_le_Suc)
    then have "n = unat jobs - unat (k + 1)"
      using Suc.hyps(2) by simp
    from Suc.hyps(1) [OF this k1(2)]
    have rest: "concat (map (\<lambda>(lo, hi). seed_range lo hi) (stripe_bounds start seeds width jobs (k + 1))) =
        map of_nat [unat start + (unat k + 1) * unat width..<unat start + unat seeds]"
      by (simp only: k1)
    let ?a = "unat start + unat k * unat width" and ?b = "unat start + (unat k + 1) * unat width" and ?c = "unat start + unat seeds"
    have "[?a..<min ?c ?b] @ [?b..<?c] = [?a..<?c]"
    proof (cases "?b \<le> ?c")
      case True
      have "?a \<le> ?b" by simp
      with True show ?thesis
        by (metis min.absorb2 upt_add_eq_append le_Suc_ex)
    next
      case False
      then show ?thesis by simp
    qed
    then show ?thesis
      by (simp only: step list.map prod.case concat.simps rest seed_range_nats [OF lo hi] flip: map_append)
  qed
qed


section \<open>What a sweep finds\<close>

text \<open>The reference: the seeds of the range one after the other.\<close>

definition finishes :: "externs \<Rightarrow> u64 \<Rightarrow> bool" where
  "finishes X seed = (run_seed X seed rates_default trace_counting \<noteq> None)"

definition final_world :: "externs \<Rightarrow> u64 \<Rightarrow> world" where
  "final_world X seed = the (run_seed X seed rates_default trace_counting)"

definition clean :: "externs \<Rightarrow> u64 \<Rightarrow> bool" where
  "clean X seed = (finishes X seed \<and> invariants_hold (wld_invariants (final_world X seed)))"

definition first_failing :: "externs \<Rightarrow> u64 list \<Rightarrow> (u64 \<times> violation list) option" where
  "first_failing X seeds =
     map_option (\<lambda>s. (s, inv_violations (wld_invariants (final_world X s)))) (find (\<lambda>s. \<not> clean X s) seeds)"

definition count_of :: "(string, u64) btree \<Rightarrow> string \<Rightarrow> u64" where
  "count_of m f = (case bt_get m f of None \<Rightarrow> 0 | Some n \<Rightarrow> n)"

lemma add_counts:
  "bt_wf m \<Longrightarrow> bt_wf (fold add_count xs m)"
  "distinct (map fst xs) \<Longrightarrow> count_of (fold add_count xs m) f = count_of m f + count_of xs f"
proof -
  show "bt_wf m \<Longrightarrow> bt_wf (fold add_count xs m)"
    by (induction xs arbitrary: m) (auto simp: add_count_def)
  show "distinct (map fst xs) \<Longrightarrow> count_of (fold add_count xs m) f = count_of m f + count_of xs f"
  proof (induction xs arbitrary: m)
    case (Cons x xs)
    have one: "count_of (add_count x m) f = count_of m f + (if f = fst x then snd x else 0)"
      by (simp add: count_of_def add_count_def)
    have none: "bt_get xs (fst x) = None"
      using Cons.prems by (simp add: map_of_eq_None_iff)
    have "count_of (x # xs) f = (if f = fst x then snd x else 0) + count_of xs f"
      using none by (cases x) (auto simp: count_of_def)
    then show ?case
      using Cons.IH [of "add_count x m"] Cons.prems one by simp
  qed (simp add: count_of_def)
qed

lemma trace_faults_wf: "bt_wf (trace_faults t)"
proof -
  have "bt_wf (fold (\<lambda>f m. case tr_faults t (fault_name f) of None \<Rightarrow> m | Some n \<Rightarrow> bt_insert (fault_name f) n m) fs m)"
    if "bt_wf m" for fs m
    using that by (induction fs arbitrary: m) (auto split: option.split)
  then show ?thesis
    by (simp add: trace_faults_def)
qed

definition stripe_of :: "externs \<Rightarrow> u64 list \<Rightarrow> stripe \<Rightarrow> stripe \<Rightarrow> bool" where
  "stripe_of X seeds acc s \<longleftrightarrow>
     strp_failure s = first_failing X seeds \<and> (bt_wf (strp_faults acc) \<longrightarrow> bt_wf (strp_faults s)) \<and>
     (list_all (clean X) seeds \<longrightarrow>
        strp_simulated_ms s = strp_simulated_ms acc + (\<Sum>x\<leftarrow>seeds. elapsed_ms (final_world X x)) \<and>
        (\<forall>f. count_of (strp_faults s) f =
           count_of (strp_faults acc) f + (\<Sum>x\<leftarrow>seeds. count_of (trace_faults (wld_trace (final_world X x))) f)))"

lemma stripe_loop_some:
  "stripe_loop X seeds acc = Some s \<Longrightarrow> strp_failure acc = None \<Longrightarrow> stripe_of X seeds acc s"
proof (induction seeds arbitrary: acc)
  case (Cons x seeds)
  then obtain w where w: "run_seed X x rates_default trace_counting = Some w"
    by (auto split: option.splits)
  then have f: "finishes X x" "final_world X x = w"
    by (simp_all add: finishes_def final_world_def)
  let ?acc = "acc\<lparr>strp_simulated_ms := strp_simulated_ms acc + elapsed_ms w,
    strp_faults := fold add_count (trace_faults (wld_trace w)) (strp_faults acc)\<rparr>"
  have counts: "count_of (strp_faults ?acc) f = count_of (strp_faults acc) f + count_of (trace_faults (wld_trace w)) f"
    "bt_wf (strp_faults acc) \<Longrightarrow> bt_wf (strp_faults ?acc)" for f
    using add_counts bt_wf_distinct [OF trace_faults_wf] by simp_all
  show ?case
  proof (cases "invariants_hold (wld_invariants w)")
    case True
    then have "stripe_of X seeds ?acc s"
      using Cons w by (simp add: Let_def)
    with True f counts show ?thesis
      by (auto simp: stripe_of_def first_failing_def clean_def)
  next
    case False
    then have "s = ?acc\<lparr>strp_failure := Some (x, inv_violations (wld_invariants w))\<rparr>"
      using Cons.prems w by (simp add: Let_def)
    with False f counts show ?thesis
      by (simp add: stripe_of_def first_failing_def clean_def)
  qed
qed (simp add: stripe_of_def first_failing_def)

lemma stripe_loop_none: "stripe_loop X seeds acc = None \<Longrightarrow> \<exists>x \<in> set seeds. \<not> finishes X x"
  by (induction seeds arbitrary: acc) (auto simp: finishes_def Let_def split: option.splits if_splits)

lemma first_failing_append:
  "first_failing X (xs @ ys) = (case first_failing X xs of None \<Rightarrow> first_failing X ys | Some r \<Rightarrow> Some r)"
  by (induction xs) (auto simp: first_failing_def)

lemma first_failing_None: "first_failing X seeds = None \<longleftrightarrow> list_all (clean X) seeds"
  by (auto simp: first_failing_def find_None_iff list_all_iff)

lemma keep_lowest_sorted:
  assumes "\<And>x y. x \<in> set xs \<Longrightarrow> y \<in> set ys \<Longrightarrow> x < y"
  shows "keep_lowest (first_failing X xs) (first_failing X ys) = first_failing X (xs @ ys)"
proof -
  have "fst r \<in> set zs" if "first_failing X zs = Some r" for zs r
    using that by (auto simp: first_failing_def find_Some_iff)
  then have less: "fst a < fst b" if "first_failing X xs = Some a" "first_failing X ys = Some b" for a b
    using assms that by blast
  show ?thesis
  proof (cases "first_failing X xs")
    case None
    then show ?thesis
      by (simp add: first_failing_append keep_lowest_def)
  next
    case (Some a)
    then show ?thesis
      using less [OF Some] by (cases "first_failing X ys") (auto simp: first_failing_append keep_lowest_def not_less dest: less_asym)
  qed
qed

text \<open>Stripes in order, joined in order.\<close>

definition joined :: "externs \<Rightarrow> u64 list \<Rightarrow> stripe \<Rightarrow> bool" where
  "joined X seeds acc \<longleftrightarrow>
     strp_failure acc = first_failing X seeds \<and> bt_wf (strp_faults acc) \<and>
     (list_all (clean X) seeds \<longrightarrow>
        strp_simulated_ms acc = (\<Sum>x\<leftarrow>seeds. elapsed_ms (final_world X x)) \<and>
        (\<forall>f. count_of (strp_faults acc) f = (\<Sum>x\<leftarrow>seeds. count_of (trace_faults (wld_trace (final_world X x))) f)))"

lemma joined_start: "joined X [] stripe_empty"
  by (simp add: joined_def stripe_empty_def first_failing_def count_of_def)

lemma joined_next:
  assumes acc: "joined X pre acc" and s: "run_stripe X lo hi = Some s"
    and sorted: "\<And>x y. x \<in> set pre \<Longrightarrow> y \<in> set (seed_range lo hi) \<Longrightarrow> x < y"
  shows "joined X (pre @ seed_range lo hi) \<lparr>strp_simulated_ms = strp_simulated_ms acc + strp_simulated_ms s,
    strp_faults = fold add_count (strp_faults s) (strp_faults acc),
    strp_failure = keep_lowest (strp_failure acc) (strp_failure s)\<rparr>"
proof -
  have s: "stripe_of X (seed_range lo hi) stripe_empty s"
    using s stripe_loop_some by (simp add: run_stripe_def stripe_empty_def)
  then have wf: "bt_wf (strp_faults s)"
    by (simp add: stripe_of_def stripe_empty_def)
  have counts: "count_of (fold add_count (strp_faults s) (strp_faults acc)) f =
      count_of (strp_faults acc) f + count_of (strp_faults s) f" for f
    using add_counts(2) [OF bt_wf_distinct [OF wf]] .
  have empty: "count_of [] f = 0" for f
    by (simp add: count_of_def)
  show ?thesis
    using acc s add_counts(1) keep_lowest_sorted [OF sorted, where X = X]
    by (auto simp: joined_def stripe_of_def counts stripe_empty_def empty)
qed

lemma join_stripes_joined:
  "joined X pre acc \<Longrightarrow> sorted_wrt (<) (pre @ concat (map (\<lambda>(lo, hi). seed_range lo hi) bs)) \<Longrightarrow>
   join_stripes (map (\<lambda>(lo, hi). run_stripe X lo hi) bs) acc = Some t \<Longrightarrow>
   joined X (pre @ concat (map (\<lambda>(lo, hi). seed_range lo hi) bs)) t"
proof (induction bs arbitrary: pre acc)
  case (Cons b bs)
  obtain lo hi where b: "b = (lo, hi)" by fastforce
  obtain s where s: "run_stripe X lo hi = Some s"
    using Cons.prems(3) b by (cases "run_stripe X lo hi") simp_all
  let ?acc = "\<lparr>strp_simulated_ms = strp_simulated_ms acc + strp_simulated_ms s,
    strp_faults = fold add_count (strp_faults s) (strp_faults acc),
    strp_failure = keep_lowest (strp_failure acc) (strp_failure s)\<rparr>"
  have "joined X (pre @ seed_range lo hi) ?acc"
    by (rule joined_next [OF Cons.prems(1) s]) (use Cons.prems(2) b in \<open>auto simp: sorted_wrt_append\<close>)
  moreover have "sorted_wrt (<) ((pre @ seed_range lo hi) @ concat (map (\<lambda>(lo, hi). seed_range lo hi) bs))"
    using Cons.prems(2) b by simp
  moreover have "join_stripes (map (\<lambda>(lo, hi). run_stripe X lo hi) bs) ?acc = Some t"
    using Cons.prems(3) b s by simp
  ultimately show ?case
    using Cons.IH b by fastforce
qed simp

lemma join_stripes_none:
  "join_stripes (map (\<lambda>(lo, hi). run_stripe X lo hi) bs) acc = None \<Longrightarrow>
   \<exists>x \<in> set (concat (map (\<lambda>(lo, hi). seed_range lo hi) bs)). \<not> finishes X x"
proof (induction bs arbitrary: acc)
  case (Cons b bs)
  obtain lo hi where b: "b = (lo, hi)" by fastforce
  show ?case
  proof (cases "run_stripe X lo hi")
    case None
    then show ?thesis
      using stripe_loop_none [of X "seed_range lo hi" stripe_empty] b by (auto simp: run_stripe_def)
  next
    case (Some s)
    then obtain x where "x \<in> set (concat (map (\<lambda>(lo, hi). seed_range lo hi) bs))" "\<not> finishes X x"
      using Cons.IH Cons.prems b by fastforce
    then show ?thesis
      by (intro bexI [of _ x]) simp_all
  qed
qed simp

lemma seeds_sorted: "b \<le> 2 ^ 64 \<Longrightarrow> sorted_wrt (<) (map (of_nat :: nat \<Rightarrow> u64) [a..<b])"
proof -
  assume b: "b \<le> 2 ^ 64"
  have small: "unat (of_nat n :: u64) = n" if "n < 2 ^ 64" for n
    using that by (simp add: unat_of_nat)
  have "sorted_wrt (\<lambda>x y. (of_nat x :: u64) < of_nat y) [a..<b]"
    by (rule sorted_wrt_mono_rel [OF _ sorted_wrt_upt])
      (use b in \<open>simp add: word_less_nat_alt small\<close>)
  then show ?thesis
    by (simp add: sorted_wrt_map)
qed

lemma sweep_joined:
  assumes "unat start + unat seeds < 2 ^ 64" and "0 < jobs"
  shows "sweep X start seeds jobs = Some t \<Longrightarrow> joined X (seed_range start (start + seeds)) t"
    and "sweep X start seeds jobs = None \<Longrightarrow> \<exists>x \<in> set (seed_range start (start + seeds)). \<not> finishes X x"
proof -
  let ?width = "max (div_ceil seeds jobs) 1"
  let ?bs = "stripe_bounds start seeds ?width jobs 0"
  have w: "0 < ?width" "unat (div_ceil seeds jobs) \<le> unat ?width"
    by (simp_all add: max_def word_less_nat_alt word_le_nat_alt)
  have "unat seeds \<le> unat jobs * unat ?width"
    using unat_div_ceil [OF assms(2), of seeds] mult_le_mono2 [OF w(2), of "unat jobs"]
    by (simp only: mult.commute [of "unat jobs"])
  from stripes_cover [OF assms(1) w(1) this, of 0]
  have cover: "concat (map (\<lambda>(lo, hi). seed_range lo hi) ?bs) = seed_range start (start + seeds)"
    using assms(1) by (simp add: seed_range_def unat_word_ariths)
  have "sorted_wrt (<) (seed_range start (start + seeds))"
    unfolding seed_range_def by (rule seeds_sorted) (use unsigned_less [of "start + seeds", where 'a = nat] in simp)
  then show "sweep X start seeds jobs = Some t \<Longrightarrow> joined X (seed_range start (start + seeds)) t"
    using join_stripes_joined [OF joined_start, of ?bs X t] by (simp add: sweep_def Let_def cover)
  show "sweep X start seeds jobs = None \<Longrightarrow> \<exists>x \<in> set (seed_range start (start + seeds)). \<not> finishes X x"
    using join_stripes_none [of X ?bs stripe_empty] unfolding sweep_def Let_def cover .
qed

end
