(* ===== verification/Props_Main.thy ===== *)
theory Props_Main
  imports Sim_Main Samples
begin

text \<open>
  Properties of the simulator's command line: what a sweep reports, which seeds it covers, and how
  seeds are read back.
\<close>

section \<open>A sweep\<close>

text \<open>The batch as one thread would run it: the seeds in order, stopping at the first failure.\<close>

definition sequential_batch :: "externs \<Rightarrow> u64 \<Rightarrow> u64 \<Rightarrow> exit_code \<times> cli_line list" where
  "sequential_batch X start seeds =
     (let range = seed_range start (start + seeds);
          worlds = map (final_world X) range
      in case first_failing X range of
           Some (seed, violations) \<Rightarrow>
             (ExitFailure,
              Out (show_nat (length (takeWhile (clean X) range)) @ ''/'' @ show_nat (unat seeds) @
                '' seeds green, then:'') # report seed violations)
         | None \<Rightarrow>
             (ExitSuccess,
              [Out (show_nat (unat seeds) @ ''/'' @ show_nat (unat seeds) @ '' seeds green  (0x'' @
                 show_hex_padded 16 (unat start) @ ''..=0x'' @
                 show_hex_padded 16 (unat start + unat seeds - 1) @ '')''),
               Out (''simulated '' @ human_duration (sum_list (map elapsed_ms worlds)) @
                 '' of device life across the batch'')] @
              coverage_lines (\<lambda>f. \<Sum>w\<leftarrow>worlds. count_of (trace_faults (wld_trace w)) (fault_name f))))"

lemma first_failing_position:
  assumes "first_failing X (seed_range lo hi) = Some (seed, violations)"
  shows "unat seed = unat lo + length (takeWhile (clean X) (seed_range lo hi))"
proof -
  let ?R = "seed_range lo hi"
  obtain i where i: "i < length ?R" "\<not> clean X (?R ! i)" "seed = ?R ! i" "\<forall>j < i. clean X (?R ! j)"
    using assms by (auto simp: first_failing_def find_Some_iff)
  then have "takeWhile (clean X) ?R = take i ?R"
    by (intro takeWhile_eq_take_P_nth) auto
  then have "length (takeWhile (clean X) ?R) = i"
    using i(1) by simp
  moreover have "unat lo + i < 2 ^ 64"
    using i(1) unsigned_less [of hi, where 'a = nat] by (simp add: seed_range_def)
  ultimately show ?thesis
    using i(1,3) by (simp add: seed_range_def unat_word_ariths unat_of_nat)
qed

text \<open>C28. A sweep is the sequential run of its range, whatever the number of threads. The exit code and
  every line that a batch prints are those of running the seeds one by one and stopping at the first
  failure, for any number of jobs, unless a thread panics, which happens only when some seed of the
  range does not finish; and the exit code is success exactly when every seed of the range finishes
  without a violation.\<close>

theorem sweep_is_sequential:
  assumes "0 < seeds" and "0 < jobs" and "unat start + unat seeds < 2 ^ 64"
  shows "run_batch X start seeds jobs =
      (case sweep X start seeds jobs of
         None \<Rightarrow> (ExitFailure,
           [Err ''error: a simulator thread panicked; this is a bug in the simulator itself''])
       | Some _ \<Rightarrow> sequential_batch X start seeds) \<and>
    (case sweep X start seeds jobs of
       None \<Rightarrow> list_ex (\<lambda>s. \<not> finishes X s) (seed_range start (start + seeds)) | Some _ \<Rightarrow> True) \<and>
    (fst (run_batch X start seeds jobs) = ExitSuccess) = list_all (clean X) (seed_range start (start + seeds))"
proof (cases "sweep X start seeds jobs")
  case None
  then have unfinished: "\<exists>x \<in> set (seed_range start (start + seeds)). \<not> finishes X x"
    using sweep_joined(2) [OF assms(3,2)] by blast
  then have "\<not> list_all (clean X) (seed_range start (start + seeds))"
    by (auto simp: list_all_iff clean_def)
  with None unfinished show ?thesis
    by (auto simp: run_batch_def list_ex_iff)
next
  case (Some t)
  let ?R = "seed_range start (start + seeds)"
  have j: "joined X ?R t"
    using sweep_joined(1) [OF assms(3,2) Some] .
  have top: "unat (start + seeds) = unat start + unat seeds" "unat (saturating_add start seeds) = unat start + unat seeds"
    using assms(3) by (simp_all add: unat_word_ariths unat_saturating)
  have last: "unat (saturating_sub (saturating_add start seeds) 1) = unat start + unat seeds - 1"
  proof -
    have "1 \<le> saturating_add start seeds"
      using top(2) assms(1) by (simp add: word_le_nat_alt word_less_nat_alt)
    then show ?thesis
      using top(2) by (simp add: saturating_sub_def unat_sub)
  qed
  show ?thesis
  proof (cases "first_failing X ?R")
    case None
    then have all: "list_all (clean X) ?R"
      by (simp add: first_failing_None)
    have "coverage_lines (\<lambda>f. case bt_get (strp_faults t) (fault_name f) of None \<Rightarrow> 0 | Some n \<Rightarrow> n) =
        coverage_lines (\<lambda>f. \<Sum>w\<leftarrow>map (final_world X) ?R. count_of (trace_faults (wld_trace w)) (fault_name f))"
      using j all by (simp add: joined_def comp_def flip: count_of_def)
    with None all j show ?thesis
      by (simp add: run_batch_def Some sequential_batch_def joined_def last comp_def Let_def)
  next
    case (Some r)
    obtain seed violations where r: "r = (seed, violations)" by fastforce
    have pos: "unat seed = unat start + length (takeWhile (clean X) ?R)"
      using first_failing_position Some r by blast
    then have "start \<le> seed"
      by (simp add: word_le_nat_alt)
    then have "unat (saturating_sub seed start) = length (takeWhile (clean X) ?R)"
      using pos by (simp add: saturating_sub_def unat_sub)
    moreover have "\<not> list_all (clean X) ?R"
      using Some first_failing_None by (metis option.distinct(1))
    ultimately show ?thesis
      using j Some r by (simp add: run_batch_def \<open>sweep X start seeds jobs = Some t\<close> sequential_batch_def joined_def Let_def)
  qed
qed

theorem sweep_is_sequential_witness:
  "(fst (run_batch sample_externs 0x4f21a9c3 1000 7) = ExitSuccess) =
     list_all (clean sample_externs) (seed_range 0x4f21a9c3 (0x4f21a9c3 + 1000))"
proof -
  have "0 < (1000 :: u64)" "0 < (7 :: u64)" "unat (0x4f21a9c3 :: u64) + unat (1000 :: u64) < 2 ^ 64"
    by simp_all
  then show ?thesis
    by (rule sweep_is_sequential [THEN conjunct2, THEN conjunct2])
qed

section \<open>Seeds\<close>

lemma radix_loop_append:
  "radix_loop r dg acc (xs @ ys) = Option.bind (radix_loop r dg acc xs) (\<lambda>a. radix_loop r dg a ys)"
  by (induction r dg acc xs rule: radix_loop.induct) (auto split: option.split)

lemma dec_digit_table: "list_all (\<lambda>d. dec_value (dec_digit d) = Some d \<and> dec_digit d \<noteq> CHR ''+'' \<and> dec_digit d \<noteq> CHR ''x'') [0..<10]"
  by code_simp

lemma dec_digit_props:
  "d < 10 \<Longrightarrow> dec_value (dec_digit d) = Some d \<and> dec_digit d \<noteq> CHR ''+'' \<and> dec_digit d \<noteq> CHR ''x''"
  using dec_digit_table by (simp add: list_all_iff del: upt.simps)

lemma show_nat_digits: "show_nat n \<noteq> [] \<and> list_all (\<lambda>c. c \<noteq> CHR ''+'' \<and> c \<noteq> CHR ''x'') (show_nat n)"
proof (induction n rule: show_nat.induct)
  case (1 n)
  then show ?case
    by (cases "n < 10") (simp_all add: show_nat.simps [of n] dec_digit_props)
qed

lemma show_nat_value: "n < 2 ^ 64 \<Longrightarrow> radix_loop 10 dec_value 0 (show_nat n) = Some n"
proof (induction n rule: show_nat.induct)
  case (1 n)
  then show ?case
    by (cases "n < 10") (simp_all add: show_nat.simps [of n] radix_loop_append dec_digit_props)
qed

lemma show_hex_digits: "show_hex n \<noteq> [] \<and> list_all (\<lambda>c. c \<noteq> CHR ''+'') (show_hex n)"
proof (induction n rule: show_hex.induct)
  case (1 n)
  then show ?case
    by (cases "n < 16") (simp_all add: show_hex.simps [of n] hex_digit_props)
qed

lemma show_hex_value: "n < 2 ^ 64 \<Longrightarrow> radix_loop 16 radix16_digit 0 (show_hex n) = Some n"
proof (induction n rule: show_hex.induct)
  case (1 n)
  then show ?case
    by (cases "n < 16") (simp_all add: show_hex.simps [of n] radix_loop_append hex_digit_props)
qed

lemma leading_zeros: "radix_loop 16 radix16_digit 0 (replicate k (CHR ''0'') @ t) = radix_loop 16 radix16_digit 0 t"
proof (induction k)
  case (Suc k)
  have "radix16_digit (CHR ''0'') = Some 0"
    by code_simp
  with Suc show ?case by simp
qed simp

lemma no_plus: "t \<noteq> [] \<Longrightarrow> list_all (\<lambda>c. c \<noteq> CHR ''+'') t \<Longrightarrow>
  u64_from_str_radix r dg t = map_option of_nat (radix_loop r dg 0 t)"
  by (cases t) (auto simp: u64_from_str_radix_def)

text \<open>A bug report is one integer that reads back. The seed in each form the simulator prints it
  (hexadecimal, padded hexadecimal, decimal) is parsed to that seed, for every seed, and the command
  line a report prints replays that seed with its trace.\<close>

theorem printed_seed_replays:
  "parse_seed (''0x'' @ show_hex (unat s)) = Some s \<and>
   parse_seed (''0x'' @ show_hex_padded 16 (unat s)) = Some s \<and>
   parse_seed (show_nat (unat s)) = Some s \<and>
   sim_main X jobs [''--seed'', ''0x'' @ show_hex (unat s), ''--trace''] = run_one X s True"
proof (intro conjI)
  have small: "unat s < 2 ^ 64"
    using unsigned_less [of s, where 'a = nat] by simp
  show hex: "parse_seed (''0x'' @ show_hex (unat s)) = Some s"
    using show_hex_digits [of "unat s"] by (simp add: parse_seed_def no_plus show_hex_value [OF small])
  show "parse_seed (''0x'' @ show_hex_padded 16 (unat s)) = Some s"
  proof -
    let ?t = "show_hex_padded 16 (unat s)"
    have "list_all (\<lambda>c. c \<noteq> CHR ''+'') (replicate k (CHR ''0''))" for k
      by (induction k) simp_all
    then have "?t \<noteq> []" "list_all (\<lambda>c. c \<noteq> CHR ''+'') ?t"
      using show_hex_digits [of "unat s"] by (simp_all add: show_hex_padded_def)
    from no_plus [OF this] show ?thesis
      by (simp add: parse_seed_def show_hex_padded_def leading_zeros show_hex_value [OF small])
  qed
  have "take 2 (show_nat (unat s)) \<noteq> ''0x''"
  proof
    assume "take 2 (show_nat (unat s)) = ''0x''"
    then have "CHR ''x'' \<in> set (show_nat (unat s))"
      by (metis in_set_takeD list.set_intros(1,2))
    then show False
      using show_nat_digits [of "unat s"] by (auto simp: list_all_iff)
  qed
  then show "parse_seed (show_nat (unat s)) = Some s"
    using show_nat_digits [of "unat s"]
    by (simp add: parse_seed_def parse_u64_def no_plus list_all_iff show_nat_value [OF small])
  show "sim_main X jobs [''--seed'', ''0x'' @ show_hex (unat s), ''--trace''] = run_one X s True"
    using hex by (simp add: sim_main_def)
qed

section \<open>Truncated command lines\<close>

text \<open>A truncated \<open>--seed\<close> is not refused. With \<open>--seed\<close> last and nothing after it the default batch
  of a thousand seeds runs, exactly as without the flag, where every other flag in that place is
  refused before anything runs; a batch of no seeds or on no threads is refused too.\<close>

theorem truncated_seed_runs_the_batch:
  "sim_main X jobs [''--seed''] = run_batch X 0 1000 jobs \<and>
   sim_main X jobs [] = run_batch X 0 1000 jobs \<and>
   list_all (\<lambda>f. sim_main X jobs [f] = (ExitFailure, [Err (''error: '' @ f @ '' expects a value'')]))
     [''--seeds'', ''--from'', ''--jobs''] \<and>
   sim_main X jobs [''--seeds'', ''0''] = (ExitFailure, [ErrDebug ''error: --seeds does not accept '' ''0'']) \<and>
   sim_main X jobs [''--jobs'', ''0''] = (ExitFailure, [ErrDebug ''error: --jobs does not accept '' ''0''])"
proof (intro conjI)
  have "show_nat 0 = ''0''"
    by code_simp
  then have zero: "parse_u64 ''0'' = Some 0"
    using show_nat_value [of 0] by (simp add: parse_u64_def no_plus)
  have none: "batch_command X jobs args = run_batch X 0 1000 jobs"
    if "''--seeds'' \<notin> set args" "''--from'' \<notin> set args" "''--jobs'' \<notin> set args" for args
    using that by (simp add: batch_command_def flag_option_def)
  show "sim_main X jobs [''--seed''] = run_batch X 0 1000 jobs"
    by (simp add: sim_main_def none)
  show "sim_main X jobs [] = run_batch X 0 1000 jobs"
    by (simp add: sim_main_def none)
  show "list_all (\<lambda>f. sim_main X jobs [f] = (ExitFailure, [Err (''error: '' @ f @ '' expects a value'')]))
     [''--seeds'', ''--from'', ''--jobs'']"
    by (simp add: sim_main_def batch_command_def flag_option_def)
  show "sim_main X jobs [''--seeds'', ''0''] = (ExitFailure, [ErrDebug ''error: --seeds does not accept '' ''0''])"
    by (simp add: sim_main_def batch_command_def flag_option_def positive_seeds_def zero)
  show "sim_main X jobs [''--jobs'', ''0''] = (ExitFailure, [ErrDebug ''error: --jobs does not accept '' ''0''])"
    by (simp add: sim_main_def batch_command_def flag_option_def positive_jobs_def zero)
qed

end
