(* ===== verification/Server_Migrate.thy ===== *)
theory Server_Migrate
  imports Server_Auth
begin

text \<open>
  The schema migration (\<open>migrate\<close> and \<open>try_migrate\<close> of \<open>credsync-server/src/db.rs\<close>, with the three
  scripts under \<open>migrations/\<close>) and the start of the reference server (\<open>credsyncd/src/main.rs\<close>).
  PostgreSQL is outside the repository: what the code relies on is written out for the statements it
  sends, a session advisory lock that one session holds at a time and may hold repeatedly, a session
  setting, and scripts that are one transaction each. Every statement may fail, with any error. The
  code is given as it is written, and once more cut at its awaits, where any number of instances
  that start together interleave.
\<close>

section \<open>The database as a migration sees it\<close>

text \<open>A driver error: its SQLSTATE, its own text, and the text of its source.\<close>

record pg_error =
  pge_code :: "string option"
  pge_text :: string
  pge_source :: "string option"

definition database_error :: "pg_error \<Rightarrow> server_error" where
  "database_error e =
     Database (case pge_source e of None \<Rightarrow> pge_text e | Some cause \<Rightarrow> pge_text e @ '': '' @ cause)"

definition is_lock_unavailable :: "pg_error \<Rightarrow> bool" where
  "is_lock_unavailable e = (pge_code e = Some ''55P03'')"

datatype ddl =
    CreateTable string
  | CreateIndex string
  | SeedWatermark

definition migration_scripts :: "ddl list list" where
  "migration_scripts =
     [[CreateTable ''sync_changes'', CreateIndex ''sync_changes_scope_seq'',
       CreateTable ''sync_command_results'', CreateIndex ''sync_command_results_scope''],
      [CreateTable ''sync_scope_blocks''],
      [CreateTable ''sync_watermark'', SeedWatermark]]"

text \<open>\<open>md_lock\<close> is the session that holds the migration lock and how many times it holds it;
  \<open>md_timeouts\<close> the sessions whose \<open>lock_timeout\<close> is not the default.\<close>

record mig_db =
  md_lock :: "(nat \<times> nat) option"
  md_timeouts :: "(nat, nat) btree"
  md_objects :: "string list"
  md_watermark :: "u64 option"

definition mig_db_empty :: mig_db where
  "mig_db_empty = \<lparr>md_lock = None, md_timeouts = [], md_objects = [], md_watermark = None\<rparr>"

text \<open>\<open>IF NOT EXISTS\<close> skips what is there, and \<open>ON CONFLICT DO NOTHING\<close> keeps a watermark already
  recorded.\<close>

fun ddl_run :: "ddl \<Rightarrow> mig_db \<Rightarrow> mig_db" where
  "ddl_run (CreateTable n) db =
     (if n \<in> set (md_objects db) then db else db\<lparr>md_objects := md_objects db @ [n]\<rparr>)"
| "ddl_run (CreateIndex n) db =
     (if n \<in> set (md_objects db) then db else db\<lparr>md_objects := md_objects db @ [n]\<rparr>)"
| "ddl_run SeedWatermark db =
     (case md_watermark db of None \<Rightarrow> db\<lparr>md_watermark := Some 0\<rparr> | Some _ \<Rightarrow> db)"

definition run_script :: "ddl list \<Rightarrow> mig_db \<Rightarrow> mig_db" where
  "run_script ds db = fold ddl_run ds db"

definition MIGRATION_LOCK_TIMEOUT_MS :: nat where
  "MIGRATION_LOCK_TIMEOUT_MS = 1500"

definition MIGRATION_ATTEMPTS :: nat where
  "MIGRATION_ATTEMPTS = 10"

text \<open>The statements a migration sends.\<close>

datatype mig_stmt = SetTimeout | TryLock | Script nat | Unlock | ResetTimeout

definition try_advisory_lock :: "nat \<Rightarrow> mig_db \<Rightarrow> bool \<times> mig_db" where
  "try_advisory_lock t db =
     (case md_lock db of
        None \<Rightarrow> (True, db\<lparr>md_lock := Some (t, 1)\<rparr>)
      | Some (h, n) \<Rightarrow> if h = t then (True, db\<lparr>md_lock := Some (t, n + 1)\<rparr>) else (False, db))"

definition advisory_unlock :: "nat \<Rightarrow> mig_db \<Rightarrow> bool \<times> mig_db" where
  "advisory_unlock t db =
     (case md_lock db of
        None \<Rightarrow> (False, db)
      | Some (h, n) \<Rightarrow>
          if h = t then (True, db\<lparr>md_lock := (if n \<le> 1 then None else Some (t, n - 1))\<rparr>)
          else (False, db))"

fun mig_run :: "nat \<Rightarrow> mig_stmt \<Rightarrow> mig_db \<Rightarrow> bool \<times> mig_db" where
  "mig_run t SetTimeout db =
     (True, db\<lparr>md_timeouts := bt_insert t MIGRATION_LOCK_TIMEOUT_MS (md_timeouts db)\<rparr>)"
| "mig_run t TryLock db = try_advisory_lock t db"
| "mig_run t (Script k) db = (True, run_script (migration_scripts ! k) db)"
| "mig_run t Unlock db = advisory_unlock t db"
| "mig_run t ResetTimeout db = (True, db\<lparr>md_timeouts := bt_remove t (md_timeouts db)\<rparr>)"

text \<open>A statement that fails has no effect.\<close>

definition mig_exec :: "nat \<Rightarrow> mig_stmt \<Rightarrow> pg_error option \<Rightarrow> mig_db \<Rightarrow> (pg_error + bool) \<times> mig_db" where
  "mig_exec t st fault db =
     (case fault of Some e \<Rightarrow> (Inl e, db) | None \<Rightarrow> (case mig_run t st db of (b, db') \<Rightarrow> (Inr b, db')))"

section \<open>The code\<close>

datatype attempt =
    AttemptDone
  | AttemptContended string
  | AttemptFailed pg_error

definition reset_lock_timeout :: "nat \<Rightarrow> pg_error option \<Rightarrow> mig_db \<Rightarrow> mig_db" where
  "reset_lock_timeout t fault db = snd (mig_exec t ResetTimeout fault db)"

text \<open>The three scripts in order, stopping at the first that fails.\<close>

definition apply_scripts ::
  "nat \<Rightarrow> (mig_stmt \<Rightarrow> pg_error option) \<Rightarrow> mig_db \<Rightarrow> pg_error option \<times> mig_db" where
  "apply_scripts t fault db =
     (case mig_exec t (Script 0) (fault (Script 0)) db of
        (Inl e, db1) \<Rightarrow> (Some e, db1)
      | (Inr _, db1) \<Rightarrow>
          (case mig_exec t (Script 1) (fault (Script 1)) db1 of
             (Inl e, db2) \<Rightarrow> (Some e, db2)
           | (Inr _, db2) \<Rightarrow>
               (case mig_exec t (Script 2) (fault (Script 2)) db2 of
                  (Inl e, db3) \<Rightarrow> (Some e, db3)
                | (Inr _, db3) \<Rightarrow> (None, db3))))"

definition attempt_result :: "pg_error option \<Rightarrow> pg_error + bool \<Rightarrow> attempt" where
  "attempt_result applied unlocked =
     (case applied of
        None \<Rightarrow> (case unlocked of Inr _ \<Rightarrow> AttemptDone | Inl e \<Rightarrow> AttemptFailed e)
      | Some e \<Rightarrow>
          if is_lock_unavailable e
          then AttemptContended ''a transaction is holding a lock on sync_changes''
          else AttemptFailed e)"

definition try_migrate ::
  "nat \<Rightarrow> (mig_stmt \<Rightarrow> pg_error option) \<Rightarrow> mig_db \<Rightarrow> attempt \<times> mig_db" where
  "try_migrate t fault db =
     (case mig_exec t SetTimeout (fault SetTimeout) db of
        (Inl e, db1) \<Rightarrow> (AttemptFailed e, db1)
      | (Inr _, db1) \<Rightarrow>
          (case mig_exec t TryLock (fault TryLock) db1 of
             (Inl e, db2) \<Rightarrow> (AttemptFailed e, reset_lock_timeout t (fault ResetTimeout) db2)
           | (Inr got, db2) \<Rightarrow>
               if \<not> got
               then (AttemptContended ''another migration holds the advisory lock'',
                     reset_lock_timeout t (fault ResetTimeout) db2)
               else
                 (case apply_scripts t fault db2 of
                    (applied, db3) \<Rightarrow>
                      (case mig_exec t Unlock (fault Unlock) db3 of
                         (unlocked, db4) \<Rightarrow>
                           (attempt_result applied unlocked,
                            reset_lock_timeout t (fault ResetTimeout) db4)))))"

definition retries_exhausted :: "string option \<Rightarrow> server_error" where
  "retries_exhausted last_by =
     Database (''the schema migration could not acquire its locks after '' @
       show_nat MIGRATION_ATTEMPTS @ '' attempts; something is holding a transaction open on sync_changes ('' @
       (case last_by of None \<Rightarrow> ''no further detail'' | Some why \<Rightarrow> why) @ '')'')"

text \<open>The milliseconds slept after attempt number \<open>n\<close>, from 0.\<close>

definition backoff_ms :: "nat \<Rightarrow> nat" where
  "backoff_ms n = (n + 1) * 100"

text \<open>The loop of \<open>migrate\<close>: the attempts left, the number of the next one, the last contention. It
  returns the result and the sleeps.\<close>

fun attempts_loop ::
  "nat \<Rightarrow> nat \<Rightarrow> string option \<Rightarrow> nat \<Rightarrow> (nat \<Rightarrow> mig_stmt \<Rightarrow> pg_error option) \<Rightarrow> mig_db \<Rightarrow>
   (server_error + unit) \<times> nat list \<times> mig_db" where
  "attempts_loop 0 k last_by t faults db = (Inl (retries_exhausted last_by), [], db)"
| "attempts_loop (Suc left) k last_by t faults db =
     (case try_migrate t (faults k) db of
        (AttemptDone, db') \<Rightarrow> (Inr (), [], db')
      | (AttemptFailed e, db') \<Rightarrow> (Inl (database_error e), [], db')
      | (AttemptContended why, db') \<Rightarrow>
          (case attempts_loop left (k + 1) (Some why) t faults db' of
             (r, waits, db'') \<Rightarrow> (r, backoff_ms k # waits, db'')))"

definition migrate ::
  "nat \<Rightarrow> (nat \<Rightarrow> mig_stmt \<Rightarrow> pg_error option) \<Rightarrow> mig_db \<Rightarrow> (server_error + unit) \<times> nat list \<times> mig_db" where
  "migrate t faults db = attempts_loop MIGRATION_ATTEMPTS 0 None t faults db"

lemmas migrate_defs [run_defs] =
  database_error_def is_lock_unavailable_def migration_scripts_def mig_db_empty_def run_script_def
  try_advisory_lock_def advisory_unlock_def mig_exec_def reset_lock_timeout_def apply_scripts_def
  attempt_result_def try_migrate_def retries_exhausted_def backoff_ms_def migrate_def
  MIGRATION_LOCK_TIMEOUT_MS_def MIGRATION_ATTEMPTS_def

section \<open>Cut at the awaits\<close>

text \<open>
  The same code between two statements. A session waits for the answer of one statement, or sleeps;
  \<open>ms_unlock_failures\<close> and \<open>ms_reset_failures\<close> count what the code ignores or gives up on, so that the
  lemmas can say exactly what is left behind.
\<close>

datatype mig_pc =
    AtSetTimeout
  | AtTryLock
  | AtScript nat
  | AtUnlock "pg_error option"
  | AtReset attempt
  | AtSleep string
  | MigReturned "server_error + unit"

record mig_session =
  ms_pc :: mig_pc
  ms_attempt :: nat
  ms_last :: "string option"
  ms_waits :: "nat list"
  ms_unlock_failures :: nat
  ms_reset_failures :: nat

definition session_fresh :: mig_session where
  "session_fresh =
     \<lparr>ms_pc = AtSetTimeout, ms_attempt = 0, ms_last = None, ms_waits = [], ms_unlock_failures = 0,
      ms_reset_failures = 0\<rparr>"

fun pending_stmt :: "mig_pc \<Rightarrow> mig_stmt option" where
  "pending_stmt AtSetTimeout = Some SetTimeout"
| "pending_stmt AtTryLock = Some TryLock"
| "pending_stmt (AtScript k) = Some (Script k)"
| "pending_stmt (AtUnlock _) = Some Unlock"
| "pending_stmt (AtReset _) = Some ResetTimeout"
| "pending_stmt (AtSleep _) = None"
| "pending_stmt (MigReturned _) = None"

definition after_attempt :: "attempt \<Rightarrow> mig_pc" where
  "after_attempt a =
     (case a of
        AttemptDone \<Rightarrow> MigReturned (Inr ())
      | AttemptFailed e \<Rightarrow> MigReturned (Inl (database_error e))
      | AttemptContended why \<Rightarrow> AtSleep why)"

definition after_answer :: "mig_session \<Rightarrow> pg_error + bool \<Rightarrow> mig_session" where
  "after_answer m r =
     (case ms_pc m of
        AtSetTimeout \<Rightarrow>
          m\<lparr>ms_pc := (case r of Inl e \<Rightarrow> after_attempt (AttemptFailed e) | Inr _ \<Rightarrow> AtTryLock)\<rparr>
      | AtTryLock \<Rightarrow>
          m\<lparr>ms_pc :=
             (case r of
                Inl e \<Rightarrow> AtReset (AttemptFailed e)
              | Inr got \<Rightarrow>
                  if got then AtScript 0
                  else AtReset (AttemptContended ''another migration holds the advisory lock''))\<rparr>
      | AtScript k \<Rightarrow>
          m\<lparr>ms_pc :=
             (case r of
                Inl e \<Rightarrow> AtUnlock (Some e)
              | Inr _ \<Rightarrow> if k < 2 then AtScript (k + 1) else AtUnlock None)\<rparr>
      | AtUnlock applied \<Rightarrow>
          m\<lparr>ms_pc := AtReset (attempt_result applied r),
            ms_unlock_failures := ms_unlock_failures m + (case r of Inl _ \<Rightarrow> 1 | Inr _ \<Rightarrow> 0)\<rparr>
      | AtReset a \<Rightarrow>
          m\<lparr>ms_pc := after_attempt a,
            ms_reset_failures := ms_reset_failures m + (case r of Inl _ \<Rightarrow> 1 | Inr _ \<Rightarrow> 0)\<rparr>
      | AtSleep _ \<Rightarrow> m
      | MigReturned _ \<Rightarrow> m)"

definition after_sleep :: "string \<Rightarrow> mig_session \<Rightarrow> mig_session" where
  "after_sleep why m =
     m\<lparr>ms_pc :=
         (if ms_attempt m + 1 < MIGRATION_ATTEMPTS then AtSetTimeout
          else MigReturned (Inl (retries_exhausted (Some why)))),
       ms_attempt := ms_attempt m + 1, ms_last := Some why,
       ms_waits := ms_waits m @ [backoff_ms (ms_attempt m)]\<rparr>"

record mig_state =
  mg_db :: mig_db
  mg_sessions :: "nat \<Rightarrow> mig_session option"

text \<open>
  One step of any session: a statement is answered, a sleep ends, a new instance starts, or a reader
  records a higher watermark in the meantime.
\<close>

inductive mig_move :: "mig_state \<Rightarrow> mig_state \<Rightarrow> bool" where
  mig_start: "mg_sessions s t = None \<Longrightarrow>
    mig_move s (s\<lparr>mg_sessions := (mg_sessions s)(t \<mapsto> session_fresh)\<rparr>)"
| mig_answer: "mg_sessions s t = Some m \<Longrightarrow> pending_stmt (ms_pc m) = Some st \<Longrightarrow>
    mig_exec t st fault (mg_db s) = (r, db') \<Longrightarrow>
    mig_move s \<lparr>mg_db = db', mg_sessions = (mg_sessions s)(t \<mapsto> after_answer m r)\<rparr>"
| mig_wake: "mg_sessions s t = Some m \<Longrightarrow> ms_pc m = AtSleep why \<Longrightarrow>
    mig_move s (s\<lparr>mg_sessions := (mg_sessions s)(t \<mapsto> after_sleep why m)\<rparr>)"
| mig_watermark: "md_watermark (mg_db s) = Some v \<Longrightarrow> sint v \<le> sint v' \<Longrightarrow>
    mig_move s (s\<lparr>mg_db := (mg_db s)\<lparr>md_watermark := Some v'\<rparr>\<rparr>)"

inductive mig_steps :: "mig_state \<Rightarrow> mig_state \<Rightarrow> bool" where
  mig_refl: "mig_steps s s"
| mig_more: "mig_steps s s' \<Longrightarrow> mig_move s' s'' \<Longrightarrow> mig_steps s s''"

inductive_cases mig_stepE: "mig_move s s'"

section \<open>One instance alone is the code\<close>

lemma mig_steps_trans: "mig_steps s' s'' \<Longrightarrow> mig_steps s s' \<Longrightarrow> mig_steps s s''"
  by (induction rule: mig_steps.induct) (auto intro: mig_more)

text \<open>What an attempt does not change.\<close>

definition attempt_frame :: "mig_session \<Rightarrow> nat \<times> string option \<times> nat list" where
  "attempt_frame m = (ms_attempt m, ms_last m, ms_waits m)"

lemma attempt_frame_answer [simp]: "attempt_frame (after_answer m r) = attempt_frame m"
  by (simp add: attempt_frame_def after_answer_def split: mig_pc.split)

text \<open>Session \<open>t\<close> moves: it starts, the statement it waits for is answered (or fails, as \<open>faults\<close> has it for
  the attempt it is in), or its sleep ends. It stands still once it has returned.\<close>

definition mig_tick ::
  "nat \<Rightarrow> (nat \<Rightarrow> mig_stmt \<Rightarrow> pg_error option) \<Rightarrow> mig_state \<Rightarrow> mig_state" where
  "mig_tick t faults s =
     (case mg_sessions s t of
        None \<Rightarrow> s\<lparr>mg_sessions := (mg_sessions s)(t \<mapsto> session_fresh)\<rparr>
      | Some m \<Rightarrow>
          (case pending_stmt (ms_pc m) of
             Some st \<Rightarrow>
               (case mig_exec t st (faults (ms_attempt m) st) (mg_db s) of
                  (r, db') \<Rightarrow> \<lparr>mg_db = db', mg_sessions = (mg_sessions s)(t \<mapsto> after_answer m r)\<rparr>)
           | None \<Rightarrow>
               (case ms_pc m of
                  AtSleep why \<Rightarrow> s\<lparr>mg_sessions := (mg_sessions s)(t \<mapsto> after_sleep why m)\<rparr>
                | _ \<Rightarrow> s)))"

lemma mig_tick_step: "mig_steps s (mig_tick t faults s)"
proof (cases "mg_sessions s t")
  case None
  then show ?thesis
    by (auto simp: mig_tick_def intro: mig_more mig_refl mig_start)
next
  case (Some m)
  show ?thesis
  proof (cases "pending_stmt (ms_pc m)")
    case None
    with Some show ?thesis
      by (auto simp: mig_tick_def intro: mig_more mig_refl mig_wake split: mig_pc.split)
  next
    case (Some st)
    obtain r db' where "mig_exec t st (faults (ms_attempt m) st) (mg_db s) = (r, db')"
      by fastforce
    with Some \<open>mg_sessions s t = Some m\<close> show ?thesis
      using mig_answer by (auto simp: mig_tick_def intro: mig_more mig_refl)
  qed
qed

lemma mig_ticks_steps: "mig_steps s ((mig_tick t faults ^^ n) s)"
  by (induction n) (auto intro: mig_refl mig_steps_trans mig_tick_step)

text \<open>\<open>gets_to X s S t F db pc\<close>: from \<open>s\<close>, session \<open>t\<close> alone moved with the failures \<open>X\<close>, and it is now at
  \<open>pc\<close> of the attempt \<open>F\<close>.\<close>

definition gets_to ::
  "(nat \<Rightarrow> mig_stmt \<Rightarrow> pg_error option) \<Rightarrow> mig_state \<Rightarrow> (nat \<Rightarrow> mig_session option) \<Rightarrow> nat \<Rightarrow>
   nat \<times> string option \<times> nat list \<Rightarrow> mig_db \<Rightarrow> mig_pc \<Rightarrow> bool" where
  "gets_to X s S t F db pc \<longleftrightarrow>
     (\<exists>n m. (mig_tick t X ^^ n) s = \<lparr>mg_db = db, mg_sessions = S(t \<mapsto> m)\<rparr> \<and> ms_pc m = pc \<and>
        attempt_frame m = F)"

lemma gets_to_tick:
  assumes "(mig_tick t X ^^ n) s = \<lparr>mg_db = db, mg_sessions = S(t \<mapsto> m)\<rparr>"
    and "mig_tick t X \<lparr>mg_db = db, mg_sessions = S(t \<mapsto> m)\<rparr> = \<lparr>mg_db = db', mg_sessions = S(t \<mapsto> m')\<rparr>"
  shows "gets_to X s S t (attempt_frame m') db' (ms_pc m')"
  unfolding gets_to_def using assms by (intro exI [of _ "Suc n"] exI [of _ m']) simp

text \<open>One answered statement, in the form the proofs below chain.\<close>

lemma gets_to_answer:
  assumes "gets_to X s S t F db pc" and "pending_stmt pc = Some st"
    and "mig_exec t st (X (fst F) st) db = (r, db')"
  shows "gets_to X s S t F db' (ms_pc (after_answer (session_fresh\<lparr>ms_pc := pc\<rparr>) r))"
proof -
  obtain n m where m: "(mig_tick t X ^^ n) s = \<lparr>mg_db = db, mg_sessions = S(t \<mapsto> m)\<rparr>" "ms_pc m = pc"
    "attempt_frame m = F"
    using assms(1) unfolding gets_to_def by blast
  have "mig_tick t X \<lparr>mg_db = db, mg_sessions = S(t \<mapsto> m)\<rparr> =
      \<lparr>mg_db = db', mg_sessions = S(t \<mapsto> after_answer m r)\<rparr>"
    using assms(2,3) m(2,3) by (auto simp: mig_tick_def attempt_frame_def)
  moreover have "ms_pc (after_answer m r) = ms_pc (after_answer (session_fresh\<lparr>ms_pc := pc\<rparr>) r)"
    using m(2) by (simp add: after_answer_def split: mig_pc.split)
  ultimately show ?thesis
    using gets_to_tick [OF m(1)] m(3) by (metis attempt_frame_answer)
qed

lemma scripts_steps:
  assumes start: "gets_to X s S t F db (AtScript 0)" and code: "apply_scripts t (X (fst F)) db = (applied, db')"
  shows "gets_to X s S t F db' (AtUnlock applied)"
proof -
  have failed: "gets_to X s S t F d (AtUnlock (Some e))"
    if "gets_to X s S t F d (AtScript k)" "X (fst F) (Script k) = Some e" for d k e
    using gets_to_answer [OF that(1), of "Script k"] that(2) by (simp add: mig_exec_def after_answer_def)
  have passed: "gets_to X s S t F (run_script (migration_scripts ! k) d)
      (if k < 2 then AtScript (k + 1) else AtUnlock None)"
    if "gets_to X s S t F d (AtScript k)" "X (fst F) (Script k) = None" for d k
    using gets_to_answer [OF that(1), of "Script k"] that(2) by (simp add: mig_exec_def after_answer_def)
  note run = apply_scripts_def mig_exec_def
  show ?thesis
  proof (cases "X (fst F) (Script 0)")
    case (Some e)
    with code [symmetric] failed [OF start Some] show ?thesis
      by (simp add: run)
  next
    case s0: None
    have s1: "gets_to X s S t F (run_script (migration_scripts ! 0) db) (AtScript 1)"
      using passed [OF start s0] by simp
    show ?thesis
    proof (cases "X (fst F) (Script 1)")
      case (Some e)
      with code [symmetric] failed [OF s1 Some] s0 show ?thesis
        by (simp add: run)
    next
      case None
      have "gets_to X s S t F (run_script (migration_scripts ! 1) (run_script (migration_scripts ! 0) db))
          (AtScript 2)"
        using passed [OF s1 None] by (simp add: numeral_2_eq_2)
      from failed [OF this] passed [OF this] show ?thesis
        using code [symmetric] s0 None by (cases "X (fst F) (Script 2)") (simp_all add: run)
    qed
  qed
qed

lemma try_migrate_steps:
  assumes start: "gets_to X s S t F db AtSetTimeout" and code: "try_migrate t (X (fst F)) db = (a, db')"
  shows "gets_to X s S t F db' (after_attempt a)"
proof (cases "X (fst F) SetTimeout")
  case (Some e)
  with code gets_to_answer [OF start, of SetTimeout] show ?thesis
    by (simp add: try_migrate_def mig_exec_def after_answer_def)
next
  case None
  have reset: "gets_to X s S t F (reset_lock_timeout t (X (fst F) ResetTimeout) d) (after_attempt a')"
    if "gets_to X s S t F d (AtReset a')" for d a'
  proof -
    obtain r d' where "mig_exec t ResetTimeout (X (fst F) ResetTimeout) d = (r, d')"
      by fastforce
    with gets_to_answer [OF that _ this] show ?thesis
      by (simp add: after_answer_def reset_lock_timeout_def)
  qed
  define db1 where "db1 = snd (mig_run t SetTimeout db)"
  have s1: "gets_to X s S t F db1 AtTryLock"
    using gets_to_answer [OF start, of SetTimeout] None by (simp add: mig_exec_def after_answer_def db1_def)
  obtain r db2 where lock: "mig_exec t TryLock (X (fst F) TryLock) db1 = (r, db2)"
    by fastforce
  have s2: "gets_to X s S t F db2 (ms_pc (after_answer (session_fresh\<lparr>ms_pc := AtTryLock\<rparr>) r))"
    using gets_to_answer [OF s1 _ lock] by simp
  have set: "mig_exec t SetTimeout None db = (Inr True, db1)"
    by (simp add: mig_exec_def db1_def)
  show ?thesis
  proof (cases "r = Inr True")
    case False
    then have "gets_to X s S t F db2 (AtReset a)"
      "db' = reset_lock_timeout t (X (fst F) ResetTimeout) db2"
      using s2 code None lock set by (cases r; auto simp: after_answer_def try_migrate_def)+
    with reset show ?thesis
      by simp
  next
    case True
    obtain applied db3 where scr: "apply_scripts t (X (fst F)) db2 = (applied, db3)"
      by fastforce
    obtain u db4 where unl: "mig_exec t Unlock (X (fst F) Unlock) db3 = (u, db4)"
      by fastforce
    have "gets_to X s S t F db3 (AtUnlock applied)"
      using s2 True by (intro scripts_steps [where X = X and F = F, OF _ scr]) (simp add: after_answer_def)
    from gets_to_answer [OF this _ unl]
    have "gets_to X s S t F db4 (AtReset (attempt_result applied u))"
      by (simp add: after_answer_def)
    with reset show ?thesis
      using code None lock set True scr unl by (auto simp: try_migrate_def)
  qed
qed

lemma attempts_loop_steps:
  assumes "gets_to X s S t (k, why, ws) db
      (if left = 0 then MigReturned (Inl (retries_exhausted why)) else AtSetTimeout)"
    and "attempts_loop left k why t X db = (r, waits, db')" and "left + k = MIGRATION_ATTEMPTS"
  shows "\<exists>k' why'. gets_to X s S t (k', why', ws @ waits) db' (MigReturned r)"
  using assms
proof (induction left arbitrary: k why ws db r waits)
  case 0
  then show ?case
    by auto
next
  case (Suc left)
  obtain a db1 where code: "try_migrate t (X k) db = (a, db1)"
    by fastforce
  have s1: "gets_to X s S t (k, why, ws) db1 (after_attempt a)"
    using try_migrate_steps [of X s S t "(k, why, ws)"] code Suc.prems(1) by simp
  show ?case
  proof (cases a)
    case (AttemptContended why2)
    obtain waits' where rest: "attempts_loop left (k + 1) (Some why2) t X db1 = (r, waits', db')"
      and waits: "waits = backoff_ms k # waits'"
      using Suc.prems(2) code AttemptContended by (auto split: prod.splits)
    obtain n m where m: "(mig_tick t X ^^ n) s = \<lparr>mg_db = db1, mg_sessions = S(t \<mapsto> m)\<rparr>"
      "ms_pc m = AtSleep why2" "attempt_frame m = (k, why, ws)"
      using s1 AttemptContended by (auto simp: gets_to_def after_attempt_def)
    have "mig_tick t X \<lparr>mg_db = db1, mg_sessions = S(t \<mapsto> m)\<rparr> =
        \<lparr>mg_db = db1, mg_sessions = S(t \<mapsto> after_sleep why2 m)\<rparr>"
      using m(2) by (simp add: mig_tick_def)
    from gets_to_tick [OF m(1) this]
    have "gets_to X s S t (k + 1, Some why2, ws @ [backoff_ms k]) db1
        (if left = 0 then MigReturned (Inl (retries_exhausted (Some why2))) else AtSetTimeout)"
      using m(3) Suc.prems(3) by (auto simp: after_sleep_def attempt_frame_def)
    from Suc.IH [OF this rest] Suc.prems(3) show ?thesis
      by (simp add: waits)
  qed (use s1 Suc.prems(2) code in \<open>auto simp: after_attempt_def\<close>)
qed

text \<open>Nobody else running, the machine reaches the result, the sleeps and the database of \<^const>\<open>migrate\<close>
  under the same failures.\<close>

lemma migrate_ticks:
  assumes "migrate t faults db = (r, waits, db')" and "S t = None"
  shows "\<exists>n m. (mig_tick t faults ^^ n) \<lparr>mg_db = db, mg_sessions = S\<rparr> =
      \<lparr>mg_db = db', mg_sessions = S(t \<mapsto> m)\<rparr> \<and> ms_pc m = MigReturned r \<and> ms_waits m = waits"
proof -
  have "mig_tick t faults \<lparr>mg_db = db, mg_sessions = S\<rparr> = \<lparr>mg_db = db, mg_sessions = S(t \<mapsto> session_fresh)\<rparr>"
    using assms(2) by (simp add: mig_tick_def)
  then have "gets_to faults \<lparr>mg_db = db, mg_sessions = S\<rparr> S t (0, None, []) db AtSetTimeout"
    unfolding gets_to_def
    by (intro exI [of _ 1] exI [of _ session_fresh]) (simp add: session_fresh_def attempt_frame_def)
  with attempts_loop_steps [of faults _ S t 0 None "[]" db MIGRATION_ATTEMPTS r waits db'] assms(1)
  show ?thesis
    by (auto simp: migrate_def MIGRATION_ATTEMPTS_def gets_to_def attempt_frame_def)
qed

lemma migrate_alone:
  assumes "migrate t faults db = (r, waits, db')" and "S t = None"
  shows "\<exists>m. mig_steps \<lparr>mg_db = db, mg_sessions = S\<rparr> \<lparr>mg_db = db', mg_sessions = S(t \<mapsto> m)\<rparr> \<and>
    ms_pc m = MigReturned r \<and> ms_waits m = waits"
  using migrate_ticks [where S = S, OF assms] mig_ticks_steps by metis

section \<open>Any number of instances\<close>

definition in_scripts :: "mig_pc \<Rightarrow> bool" where
  "in_scripts pc = (case pc of AtScript _ \<Rightarrow> True | AtUnlock _ \<Rightarrow> True | _ \<Rightarrow> False)"

text \<open>How often a session holds the migration lock.\<close>

definition held_by :: "mig_db \<Rightarrow> nat \<Rightarrow> nat" where
  "held_by db t = (case md_lock db of None \<Rightarrow> 0 | Some (h, n) \<Rightarrow> if h = t then n else 0)"

definition owed :: "mig_session option \<Rightarrow> nat" where
  "owed m = (case m of None \<Rightarrow> 0 | Some m \<Rightarrow> (if in_scripts (ms_pc m) then 1 else 0) + ms_unlock_failures m)"

definition ddl_done :: "mig_db \<Rightarrow> ddl \<Rightarrow> bool" where
  "ddl_done db d =
     (case d of CreateTable n \<Rightarrow> n \<in> set (md_objects db) | CreateIndex n \<Rightarrow> n \<in> set (md_objects db)
      | SeedWatermark \<Rightarrow> md_watermark db \<noteq> None)"

definition scripts_done :: "nat \<Rightarrow> mig_db \<Rightarrow> bool" where
  "scripts_done k db = list_all (list_all (ddl_done db)) (take k migration_scripts)"

text \<open>What the position of a session says about the schema, the attempts and the setting.\<close>

definition progress_ok :: "mig_db \<Rightarrow> mig_session \<Rightarrow> bool" where
  "progress_ok db m =
     ((case ms_pc m of
         AtScript k \<Rightarrow> k < 3 \<and> scripts_done k db
       | AtUnlock None \<Rightarrow> scripts_done 3 db
       | AtReset AttemptDone \<Rightarrow> scripts_done 3 db
       | MigReturned (Inr _) \<Rightarrow> scripts_done 3 db
       | _ \<Rightarrow> True) \<and>
      ms_waits m = map backoff_ms [0..<ms_attempt m] \<and> ms_attempt m \<le> MIGRATION_ATTEMPTS \<and>
      (ms_attempt m = MIGRATION_ATTEMPTS \<longrightarrow> (\<exists>e. ms_pc m = MigReturned (Inl e))))"

definition setting_open :: "mig_session option \<Rightarrow> bool" where
  "setting_open m =
     (case m of None \<Rightarrow> False
      | Some m \<Rightarrow> 0 < ms_reset_failures m \<or>
          (case ms_pc m of AtTryLock \<Rightarrow> True | AtScript _ \<Rightarrow> True | AtUnlock _ \<Rightarrow> True
           | AtReset _ \<Rightarrow> True | _ \<Rightarrow> False))"

definition mig_inv :: "mig_state \<Rightarrow> bool" where
  "mig_inv s \<longleftrightarrow>
     (\<forall>h n. md_lock (mg_db s) = Some (h, n) \<longrightarrow> 0 < n) \<and>
     (\<forall>t. held_by (mg_db s) t = owed (mg_sessions s t)) \<and>
     (\<forall>t m. mg_sessions s t = Some m \<longrightarrow> progress_ok (mg_db s) m) \<and>
     (\<forall>t. bt_get (md_timeouts (mg_db s)) t \<noteq> None \<longrightarrow> setting_open (mg_sessions s t))"

text \<open>What one statement does to the parts the invariant reads.\<close>

lemma ddl_run_frame [simp]:
  "md_lock (ddl_run d db) = md_lock db" "md_timeouts (ddl_run d db) = md_timeouts db"
  by (cases d; simp split: option.split)+

lemma run_script_frame [simp]:
  "md_lock (run_script ds db) = md_lock db" "md_timeouts (run_script ds db) = md_timeouts db"
  unfolding run_script_def by (induction ds arbitrary: db) simp_all

lemma ddl_done_self: "ddl_done (ddl_run d db) d"
  by (cases d) (auto simp: ddl_done_def split: option.split)

lemma ddl_done_mono: "ddl_done db d \<Longrightarrow> ddl_done (ddl_run d' db) d"
  by (cases d'; cases d) (auto simp: ddl_done_def split: option.splits)

lemma ddl_done_fold: "ddl_done db d \<Longrightarrow> ddl_done (fold ddl_run ds db) d"
  by (induction ds arbitrary: db) (simp_all add: ddl_done_mono)

lemma ddl_done_script: "list_all (ddl_done (run_script ds db)) ds"
  unfolding run_script_def by (induction ds arbitrary: db) (simp_all add: ddl_done_self ddl_done_fold)

lemma scripts_done_script: "scripts_done k db \<Longrightarrow> scripts_done k (run_script ds db)"
  unfolding scripts_done_def run_script_def by (simp add: list_all_iff ddl_done_fold)

lemma length_scripts [simp]: "length migration_scripts = 3"
  by (simp add: migration_scripts_def)

lemma scripts_done_next:
  "scripts_done k db \<Longrightarrow> k < 3 \<Longrightarrow> scripts_done (Suc k) (run_script (migration_scripts ! k) db)"
  using scripts_done_script [of k db "migration_scripts ! k"] ddl_done_script
  by (simp add: scripts_done_def take_Suc_conv_app_nth)

lemma ddl_run_watermark: "md_watermark db = Some v \<Longrightarrow> md_watermark (ddl_run d db) = Some v"
  by (cases d) simp_all

lemma run_script_watermark: "md_watermark db = Some v \<Longrightarrow> md_watermark (run_script ds db) = Some v"
  unfolding run_script_def by (induction ds arbitrary: db) (simp_all add: ddl_run_watermark)

lemma ddl_done_frame [simp]:
  "ddl_done (db\<lparr>md_lock := l\<rparr>) = ddl_done db" "ddl_done (db\<lparr>md_timeouts := ts\<rparr>) = ddl_done db"
  by (auto simp: fun_eq_iff ddl_done_def split: ddl.split)

lemma mig_run_scripts_done: "scripts_done k db \<Longrightarrow> scripts_done k (snd (mig_run t st db))"
proof (cases st)
  case (Script j)
  then show "scripts_done k db \<Longrightarrow> ?thesis"
    by (simp add: scripts_done_script)
qed (simp_all add: scripts_done_def try_advisory_lock_def advisory_unlock_def split: option.split prod.split)

lemma progress_ok_mono:
  "progress_ok db m \<Longrightarrow> (\<And>k. scripts_done k db \<Longrightarrow> scripts_done k db') \<Longrightarrow> progress_ok db' m"
  unfolding progress_ok_def by (auto split: mig_pc.split option.split attempt.split sum.split)

text \<open>An answer keeps the account of the lock: the session that asked holds it as often as it owes it
  back, and no other session is touched.\<close>

definition lock_counted :: "mig_db \<Rightarrow> bool" where
  "lock_counted db \<longleftrightarrow> (\<forall>h n. md_lock db = Some (h, n) \<longrightarrow> 0 < n)"

lemma exec_lock_counted:
  "lock_counted db \<Longrightarrow> mig_exec t st fault db = (r, db') \<Longrightarrow> lock_counted db'"
  by (cases st)
    (auto simp: lock_counted_def mig_exec_def try_advisory_lock_def advisory_unlock_def
      split: option.splits prod.splits if_splits)

lemma exec_others_hold:
  "mig_exec t st fault db = (r, db') \<Longrightarrow> t' \<noteq> t \<Longrightarrow> held_by db' t' = held_by db t'"
  by (cases st)
    (auto simp: held_by_def mig_exec_def try_advisory_lock_def advisory_unlock_def
      split: option.splits prod.splits if_splits)

lemma exec_same_lock:
  "mig_exec t st fault db = (r, db') \<Longrightarrow> st \<noteq> TryLock \<Longrightarrow> st \<noteq> Unlock \<Longrightarrow> held_by db' t = held_by db t"
  by (cases st) (auto simp: held_by_def mig_exec_def split: option.splits)

lemma exec_own_hold:
  assumes "mig_exec t st fault db = (r, db')" and "pending_stmt (ms_pc m) = Some st"
    and "held_by db t = owed (Some m)" and "lock_counted db"
  shows "held_by db' t = owed (Some (after_answer m r))"
proof (cases "ms_pc m")
  case AtTryLock
  with assms show ?thesis
    by (auto simp: held_by_def owed_def after_answer_def in_scripts_def mig_exec_def try_advisory_lock_def
        lock_counted_def split: option.splits prod.splits if_splits)
next
  case (AtUnlock applied)
  then have "held_by db t = Suc (ms_unlock_failures m)"
    using assms(3) by (simp add: owed_def in_scripts_def)
  then obtain n where "md_lock db = Some (t, n)" "n = Suc (ms_unlock_failures m)"
    by (auto simp: held_by_def split: option.splits if_splits)
  with AtUnlock assms(1,2) show ?thesis
    by (auto simp: held_by_def owed_def after_answer_def in_scripts_def mig_exec_def advisory_unlock_def
        split: option.splits if_splits)
next
  case (AtScript k)
  then have "st = Script k"
    using assms(2) by simp
  with AtScript assms(3) exec_same_lock [OF assms(1)] show ?thesis
    by (auto simp: owed_def after_answer_def in_scripts_def split: sum.splits)
qed (use assms(2,3) exec_same_lock [OF assms(1)] in
    \<open>auto simp: owed_def after_answer_def in_scripts_def after_attempt_def split: sum.splits attempt.splits\<close>)

lemma exec_progress:
  assumes "mig_exec t st fault db = (r, db')" and "pending_stmt (ms_pc m) = Some st" and "progress_ok db m"
  shows "progress_ok db' (after_answer m r)"
proof (cases fault)
  case (Some e)
  with assms show ?thesis
    by (auto simp: mig_exec_def progress_ok_def after_answer_def after_attempt_def attempt_result_def
        split: mig_pc.splits option.splits attempt.splits)
next
  case None
  obtain b where run: "mig_run t st db = (b, db')" and r: "r = Inr b"
    using assms(1) None by (auto simp: mig_exec_def split: prod.splits)
  have keep: "scripts_done k db \<Longrightarrow> scripts_done k db'" for k
    using mig_run_scripts_done [of k db t st] run by simp
  have ok: "progress_ok db' m"
    using progress_ok_mono [OF assms(3) keep] .
  show ?thesis
  proof (cases "ms_pc m")
    case (AtScript k)
    then have "k < 3" "scripts_done (Suc k) db'"
      using assms(2,3) run scripts_done_next [of k db] by (auto simp: progress_ok_def)
    with AtScript ok show ?thesis
      by (auto simp: r progress_ok_def after_answer_def numeral_3_eq_3 less_Suc_eq)
  qed (use assms(2) ok in \<open>auto simp: r progress_ok_def after_answer_def after_attempt_def attempt_result_def
      scripts_done_def split: option.splits attempt.splits\<close>)
qed

lemma exec_setting:
  assumes "mig_exec t st fault db = (r, db')" and "pending_stmt (ms_pc m) = Some st"
    and "bt_get (md_timeouts db) t \<noteq> None \<longrightarrow> setting_open (Some m)"
    and "bt_get (md_timeouts db') t \<noteq> None"
  shows "setting_open (Some (after_answer m r))"
  using assms
  by (cases "ms_pc m"; cases fault)
    (auto simp: mig_exec_def setting_open_def after_answer_def try_advisory_lock_def advisory_unlock_def
      after_attempt_def split: option.splits prod.splits if_splits attempt.splits)

lemma exec_other_settings:
  "mig_exec t st fault db = (r, db') \<Longrightarrow> t' \<noteq> t \<Longrightarrow>
   bt_get (md_timeouts db') t' = bt_get (md_timeouts db) t'"
  by (cases st)
    (auto simp: mig_exec_def try_advisory_lock_def advisory_unlock_def split: option.splits prod.splits if_splits)

lemma exec_scripts_done:
  "mig_exec t st fault db = (r, db') \<Longrightarrow> scripts_done k db \<Longrightarrow> scripts_done k db'"
  using mig_run_scripts_done [of k db t st] by (auto simp: mig_exec_def split: option.splits prod.splits)

lemma exec_watermark:
  "mig_exec t st fault db = (r, db') \<Longrightarrow> md_watermark db = Some v \<Longrightarrow> md_watermark db' = Some v"
  by (cases st)
    (auto simp: mig_exec_def try_advisory_lock_def advisory_unlock_def run_script_watermark
      split: option.splits prod.splits if_splits)

lemma mig_inv_alt:
  "mig_inv s \<longleftrightarrow> lock_counted (mg_db s) \<and> (\<forall>t. held_by (mg_db s) t = owed (mg_sessions s t)) \<and>
     (\<forall>t m. mg_sessions s t = Some m \<longrightarrow> progress_ok (mg_db s) m) \<and>
     (\<forall>t. bt_get (md_timeouts (mg_db s)) t \<noteq> None \<longrightarrow> setting_open (mg_sessions s t))"
  by (simp add: mig_inv_def lock_counted_def)

lemma mig_step_inv:
  assumes "mig_move s s'" and inv: "mig_inv s"
  shows "mig_inv s'"
  using assms(1)
proof cases
  case (mig_start t)
  have "progress_ok (mg_db s) session_fresh"
    by (simp add: progress_ok_def session_fresh_def MIGRATION_ATTEMPTS_def)
  moreover have "\<not> setting_open (mg_sessions s t)"
    by (simp add: mig_start(2) setting_open_def)
  then have "bt_get (md_timeouts (mg_db s)) t = None"
    using inv unfolding mig_inv_alt by blast
  moreover have "owed (Some session_fresh) = owed (mg_sessions s t)"
    using mig_start(2) by (simp add: owed_def session_fresh_def in_scripts_def)
  ultimately show ?thesis
    using inv unfolding mig_inv_alt mig_start(1) by simp
next
  case (mig_answer t m st fault r db')
  have old: "progress_ok (mg_db s) m" "held_by (mg_db s) t = owed (Some m)" "lock_counted (mg_db s)"
    using inv mig_answer(2) unfolding mig_inv_alt by metis+
  have "progress_ok db' m'" if "mg_sessions s t' = Some m'" for t' m'
    using progress_ok_mono [OF _ exec_scripts_done [OF mig_answer(4)]] inv that unfolding mig_inv_alt by blast
  moreover have "held_by db' t' = owed (mg_sessions s t')" if "t' \<noteq> t" for t'
    using exec_others_hold [OF mig_answer(4) that] inv unfolding mig_inv_alt by simp
  moreover have "bt_get (md_timeouts db') t' \<noteq> None \<longrightarrow> setting_open (mg_sessions s t')" if "t' \<noteq> t" for t'
    using exec_other_settings [OF mig_answer(4) that] inv unfolding mig_inv_alt by simp
  moreover have "bt_get (md_timeouts db') t \<noteq> None \<longrightarrow> setting_open (Some (after_answer m r))"
    using exec_setting [OF mig_answer(4,3)] inv mig_answer(2) unfolding mig_inv_alt by metis
  ultimately show ?thesis
    using exec_progress [OF mig_answer(4,3) old(1)] exec_own_hold [OF mig_answer(4,3) old(2,3)]
      exec_lock_counted [OF old(3) mig_answer(4)]
    unfolding mig_inv_alt mig_answer(1) by simp
next
  case (mig_wake t m why)
  have old: "progress_ok (mg_db s) m"
    using inv mig_wake(2) unfolding mig_inv_alt by blast
  then have "progress_ok (mg_db s) (after_sleep why m)"
    using mig_wake(3) by (auto simp: progress_ok_def after_sleep_def)
  moreover have "owed (Some (after_sleep why m)) = owed (mg_sessions s t)"
    and "setting_open (mg_sessions s t) \<Longrightarrow> setting_open (Some (after_sleep why m))"
    using mig_wake(2,3) by (simp_all add: owed_def after_sleep_def in_scripts_def setting_open_def)
  ultimately show ?thesis
    using inv unfolding mig_inv_alt mig_wake(1) by simp
next
  case (mig_watermark v v')
  have "scripts_done k (mg_db s) \<Longrightarrow> scripts_done k ((mg_db s)\<lparr>md_watermark := Some v'\<rparr>)" for k
    by (auto simp: scripts_done_def list_all_iff ddl_done_def split: ddl.splits)
  then have "progress_ok ((mg_db s)\<lparr>md_watermark := Some v'\<rparr>) m" if "progress_ok (mg_db s) m" for m
    using progress_ok_mono [OF that] by blast
  with mig_watermark inv show ?thesis
    by (simp add: mig_inv_alt held_by_def lock_counted_def)
qed

lemma mig_steps_inv: "mig_steps s s' \<Longrightarrow> mig_inv s \<Longrightarrow> mig_inv s'"
  by (induction rule: mig_steps.induct) (auto intro: mig_step_inv)

definition mig_initial :: "mig_db \<Rightarrow> mig_state" where
  "mig_initial db = \<lparr>mg_db = db\<lparr>md_lock := None, md_timeouts := []\<rparr>, mg_sessions = \<lambda>_. None\<rparr>"

lemma mig_initial_inv: "mig_inv (mig_initial db)"
  by (simp add: mig_initial_def mig_inv_def held_by_def owed_def)

text \<open>The watermark is never taken back.\<close>

definition watermark_of :: "mig_db \<Rightarrow> int" where
  "watermark_of db = (case md_watermark db of None \<Rightarrow> - (2 ^ 63) | Some v \<Rightarrow> sint v)"

lemma exec_watermark_mono:
  assumes "mig_exec t st fault db = (r, db')"
  shows "watermark_of db \<le> watermark_of db'"
proof (cases "md_watermark db")
  case None
  have "- (2 ^ 63) \<le> sint (v :: u64)" for v
    using sint_greater_eq [of v] by simp
  with None show ?thesis
    by (auto simp: watermark_of_def split: option.split)
next
  case (Some v)
  with exec_watermark [OF assms Some] show ?thesis
    by (simp add: watermark_of_def)
qed

lemma mig_step_watermark: "mig_move s s' \<Longrightarrow> watermark_of (mg_db s) \<le> watermark_of (mg_db s')"
  by (erule mig_stepE) (auto dest: exec_watermark_mono simp: watermark_of_def)

lemma mig_steps_watermark: "mig_steps s s' \<Longrightarrow> watermark_of (mg_db s) \<le> watermark_of (mg_db s')"
  by (induction rule: mig_steps.induct) (auto dest: mig_step_watermark)

text \<open>Two instances are never in the scripts together.\<close>

lemma scripts_exclusive:
  assumes "mig_inv s" and "mg_sessions s t = Some m" and "in_scripts (ms_pc m)"
    and "mg_sessions s t' = Some m'" and "in_scripts (ms_pc m')"
  shows "t = t'"
proof -
  have "held_by (mg_db s) t > 0" "held_by (mg_db s) t' > 0"
    using assms unfolding mig_inv_alt by (simp_all add: owed_def)
  then show ?thesis
    by (auto simp: held_by_def split: option.splits if_splits)
qed

text \<open>What the invariant says of the schema and the sleeps, in numbers.\<close>

lemma scripts_done_objects:
  "scripts_done 3 db \<Longrightarrow>
   {''sync_changes'', ''sync_changes_scope_seq'', ''sync_command_results'',
    ''sync_command_results_scope'', ''sync_scope_blocks'', ''sync_watermark''} \<subseteq> set (md_objects db) \<and>
   md_watermark db \<noteq> None"
  by (simp add: scripts_done_def migration_scripts_def ddl_done_def)

lemma backoff_sum_mono:
  assumes "a \<le> b"
  shows "sum_list (map backoff_ms [0..<a]) \<le> sum_list (map backoff_ms [0..<b])"
proof -
  obtain c where "b = a + c"
    using assms le_Suc_ex by blast
  then show ?thesis
    using upt_add_eq_append [of 0 a c] by simp
qed

lemma backoff_total:
  assumes "progress_ok db m"
  shows "sum_list (ms_waits m) \<le> 5500"
proof -
  have "sum_list (map backoff_ms [0..<10]) = 5500"
    by (simp add: backoff_ms_def upt_rec)
  then show ?thesis
    using assms backoff_sum_mono [of "ms_attempt m" 10]
    by (simp add: progress_ok_def MIGRATION_ATTEMPTS_def)
qed

text \<open>Every attempt but the last is contended, each on the database the one before left.\<close>

definition contended_until ::
  "nat \<Rightarrow> (nat \<Rightarrow> mig_stmt \<Rightarrow> pg_error option) \<Rightarrow> nat \<Rightarrow> nat \<Rightarrow> (nat \<Rightarrow> mig_db) \<Rightarrow> (nat \<Rightarrow> string) \<Rightarrow> bool" where
  "contended_until t faults k n dbs whys \<longleftrightarrow>
     (\<forall>j. k \<le> j \<and> j < n \<longrightarrow> try_migrate t (faults j) (dbs j) = (AttemptContended (whys j), dbs (Suc j)))"

definition last_attempt ::
  "nat \<Rightarrow> (mig_stmt \<Rightarrow> pg_error option) \<Rightarrow> mig_db \<Rightarrow> server_error + unit \<Rightarrow> mig_db \<Rightarrow> bool" where
  "last_attempt t fault db r db' \<longleftrightarrow>
     try_migrate t fault db = (AttemptDone, db') \<and> r = Inr () \<or>
     (\<exists>e. try_migrate t fault db = (AttemptFailed e, db') \<and> r = Inl (database_error e))"

lemma attempts_loop_ends:
  assumes "attempts_loop left k why t faults db = (r, waits, db')"
  shows "\<exists>dbs whys. dbs k = db \<and> waits = map backoff_ms [k..<k + length waits] \<and>
    contended_until t faults k (k + length waits) dbs whys \<and>
    (length waits < left \<and> last_attempt t (faults (k + length waits)) (dbs (k + length waits)) r db' \<or>
     length waits = left \<and> db' = dbs (k + left) \<and>
       r = Inl (retries_exhausted (if left = 0 then why else Some (whys (k + left - 1)))))"
  using assms
proof (induction left arbitrary: k why db r waits)
  case 0
  then show ?case
    by (intro exI [of _ "\<lambda>_. db"] exI) (auto simp: contended_until_def)
next
  case (Suc left)
  obtain a db1 where code: "try_migrate t (faults k) db = (a, db1)"
    by fastforce
  show ?case
  proof (cases a)
    case (AttemptContended why2)
    then obtain ws where rest: "attempts_loop left (k + 1) (Some why2) t faults db1 = (r, ws, db')"
      and waits: "waits = backoff_ms k # ws"
      using Suc.prems code by (auto split: prod.splits)
    from Suc.IH [OF rest] obtain dbs whys where ih: "dbs (k + 1) = db1"
      "ws = map backoff_ms [k + 1..<k + 1 + length ws]"
      "contended_until t faults (k + 1) (k + 1 + length ws) dbs whys"
      "length ws < left \<and> last_attempt t (faults (k + 1 + length ws)) (dbs (k + 1 + length ws)) r db' \<or>
       length ws = left \<and> db' = dbs (k + 1 + left) \<and>
         r = Inl (retries_exhausted (if left = 0 then Some why2 else Some (whys (k + 1 + left - 1))))"
      by blast
    have "[k..<k + length waits] = k # [k + 1..<k + 1 + length ws]"
      by (simp add: waits upt_conv_Cons del: upt_Suc)
    then have "waits = map backoff_ms [k..<k + length waits]"
      using ih(2) by (simp add: waits)
    moreover have "contended_until t faults k (k + length waits) (dbs(k := db)) (whys(k := why2))"
      using ih(1,3) code AttemptContended waits by (auto simp: contended_until_def Suc_le_eq)
    ultimately show ?thesis
      using ih(4) waits by (intro exI [of _ "dbs(k := db)"] exI [of _ "whys(k := why2)"]) (auto simp: fun_upd_def)
  qed (use Suc.prems code in
      \<open>(intro exI [of _ "\<lambda>_. db"] exI, auto simp: contended_until_def last_attempt_def)+\<close>)
qed

lemma migrate_ends:
  assumes "migrate t faults db = (r, waits, db')"
  shows "\<exists>dbs whys. dbs 0 = db \<and> waits = map backoff_ms [0..<length waits] \<and>
      (\<forall>k<length waits. try_migrate t (faults k) (dbs k) = (AttemptContended (whys k), dbs (Suc k))) \<and>
      (length waits < MIGRATION_ATTEMPTS \<and>
         (try_migrate t (faults (length waits)) (dbs (length waits)) = (AttemptDone, db') \<and> r = Inr () \<or>
          (\<exists>e. try_migrate t (faults (length waits)) (dbs (length waits)) = (AttemptFailed e, db') \<and>
             r = Inl (database_error e))) \<or>
       length waits = MIGRATION_ATTEMPTS \<and> db' = dbs MIGRATION_ATTEMPTS \<and>
         r = Inl (retries_exhausted (Some (whys (MIGRATION_ATTEMPTS - 1)))))"
  using attempts_loop_ends [of MIGRATION_ATTEMPTS 0 None t faults db r waits db'] assms
  by (simp add: migrate_def MIGRATION_ATTEMPTS_def contended_until_def last_attempt_def)

text \<open>What an attempt, and so the whole migration, leaves behind: the lock as often as before, and the
  default \<open>lock_timeout\<close>, unless the statement that gives it back has failed.\<close>

lemma apply_scripts_frame:
  "apply_scripts t fault db = (applied, db') \<Longrightarrow>
   md_lock db' = md_lock db \<and> md_timeouts db' = md_timeouts db"
  by (auto simp: apply_scripts_def mig_exec_def split: option.splits)

lemma try_migrate_held:
  assumes "try_migrate t fault db = (a, db')" and "fault Unlock = None"
  shows "held_by db' t' = held_by db t'"
  using assms
  by (auto simp: try_migrate_def mig_exec_def reset_lock_timeout_def try_advisory_lock_def
      advisory_unlock_def held_by_def split: option.splits prod.splits if_splits dest!: apply_scripts_frame)

lemma try_migrate_timeout:
  assumes "try_migrate t fault db = (a, db')" and "fault ResetTimeout = None"
    and "bt_get (md_timeouts db) t = None"
  shows "bt_get (md_timeouts db') t = None"
  using assms
  by (auto simp: try_migrate_def mig_exec_def reset_lock_timeout_def try_advisory_lock_def
      advisory_unlock_def split: option.splits prod.splits if_splits dest!: apply_scripts_frame)

lemma attempts_loop_leaves:
  assumes "attempts_loop left k why t faults db = (r, waits, db')"
  shows "((\<forall>k. faults k Unlock = None) \<longrightarrow> held_by db' t' = held_by db t') \<and>
    ((\<forall>k. faults k ResetTimeout = None) \<and> bt_get (md_timeouts db) t = None \<longrightarrow>
      bt_get (md_timeouts db') t = None)"
  using assms
proof (induction left arbitrary: k why db r waits)
  case (Suc left)
  obtain a db1 where code: "try_migrate t (faults k) db = (a, db1)"
    by fastforce
  then have "(\<forall>k. faults k Unlock = None) \<longrightarrow> held_by db1 t' = held_by db t'"
    and "(\<forall>k. faults k ResetTimeout = None) \<and> bt_get (md_timeouts db) t = None \<longrightarrow>
      bt_get (md_timeouts db1) t = None"
    using try_migrate_held try_migrate_timeout by metis+
  with Suc code show ?case
    by (cases a) (auto split: prod.splits)
qed simp

lemma migrate_leaves:
  assumes "migrate t faults db = (r, waits, db')"
  shows "((\<forall>k. faults k Unlock = None) \<longrightarrow> (\<forall>t'. held_by db' t' = held_by db t')) \<and>
    ((\<forall>k. faults k ResetTimeout = None) \<and> bt_get (md_timeouts db) t = None \<longrightarrow>
      bt_get (md_timeouts db') t = None)"
  using attempts_loop_leaves assms unfolding migrate_def by blast

section \<open>The start of the reference server\<close>

text \<open>\<open>config\<close>: an unset variable is \<^const>\<open>None\<close>; the length of a secret is its bytes.\<close>

definition config :: "(string \<Rightarrow> string option) \<Rightarrow> string + string \<times> bytes \<times> string" where
  "config env =
     (case env ''CREDSYNC_DATABASE_URL'' of
        None \<Rightarrow> Inl ''CREDSYNC_DATABASE_URL is not set''
      | Some database_url \<Rightarrow>
          (case env ''CREDSYNC_TOKEN_SECRET'' of
             None \<Rightarrow> Inl ''CREDSYNC_TOKEN_SECRET is not set''
           | Some secret \<Rightarrow>
               if length secret < 32 then Inl ''CREDSYNC_TOKEN_SECRET must be at least 32 bytes''
               else Inr (database_url, as_bytes secret,
                 case env ''CREDSYNC_BIND'' of None \<Rightarrow> ''127.0.0.1:8080'' | Some b \<Rightarrow> b)))"

text \<open>The world the process starts in: its environment, the failures of connecting, of the statements of
  the migration, of binding and of serving.\<close>

record daemon_env =
  de_var :: "string \<Rightarrow> string option"
  de_connect :: "string \<Rightarrow> pg_error option"
  de_faults :: "nat \<Rightarrow> mig_stmt \<Rightarrow> pg_error option"
  de_bind :: "string \<Rightarrow> string option"
  de_serve :: "string option"

datatype start_error =
    ConfigError string
  | ConnectError pg_error
  | MigrateError server_error
  | ListenError string
  | ServeError string

text \<open>What the server serves with.\<close>

record daemon_serving =
  ds_bind :: string
  ds_secret :: bytes
  ds_verifier :: verifier

text \<open>\<open>main\<close> on its database session \<open>t\<close>: its result, the lines on stderr, and what it served with when it
  came to serving.\<close>

definition daemon_main ::
  "daemon_env \<Rightarrow> nat \<Rightarrow> mig_db \<Rightarrow>
   (start_error + unit) \<times> string list \<times> daemon_serving option \<times> mig_db" where
  "daemon_main E t db =
     (case config (de_var E) of
        Inl e \<Rightarrow> (Inl (ConfigError e), [''credsyncd: '' @ e], None, db)
      | Inr (database_url, secret, bind) \<Rightarrow>
          (case de_connect E database_url of
             Some e \<Rightarrow> (Inl (ConnectError e), [], None, db)
           | None \<Rightarrow>
               (case migrate t (de_faults E) db of
                  (Inl e, _, db') \<Rightarrow> (Inl (MigrateError e), [], None, db')
                | (Inr _, _, db') \<Rightarrow>
                    (case de_bind E bind of
                       Some e \<Rightarrow> (Inl (ListenError e), [], None, db')
                     | None \<Rightarrow>
                         ((case de_serve E of None \<Rightarrow> Inr () | Some e \<Rightarrow> Inl (ServeError e)),
                          [''credsyncd listening on '' @ bind],
                          Some \<lparr>ds_bind = bind, ds_secret = secret, ds_verifier = verifier_new ''HS256'' 60\<rparr>,
                          db')))))"

lemmas start_defs [run_defs] = config_def daemon_main_def

lemma config_secret:
  "config env = Inr (url, secret, bind) \<Longrightarrow>
   \<exists>s. env ''CREDSYNC_TOKEN_SECRET'' = Some s \<and> secret = as_bytes s \<and> 32 \<le> length secret"
  by (auto simp: config_def as_bytes_def split: option.splits if_splits)

lemma daemon_main_serves:
  assumes "daemon_main E t db = (r, out, Some d, db')"
  shows "\<exists>s waits. de_var E ''CREDSYNC_TOKEN_SECRET'' = Some s \<and> ds_secret d = as_bytes s \<and> 32 \<le> length s \<and>
    ds_verifier d = verifier_new ''HS256'' 60 \<and> migrate t (de_faults E) db = (Inr (), waits, db')"
  using assms by (auto simp: daemon_main_def as_bytes_def dest!: config_secret split: sum.splits prod.splits option.splits)

section \<open>What a schedule reaches\<close>

text \<open>The next step of a session when nothing fails.\<close>

definition mig_turn :: "nat \<Rightarrow> mig_state \<Rightarrow> mig_state" where
  "mig_turn t = mig_tick t (\<lambda>_ _. None)"

lemma mig_turn_steps: "mig_steps s (mig_turn t s)"
  by (simp add: mig_turn_def mig_tick_step)

lemma mig_turns_steps: "mig_steps s (fold mig_turn ts s)"
proof (induction ts arbitrary: s)
  case (Cons t ts)
  then show ?case
    using mig_turn_steps mig_steps_trans by force
qed (simp add: mig_refl)

end
