(* ===== verification/Props_Migrate.thy ===== *)
theory Props_Migrate
  imports Server_Migrate Samples
begin

text \<open>
  Properties of the start of the server: the migration as the code has it and as any number of
  instances interleave it, and what the reference server has established when it serves.
\<close>

section \<open>Samples\<close>

text \<open>A database where another session holds the migration lock for good.\<close>

definition sample_contended :: mig_db where
  "sample_contended = mig_db_empty\<lparr>md_lock := Some (7, 1)\<rparr>"

text \<open>Sessions 1 and 2 start together; 1 gets the lock and 2 does not.\<close>

definition sample_race :: mig_state where
  "sample_race = fold mig_turn [1, 2, 1, 2, 1, 2, 1] (mig_initial mig_db_empty)"

definition sample_daemon :: daemon_env where
  "sample_daemon =
     \<lparr>de_var = [''CREDSYNC_DATABASE_URL'' \<mapsto> ''db'',
        ''CREDSYNC_TOKEN_SECRET'' \<mapsto> ''0123456789abcdef0123456789abcdef''],
      de_connect = (\<lambda>_. None), de_faults = (\<lambda>_ _. None), de_bind = (\<lambda>_. None), de_serve = None\<rparr>"

section \<open>The migration\<close>

text \<open>C18. Instances that start together do not migrate together. After any interleaving of any number of
  instances, whatever statements failed: at most one is between taking the migration lock and giving
  it back; one that is not holds the lock exactly as often as an unlock of its own has failed, and has
  the default \<open>lock_timeout\<close> unless a reset has failed; one that returned success finds every table and
  index there and a watermark recorded; each has slept 100, 200, ... milliseconds, at most 5500 in
  all; and no recorded watermark was taken back.\<close>

theorem migrations_are_exclusive:
  assumes "mig_steps (mig_initial db) s"
    and "mg_sessions s t = Some m" and "mg_sessions s t' = Some m'"
  shows "(in_scripts (ms_pc m) \<and> in_scripts (ms_pc m') \<longrightarrow> t = t') \<and>
    (\<not> in_scripts (ms_pc m) \<longrightarrow> held_by (mg_db s) t = ms_unlock_failures m) \<and>
    (ms_pc m = MigReturned r \<and> ms_reset_failures m = 0 \<longrightarrow> bt_get (md_timeouts (mg_db s)) t = None) \<and>
    (ms_pc m = MigReturned (Inr ()) \<longrightarrow>
      {''sync_changes'', ''sync_changes_scope_seq'', ''sync_command_results'',
       ''sync_command_results_scope'', ''sync_scope_blocks'', ''sync_watermark''}
        \<subseteq> set (md_objects (mg_db s)) \<and> md_watermark (mg_db s) \<noteq> None) \<and>
    ms_waits m = map backoff_ms [0..<ms_attempt m] \<and> sum_list (ms_waits m) \<le> 5500 \<and>
    watermark_of db \<le> watermark_of (mg_db s)"
proof -
  have inv: "mig_inv s"
    using mig_steps_inv [OF assms(1) mig_initial_inv] .
  have progress: "progress_ok (mg_db s) m"
    using inv assms(2) unfolding mig_inv_alt by blast
  have "held_by (mg_db s) t = owed (Some m)"
    using inv assms(2) unfolding mig_inv_alt by simp
  moreover have "bt_get (md_timeouts (mg_db s)) t \<noteq> None \<longrightarrow> setting_open (Some m)"
    using inv assms(2) unfolding mig_inv_alt by metis
  moreover have "watermark_of db \<le> watermark_of (mg_db s)"
    using mig_steps_watermark [OF assms(1)] by (simp add: mig_initial_def watermark_of_def)
  ultimately show ?thesis
    using scripts_exclusive [OF inv assms(2) _ assms(3)] progress backoff_total [OF progress]
      scripts_done_objects [of "mg_db s"]
    by (auto simp: owed_def setting_open_def progress_ok_def)
qed

theorem migrations_are_exclusive_witness:
  "\<exists>m m'. mg_sessions sample_race 1 = Some m \<and> mg_sessions sample_race 2 = Some m' \<and>
     in_scripts (ms_pc m) \<and> \<not> in_scripts (ms_pc m') \<and> sum_list (ms_waits m) \<le> 5500"
proof -
  have steps: "mig_steps (mig_initial mig_db_empty) sample_race"
    unfolding sample_race_def by (rule mig_turns_steps)
  have "\<exists>m m'. mg_sessions sample_race 1 = Some m \<and> mg_sessions sample_race 2 = Some m' \<and>
      in_scripts (ms_pc m)"
    by (simp add: sample_race_def mig_turn_def mig_tick_def mig_initial_def session_fresh_def after_answer_def
        in_scripts_def migrate_defs)
  then obtain m m' where m: "mg_sessions sample_race 1 = Some m" "mg_sessions sample_race 2 = Some m'"
    "in_scripts (ms_pc m)"
    by blast
  have "in_scripts (ms_pc m) \<and> in_scripts (ms_pc m') \<longrightarrow> (1::nat) = 2" "sum_list (ms_waits m) \<le> 5500"
    using migrations_are_exclusive [OF steps m(1,2)] by blast+
  with m show ?thesis
    by (intro exI [of _ m] exI [of _ m']) simp
qed

text \<open>C19. The machine the interleavings are about is the code. From any state of the other instances, an
  instance that runs alone, its statements failing as \<open>faults\<close> says for each attempt and statement, gets
  to the result of \<open>migrate\<close> under those failures, after the same sleeps, with the same database.
  \<open>migrate\<close> gives back what it takes: when no unlock fails, every session holds the migration lock as
  often after it as before, whatever else failed, and when no reset fails the session has the default
  \<open>lock_timeout\<close> if it started with it. It retries contention only: every attempt before the last was
  contended, each on the database the one before left, and the last is done or failed for another
  reason, or it is the tenth contended one and the error names why.\<close>

theorem migrate_refines_the_machine:
  assumes "migrate t faults db = (r, waits, db')" and "S t = None"
  shows "(\<exists>n m. (mig_tick t faults ^^ n) \<lparr>mg_db = db, mg_sessions = S\<rparr> =
        \<lparr>mg_db = db', mg_sessions = S(t \<mapsto> m)\<rparr> \<and> ms_pc m = MigReturned r \<and> ms_waits m = waits) \<and>
    ((\<forall>k. faults k Unlock = None) \<longrightarrow> (\<forall>t'. held_by db' t' = held_by db t')) \<and>
    ((\<forall>k. faults k ResetTimeout = None) \<and> bt_get (md_timeouts db) t = None \<longrightarrow>
      bt_get (md_timeouts db') t = None) \<and>
    (\<exists>dbs whys. dbs 0 = db \<and> waits = map backoff_ms [0..<length waits] \<and>
      (\<forall>k<length waits. try_migrate t (faults k) (dbs k) = (AttemptContended (whys k), dbs (Suc k))) \<and>
      (length waits < MIGRATION_ATTEMPTS \<and>
         (try_migrate t (faults (length waits)) (dbs (length waits)) = (AttemptDone, db') \<and> r = Inr () \<or>
          (\<exists>e. try_migrate t (faults (length waits)) (dbs (length waits)) = (AttemptFailed e, db') \<and>
             r = Inl (database_error e))) \<or>
       length waits = MIGRATION_ATTEMPTS \<and> db' = dbs MIGRATION_ATTEMPTS \<and>
         r = Inl (retries_exhausted (Some (whys (MIGRATION_ATTEMPTS - 1))))))"
  using migrate_ticks [where S = S, OF assms] migrate_leaves [OF assms(1)]
    migrate_ends [OF assms(1)]
  by (elim conjE, intro conjI)

theorem migrate_refines_the_machine_witness:
  "\<exists>n m. (mig_tick 2 (\<lambda>_ _. None) ^^ n) \<lparr>mg_db = sample_contended, mg_sessions = \<lambda>_. None\<rparr> =
     \<lparr>mg_db = sample_contended, mg_sessions = [2 \<mapsto> m]\<rparr> \<and>
   ms_pc m = MigReturned (Inl (retries_exhausted (Some ''another migration holds the advisory lock''))) \<and>
   sum_list (ms_waits m) = 5500"
proof -
  have again: "try_migrate 2 (\<lambda>_. None) sample_contended =
      (AttemptContended ''another migration holds the advisory lock'', sample_contended)"
    by (simp add: sample_contended_def migrate_defs bt_remove_def)
  have "attempts_loop left k why 2 (\<lambda>_ _. None) sample_contended =
      (Inl (retries_exhausted (if left = 0 then why else Some ''another migration holds the advisory lock'')),
       map backoff_ms [k..<k + left], sample_contended)" for left k why
    by (induction left arbitrary: k why) (simp_all add: again upt_conv_Cons del: upt_Suc)
  then have "migrate 2 (\<lambda>_ _. None) sample_contended =
      (Inl (retries_exhausted (Some ''another migration holds the advisory lock'')),
       map backoff_ms [0..<10], sample_contended)"
    by (simp add: migrate_def MIGRATION_ATTEMPTS_def)
  from migrate_refines_the_machine [where S = "\<lambda>_. None", OF this]
  obtain n m where "(mig_tick 2 (\<lambda>_ _. None) ^^ n) \<lparr>mg_db = sample_contended, mg_sessions = \<lambda>_. None\<rparr> =
      \<lparr>mg_db = sample_contended, mg_sessions = [2 \<mapsto> m]\<rparr>"
    "ms_pc m = MigReturned (Inl (retries_exhausted (Some ''another migration holds the advisory lock'')))"
    "ms_waits m = map backoff_ms [0..<10]"
    by auto
  moreover have "sum_list (map backoff_ms [0..<10]) = 5500"
    by (simp add: backoff_ms_def upt_rec)
  ultimately show ?thesis
    by (intro exI [of _ n] exI [of _ m]) simp
qed

section \<open>Start-up\<close>

text \<open>C20. The reference server serves only when it is ready. Whatever other instances have done before and
  whatever fails: when \<open>main\<close> comes to serving, the token secret is the configured one and has at
  least 32 bytes, tokens are verified with HS256 and 60 seconds of leeway, every table, index and the
  watermark exist, and no watermark recorded before was taken back; and it serves unless something it
  names in its result failed.\<close>

theorem daemon_serves_only_when_ready:
  assumes "mig_steps (mig_initial db0) \<lparr>mg_db = db, mg_sessions = S\<rparr>" and "S t = None"
    and "daemon_main E t db = (r, out, serving, db')"
  shows "case serving of
      Some d \<Rightarrow>
        (\<exists>s. de_var E ''CREDSYNC_TOKEN_SECRET'' = Some s \<and> ds_secret d = as_bytes s \<and> 32 \<le> length s) \<and>
        ds_verifier d = verifier_new ''HS256'' 60 \<and>
        {''sync_changes'', ''sync_changes_scope_seq'', ''sync_command_results'',
         ''sync_command_results_scope'', ''sync_scope_blocks'', ''sync_watermark''} \<subseteq> set (md_objects db') \<and>
        md_watermark db' \<noteq> None \<and> watermark_of db \<le> watermark_of db'
    | None \<Rightarrow> \<exists>e. r = Inl e \<and> (\<forall>x. e \<noteq> ServeError x)"
proof (cases serving)
  case None
  then show ?thesis
    using assms(3) by (auto simp: daemon_main_def split: sum.splits prod.splits option.splits)
next
  case (Some d)
  then obtain s waits where d: "de_var E ''CREDSYNC_TOKEN_SECRET'' = Some s" "ds_secret d = as_bytes s"
    "32 \<le> length s" "ds_verifier d = verifier_new ''HS256'' 60"
    and mig: "migrate t (de_faults E) db = (Inr (), waits, db')"
    using daemon_main_serves assms(3) by blast
  from migrate_alone [where S = S, OF mig assms(2)] obtain m where
    m: "mig_steps \<lparr>mg_db = db, mg_sessions = S\<rparr> \<lparr>mg_db = db', mg_sessions = S(t \<mapsto> m)\<rparr>"
    "ms_pc m = MigReturned (Inr ())"
    by blast
  have "mig_inv \<lparr>mg_db = db', mg_sessions = S(t \<mapsto> m)\<rparr>"
    using mig_steps_inv [OF m(1)] mig_steps_inv [OF assms(1) mig_initial_inv] by simp
  then have "scripts_done 3 db'"
    using m(2) by (auto simp: mig_inv_alt progress_ok_def split: if_splits)
  then show ?thesis
    using Some d mig_steps_watermark [OF m(1)] scripts_done_objects [of db'] by auto
qed

theorem daemon_serves_only_when_ready_witness:
  "\<exists>r out d db'. daemon_main sample_daemon 3 mig_db_empty = (r, out, Some d, db') \<and>
     32 \<le> length (ds_secret d) \<and> ''sync_changes'' \<in> set (md_objects db')"
proof -
  obtain r out serving db' where run: "daemon_main sample_daemon 3 mig_db_empty = (r, out, serving, db')"
    by (metis prod_cases4)
  have "fst (try_migrate 3 (\<lambda>_. None) mig_db_empty) = AttemptDone"
    by (simp add: migrate_defs)
  then obtain db1 where "try_migrate 3 (\<lambda>_. None) mig_db_empty = (AttemptDone, db1)"
    by (cases "try_migrate 3 (\<lambda>_. None) mig_db_empty") simp
  then have "fst (attempts_loop 10 0 None 3 (\<lambda>_ _. None) mig_db_empty) = Inr ()"
    using attempts_loop.simps(2) [of 9 0 None 3 "\<lambda>_ _. None" mig_db_empty] by simp
  then have "fst (migrate 3 (de_faults sample_daemon) mig_db_empty) = Inr ()"
    by (simp add: migrate_def MIGRATION_ATTEMPTS_def sample_daemon_def del: attempts_loop.simps)
  moreover have "config (de_var sample_daemon) \<noteq> Inl e" for e
    by (simp add: sample_daemon_def config_def)
  ultimately have "fst (snd (snd (daemon_main sample_daemon 3 mig_db_empty))) \<noteq> None"
    by (auto simp: daemon_main_def sample_daemon_def split: sum.split prod.split)
  then obtain d where d: "serving = Some d"
    using run by auto
  have "mig_steps (mig_initial mig_db_empty) \<lparr>mg_db = mig_db_empty, mg_sessions = \<lambda>_. None\<rparr>"
    using mig_refl [of "mig_initial mig_db_empty"] by (simp add: mig_initial_def mig_db_empty_def)
  from daemon_serves_only_when_ready [OF this _ run] show ?thesis
    using run d by (auto simp: as_bytes_def)
qed

end
