(* ===== verification/Spec2Isabelle.thy ===== *)
theory Spec2Isabelle
  imports Props_Device Props_Core Props_Outbox Props_Protocol Props_Server Props_Sim Props_World Props_Main
    Props_Migrate
begin

text \<open>
  credSync: an offline-first synchronisation engine. A device keeps rows of some scopes in a local
  database and a queue of commands (the outbox); a server keeps one append-only change log and a
  table of command outcomes; the device pulls batches of changes from a cursor and pushes its
  commands, and both sides hold a digest per scope that says whether they agree.

  The program and its theories.

  \<^item> \<open>credsync-protocol\<close>, the values on the wire. \<open>Proto_Ids\<close>: \<open>ids.rs\<close>, \<open>nums.rs\<close>, \<open>limits.rs\<close>,
    \<open>error.rs\<close> (newtypes with their checking constructors, UUIDs, error texts). \<open>Proto_Canonical\<close>:
    \<open>canonical.rs\<close> (sorted-key encoding). \<open>Proto_Integrity\<close>: \<open>integrity.rs\<close> (hex form, checksums, the
    scope digest, an addition in 128-bit words of one hash per row). \<open>Proto_Wire\<close>: \<open>wire.rs\<close>,
    \<open>validated.rs\<close> (messages, their validation, the decoding mirrors). \<open>Proto_Facts\<close>: shared lemmas.
  \<^item> \<open>credsync-core\<close>, the device engine. \<open>Core_Types\<close>: values, the traits as records of functions
    (\<open>storage_impl\<close> over a type \<open>'s\<close> of stores), the conflict rule. \<open>Core_Registry\<close>, \<open>Core_Migrate\<close>:
    \<open>registry.rs\<close>, \<open>migrate.rs\<close>. \<open>Core_Apply\<close>: \<open>apply.rs\<close> (ordering rules, staging). \<open>Core_Engine\<close>,
    \<open>Core_Outbox\<close>: \<open>engine.rs\<close>, the record \<open>engine\<close> being the struct and every \<open>&mut self\<close> method a
    function to its result and the new engine. \<open>Core_Contract\<close>: the storage contract as the locale
    \<open>storage_contract\<close> over the abstract \<open>store_view\<close>. \<open>Core_Digest\<close>, \<open>Core_Results\<close>, \<open>Core_Push\<close>,
    \<open>Core_Health\<close>: what the operations do, proved under the contract.
  \<^item> \<open>credsync-server\<close>. \<open>Server_Pull\<close>: \<open>pull.rs\<close>, \<open>error.rs\<close>. \<open>Server_Log\<close>: the queries of \<open>db.rs\<close> on the
    tables of \<open>migrations/\<close>, as a machine of concurrent writers, an advisory lock and readers that
    record a watermark. \<open>Server_Paging\<close>: serving a pull from the log
    and the client's loop on \<open>has_more\<close>. \<open>Server_Bootstrap\<close>: the compacted log. \<open>Server_Dedupe\<close>:
    \<open>dedupe.rs\<close>, \<open>host.rs\<close>, one session as a function and any number of sessions as interleaved
    statements. \<open>Server_Auth\<close>: \<open>version.rs\<close>, \<open>auth.rs\<close>, \<open>blocklist.rs\<close> and the request path of
    \<open>credsyncd/src/lib.rs\<close>. \<open>Server_Shared\<close>: requests that interleave on the one database session the
    reference server has. \<open>Server_Migrate\<close>: the schema migration of \<open>db.rs\<close>, as written and as
    instances that start together interleave it, and \<open>credsyncd/src/main.rs\<close>.
  \<^item> \<open>credsync-sim\<close>, the simulator that drives devices against a server. \<open>Sim_Storage\<close>: the database of
    \<open>fakes.rs\<close> with its injected faults, an interpretation of \<open>storage_contract\<close>. \<open>Device_System\<close>: a
    device of \<open>world.rs\<close>, the engine on that database, as a step relation that allows more than a run of
    the simulator does (every operation of the engine at any time, the network delivering anything, the
    storage failing and lying); \<open>Props_World.world_devices_are_devices\<close> shows the runs are among its own. \<open>Sim_Rng\<close>: \<open>rng.rs\<close>, the generator. \<open>Sim_Fault\<close>:
    \<open>fault.rs\<close>, \<open>trace.rs\<close>, \<open>pressure.rs\<close>. \<open>Sim_Fakes\<close>: clock, entropy, transport and compressor of
    \<open>fakes.rs\<close>. \<open>Sim_Server\<close>: \<open>server.rs\<close>, the simulated server. \<open>Sim_Invariant\<close>: \<open>invariant.rs\<close>, the
    checks. \<open>Sim_World\<close>: \<open>world.rs\<close>, a \<open>&mut self\<close> method of \<open>World\<close> being a function on the record
    \<open>world\<close>. \<open>Sim_Main\<close>: \<open>main.rs\<close>, \<open>lib.rs\<close>, the command line and the striped sweep of seeds.
  \<^item> Proofs about the simulator. \<open>Sim_Server_Facts\<close>: a scope as a list of changes that only grows, and
    what a pull serves of it. \<open>Sim_Answers\<close>: the record of answers. \<open>Sim_Replica\<close>: a device's rows as
    those of a leading part of the list. \<open>Sim_Watch\<close>, \<open>Sim_Monitor\<close>: when the checks stay silent.
    \<open>Sim_Queue\<close>: the batches on their way to a device. \<open>Sim_Device\<close>, \<open>Sim_Run\<close>: a device's turn.
    \<open>Sim_Network\<close>, \<open>Sim_Carry\<close>: carrying requests, holding back and delivering answers. \<open>Sim_Steps\<close>:
    the invariant of a step (\<open>minute_ok\<close>), kept by \<open>world_step\<close>. \<open>Sim_Digest\<close>: the devices of the
    world are those of \<open>Device_System\<close>, their digests against the server's, and settling. \<open>Sim_Law\<close>,
    \<open>Sim_Laws\<close>: laws of the server and of the engines that every step keeps, whatever the faults, as
    locales and the two laws they are interpreted at. \<open>Sim_Quiet\<close>, \<open>Sim_Quiet_Net\<close>,
    \<open>Sim_Quiet_Delivery\<close>: a turn, the network and the deliveries once faults have stopped. \<open>Sim_Settle\<close>,
    \<open>Sim_Converge\<close>: what two settling steps gain, and the end of the settling.

  What the groups of lemmas show. \<open>Props_Device\<close>: invariants of every run of a device (no command is
  lost, one outcome each, memory and digest describe the store). \<open>Props_Core\<close>, \<open>Props_Outbox\<close>: each
  engine operation on every branch. \<open>Props_Server\<close>: concurrent pulls lose no change, paging delivers
  the log, the dedupe table answers one outcome, entitlement and cut-off; requests on one session do
  lose changes. \<open>Props_Migrate\<close>: starting instances exclude each other and serve when ready. \<open>Props_Protocol\<close>: digests,
  printed forms, decoding. \<open>Props_Sim\<close>: the generator returns and is unbiased, load is bounded, the
  simulated server serves stretches of its log and answers a push once. \<open>Props_World\<close>: no check of the
  simulator reports in any run, its devices are devices, and a run with a small backlog converges. \<open>Props_Main\<close>: a sweep is its sequential run, seeds read back.
  \<open>Samples\<close>: the concrete values on which the witnesses run.

  Conventions. \<open>Result<T, E>\<close> is the sum with \<open>Inl\<close> for the error; \<open>u8\<close> to \<open>u128\<close> are words; a
  \<open>String\<close> is its UTF-8 bytes; a \<open>BTreeMap\<close> that is iterated is the sorted list of its entries.
  Parameters: \<open>externs\<close> holds what \<open>serde_json\<close>, xxhash and BLAKE3 compute, \<open>compressor\<close> the length a
  buffer compresses to, \<open>jwt\<close> what the jsonwebtoken crate decodes, and \<open>host\<close> the callback of the
  embedding application. Theorems hold for every value of them except where a named hypothesis
  (\<open>encodes_all\<close>, a hash without collisions on the rows at hand) says otherwise.

  Bounds and fuel. Loops of the code are structural or measured recursions, except the client's loop
  on \<open>has_more\<close> (\<open>pull_all\<close>), which takes fuel: one more than the number of rows of the log is enough,
  as \<open>paging_delivers_the_log\<close> states; the ten attempts of \<open>migrate\<close> and the 600 settling
  steps (enough for the backlogs \<open>small_backlogs_converge\<close> names) are the code's own bounds; and the rejection loop of \<open>below\<close>, whose recursion terminates:
  \<open>below_returns_and_is_unbiased\<close> bounds its turns by the period of the generator.

  Not modelled: the byte level of JSON and of JWTs and the hash functions (third-party crates); the
  HTTP router and the tokio runtime of credsyncd (of PostgreSQL, what the code relies on is written
  out in \<open>Server_Log\<close>, \<open>Server_Dedupe\<close> and \<open>Server_Migrate\<close>); answers lost after a statement took
  effect, in \<open>safe_watermark\<close> and the migration, where a failed statement has no effect (in the storage of
  a device commits do fail after taking effect); the \<open>debug_assert_eq!\<close> of \<open>commit\<close> on the number of
  operations applied; the size limits as invariants of the types \<open>payload\<close> and \<open>snapshot\<close>, which are what
  their constructors check; the floating point metric \<open>hit_rate\<close>; the elapsed time a sweep prints; the FFI crate, which declares no item.
\<close>

end
